(* ===== verification/Prelude.thy ===== *)
theory Prelude
  imports Main "HOL-Library.Word" "HOL-Library.Signed_Division"
begin

text \<open>
  Shared vocabulary of the development: C integer types as words, the ways a C
  function can fail to return (\<open>stop\<close>), the outcome sum with its bind, the state of
  the byte readers, and the lemmas on words and lists that several components use.
\<close>

unbundle bit_operations_syntax

section \<open>C types\<close>

text \<open>
  \<open>char\<close> buffers are lists of bytes.  \<open>long\<close> is a word of the host's width: the
  number codec and the command encoder are generic in it, everything built on
  expressions uses the 32-bit \<open>long\<close> of the hosts the tools support.
\<close>

type_synonym byte = "8 word"
type_synonym long = "32 word"

abbreviation long_min :: long where
  "long_min \<equiv> 0x80000000"

abbreviation long_max :: long where
  "long_max \<equiv> 0x7fffffff"

text \<open>A C truth value: 1 or 0.\<close>

definition of_truth :: "bool \<Rightarrow> 'l::len word" where
  "of_truth b = (if b then 1 else 0)"

section \<open>Outcomes\<close>

text \<open>
  \<open>Fatal\<close> is \<open>exit (1)\<close> through \<open>fatal\<close>, \<open>Abort\<close> is \<open>abort ()\<close> or a failed \<open>assert\<close>,
  \<open>Trap\<close> is a fault of the host: a NULL dereference or a signed division that overflows.
\<close>

datatype stop = Fatal | Abort | Trap

type_synonym 'a outcome = "stop + 'a"

fun obind :: "'a outcome \<Rightarrow> ('a \<Rightarrow> 'b outcome) \<Rightarrow> 'b outcome" where
  "obind (Inl s) f = Inl s"
| "obind (Inr x) f = f x"

named_theorems outcome_iff

lemma obind_Inr_iff [outcome_iff]: "obind m f = Inr y \<longleftrightarrow> (\<exists>x. m = Inr x \<and> f x = Inr y)"
  by (cases m) auto

lemma obind_assoc: "obind (obind m f) g = obind m (\<lambda>x. obind (f x) g)"
  by (cases m) auto

text \<open>A congruence that evaluates a run from its first step on.\<close>

lemma obind_weak: "m = m' \<Longrightarrow> obind m f = obind m' f" by simp

lemma obind_cong [fundef_cong]:
  "m = m' \<Longrightarrow> (\<And>x. m' = Inr x \<Longrightarrow> f x = f' x) \<Longrightarrow> obind m f = obind m' f'"
  by (cases m') auto

section \<open>Stateful operations\<close>

text \<open>
  An operation on a state \<open>'s\<close> that may stop.  Every stateful part of the development is
  written with these four combinators.
\<close>

type_synonym ('s, 'a) step = "'s \<Rightarrow> ('a \<times> 's) outcome"

definition rret :: "'a \<Rightarrow> ('s, 'a) step" where
  "rret x s = Inr (x, s)"

definition rbind :: "('s, 'a) step \<Rightarrow> ('a \<Rightarrow> ('s, 'b) step) \<Rightarrow> ('s, 'b) step" where
  "rbind m f s = obind (m s) (\<lambda>(x, s'). f x s')"

definition rstop :: "stop \<Rightarrow> ('s, 'a) step" where
  "rstop e s = Inl e"

definition rget :: "('s \<Rightarrow> 'a) \<Rightarrow> ('s, 'a) step" where
  "rget f s = Inr (f s, s)"

definition rmodify :: "('s \<Rightarrow> 's) \<Rightarrow> ('s, unit) step" where
  "rmodify f s = Inr ((), f s)"

lemma rbind_cong [fundef_cong]:
  "s = t \<Longrightarrow> m t = m' t \<Longrightarrow> (\<And>x s'. m' t = Inr (x, s') \<Longrightarrow> f x s' = f' x s') \<Longrightarrow>
     rbind m f s = rbind m' f' t"
  by (cases "m' t") (auto simp: rbind_def)

lemma rret_Inr [outcome_iff]: "rret x s = Inr (y, t) \<longleftrightarrow> y = x \<and> t = s"
  by (auto simp: rret_def)

lemma rbind_Inr [outcome_iff]:
  "rbind m f s = Inr (y, t) \<longleftrightarrow> (\<exists>x s'. m s = Inr (x, s') \<and> f x s' = Inr (y, t))"
  by (cases "m s") (auto simp: rbind_def)

lemma rstop_Inr [outcome_iff]: "rstop e s = Inr r \<longleftrightarrow> False"
  by (simp add: rstop_def)

lemma rget_Inr [outcome_iff]: "rget f s = Inr (y, t) \<longleftrightarrow> y = f s \<and> t = s"
  by (auto simp: rget_def)

lemma rmodify_Inr [outcome_iff]: "rmodify f s = Inr (y, t) \<longleftrightarrow> t = f s"
  by (auto simp: rmodify_def)

lemma rbind_assoc: "rbind (rbind m f) g = rbind m (\<lambda>x. rbind (f x) g)"
  by (auto simp: fun_eq_iff rbind_def obind_assoc intro!: obind_cong)

lemma rbind_rret: "rbind (rret x) f = f x"
  by (simp add: fun_eq_iff rbind_def rret_def)

lemma rbind_Inl: "rbind m f s = Inl e \<longleftrightarrow> m s = Inl e \<or> (\<exists>x s'. m s = Inr (x, s') \<and> f x s' = Inl e)"
  by (cases "m s") (auto simp: rbind_def)

section \<open>Byte readers\<close>

text \<open>
  What a reader of a LIT file sees: the bytes not read yet and the number of
  diagnostics issued so far (\<open>error_report->n_errors\<close>).
\<close>

record rstate =
  inp :: "byte list"
  nerr :: nat

type_synonym 'a reader = "(rstate, 'a) step"

definition rerror :: "unit reader" where
  "rerror s = Inr ((), s\<lparr>nerr := Suc (nerr s)\<rparr>)"

text \<open>One byte; the end of the file is fatal in every caller.\<close>

definition rbyte :: "byte reader" where
  "rbyte s = (case inp s of [] \<Rightarrow> Inl Fatal | b # bs \<Rightarrow> Inr (b, s\<lparr>inp := bs\<rparr>))"

text \<open>\<open>fread\<close> of exactly \<open>n\<close> bytes; a short read is fatal in every caller.\<close>

definition rblock :: "nat \<Rightarrow> byte list reader" where
  "rblock n s =
     (if length (inp s) < n then Inl Fatal
      else Inr (take n (inp s), s\<lparr>inp := drop n (inp s)\<rparr>))"

named_theorems reader_simps

lemma rret_apply [reader_simps]: "rret x s = Inr (x, s)"
  by (simp add: rret_def)

lemma rbind_apply [reader_simps]: "rbind m f s = obind (m s) (\<lambda>(x, s'). f x s')"
  by (simp add: rbind_def)

lemma rstop_apply [reader_simps]: "rstop e s = Inl e"
  by (simp add: rstop_def)

lemma rget_apply [reader_simps]: "rget f s = Inr (f s, s)"
  by (simp add: rget_def)

lemma rmodify_apply [reader_simps]: "rmodify f s = Inr ((), f s)"
  by (simp add: rmodify_def)

lemma rerror_apply [reader_simps]: "rerror s = Inr ((), s\<lparr>nerr := Suc (nerr s)\<rparr>)"
  by (simp add: rerror_def)

lemma rbyte_Cons [reader_simps]:
  "rbyte \<lparr>inp = b # bs, nerr = k\<rparr> = Inr (b, \<lparr>inp = bs, nerr = k\<rparr>)"
  by (simp add: rbyte_def)

lemma rbyte_Nil [reader_simps]: "rbyte \<lparr>inp = [], nerr = k\<rparr> = Inl Fatal"
  by (simp add: rbyte_def)

lemma rblock_append [reader_simps]:
  "length xs = n \<Longrightarrow>
     rblock n \<lparr>inp = xs @ bs, nerr = k\<rparr> = Inr (xs, \<lparr>inp = bs, nerr = k\<rparr>)"
  by (simp add: rblock_def)

section \<open>Words\<close>

lemma unat_drop_bit4: "unat (drop_bit 4 (w :: 'l::len word)) = unat w div 16"
  by (simp only: unat_drop_bit_eq) (simp add: drop_bit_eq_div)

lemma drop_bit4_less:
  fixes w :: "'l::len word"
  assumes "drop_bit 4 w \<noteq> 0"
  shows "unat (drop_bit 4 w) < unat w"
proof -
  have "unat (drop_bit 4 w) = unat w div 16"
    by (rule unat_drop_bit4)
  moreover have "unat w \<noteq> 0"
    using assms by (metis drop_bit_of_0 unat_eq_zero)
  ultimately show ?thesis by simp
qed

lemma sint_word_of_int_eq:
  "- (2 ^ (LENGTH('l::len) - 1)) \<le> x \<Longrightarrow> x < 2 ^ (LENGTH('l) - 1) \<Longrightarrow>
     sint (word_of_int x :: 'l word) = x"
  by (simp add: sint_sbintrunc' signed_take_bit_int_eq_self)

lemma sint_add_eq:
  fixes a b :: "'l::len word"
  assumes "- (2 ^ (LENGTH('l) - 1)) \<le> sint a + sint b" "sint a + sint b < 2 ^ (LENGTH('l) - 1)"
  shows "sint (a + b) = sint a + sint b"
  using assms by (simp add: sint_word_add signed_take_bit_int_eq_self)

lemma sint_diff_eq:
  fixes a b :: "'l::len word"
  assumes "- (2 ^ (LENGTH('l) - 1)) \<le> sint a - sint b" "sint a - sint b < 2 ^ (LENGTH('l) - 1)"
  shows "sint (a - b) = sint a - sint b"
  using assms by (simp add: sint_word_diff signed_take_bit_int_eq_self)

lemma sint_not_eq: "sint (NOT w) = - sint w - 1" for w :: "'l::len word"
proof -
  have le: "(2::int) ^ (LENGTH('l) - 1) \<le> 2 ^ LENGTH('l)"
    by (rule power_increasing) simp_all
  have "signed_take_bit LENGTH('l) (- sint w - 1) = - sint w - 1"
    using sint_ge [of w] sint_lt [of w] le
    by (intro signed_take_bit_int_eq_self) linarith+
  then show ?thesis
    by (simp add: signed_not_eq not_int_def)
qed

lemma unat_sint: "0 \<le> sint w \<Longrightarrow> int (unat w) = sint w" for w :: "'l::len word"
proof -
  assume "0 \<le> sint w"
  moreover have "sint w < 2 ^ LENGTH('l)"
    by (rule less_le_trans [OF sint_lt]) (simp add: power_increasing)
  moreover have "uint w = take_bit LENGTH('l) (sint w)"
    by (rule uint_sint)
  ultimately show ?thesis
    by (simp add: take_bit_int_eq_self flip: uint_nat)
qed

end
