(* ===== verification/Cmd.thy ===== *)
theory Cmd
  imports Prelude
begin

text \<open>
  Direct commands of the transputer (\<open>shared/cmd.c\<close>, \<open>shared/cmd.h\<close>): a command byte is an
  opcode in the high nibble and four bits of the operand in the low one; longer operands
  are built by prefix bytes.  \<open>cmd_size\<close> and \<open>cmd_generate\<close> are generic in the width of
  \<open>target_word_t\<close>, which the source takes to be the host's \<open>long\<close>.  \<open>oreg_run\<close> is the
  processor's rule for the operand register, against which the encoder is verified.
\<close>

section \<open>Encoder\<close>

abbreviation opcode_pfix :: byte where "opcode_pfix \<equiv> 0x20"
abbreviation opcode_nfix :: byte where "opcode_nfix \<equiv> 0x60"
abbreviation opcode_ldc :: byte where "opcode_ldc \<equiv> 0x40"
abbreviation opcode_opr :: byte where "opcode_opr \<equiv> 0xf0"

definition cmd_maxlen :: nat where
  "cmd_maxlen = 8"

text \<open>The loop \<open>while ((arg = (unsigned) arg >> 4)) sz++\<close>.\<close>

function cmd_size_loop :: "'l::len word \<Rightarrow> nat \<Rightarrow> nat" where
  "cmd_size_loop arg sz =
     (let arg' = drop_bit 4 arg in if arg' = 0 then sz else cmd_size_loop arg' (Suc sz))"
  by pat_completeness auto
termination
  by (relation "measure (\<lambda>(arg, _). unat arg)") (auto simp: drop_bit4_less)

definition cmd_size :: "'l::len word \<Rightarrow> nat" where
  "cmd_size arg =
     (if arg <s 0 then cmd_size_loop (NOT arg) (if -16 \<le>s arg then 2 else 1)
      else cmd_size_loop arg 1)"

text \<open>
  \<open>cmd_generate\<close> writes backwards from the end of the room it has (\<open>slot\<close> bytes, or
  \<open>CMD_MAXLEN\<close> without a slot): the bytes written so far are the list \<open>q\<close>, and
  \<open>if (q <= buf) return -1\<close> is \<open>None\<close>.
\<close>

definition cmd_push :: "nat \<Rightarrow> byte \<Rightarrow> byte list \<Rightarrow> byte list option" where
  "cmd_push room b q = (if room \<le> length q then None else Some (b # q))"

abbreviation low_nibble :: "'l::len word \<Rightarrow> byte" where
  "low_nibble arg \<equiv> ucast (arg AND 0xf)"

function cmd_gen_pos :: "nat \<Rightarrow> 'l::len word \<Rightarrow> byte list \<Rightarrow> byte list option" where
  "cmd_gen_pos room arg q =
     (let arg' = drop_bit 4 arg in
      if arg' = 0 then Some q
      else case cmd_push room (opcode_pfix OR low_nibble arg') q of
             None \<Rightarrow> None
           | Some q' \<Rightarrow> cmd_gen_pos room arg' q')"
  by pat_completeness auto
termination
  by (relation "measure (\<lambda>(_, arg, _). unat arg)") (auto simp: drop_bit4_less)

function cmd_gen_neg :: "nat \<Rightarrow> 'l::len word \<Rightarrow> byte list \<Rightarrow> byte list option" where
  "cmd_gen_neg room arg q =
     (let arg' = drop_bit 4 arg in
      if 16 \<le> unat arg'
      then case cmd_push room (opcode_pfix OR low_nibble (NOT arg')) q of
             None \<Rightarrow> None
           | Some q' \<Rightarrow> cmd_gen_neg room arg' q'
      else cmd_push room (opcode_nfix OR low_nibble arg') q)"
  by pat_completeness auto
termination
  by (relation "measure (\<lambda>(_, arg, _). unat arg)") (auto intro!: drop_bit4_less)

definition cmd_generate :: "byte \<Rightarrow> 'l::len word \<Rightarrow> nat \<Rightarrow> byte list option" where
  "cmd_generate opcode arg slot =
     (let room = (if slot \<noteq> 0 then slot else cmd_maxlen) in
      case (case cmd_push room (opcode OR low_nibble arg) [] of
              None \<Rightarrow> None
            | Some q \<Rightarrow>
                if 0 \<le>s arg then cmd_gen_pos room arg q
                else cmd_gen_neg room (NOT arg) q) of
        None \<Rightarrow> None
      | Some q \<Rightarrow>
          Some (if slot \<noteq> 0 then replicate (slot - length q) opcode_pfix @ q else q))"

declare cmd_size_loop.simps [simp del] cmd_gen_pos.simps [simp del] cmd_gen_neg.simps [simp del]

section \<open>The operand register\<close>

text \<open>
  The processor's rule: a prefix byte ors its nibble into the operand register and shifts
  it (\<open>nfix\<close> complements first); any other byte executes its opcode on the register.
\<close>

fun oreg_run :: "'l::len word \<Rightarrow> byte list \<Rightarrow> (byte \<times> 'l word \<times> byte list) option" where
  "oreg_run oreg [] = None"
| "oreg_run oreg (b # bs) =
     (let v = oreg OR ucast (b AND 0xf) in
      if b AND 0xf0 = opcode_pfix then oreg_run (push_bit 4 v) bs
      else if b AND 0xf0 = opcode_nfix then oreg_run (push_bit 4 (NOT v)) bs
      else Some (b AND 0xf0, v, bs))"

definition opcode_ok :: "byte \<Rightarrow> bool" where
  "opcode_ok op \<longleftrightarrow> op AND 0xf = 0 \<and> op \<noteq> opcode_pfix \<and> op \<noteq> opcode_nfix"

section \<open>Nibbles\<close>

lemma cmd_push_Some: "cmd_push room b q = Some q' \<longleftrightarrow> length q < room \<and> q' = b # q"
  by (auto simp: cmd_push_def)

lemma nibble_mask: "(0xf :: 'l::len word) = mask 4"
  by (simp add: mask_eq_exp_minus_1)

lemma high_nibble_mask: "(0xf0 :: byte) = push_bit 4 (mask 4)"
  by (simp add: mask_eq_exp_minus_1 push_bit_eq_mult)

lemma low_clear:
  assumes "op AND 0xf = (0 :: byte)" "m < 4"
  shows "\<not> bit op m"
  using arg_cong [OF assms(1), of "\<lambda>w. bit w m"] assms(2)
  by (auto simp: nibble_mask bit_simps)

lemma high_nibble_or:
  assumes "op AND 0xf = 0"
  shows "(op OR low_nibble (a :: 'l::len word)) AND 0xf0 = op"
  unfolding nibble_mask high_nibble_mask
  by (rule bit_word_eqI) (use low_clear [OF assms] in \<open>force simp: bit_simps not_less\<close>)

lemma low_nibble_or:
  assumes "op AND 0xf = 0"
  shows "ucast ((op OR low_nibble (a :: 'l::len word)) AND 0xf) = a AND 0xf"
  unfolding nibble_mask
  by (rule bit_word_eqI) (auto simp: bit_simps low_clear [OF assms] not_less)

lemma oreg_join: "push_bit 4 (drop_bit 4 a) OR (a AND 0xf) = (a :: 'l::len word)"
  unfolding nibble_mask by (rule bit_word_eqI) (auto simp: bit_simps)

lemma oreg_join_not: "push_bit 4 (NOT (drop_bit 4 (NOT a))) OR (a AND 0xf) = (a :: 'l::len word)"
  unfolding nibble_mask by (rule bit_word_eqI) (auto simp: bit_simps)

lemma nibble_small:
  fixes a :: "'l::len word"
  assumes "unat a < 16"
  shows "a AND 0xf = a"
proof -
  have "uint a < 16"
    using assms uint_nat [of a] by linarith
  then have "uint a < 2 ^ 4"
    by simp
  then show ?thesis
    unfolding nibble_mask mask_eq_iff .
qed

named_theorems oreg_simps

lemma oreg_run_pfix [oreg_simps]:
  "oreg_run oreg ((opcode_pfix OR low_nibble a) # bs) = oreg_run (push_bit 4 (oreg OR (a AND 0xf))) bs"
  for a :: "'l::len word"
  by (simp only: oreg_run.simps Let_def high_nibble_or low_nibble_or) 
     (simp add: high_nibble_or low_nibble_or)

lemma oreg_run_nfix [oreg_simps]:
  "oreg_run oreg ((opcode_nfix OR low_nibble a) # bs) =
     oreg_run (push_bit 4 (NOT (oreg OR (a AND 0xf)))) bs" for a :: "'l::len word"
  by (simp add: high_nibble_or low_nibble_or)

lemma oreg_run_op [oreg_simps]:
  "opcode_ok op \<Longrightarrow>
     oreg_run oreg ((op OR low_nibble a) # bs) = Some (op, oreg OR (a AND 0xf), bs)"
  for a :: "'l::len word"
  by (simp add: opcode_ok_def high_nibble_or low_nibble_or)

lemma oreg_run_pad: "oreg_run 0 (replicate n opcode_pfix @ bs) = oreg_run 0 bs"
  by (induction n) simp_all

section \<open>The encoder against the operand register\<close>

lemma cmd_gen_pos_run:
  "cmd_gen_pos room arg q = Some r \<Longrightarrow> oreg_run 0 r = oreg_run (push_bit 4 (drop_bit 4 arg)) q"
proof (induction room arg q rule: cmd_gen_pos.induct)
  case (1 room arg q)
  show ?case
  proof (cases "drop_bit 4 arg = 0")
    case True
    with "1.prems" show ?thesis
      by (simp add: cmd_gen_pos.simps [of room arg])
  next
    case False
    define q' where "q' = (opcode_pfix OR low_nibble (drop_bit 4 arg)) # q"
    from False "1.prems" have "cmd_push room (opcode_pfix OR low_nibble (drop_bit 4 arg)) q = Some q'"
      and "cmd_gen_pos room (drop_bit 4 arg) q' = Some r"
      by (auto simp: cmd_gen_pos.simps [of room arg] cmd_push_Some q'_def Let_def split: option.splits)
    then have "oreg_run 0 r = oreg_run (push_bit 4 (drop_bit 4 (drop_bit 4 arg))) q'"
      using "1.IH" False by blast
    then show ?thesis
      by (simp only: q'_def oreg_run_pfix oreg_join)
  qed
qed

lemma cmd_gen_neg_run:
  "cmd_gen_neg room arg q = Some r \<Longrightarrow>
     oreg_run 0 r = oreg_run (push_bit 4 (NOT (drop_bit 4 arg))) q"
proof (induction room arg q rule: cmd_gen_neg.induct)
  case (1 room arg q)
  let ?a = "drop_bit 4 arg"
  show ?case
  proof (cases "16 \<le> unat ?a")
    case False
    with "1.prems" have r: "r = (opcode_nfix OR low_nibble ?a) # q"
      by (simp add: cmd_gen_neg.simps [of room arg] cmd_push_Some)
    have nib: "?a AND 0xf = ?a"
      by (rule nibble_small) (use False in simp)
    show ?thesis
      by (simp only: r oreg_run_nfix) (simp only: nib or.left_neutral)
  next
    case True
    define q' where "q' = (opcode_pfix OR low_nibble (NOT ?a)) # q"
    from True "1.prems" have "cmd_push room (opcode_pfix OR low_nibble (NOT ?a)) q = Some q'"
      and "cmd_gen_neg room ?a q' = Some r"
      by (auto simp: cmd_gen_neg.simps [of room arg] cmd_push_Some q'_def Let_def split: option.splits)
    then have "oreg_run 0 r = oreg_run (push_bit 4 (NOT (drop_bit 4 ?a))) q'"
      using "1.IH" True by blast
    also have "\<dots> = oreg_run (push_bit 4 (NOT ?a)) q"
      using oreg_join_not [of "NOT ?a"] by (simp only: q'_def oreg_run_pfix bit.double_compl)
    finally show ?thesis .
  qed
qed

lemma oreg_run_length: "oreg_run v bs = Some (op, arg, r) \<Longrightarrow> length r < length bs"
  by (induction v bs rule: oreg_run.induct) (auto simp: Let_def split: if_splits)

lemma oreg_run_append:
  "oreg_run v bs = Some (op, arg, r) \<Longrightarrow> oreg_run v (bs @ rest) = Some (op, arg, r @ rest)"
  by (induction v bs rule: oreg_run.induct) (auto simp: Let_def split: if_splits)

lemma cmd_generate_cases:
  assumes "cmd_generate op arg slot = Some bs"
  obtains (pos) q where "0 \<le>s arg"
      "bs = (if slot \<noteq> 0 then replicate (slot - length q) opcode_pfix @ q else q)"
      "cmd_gen_pos (if slot \<noteq> 0 then slot else cmd_maxlen) arg [op OR low_nibble arg] = Some q"
    | (neg) q where "arg <s 0"
      "bs = (if slot \<noteq> 0 then replicate (slot - length q) opcode_pfix @ q else q)"
      "cmd_gen_neg (if slot \<noteq> 0 then slot else cmd_maxlen) (NOT arg) [op OR low_nibble arg] = Some q"
  using assms
  by (auto simp: cmd_generate_def cmd_push_def Let_def signed.not_le split: option.splits if_splits)

lemma cmd_generate_decodes:
  assumes op: "opcode_ok op" and "cmd_generate op arg slot = Some bs"
  shows "oreg_run 0 (bs @ rest) = Some (op, arg, rest)"
proof -
  from assms(2) have "oreg_run 0 bs = Some (op, arg, [])"
  proof (cases rule: cmd_generate_cases)
    case (pos q)
    then show ?thesis
      by (simp only: if_distrib [of "oreg_run 0"] oreg_run_pad if_cancel cmd_gen_pos_run oreg_run_op [OF op] oreg_join)
  next
    case (neg q)
    then show ?thesis
      by (simp only: if_distrib [of "oreg_run 0"] oreg_run_pad if_cancel cmd_gen_neg_run oreg_run_op [OF op] oreg_join_not)
  qed
  from oreg_run_append [OF this] show ?thesis by simp
qed


section \<open>Sizes\<close>

lemma cmd_size_loop_step:
  "cmd_size_loop arg sz = (if drop_bit 4 arg = 0 then sz else cmd_size_loop (drop_bit 4 arg) (Suc sz))"
  by (simp add: cmd_size_loop.simps [of arg sz] Let_def)

lemma cmd_size_loop_ge: "sz \<le> cmd_size_loop arg sz"
  by (induction arg sz rule: cmd_size_loop.induct)
    (subst cmd_size_loop_step, auto simp: Let_def)

lemma drop_bit4_0_iff: "drop_bit 4 (w :: 'l::len word) = 0 \<longleftrightarrow> unat w < 16"
  using unat_drop_bit4 [of w] by (auto simp: unat_eq_0 [symmetric] simp del: unat_eq_0)

lemma cmd_size_loop_le_iff:
  "sz \<le> m \<Longrightarrow> cmd_size_loop arg sz \<le> m \<longleftrightarrow> unat arg < 16 ^ Suc (m - sz)"
proof (induction arg sz rule: cmd_size_loop.induct)
  case (1 arg sz)
  show ?case
  proof (cases "drop_bit 4 arg = 0")
    case True
    then have "unat arg < 16 ^ Suc (m - sz)"
      by (simp add: drop_bit4_0_iff less_le_trans [of _ 16])
    with True "1.prems" show ?thesis
      by (simp add: cmd_size_loop_step [of arg])
  next
    case False
    show ?thesis
    proof (cases "sz = m")
      case True
      with False cmd_size_loop_ge [of "Suc m" "drop_bit 4 arg"] show ?thesis
        by (auto simp: cmd_size_loop_step [of arg] drop_bit4_0_iff)
    next
      case neq: False
      with "1.prems" have m: "m - sz = Suc (m - Suc sz)" by simp
      from neq "1.prems" "1.IH" [OF refl False] False
      have "cmd_size_loop arg sz \<le> m \<longleftrightarrow> unat (drop_bit 4 arg) < 16 ^ Suc (m - Suc sz)"
        by (simp add: cmd_size_loop_step [of arg])
      also have "\<dots> \<longleftrightarrow> unat arg < 16 ^ Suc (m - sz)"
        by (simp only: unat_drop_bit4 m) (simp add: div_less_iff_less_mult mult.commute)
      finally show ?thesis .
    qed
  qed
qed


lemma sint_minus16: "8 \<le> LENGTH('l) \<Longrightarrow> sint (-16 :: 'l::len word) = -16"
proof -
  assume "8 \<le> LENGTH('l)"
  then have "(2::int) ^ 7 \<le> 2 ^ (LENGTH('l) - 1)"
    by (intro power_increasing) auto
  then have "sint (word_of_int (-16) :: 'l word) = -16"
    by (intro sint_word_of_int_eq) auto
  then show ?thesis by simp
qed

lemma cmd_size_le_iff:
  fixes arg :: "'l::len word"
  assumes "8 \<le> LENGTH('l)"
  shows "cmd_size arg \<le> m \<longleftrightarrow>
     1 \<le> m \<and> - (16 ^ m) \<le> sint arg \<and> sint arg < 16 ^ m \<and> (m = 1 \<longrightarrow> 0 \<le> sint arg)"
proof (cases "m = 0")
  case True
  then show ?thesis
    using cmd_size_loop_ge [of 1 arg] cmd_size_loop_ge [of 1 "NOT arg"] cmd_size_loop_ge [of 2 "NOT arg"]
    by (auto simp: cmd_size_def)
next
  case False
  then obtain k where m: "m = Suc k" by (cases m) auto
  show ?thesis
  proof (cases "0 \<le> sint arg")
    case True
    have "cmd_size arg \<le> m \<longleftrightarrow> unat arg < 16 ^ m"
      using True cmd_size_loop_le_iff [of 1 m arg]
      by (simp add: cmd_size_def word_sless_alt m)
    also have "\<dots> \<longleftrightarrow> int (unat arg) < int (16 ^ m)"
      by (simp only: of_nat_less_iff)
    also have "\<dots> \<longleftrightarrow> sint arg < 16 ^ m"
      using unat_sint [OF True] by simp
    finally show ?thesis
      using True m zero_less_power [of "16::int" m] by auto
  next
    case neg: False
    then have n: "int (unat (NOT arg)) = - sint arg - 1"
      using unat_sint [of "NOT arg"] by (simp add: sint_not_eq)
    have m16: "sint (-16 :: 'l word) = -16"
      by (rule sint_minus16 [OF assms])
    show ?thesis
    proof (cases "-16 \<le> sint arg")
      case True
      have "unat (NOT arg) < 16" using n True by linarith
      then have "cmd_size arg = 2"
        using neg True m16 
        by (simp add: cmd_size_def word_sless_alt word_sle_eq cmd_size_loop_step drop_bit4_0_iff)
      moreover have "(16::int) \<le> 16 ^ m" by (simp add: m)
      then have "- (16 ^ m) \<le> sint arg" "sint arg < 16 ^ m" using neg True by linarith+
      ultimately show ?thesis using neg m by auto
    next
      case False
      have "cmd_size arg = cmd_size_loop (NOT arg) 1"
        using neg False m16 by (simp add: cmd_size_def word_sless_alt word_sle_eq)
      then have "cmd_size arg \<le> m \<longleftrightarrow> unat (NOT arg) < 16 ^ m"
        using cmd_size_loop_le_iff [of 1 m "NOT arg"] by (simp add: m)
      also have "\<dots> \<longleftrightarrow> int (unat (NOT arg)) < int (16 ^ m)"
        by (simp only: of_nat_less_iff)
      also have "\<dots> \<longleftrightarrow> - (16 ^ m) \<le> sint arg"
        by (simp only: n of_nat_power) auto
      finally show ?thesis using neg False m
          zero_less_power [of "16::int" m] by (cases k) auto
    qed
  qed
qed


lemma cmd_gen_pos_length:
  "cmd_gen_pos room arg q = Some r \<Longrightarrow> length r = cmd_size_loop arg (length q)"
proof (induction room arg q rule: cmd_gen_pos.induct)
  case (1 room arg q)
  then show ?case
    by (cases "drop_bit 4 arg = 0")
      (auto simp: cmd_gen_pos.simps [of room arg q] cmd_size_loop_step [of arg] cmd_push_Some Let_def
        split: option.splits)
qed

lemma cmd_gen_pos_None:
  "length q \<le> room \<Longrightarrow> cmd_gen_pos room arg q = None \<longleftrightarrow> room < cmd_size_loop arg (length q)"
proof (induction room arg q rule: cmd_gen_pos.induct)
  case (1 room arg q)
  then show ?case
    using cmd_size_loop_ge [of "Suc (length q)" "drop_bit 4 arg"]
    by (cases "drop_bit 4 arg = 0")
      (auto simp: cmd_gen_pos.simps [of room arg q] cmd_size_loop_step [of arg] cmd_push_def Let_def
        split: option.splits)
qed

text \<open>The negative loop emits as many bytes as the positive one, and at least one.\<close>

lemma cmd_gen_neg_length:
  "cmd_gen_neg room arg q = Some r \<Longrightarrow>
     length r = (if unat arg < 16 then Suc (length q) else cmd_size_loop arg (length q))"
proof (induction room arg q rule: cmd_gen_neg.induct)
  case (1 room arg q)
  show ?case
  proof (cases "16 \<le> unat (drop_bit 4 arg)")
    case True
    then have "drop_bit 4 arg \<noteq> 0" "\<not> unat arg < 16"
      by (auto simp: unat_drop_bit4 drop_bit4_0_iff)
    with True 1 show ?thesis
      by (auto simp: cmd_gen_neg.simps [of room arg q] cmd_size_loop_step [of arg] cmd_push_Some
            Let_def split: option.splits)
  next
    case False
    then have "drop_bit 8 arg = 0"
      using drop_bit4_0_iff [of "drop_bit 4 arg"] by simp
    with False 1 show ?thesis
      by (auto simp: cmd_gen_neg.simps [of room arg q] cmd_size_loop_step [of arg]
            cmd_size_loop_step [of "drop_bit 4 arg"] cmd_push_Some Let_def drop_bit4_0_iff)
  qed
qed

lemma cmd_gen_neg_None:
  "length q \<le> room \<Longrightarrow> cmd_gen_neg room arg q = None \<longleftrightarrow>
     room < (if unat arg < 16 then Suc (length q) else cmd_size_loop arg (length q))"
proof (induction room arg q rule: cmd_gen_neg.induct)
  case (1 room arg q)
  show ?case
  proof (cases "16 \<le> unat (drop_bit 4 arg)")
    case True
    then have "drop_bit 4 arg \<noteq> 0" "\<not> unat arg < 16"
      by (auto simp: unat_drop_bit4 drop_bit4_0_iff)
    with True 1 cmd_size_loop_ge [of "Suc (length q)" "drop_bit 4 arg"] show ?thesis
      by (auto simp: cmd_gen_neg.simps [of room arg q] cmd_size_loop_step [of arg] cmd_push_def
            Let_def split: option.splits)
  next
    case False
    then have "drop_bit 8 arg = 0"
      using drop_bit4_0_iff [of "drop_bit 4 arg"] by simp
    with False 1 show ?thesis
      by (auto simp: cmd_gen_neg.simps [of room arg q] cmd_size_loop_step [of arg]
            cmd_size_loop_step [of "drop_bit 4 arg"] cmd_push_def Let_def drop_bit4_0_iff)
  qed
qed


lemma cmd_size_cases:
  fixes arg :: "'l::len word"
  assumes "8 \<le> LENGTH('l)"
  shows "cmd_size arg =
    (if arg <s 0 then if unat (NOT arg) < 16 then 2 else cmd_size_loop (NOT arg) 1
     else cmd_size_loop arg 1)"
proof (cases "arg <s 0")
  case True
  then have "int (unat (NOT arg)) = - sint arg - 1"
    using unat_sint [of "NOT arg"] by (simp add: sint_not_eq word_sless_alt)
  moreover have "- 16 \<le>s arg \<longleftrightarrow> - 16 \<le> sint arg"
    using sint_minus16 [OF assms] by (simp add: word_sle_eq)
  ultimately have "- 16 \<le>s arg \<longleftrightarrow> unat (NOT arg) < 16"
    by linarith
  with True show ?thesis
    by (simp add: cmd_size_def cmd_size_loop_step [of "NOT arg" 2] drop_bit4_0_iff)
qed (simp add: cmd_size_def)

lemma cmd_generate_None:
  "cmd_generate op (arg :: 'l::len word) slot = None \<longleftrightarrow>
     (let room = if slot \<noteq> 0 then slot else cmd_maxlen in
      if 0 \<le>s arg then cmd_gen_pos room arg [op OR low_nibble arg] = None
      else cmd_gen_neg room (NOT arg) [op OR low_nibble arg] = None)"
  by (auto simp: cmd_generate_def cmd_push_def Let_def cmd_maxlen_def split: option.splits)

lemma cmd_generate_fits:
  assumes "8 \<le> LENGTH('l)"
  shows "cmd_generate op (arg :: 'l::len word) slot = None \<longleftrightarrow>
    (if slot \<noteq> 0 then slot else cmd_maxlen) < cmd_size arg"
proof -
  define room where "room = (if slot \<noteq> 0 then slot else cmd_maxlen)"
  have "length [op OR low_nibble arg] \<le> room" by (simp add: room_def cmd_maxlen_def)
  then show ?thesis
    unfolding cmd_generate_None room_def [symmetric] Let_def cmd_size_cases [OF assms]
    by (cases "arg <s 0") (auto simp: cmd_gen_pos_None cmd_gen_neg_None signed.not_le [symmetric])
qed

lemma cmd_generate_length:
  assumes L: "8 \<le> LENGTH('l)" and bs: "cmd_generate op (arg :: 'l::len word) slot = Some bs"
  shows "length bs = (if slot = 0 then cmd_size arg else slot)"
proof -
  have "cmd_size arg \<le> (if slot \<noteq> 0 then slot else cmd_maxlen)"
    using cmd_generate_fits [OF L, of op arg slot] bs by simp
  with bs show ?thesis
  proof (cases rule: cmd_generate_cases)
    case (pos q)
    with cmd_gen_pos_length [OF pos(3)] show ?thesis
      using \<open>cmd_size arg \<le> _\<close> by (auto simp: cmd_size_cases [OF L] signed.not_le)
  next
    case (neg q)
    with cmd_gen_neg_length [OF neg(3)] show ?thesis
      using \<open>cmd_size arg \<le> _\<close> by (auto simp: cmd_size_cases [OF L])
  qed
qed

section \<open>Optimality\<close>

lemma oreg_shift_bounds:
  fixes u :: "'l::len word" and b :: byte
  assumes "- (16 ^ k) \<le> sint u" "sint u < 16 ^ k"
  defines "w \<equiv> push_bit 4 u OR ucast (b AND 0xf)"
  shows "- (16 ^ Suc k) \<le> sint w \<and> sint w < 16 ^ Suc k"
proof -
  have "push_bit 4 u AND ucast (b AND 0xf) = 0"
    unfolding nibble_mask by (rule bit_word_eqI) (auto simp: bit_simps)
  then have w: "w = push_bit 4 u + ucast (b AND 0xf)"
    using word_plus_and_or [of "push_bit 4 u" "ucast (b AND 0xf)"] by (simp add: w_def)
  define x where "x = 16 * sint u + uint (b AND 0xf)"
  have "push_bit 4 u = word_of_int (16 * sint u)"
    by (simp add: push_bit_eq_mult)
  then have wx: "w = word_of_int x"
    by (simp only: w x_def ucast_eq of_int_add)
  have n: "uint (b AND 0xf) < 16" "0 \<le> uint (b AND 0xf)"
    by (simp_all add: uint_and)
  then have b: "- (16 ^ Suc k) \<le> x" "x < 16 ^ Suc k"
    using assms(1,2) unfolding x_def power_Suc by linarith+
  show ?thesis
  proof (cases "- (2 ^ (LENGTH('l) - 1)) \<le> x \<and> x < 2 ^ (LENGTH('l) - 1)")
    case True
    then show ?thesis using b by (simp add: wx sint_word_of_int_eq)
  next
    case False
    with b have "2 ^ (LENGTH('l) - 1) \<le> (16::int) ^ Suc k" by linarith
    then show ?thesis using sint_ge [of w] sint_lt [of w] by linarith
  qed
qed


lemma sint_not_bounds:
  "- (16 ^ k) \<le> sint w \<and> sint w < 16 ^ k \<Longrightarrow> - (16 ^ k) \<le> sint (NOT w) \<and> sint (NOT w) < 16 ^ k"
  by (auto simp: sint_not_eq)

lemma oreg_run_bounds:
  "oreg_run (push_bit 4 u) bs = Some (op, arg, r) \<Longrightarrow> - (16 ^ k) \<le> sint u \<Longrightarrow> sint u < 16 ^ k \<Longrightarrow>
     \<exists>n. length bs = Suc n + length r \<and> - (16 ^ (k + Suc n)) \<le> sint arg \<and> sint arg < 16 ^ (k + Suc n)"
proof (induction bs arbitrary: u k)
  case (Cons b bs)
  let ?w = "push_bit 4 u OR ucast (b AND 0xf)"
  note w = oreg_shift_bounds [OF Cons.prems(2,3), of b]
  have step: ?case if run: "oreg_run (push_bit 4 v) bs = Some (op, arg, r)"
    and v: "- (16 ^ Suc k) \<le> sint v \<and> sint v < 16 ^ Suc k" for v
  proof -
    obtain n where "length bs = Suc n + length r"
      "- (16 ^ (Suc k + Suc n)) \<le> sint arg" "sint arg < 16 ^ (Suc k + Suc n)"
      using Cons.IH [OF run, of "Suc k"] v by blast
    then show ?thesis
      by (intro exI [of _ "Suc n"]) simp
  qed
  show ?case
    using Cons.prems(1) step [OF _ w] step [OF _ sint_not_bounds [OF w]] w
    by (auto simp only: oreg_run.simps Let_def split: if_splits) auto
qed simp

lemma sint_nibble:
  assumes "8 \<le> LENGTH('l)"
  shows "0 \<le> sint (ucast (b AND 0xf :: byte) :: 'l::len word)"
proof -
  have "(2::int) ^ 7 \<le> 2 ^ (LENGTH('l) - 1)"
    using assms by (intro power_increasing) auto
  then have p: "(128::int) \<le> 2 ^ (LENGTH('l) - 1)" by simp
  have n: "uint (b AND 0xf) < 16" "0 \<le> uint (b AND 0xf)"
    by (simp_all add: uint_and)
  have "sint (word_of_int (uint (b AND 0xf)) :: 'l word) = uint (b AND 0xf)"
    by (rule sint_word_of_int_eq) (use p n in linarith)+
  then show ?thesis
    by (simp only: ucast_eq n(2))
qed

lemma oreg_run_optimal:
  assumes L: "8 \<le> LENGTH('l)" and run: "oreg_run (0 :: 'l::len word) bs = Some (op, arg, r)"
  shows "cmd_size arg + length r \<le> length bs"
proof -
  obtain n where n: "length bs = Suc n + length r"
    and b: "- (16 ^ Suc n) \<le> sint arg" "sint arg < 16 ^ Suc n"
    using oreg_run_bounds [of 0 bs op arg r 0] run by auto
  have "0 \<le> sint arg" if "n = 0"
  proof -
    obtain b bs' where bs: "bs = b # bs'" and len: "length bs' = length r"
      using n \<open>n = 0\<close> by (cases bs) auto
    have "oreg_run (push_bit 4 v) bs' \<noteq> Some (op, arg, r)" for v
      using oreg_run_bounds [of v bs' op arg r "LENGTH('l)"] len
        oreg_run_length [of "push_bit 4 v" bs']
      by auto
    then have "arg = ucast (b AND 0xf)"
      using run by (auto simp: bs Let_def split: if_splits)
    then show ?thesis using sint_nibble [OF L] by simp
  qed
  with b n show ?thesis
    using cmd_size_le_iff [OF L, of arg "Suc n"] by auto
qed

text \<open>A 32-bit operand always fits in \<open>CMD_MAXLEN\<close> bytes.\<close>

lemma cmd_size_long: "cmd_size (arg :: long) \<le> cmd_maxlen"
  using sint_ge [of arg] sint_lt [of arg] by (simp add: cmd_size_le_iff cmd_maxlen_def)

lemma cmd_generate_long: "\<exists>bs. cmd_generate op (arg :: long) 0 = Some bs"
  using cmd_generate_fits [of op arg 0] cmd_size_long [of arg] by (auto simp: not_less)

section \<open>Properties\<close>

text \<open>
  C1: What \<open>cmd_generate\<close> emits, padded to a slot or not, is decoded by the processor's operand
  register to exactly the opcode and the operand it was given, and nothing of what
  follows the command is consumed.
\<close>

theorem cmd_generate_roundtrip:
  assumes "opcode_ok op" "cmd_generate op (arg :: long) slot = Some bs"
  shows "oreg_run 0 (bs @ rest) = Some (op, arg, rest)"
  by (rule cmd_generate_decodes [OF assms])

theorem cmd_generate_roundtrip_witness:
  "oreg_run 0 ([0x20, 0x6f, 0x4f] @ [0xf5]) = Some (0x40, -241 :: long, [0xf5])"
  by (rule cmd_generate_roundtrip [where slot = 3]) (code_simp, code_simp)

text \<open>
  \<open>cmd_generate\<close> fails exactly when \<open>cmd_size\<close> exceeds the room it has; otherwise it
  fills the slot, or emits \<open>cmd_size\<close> bytes when there is no slot, which is always
  possible for a 32-bit operand.
\<close>

theorem cmd_generate_size:
  "(case cmd_generate op (arg :: long) slot of
      None \<Rightarrow> slot \<noteq> 0 \<and> slot < cmd_size arg
    | Some bs \<Rightarrow> if slot = 0 then length bs = cmd_size arg \<and> length bs \<le> cmd_maxlen
                 else length bs = slot \<and> cmd_size arg \<le> slot)"
  using cmd_generate_fits [of op arg slot] cmd_generate_length [of op arg slot] cmd_size_long [of arg]
  by (auto split: option.splits if_splits)

text \<open>
  C11: \<open>cmd_size\<close> is optimal: no byte sequence that the processor decodes to the operand is
  shorter.
\<close>

theorem cmd_size_optimal:
  assumes "oreg_run 0 bs = Some (op, arg :: long, rest)"
  shows "cmd_size arg + length rest \<le> length bs"
  by (rule oreg_run_optimal [OF _ assms]) simp

theorem cmd_size_optimal_witness: "cmd_size (-1 :: long) + length [0xf5 :: byte] \<le> 3"
proof -
  have "oreg_run 0 [0x60, 0x4f, 0xf5] = Some (0x40, -1 :: long, [0xf5])" by code_simp
  from cmd_size_optimal [OF this] show ?thesis by simp
qed

text \<open>
  On a host whose \<open>long\<close> has 64 bits the size reaches 16, beyond \<open>CMD_MAXLEN\<close>, and
  \<open>cmd_generate\<close> without a slot fails for operands that need more than eight bytes.
\<close>

lemma cmd_generate_wide_long:
  "cmd_size (0x7fffffffffffffff :: 64 word) = 16 \<and>
   cmd_generate opcode_ldc (0x7fffffffffffffff :: 64 word) 0 = None"
  by code_simp

end
