(* ===== verification/Instr.thy ===== *)
theory Instr
  imports Prelude
begin

text \<open>
  The instruction set, as the \<open>CMDDEF\<close> rules of the assembler's scanner (\<open>ast/scan.l\<close>)
  define it, the tool that turns it into the disassembler's tables (\<open>dast/mktabs.c\<close>), and
  the tables it generated (\<open>dast/dastabs.h\<close>).  A \<open>char *\<close> table is a list of optional
  strings, \<open>None\<close> for \<open>NULL\<close>.
\<close>

section \<open>The \<open>CMDDEF\<close> rules\<close>

datatype cmd_token = Cmd_direct | Cmd_direct_pcrel | Cmd_indir | Cmd_fpu

type_synonym cmddef = "string \<times> int \<times> cmd_token"

definition direct_cmds :: "cmddef list" where
  "direct_cmds = [
    (''j'', 0x00, Cmd_direct_pcrel), (''ldlp'', 0x10, Cmd_direct), (''pfix'', 0x20, Cmd_direct),
    (''ldnl'', 0x30, Cmd_direct), (''ldc'', 0x40, Cmd_direct), (''ldnlp'', 0x50, Cmd_direct),
    (''nfix'', 0x60, Cmd_direct), (''ldl'', 0x70, Cmd_direct), (''adc'', 0x80, Cmd_direct),
    (''call'', 0x90, Cmd_direct_pcrel), (''cj'', 0xa0, Cmd_direct_pcrel), (''ajw'', 0xb0,
    Cmd_direct), (''eqc'', 0xc0, Cmd_direct), (''stl'', 0xd0, Cmd_direct), (''stnl'', 0xe0,
    Cmd_direct), (''opr'', 0xf0, Cmd_direct)]"

definition indir_cmds_1 :: "cmddef list" where
  "indir_cmds_1 = [
    (''rev'', 0x00, Cmd_indir), (''lb'', 0x01, Cmd_indir), (''bsub'', 0x02, Cmd_indir), (''endp'',
    0x03, Cmd_indir), (''diff'', 0x04, Cmd_indir), (''add'', 0x05, Cmd_indir), (''gcall'', 0x06,
    Cmd_indir), (''in'', 0x07, Cmd_indir), (''prod'', 0x08, Cmd_indir), (''gt'', 0x09, Cmd_indir),
    (''wsub'', 0x0a, Cmd_indir), (''out'', 0x0b, Cmd_indir), (''sub'', 0x0c, Cmd_indir),
    (''startp'', 0x0d, Cmd_indir), (''outbyte'', 0x0e, Cmd_indir), (''outword'', 0x0f, Cmd_indir),
    (''seterr'', 0x10, Cmd_indir), (''resetch'', 0x12, Cmd_indir), (''csub0'', 0x13, Cmd_indir),
    (''stopp'', 0x15, Cmd_indir), (''ladd'', 0x16, Cmd_indir), (''stlb'', 0x17, Cmd_indir),
    (''sthf'', 0x18, Cmd_indir), (''norm'', 0x19, Cmd_indir), (''ldiv'', 0x1a, Cmd_indir),
    (''ldpi'', 0x1b, Cmd_indir), (''stlf'', 0x1c, Cmd_indir), (''xdble'', 0x1d, Cmd_indir),
    (''ldpri'', 0x1e, Cmd_indir), (''rem'', 0x1f, Cmd_indir), (''ret'', 0x20, Cmd_indir),
    (''lend'', 0x21, Cmd_indir), (''ldtimer'', 0x22, Cmd_indir), (''testerr'', 0x29, Cmd_indir),
    (''testpranal'', 0x2a, Cmd_indir), (''tin'', 0x2b, Cmd_indir), (''div'', 0x2c, Cmd_indir),
    (''dist'', 0x2e, Cmd_indir), (''disc'', 0x2f, Cmd_indir), (''diss'', 0x30, Cmd_indir),
    (''lmul'', 0x31, Cmd_indir), (''not'', 0x32, Cmd_indir), (''xor'', 0x33, Cmd_indir),
    (''bcnt'', 0x34, Cmd_indir), (''lshr'', 0x35, Cmd_indir), (''lshl'', 0x36, Cmd_indir),
    (''lsum'', 0x37, Cmd_indir), (''lsub'', 0x38, Cmd_indir), (''runp'', 0x39, Cmd_indir),
    (''xword'', 0x3a, Cmd_indir), (''sb'', 0x3b, Cmd_indir), (''gajw'', 0x3c, Cmd_indir),
    (''savel'', 0x3d, Cmd_indir), (''saveh'', 0x3e, Cmd_indir), (''wcnt'', 0x3f, Cmd_indir),
    (''shr'', 0x40, Cmd_indir), (''shl'', 0x41, Cmd_indir), (''mint'', 0x42, Cmd_indir), (''alt'',
    0x43, Cmd_indir), (''altwt'', 0x44, Cmd_indir), (''altend'', 0x45, Cmd_indir), (''and'', 0x46,
    Cmd_indir), (''enbt'', 0x47, Cmd_indir), (''enbc'', 0x48, Cmd_indir), (''enbs'', 0x49,
    Cmd_indir), (''move'', 0x4a, Cmd_indir), (''or'', 0x4b, Cmd_indir), (''csngl'', 0x4c,
    Cmd_indir), (''ccnt1'', 0x4d, Cmd_indir), (''talt'', 0x4e, Cmd_indir), (''ldiff'', 0x4f,
    Cmd_indir), (''sthb'', 0x50, Cmd_indir), (''taltwt'', 0x51, Cmd_indir), (''sum'', 0x52,
    Cmd_indir), (''mul'', 0x53, Cmd_indir), (''sttimer'', 0x54, Cmd_indir), (''stoperr'', 0x55,
    Cmd_indir), (''cword'', 0x56, Cmd_indir), (''clrhalterr'', 0x57, Cmd_indir), (''sethalterr'',
    0x58, Cmd_indir), (''testhalterr'', 0x59, Cmd_indir), (''dup'', 0x5a, Cmd_indir),
    (''move2dinit'', 0x5b, Cmd_indir), (''move2dall'', 0x5c, Cmd_indir), (''move2dnonzero'', 0x5d,
    Cmd_indir), (''move2dzero'', 0x5e, Cmd_indir), (''gtu'', 0x5f, Cmd_indir), (''unpacksn'',
    0x63, Cmd_indir), (''slmul'', 0x64, Cmd_indir), (''sulmul'', 0x65, Cmd_indir), (''satadd'',
    0x68, Cmd_indir), (''satsub'', 0x69, Cmd_indir), (''satmul'', 0x6a, Cmd_indir),
    (''postnormsn'', 0x6c, Cmd_indir), (''roundsn'', 0x6d, Cmd_indir), (''ldtraph'', 0x6e,
    Cmd_indir), (''ldinf'', 0x71, Cmd_indir), (''fmul'', 0x72, Cmd_indir), (''cflerr'', 0x73,
    Cmd_indir), (''crcword'', 0x74, Cmd_indir), (''crcbyte'', 0x75, Cmd_indir), (''bitcnt'', 0x76,
    Cmd_indir), (''bitrevword'', 0x77, Cmd_indir), (''bitrevnbits'', 0x78, Cmd_indir), (''pop'',
    0x79, Cmd_indir), (''ldmemstartval'', 0x7e, Cmd_indir), (''wsubdb'', 0x81, Cmd_indir),
    (''fpldnldbi'', 0x82, Cmd_indir), (''fpchkerr'', 0x83, Cmd_indir), (''fpstnldb'', 0x84,
    Cmd_indir), (''fpldnlsni'', 0x86, Cmd_indir), (''fpadd'', 0x87, Cmd_indir), (''fpstnlsn'',
    0x88, Cmd_indir), (''fpsub'', 0x89, Cmd_indir), (''fpldnldb'', 0x8a, Cmd_indir), (''fpmul'',
    0x8b, Cmd_indir), (''fpdiv'', 0x8c, Cmd_indir), (''fprange'', 0x8d, Cmd_indir), (''fpldnlsn'',
    0x8e, Cmd_indir), (''fpremfirst'', 0x8f, Cmd_indir), (''fpremstep'', 0x90, Cmd_indir),
    (''fpnan'', 0x91, Cmd_indir), (''fpordered'', 0x92, Cmd_indir), (''fpnotfinite'', 0x93,
    Cmd_indir), (''fpgt'', 0x94, Cmd_indir)]"

definition indir_cmds_2 :: "cmddef list" where
  "indir_cmds_2 = [
    (''fpeq'', 0x95, Cmd_indir), (''fpi32tor32'', 0x96, Cmd_indir), (''fpge'', 0x97, Cmd_indir),
    (''fpi32tor64'', 0x98, Cmd_indir), (''fpb32tor64'', 0x9a, Cmd_indir), (''fplg'', 0x9b,
    Cmd_indir), (''fptesterr'', 0x9c, Cmd_indir), (''fprtoi32'', 0x9d, Cmd_indir), (''fpstnli32'',
    0x9e, Cmd_indir), (''fpldzerosn'', 0x9f, Cmd_indir), (''fpldzerodb'', 0xa0, Cmd_indir),
    (''fpint'', 0xa1, Cmd_indir), (''fpdup'', 0xa3, Cmd_indir), (''fprev'', 0xa4, Cmd_indir),
    (''fpldnladddb'', 0xa6, Cmd_indir), (''fpldnlmuldb'', 0xa8, Cmd_indir), (''fpldnladdsn'',
    0xaa, Cmd_indir), (''fpentry'', 0xab, Cmd_indir), (''fpldnlmulsn'', 0xac, Cmd_indir),
    (''settimeslice'', 0xb0, Cmd_indir), (''ldflags'', 0xb6, Cmd_indir), (''stflags'', 0xb7,
    Cmd_indir), (''xbword'', 0xb8, Cmd_indir), (''lbx'', 0xb9, Cmd_indir), (''cb'', 0xba,
    Cmd_indir), (''cbu'', 0xbb, Cmd_indir), (''insphdr'', 0xbc, Cmd_indir), (''readbfr'', 0xbd,
    Cmd_indir), (''ldconf'', 0xbe, Cmd_indir), (''stconf'', 0xbf, Cmd_indir), (''ldcnt'', 0xc0,
    Cmd_indir), (''ssub'', 0xc1, Cmd_indir), (''ldth'', 0xc2, Cmd_indir), (''ldchstatus'', 0xc3,
    Cmd_indir), (''intdis'', 0xc4, Cmd_indir), (''intenb'', 0xc5, Cmd_indir), (''ldtrapped'',
    0xc6, Cmd_indir), (''cir'', 0xc7, Cmd_indir), (''ss'', 0xc8, Cmd_indir), (''chantype'', 0xc9,
    Cmd_indir), (''ls'', 0xca, Cmd_indir), (''sttrapped'', 0xcb, Cmd_indir), (''ciru'', 0xcc,
    Cmd_indir), (''gintdis'', 0xcd, Cmd_indir), (''gintenb'', 0xce, Cmd_indir), (''fprem'', 0xcf,
    Cmd_indir), (''fprn'', 0xd0, Cmd_indir), (''fpdivby2'', 0xd1, Cmd_indir), (''fpmulby2'', 0xd2,
    Cmd_indir), (''fpsqrt'', 0xd3, Cmd_indir), (''fprp'', 0xd4, Cmd_indir), (''fprm'', 0xd5,
    Cmd_indir), (''fprz'', 0xd6, Cmd_indir), (''fpr32tor64'', 0xd7, Cmd_indir), (''fpr64tor32'',
    0xd8, Cmd_indir), (''fpexpdec32'', 0xd9, Cmd_indir), (''fpexpinc32'', 0xda, Cmd_indir),
    (''fpabs'', 0xdb, Cmd_indir), (''fpchki32'', 0xde, Cmd_indir), (''fpchki64'', 0xdf,
    Cmd_indir), (''devlb'', 0xf0, Cmd_indir), (''devsb'', 0xf1, Cmd_indir), (''devls'', 0xf2,
    Cmd_indir), (''devss'', 0xf3, Cmd_indir), (''devlw'', 0xf4, Cmd_indir), (''devsw'', 0xf5,
    Cmd_indir), (''xsword'', 0xf8, Cmd_indir), (''lsx'', 0xf9, Cmd_indir), (''cs'', 0xfa,
    Cmd_indir), (''csu'', 0xfb, Cmd_indir), (''togglemonitor'', 0xfc, Cmd_indir),
    (''toggledisasm'', 0xfd, Cmd_indir), (''terminate'', 0xfe, Cmd_indir), (''marker'', 0xff,
    Cmd_indir), (''lddevid'', 0x17c, Cmd_indir), (''fpstall'', -0x01, Cmd_indir), (''fpldall'',
    -0x02, Cmd_indir), (''stshadow'', -0x03, Cmd_indir), (''ldshadow'', -0x04, Cmd_indir),
    (''tret'', -0x05, Cmd_indir), (''goprot'', -0x06, Cmd_indir), (''selth'', -0x07, Cmd_indir),
    (''syscall'', -0x08, Cmd_indir), (''trapenb'', -0x09, Cmd_indir), (''trapdis'', -0x0a,
    Cmd_indir), (''wait'', -0x0b, Cmd_indir), (''signal'', -0x0c, Cmd_indir), (''timeslice'',
    -0x0d, Cmd_indir), (''insertqueue'', -0x0e, Cmd_indir), (''swaptimer'', -0x0f, Cmd_indir),
    (''swapqueue'', -0x10, Cmd_indir), (''iret'', -0x11, Cmd_indir), (''stopch'', -0x12,
    Cmd_indir), (''vout'', -0x13, Cmd_indir), (''vin'', -0x14, Cmd_indir), (''swapbfr'', -0x17,
    Cmd_indir), (''sethdr'', -0x18, Cmd_indir), (''setchmode'', -0x19, Cmd_indir), (''initvlcb'',
    -0x1a, Cmd_indir), (''writehdr'', -0x1b, Cmd_indir), (''readhdr'', -0x1c, Cmd_indir),
    (''disg'', -0x1d, Cmd_indir), (''enbg'', -0x1e, Cmd_indir), (''grant'', -0x1f, Cmd_indir),
    (''stmove2dinit'', -0x20, Cmd_indir), (''causeerror'', -0x21, Cmd_indir), (''restart'', -0x22,
    Cmd_indir), (''unmkrc'', -0x23, Cmd_indir), (''mkrc'', -0x24, Cmd_indir), (''irdsq'', -0x25,
    Cmd_indir), (''erdsq'', -0x26, Cmd_indir), (''stresptr'', -0x27, Cmd_indir), (''ldresptr'',
    -0x28, Cmd_indir), (''devmove'', -0x2c, Cmd_indir), (''icl'', -0x2d, Cmd_indir), (''fdcl'',
    -0x2e, Cmd_indir), (''ica'', -0x2f, Cmd_indir), (''fdca'', -0x30, Cmd_indir), (''nop'', -0x40,
    Cmd_indir), (''clockenb'', -0x41, Cmd_indir), (''clockdis'', -0x42, Cmd_indir), (''ldclock'',
    -0x43, Cmd_indir), (''stclock'', -0x44, Cmd_indir), (''reboot'', -0x83, Cmd_indir),
    (''ldprodid'', -0x84, Cmd_indir)]"

definition fpu_cmds :: "cmddef list" where
  "fpu_cmds = [
    (''fpusqrtfirst'', 0x01, Cmd_fpu), (''fpusqrtstep'', 0x02, Cmd_fpu), (''fpusqrtlast'', 0x03,
    Cmd_fpu), (''fpurp'', 0x04, Cmd_fpu), (''fpurm'', 0x05, Cmd_fpu), (''fpurz'', 0x06, Cmd_fpu),
    (''fpur32tor64'', 0x07, Cmd_fpu), (''fpur64tor32'', 0x08, Cmd_fpu), (''fpuexpdec32'', 0x09,
    Cmd_fpu), (''fpuexpinc32'', 0x0a, Cmd_fpu), (''fpuabs'', 0x0b, Cmd_fpu), (''fpunoround'',
    0x0d, Cmd_fpu), (''fpuchki32'', 0x0e, Cmd_fpu), (''fpuchki64'', 0x0f, Cmd_fpu),
    (''fpudivby2'', 0x11, Cmd_fpu), (''fpumulby2'', 0x12, Cmd_fpu), (''fpurn'', 0x22, Cmd_fpu),
    (''fpuseterr'', 0x23, Cmd_fpu), (''fpuclrerr'', 0x9c, Cmd_fpu)]"

definition instruction_set :: "cmddef list" where
  "instruction_set = direct_cmds @ indir_cmds_1 @ indir_cmds_2 @ fpu_cmds"

section \<open>The generated tables\<close>

definition tab_direct :: "string option list" where
  "tab_direct =
    map Some [''j''] @ replicate 15 None @ map Some [''ldlp''] @ replicate 15 None @ map Some
    [''pfix''] @ replicate 15 None @ map Some [''ldnl''] @ replicate 15 None @ map Some
    [''ldc''] @ replicate 15 None @ map Some [''ldnlp''] @ replicate 15 None @ map Some
    [''nfix''] @ replicate 15 None @ map Some [''ldl''] @ replicate 15 None @ map Some [''adc'']
    @ replicate 15 None @ map Some [''call''] @ replicate 15 None @ map Some [''cj''] @
    replicate 15 None @ map Some [''ajw''] @ replicate 15 None @ map Some [''eqc''] @ replicate
    15 None @ map Some [''stl''] @ replicate 15 None @ map Some [''stnl''] @ replicate 15 None @
    map Some [''opr'']"

definition tab_pcrel :: "bool list" where
  "tab_pcrel = [True] @ replicate 143 False @ [True] @ replicate 15 False @ [True] @ replicate 80 False"

definition tab_indir :: "string option list" where
  "tab_indir =
    map Some [''rev'', ''lb'', ''bsub'', ''endp'', ''diff'', ''add'', ''gcall'', ''in'',
    ''prod'', ''gt'', ''wsub'', ''out'', ''sub'', ''startp'', ''outbyte'', ''outword'',
    ''seterr''] @ [None] @ map Some [''resetch'', ''csub0''] @ [None] @ map Some [''stopp'',
    ''ladd'', ''stlb'', ''sthf'', ''norm'', ''ldiv'', ''ldpi'', ''stlf'', ''xdble'', ''ldpri'',
    ''rem'', ''ret'', ''lend'', ''ldtimer''] @ replicate 6 None @ map Some [''testerr'',
    ''testpranal'', ''tin'', ''div''] @ [None] @ map Some [''dist'', ''disc'', ''diss'',
    ''lmul'', ''not'', ''xor'', ''bcnt'', ''lshr'', ''lshl'', ''lsum'', ''lsub'', ''runp'',
    ''xword'', ''sb'', ''gajw'', ''savel'', ''saveh'', ''wcnt'', ''shr'', ''shl'', ''mint'',
    ''alt'', ''altwt'', ''altend'', ''and'', ''enbt'', ''enbc'', ''enbs'', ''move'', ''or'',
    ''csngl'', ''ccnt1'', ''talt'', ''ldiff'', ''sthb'', ''taltwt'', ''sum'', ''mul'',
    ''sttimer'', ''stoperr'', ''cword'', ''clrhalterr'', ''sethalterr'', ''testhalterr'',
    ''dup'', ''move2dinit'', ''move2dall'', ''move2dnonzero'', ''move2dzero'', ''gtu''] @
    replicate 3 None @ map Some [''unpacksn'', ''slmul'', ''sulmul''] @ replicate 2 None @ map
    Some [''satadd'', ''satsub'', ''satmul''] @ [None] @ map Some [''postnormsn'', ''roundsn'',
    ''ldtraph''] @ replicate 2 None @ map Some [''ldinf'', ''fmul'', ''cflerr'', ''crcword'',
    ''crcbyte'', ''bitcnt'', ''bitrevword'', ''bitrevnbits'', ''pop''] @ replicate 4 None @ map
    Some [''ldmemstartval''] @ replicate 2 None @ map Some [''wsubdb'', ''fpldnldbi'',
    ''fpchkerr'', ''fpstnldb''] @ [None] @ map Some [''fpldnlsni'', ''fpadd'', ''fpstnlsn'',
    ''fpsub'', ''fpldnldb'', ''fpmul'', ''fpdiv'', ''fprange'', ''fpldnlsn'', ''fpremfirst'',
    ''fpremstep'', ''fpnan'', ''fpordered'', ''fpnotfinite'', ''fpgt'', ''fpeq'',
    ''fpi32tor32'', ''fpge'', ''fpi32tor64''] @ [None] @ map Some [''fpb32tor64'', ''fplg'',
    ''fptesterr'', ''fprtoi32'', ''fpstnli32'', ''fpldzerosn'', ''fpldzerodb'', ''fpint''] @
    [None] @ map Some [''fpdup'', ''fprev''] @ [None] @ map Some [''fpldnladddb''] @ [None] @
    map Some [''fpldnlmuldb''] @ [None] @ map Some [''fpldnladdsn'', ''fpentry'',
    ''fpldnlmulsn''] @ replicate 3 None @ map Some [''settimeslice''] @ replicate 5 None @ map
    Some [''ldflags'', ''stflags'', ''xbword'', ''lbx'', ''cb'', ''cbu'', ''insphdr'',
    ''readbfr'', ''ldconf'', ''stconf'', ''ldcnt'', ''ssub'', ''ldth'', ''ldchstatus'',
    ''intdis'', ''intenb'', ''ldtrapped'', ''cir'', ''ss'', ''chantype'', ''ls'', ''sttrapped'',
    ''ciru'', ''gintdis'', ''gintenb'', ''fprem'', ''fprn'', ''fpdivby2'', ''fpmulby2'',
    ''fpsqrt'', ''fprp'', ''fprm'', ''fprz'', ''fpr32tor64'', ''fpr64tor32'', ''fpexpdec32'',
    ''fpexpinc32'', ''fpabs''] @ replicate 2 None @ map Some [''fpchki32'', ''fpchki64''] @
    replicate 16 None @ map Some [''devlb'', ''devsb'', ''devls'', ''devss'', ''devlw'',
    ''devsw''] @ replicate 2 None @ map Some [''xsword'', ''lsx'', ''cs'', ''csu'',
    ''togglemonitor'', ''toggledisasm'', ''terminate'', ''marker''] @ replicate 124 None @ map
    Some [''lddevid'']"

definition tab_indir_negative :: "string option list" where
  "tab_indir_negative =
    [None] @ map Some [''fpstall'', ''fpldall'', ''stshadow'', ''ldshadow'', ''tret'',
    ''goprot'', ''selth'', ''syscall'', ''trapenb'', ''trapdis'', ''wait'', ''signal'',
    ''timeslice'', ''insertqueue'', ''swaptimer'', ''swapqueue'', ''iret'', ''stopch'',
    ''vout'', ''vin''] @ replicate 2 None @ map Some [''swapbfr'', ''sethdr'', ''setchmode'',
    ''initvlcb'', ''writehdr'', ''readhdr'', ''disg'', ''enbg'', ''grant'', ''stmove2dinit'',
    ''causeerror'', ''restart'', ''unmkrc'', ''mkrc'', ''irdsq'', ''erdsq'', ''stresptr'',
    ''ldresptr''] @ replicate 3 None @ map Some [''devmove'', ''icl'', ''fdcl'', ''ica'',
    ''fdca''] @ replicate 15 None @ map Some [''nop'', ''clockenb'', ''clockdis'', ''ldclock'',
    ''stclock''] @ replicate 62 None @ map Some [''reboot'', ''ldprodid'']"

definition tab_fpu :: "string option list" where
  "tab_fpu =
    [None] @ map Some [''fpusqrtfirst'', ''fpusqrtstep'', ''fpusqrtlast'', ''fpurp'', ''fpurm'',
    ''fpurz'', ''fpur32tor64'', ''fpur64tor32'', ''fpuexpdec32'', ''fpuexpinc32'', ''fpuabs''] @
    [None] @ map Some [''fpunoround'', ''fpuchki32'', ''fpuchki64''] @ [None] @ map Some
    [''fpudivby2'', ''fpumulby2''] @ replicate 15 None @ map Some [''fpurn'', ''fpuseterr''] @
    replicate 120 None @ map Some [''fpuclrerr'']"

section \<open>\<open>mktabs\<close>\<close>

record mktabs =
  mk_direct :: "string option list"
  mk_pcrel :: "bool list"
  mk_indir :: "string option list"
  mk_indir_negative :: "string option list"
  mk_fpu :: "string option list"

definition mktabs_init :: mktabs where
  "mktabs_init = \<lparr>mk_direct = [], mk_pcrel = replicate 256 False, mk_indir = [],
     mk_indir_negative = [], mk_fpu = []\<rparr>"

text \<open>A table grows to \<open>opcode + 50\<close> entries; an index below zero is outside the array.\<close>

definition add_entry :: "int \<Rightarrow> string \<Rightarrow> string option list \<Rightarrow> string option list outcome" where
  "add_entry opcode mnem tab =
     (if opcode < 0 then Inl Trap
      else let n = nat opcode;
               tab' = (if length tab \<le> n then tab @ replicate (n + 50 - length tab) None else tab)
           in Inr (tab'[n := Some mnem]))"

definition mktabs_step :: "cmddef \<Rightarrow> mktabs \<Rightarrow> mktabs outcome" where
  "mktabs_step d t =
     (case d of (mnem, opcode, token) \<Rightarrow>
        case token of
          Cmd_direct_pcrel \<Rightarrow>
            if opcode < 0 \<or> 255 < opcode then Inl Fatal
            else obind (add_entry opcode mnem (mk_direct t)) (\<lambda>tab.
                   Inr (t\<lparr>mk_direct := tab, mk_pcrel := (mk_pcrel t)[nat opcode := True]\<rparr>))
        | Cmd_direct \<Rightarrow>
            obind (add_entry opcode mnem (mk_direct t)) (\<lambda>tab. Inr (t\<lparr>mk_direct := tab\<rparr>))
        | Cmd_indir \<Rightarrow>
            if opcode < 0
            then obind (add_entry (- opcode) mnem (mk_indir_negative t)) (\<lambda>tab.
                   Inr (t\<lparr>mk_indir_negative := tab\<rparr>))
            else obind (add_entry opcode mnem (mk_indir t)) (\<lambda>tab. Inr (t\<lparr>mk_indir := tab\<rparr>))
        | Cmd_fpu \<Rightarrow>
            obind (add_entry opcode mnem (mk_fpu t)) (\<lambda>tab. Inr (t\<lparr>mk_fpu := tab\<rparr>)))"

fun mktabs_scan :: "cmddef list \<Rightarrow> mktabs \<Rightarrow> mktabs outcome" where
  "mktabs_scan [] t = Inr t"
| "mktabs_scan (d # ds) t = obind (mktabs_step d t) (mktabs_scan ds)"

text \<open>
  \<open>while (tab[n-1] == nullstr) n--\<close>: an empty table has no last entry to look at.
\<close>

definition mktabs_trim :: "string option list \<Rightarrow> string option list outcome" where
  "mktabs_trim tab =
     (if filter (\<lambda>e. e \<noteq> None) tab = [] then Inl Trap
      else Inr (rev (dropWhile (\<lambda>e. e = None) (rev tab))))"

definition mktabs :: "cmddef list \<Rightarrow> mktabs outcome" where
  "mktabs ds =
     obind (mktabs_scan ds mktabs_init) (\<lambda>t.
     obind (mktabs_trim (mk_direct t)) (\<lambda>direct.
     obind (mktabs_trim (mk_indir t)) (\<lambda>indir.
     obind (mktabs_trim (mk_indir_negative t)) (\<lambda>negative.
     obind (mktabs_trim (mk_fpu t)) (\<lambda>fpu.
       Inr \<lparr>mk_direct = direct, mk_pcrel = take (length direct) (mk_pcrel t), mk_indir = indir,
            mk_indir_negative = negative, mk_fpu = fpu\<rparr>)))))"


section \<open>Lookup\<close>

definition tab_lookup :: "string option list \<Rightarrow> nat \<Rightarrow> string option" where
  "tab_lookup tab n = (if n < length tab then tab ! n else None)"

text \<open>The table and the index the disassembler uses for a command of the given kind.\<close>

definition mk_lookup :: "mktabs \<Rightarrow> cmd_token \<Rightarrow> int \<Rightarrow> string option" where
  "mk_lookup t token opcode =
     (case token of
        Cmd_direct \<Rightarrow> tab_lookup (mk_direct t) (nat opcode)
      | Cmd_direct_pcrel \<Rightarrow> tab_lookup (mk_direct t) (nat opcode)
      | Cmd_indir \<Rightarrow>
          if opcode < 0 then tab_lookup (mk_indir_negative t) (nat (- opcode))
          else tab_lookup (mk_indir t) (nat opcode)
      | Cmd_fpu \<Rightarrow> tab_lookup (mk_fpu t) (nat opcode))"

definition same_slot :: "cmd_token \<Rightarrow> cmd_token \<Rightarrow> bool" where
  "same_slot k k' \<longleftrightarrow> k = k' \<or> {k, k'} = {Cmd_direct, Cmd_direct_pcrel}"

lemma tab_lookup_add_entry:
  "add_entry opcode mnem tab = Inr tab' \<Longrightarrow>
     tab_lookup tab' n = (if n = nat opcode then Some mnem else tab_lookup tab n)"
  by (auto simp: add_entry_def tab_lookup_def Let_def nth_append split: if_splits)

lemma tab_lookup_trim:
  assumes "mktabs_trim tab = Inr tab'"
  shows "tab_lookup tab' n = tab_lookup tab n"
proof -
  define dropped where "dropped = takeWhile (\<lambda>e. e = None) (rev tab)"
  have tab': "tab' = rev (dropWhile (\<lambda>e. e = None) (rev tab))"
    using assms by (simp add: mktabs_trim_def split: if_splits)
  have "tab = tab' @ rev dropped"
    unfolding tab' dropped_def by (metis rev_append rev_rev_ident takeWhile_dropWhile_id)
  moreover have "rev dropped ! i = None" if "i < length dropped" for i
    using nth_mem [of i "rev dropped"] that by (auto simp: dropped_def dest: set_takeWhileD)
  ultimately show ?thesis
    by (auto simp: tab_lookup_def nth_append)
qed

lemma add_entry_nonneg: "add_entry opcode mnem tab = Inr tab' \<Longrightarrow> 0 \<le> opcode"
  by (simp add: add_entry_def split: if_splits)

lemma mktabs_step_lookup:
  assumes "mktabs_step (mnem, opcode, token) t = Inr t'" "0 \<le> op \<or> k = Cmd_indir"
  shows "mk_lookup t' k op = (if same_slot k token \<and> op = opcode then Some mnem else mk_lookup t k op)"
proof (cases token)
  case Cmd_indir
  show ?thesis
  proof (cases "opcode < 0")
    case True
    then obtain tab where "add_entry (- opcode) mnem (mk_indir_negative t) = Inr tab"
      "t' = t\<lparr>mk_indir_negative := tab\<rparr>"
      using assms Cmd_indir by (auto simp: mktabs_step_def outcome_iff)
    with tab_lookup_add_entry [OF this(1)] True Cmd_indir show ?thesis
      by (cases k) (auto simp: mk_lookup_def same_slot_def)
  next
    case False
    then obtain tab where "add_entry opcode mnem (mk_indir t) = Inr tab" "t' = t\<lparr>mk_indir := tab\<rparr>"
      using assms Cmd_indir by (auto simp: mktabs_step_def outcome_iff)
    with tab_lookup_add_entry [OF this(1)] False Cmd_indir show ?thesis
      by (cases k) (auto simp: mk_lookup_def same_slot_def)
  qed
next
  case Cmd_fpu
  then obtain tab where "add_entry opcode mnem (mk_fpu t) = Inr tab" "t' = t\<lparr>mk_fpu := tab\<rparr>"
    using assms by (auto simp: mktabs_step_def outcome_iff)
  with tab_lookup_add_entry [OF this(1)] add_entry_nonneg [OF this(1)] assms(2) Cmd_fpu show ?thesis
    by (cases k) (auto simp: mk_lookup_def same_slot_def)
next
  case Cmd_direct
  then obtain tab where "add_entry opcode mnem (mk_direct t) = Inr tab" "t' = t\<lparr>mk_direct := tab\<rparr>"
    using assms by (auto simp: mktabs_step_def outcome_iff)
  with tab_lookup_add_entry [OF this(1)] add_entry_nonneg [OF this(1)] assms(2) Cmd_direct show ?thesis
    by (cases k) (auto simp: mk_lookup_def same_slot_def)
next
  case Cmd_direct_pcrel
  then obtain tab where "add_entry opcode mnem (mk_direct t) = Inr tab"
    "t' = t\<lparr>mk_direct := tab, mk_pcrel := (mk_pcrel t)[nat opcode := True]\<rparr>"
    using assms by (auto simp: mktabs_step_def outcome_iff split: if_splits)
  with tab_lookup_add_entry [OF this(1)] add_entry_nonneg [OF this(1)] assms(2) Cmd_direct_pcrel
  show ?thesis
    by (cases k) (auto simp: mk_lookup_def same_slot_def)
qed

text \<open>The last rule for a slot decides.\<close>

fun rule_for :: "cmddef list \<Rightarrow> cmd_token \<Rightarrow> int \<Rightarrow> string option" where
  "rule_for [] k op = None"
| "rule_for ((mnem, opcode, token) # ds) k op =
     (case rule_for ds k op of
        Some m \<Rightarrow> Some m
      | None \<Rightarrow> if same_slot k token \<and> op = opcode then Some mnem else None)"

lemma mktabs_scan_lookup:
  "mktabs_scan ds t = Inr t' \<Longrightarrow> 0 \<le> op \<or> k = Cmd_indir \<Longrightarrow>
     mk_lookup t' k op = (case rule_for ds k op of Some m \<Rightarrow> Some m | None \<Rightarrow> mk_lookup t k op)"
  by (induction ds k op arbitrary: t rule: rule_for.induct)
    (auto simp: outcome_iff mktabs_step_lookup split: option.splits)

lemma mktabs_lookup_rule:
  assumes "mktabs ds = Inr t" "0 \<le> opcode \<or> k = Cmd_indir"
  shows "mk_lookup t k opcode = rule_for ds k opcode"
proof -
  obtain t0 where scan: "mktabs_scan ds mktabs_init = Inr t0"
    and trims: "mktabs_trim (mk_direct t0) = Inr (mk_direct t)"
      "mktabs_trim (mk_indir t0) = Inr (mk_indir t)"
      "mktabs_trim (mk_indir_negative t0) = Inr (mk_indir_negative t)"
      "mktabs_trim (mk_fpu t0) = Inr (mk_fpu t)"
    using assms(1) by (auto simp: mktabs_def outcome_iff)
  have "mk_lookup t k opcode = mk_lookup t0 k opcode"
    using trims [THEN tab_lookup_trim] by (simp add: mk_lookup_def split: cmd_token.split)
  also have "\<dots> = rule_for ds k opcode"
    using mktabs_scan_lookup [OF scan assms(2)]
    by (simp add: mktabs_init_def mk_lookup_def tab_lookup_def split: cmd_token.splits option.splits)
  finally show ?thesis .
qed

section \<open>Properties\<close>

text \<open>
  C13: The tables \<open>mktabs\<close> generates give back, under every opcode and kind of command, the
  mnemonic of the last \<open>CMDDEF\<close> rule for it, and \<open>NULL\<close> or nothing where no rule has it.
\<close>

theorem mktabs_lookup:
  assumes "mktabs ds = Inr t" "0 \<le> opcode \<or> k = Cmd_indir"
  shows "mk_lookup t k opcode = rule_for ds k opcode"
  by (rule mktabs_lookup_rule [OF assms])

theorem mktabs_lookup_witness:
  "\<exists>t. mktabs [(''j'', 0, Cmd_direct_pcrel), (''rev'', 0, Cmd_indir), (''tret'', -5, Cmd_indir),
              (''fpurn'', 0x22, Cmd_fpu)] = Inr t \<and>
       mk_lookup t Cmd_indir (-5) = Some ''tret''"
proof -
  let ?ds = "[(''j'', 0, Cmd_direct_pcrel), (''rev'', 0, Cmd_indir), (''tret'', -5, Cmd_indir),
              (''fpurn'', 0x22, Cmd_fpu)]"
  have "case mktabs ?ds of Inl _ \<Rightarrow> False | Inr _ \<Rightarrow> True" by code_simp
  then have "\<exists>t. mktabs ?ds = Inr t" by (auto split: sum.splits)
  then obtain t where t: "mktabs ?ds = Inr t" by blast
  with mktabs_lookup [OF t, of "-5" Cmd_indir] show ?thesis
    by (simp add: same_slot_def)
qed

end
