(* ===== verification/Disasm.thy ===== *)
theory Disasm
  imports Cmd Instr
begin

text \<open>
  The disassembler (\<open>dast/disassemble.c\<close>, \<open>dast/disassemble.h\<close>) and the loop of \<open>dast\<close> that
  walks over an image with it (\<open>dast/dast.c\<close>).  The result structure is static in the
  source, so \<open>disassemble\<close> takes the previous one: the fields a branch does not assign keep
  their old values.  A \<open>NULL\<close> mnemonic is \<open>None\<close>.
\<close>

section \<open>One command\<close>

abbreviation opcode_fpentry :: "32 word" where "opcode_fpentry \<equiv> 0xab"

record das =
  das_mnem :: "string option"
  das_hasarg :: bool
  das_pcrel :: bool
  das_arg :: long
  das_size :: nat
  das_dump :: string

text \<open>\<open>static struct disassemble das\<close> before the first call.\<close>

definition das_static :: das where
  "das_static = \<lparr>das_mnem = None, das_hasarg = False, das_pcrel = False, das_arg = 0,
     das_size = 0, das_dump = []\<rparr>"

text \<open>The prefix loop: the operand register, and the rest of the window at the first other byte.\<close>

fun das_prefix :: "long \<Rightarrow> byte list \<Rightarrow> long \<times> byte list" where
  "das_prefix oreg [] = (oreg, [])"
| "das_prefix oreg (b # p) =
     (if b AND 0xf0 = opcode_pfix then das_prefix (push_bit 4 (oreg OR ucast (b AND 0xf))) p
      else if b AND 0xf0 = opcode_nfix
      then das_prefix (push_bit 4 (NOT (oreg OR ucast (b AND 0xf)))) p
      else (oreg, b # p))"

definition hex_digit :: "byte \<Rightarrow> char" where
  "hex_digit n = ''0123456789abcdef'' ! unat n"

fun hex_dump :: "byte list \<Rightarrow> string" where
  "hex_dump [] = []"
| "hex_dump [b] = [hex_digit (drop_bit 4 b), hex_digit (b AND 0xf)]"
| "hex_dump (b # bs) = hex_digit (drop_bit 4 b) # hex_digit (b AND 0xf) # CHR '' '' # hex_dump bs"

text \<open>
  The four cases of the lookup.  \<open>op\<close> is the high nibble of the command byte, \<open>next\<close> the bytes of
  the window behind it: the third case wants \<open>fpentry\<close> there.
\<close>

definition das_select :: "das \<Rightarrow> byte \<Rightarrow> long \<Rightarrow> byte list \<Rightarrow> das" where
  "das_select das op oreg next =
     (if op = opcode_opr \<and> 0 \<le> sint oreg \<and> sint oreg < int (length tab_indir)
      then das\<lparr>das_hasarg := False, das_mnem := tab_indir ! nat (sint oreg)\<rparr>
      else if op = opcode_opr \<and> sint oreg < 0 \<and> - int (length tab_indir_negative) < sint oreg
      then das\<lparr>das_hasarg := False, das_mnem := tab_indir_negative ! nat (- sint oreg)\<rparr>
      else if op = opcode_ldc \<and> 1 < length next
           \<and> next ! 0 = opcode_pfix OR ucast (drop_bit 8 opcode_fpentry AND 0xf)
           \<and> next ! 1 = opcode_opr OR ucast (opcode_fpentry AND 0xf)
           \<and> 0 \<le> sint oreg \<and> sint oreg < int (length tab_fpu)
      then das\<lparr>das_hasarg := False, das_mnem := tab_fpu ! nat (sint oreg)\<rparr>
      else das\<lparr>das_hasarg := True, das_pcrel := tab_pcrel ! unat op, das_arg := oreg,
              das_mnem := tab_direct ! unat op\<rparr>)"

definition disassemble :: "das \<Rightarrow> byte list \<Rightarrow> das outcome" where
  "disassemble das buf =
     (if buf = [] then Inl Abort
      else
        let win = take cmd_maxlen buf;
            start = (if hd win = opcode_pfix then (0, win)
                     else case das_prefix 0 win of
                            (_, []) \<Rightarrow> (0, win)
                          | (oreg, b # p) \<Rightarrow> (oreg, b # p));
            p = snd start;
            b = hd p;
            oreg = fst start OR ucast (b AND 0xf);
            size = Suc (length win - length p)
        in Inr (das_select das (b AND 0xf0) oreg (tl p)
                  \<lparr>das_size := size, das_dump := hex_dump (take size win)\<rparr>))"

section \<open>What is disassembled\<close>

lemma pfix_nibble_nonzero:
  assumes "a AND 0xf \<noteq> (0 :: 'l::len word)"
  shows "opcode_pfix OR low_nibble a \<noteq> opcode_pfix"
proof
  assume eq: "opcode_pfix OR low_nibble a = opcode_pfix"
  have "ucast ((opcode_pfix OR low_nibble a) AND 0xf) = a AND 0xf"
    by (rule low_nibble_or) simp
  with assms show False unfolding eq by simp
qed

lemma cmd_gen_pos_first:
  "cmd_gen_pos room arg q = Some r \<Longrightarrow> (if drop_bit 4 arg = 0 then r = q else hd r \<noteq> opcode_pfix)"
proof (induction room arg q rule: cmd_gen_pos.induct)
  case (1 room arg q)
  show ?case
  proof (cases "drop_bit 4 arg = 0")
    case True
    with "1.prems" show ?thesis by (simp add: cmd_gen_pos.simps [of room arg])
  next
    case False
    let ?a = "drop_bit 4 arg"
    define q' where "q' = (opcode_pfix OR low_nibble ?a) # q"
    from False "1.prems" have p: "cmd_push room (opcode_pfix OR low_nibble ?a) q = Some q'"
      and r: "cmd_gen_pos room ?a q' = Some r"
      by (auto simp: cmd_gen_pos.simps [of room arg] cmd_push_Some q'_def Let_def split: option.splits)
    have IH: "if drop_bit 4 ?a = 0 then r = q' else hd r \<noteq> opcode_pfix"
      using "1.IH" [OF refl False p r] .
    have "hd r \<noteq> opcode_pfix" if z: "drop_bit 4 ?a = 0"
    proof -
      have "?a AND 0xf = ?a"
        using z drop_bit4_0_iff [of ?a] by (intro nibble_small) simp
      with False pfix_nibble_nonzero [of ?a] IH z show ?thesis by (simp only: q'_def) simp
    qed
    with IH have "hd r \<noteq> opcode_pfix" by presburger
    with False show ?thesis by simp
  qed
qed

lemma cmd_gen_neg_first:
  "cmd_gen_neg room arg q = Some r \<Longrightarrow> hd r AND 0xf0 = opcode_nfix"
proof (induction room arg q rule: cmd_gen_neg.induct)
  case (1 room arg q)
  have "(opcode_nfix OR low_nibble (drop_bit 4 arg)) AND 0xf0 = opcode_nfix"
    by (rule high_nibble_or) simp
  then show ?case
    using 1 by (auto simp: cmd_gen_neg.simps [of room arg] cmd_push_Some Let_def
      simp del: word_bw_assocs split: option.splits if_splits)
qed

lemma cmd_generate_first:
  assumes op: "opcode_ok op" and gen: "cmd_generate op arg 0 = Some bs"
  shows "hd bs \<noteq> opcode_pfix"
  using gen
proof (cases rule: cmd_generate_cases)
  case (pos q)
  have "(op OR low_nibble arg) AND 0xf0 = op"
    using op by (intro high_nibble_or) (simp add: opcode_ok_def)
  then have "op OR low_nibble arg \<noteq> opcode_pfix"
    using op by (auto simp: opcode_ok_def)
  with cmd_gen_pos_first [OF pos(3)] pos(2) show ?thesis
    by (auto split: if_splits)
next
  case (neg q)
  with cmd_gen_neg_first [OF neg(3)] show ?thesis
    by auto
qed

lemma das_prefix_oreg_run:
  "(case das_prefix v w of
      (_, []) \<Rightarrow> oreg_run v w = None
    | (u, b # p) \<Rightarrow> oreg_run v w = Some (b AND 0xf0, u OR ucast (b AND 0xf), p))"
  by (induction v w rule: das_prefix.induct) (auto simp: Let_def split: list.splits prod.splits)


text \<open>
  \<open>disassemble\<close> of a buffer that starts with a complete command, in terms of the operand
  register.
\<close>

lemma disassemble_command:
  assumes "oreg_run 0 (take cmd_maxlen buf) = Some (op, oreg, rest)" "hd buf \<noteq> opcode_pfix"
  shows "disassemble das buf =
    (let size = length (take cmd_maxlen buf) - length rest in
     Inr (das_select das op oreg rest
       \<lparr>das_size := size, das_dump := hex_dump (take size (take cmd_maxlen buf))\<rparr>))"
proof -
  let ?w = "take cmd_maxlen buf"
  have buf: "buf \<noteq> []" using assms(1) by auto
  then have hd: "hd ?w \<noteq> opcode_pfix" using assms(2) by (simp add: cmd_maxlen_def)
  obtain u b where p: "das_prefix 0 ?w = (u, b # rest)" and op: "op = b AND 0xf0"
    and oreg: "oreg = u OR ucast (b AND 0xf)"
    using das_prefix_oreg_run [of 0 ?w] assms(1) by (auto split: prod.splits list.splits)
  have "length rest < length ?w" using oreg_run_length [OF assms(1)] .
  then have size: "Suc (length ?w - length (b # rest)) = length ?w - length rest"
    by (metis Suc_diff_Suc length_Cons)
  show ?thesis
    using buf hd
    by (simp only: disassemble_def if_False Let_def p prod.case list.case fst_conv snd_conv
        list.sel size op oreg simp_thms)
qed


lemma disassemble_generate:
  assumes op: "opcode_ok op" and gen: "cmd_generate op (a :: long) 0 = Some bs"
  shows "disassemble das (bs @ rest) =
    Inr (das_select das op a (take (cmd_maxlen - length bs) rest)
      \<lparr>das_size := length bs, das_dump := hex_dump bs\<rparr>)"
proof -
  have "length bs \<le> cmd_maxlen"
    using cmd_generate_length [OF _ gen] cmd_generate_fits [of op a 0] gen by simp
  then have w: "take cmd_maxlen (bs @ rest) = bs @ take (cmd_maxlen - length bs) rest"
    by simp
  have "bs \<noteq> []"
    using cmd_generate_decodes [OF op gen, of "[]"] by auto
  then have "hd (bs @ rest) \<noteq> opcode_pfix"
    using cmd_generate_first [OF op gen] by simp
  from disassemble_command [OF _ this, unfolded w, OF cmd_generate_decodes [OF op gen]]
  show ?thesis by (simp add: Let_def)
qed

lemma das_prefix_length: "das_prefix v p = (u, q) \<Longrightarrow> length q \<le> length p"
  by (induction v p rule: das_prefix.induct) (auto simp: le_SucI split: if_splits)

text \<open>Every call makes progress within the window.\<close>

lemma disassemble_progress:
  assumes "buf \<noteq> []"
  shows "\<exists>das'. disassemble das buf = Inr das' \<and> 1 \<le> das_size das' \<and>
    das_size das' \<le> min cmd_maxlen (length buf) \<and> das_dump das' = hex_dump (take (das_size das') buf)"
proof -
  let ?w = "take cmd_maxlen buf"
  obtain das' start where "disassemble das buf =
      Inr (das'\<lparr>das_size := Suc (length ?w - length start),
                das_dump := hex_dump (take (Suc (length ?w - length start)) ?w)\<rparr>)"
    and "start = ?w \<or> (\<exists>v. das_prefix 0 ?w = (v, start) \<and> start \<noteq> [])"
    using assms
    by (auto simp: disassemble_def Let_def simp del: take_eq_Nil split: prod.splits list.splits)
  moreover have "length start \<le> length ?w" "start \<noteq> []"
    using calculation(2) assms by (auto simp: cmd_maxlen_def dest!: das_prefix_length)
  ultimately show ?thesis
    by (cases start) (auto simp: min_def)
qed

section \<open>The image\<close>

text \<open>
  The loop of \<open>dast\<close>: the unread part of the buffer, the rest of the file behind it, and whether the end of the file
  has been met, which \<open>fread\<close> notices when it gets less than it was asked for.  A line is the address behind
  its command, to which a pc-relative operand is added.  The loop ends when the buffer is empty; it is filled up when it
  holds less than the longest command.
\<close>

definition refill :: "nat \<Rightarrow> byte list \<times> byte list \<times> bool \<Rightarrow> byte list \<times> byte list \<times> bool" where
  "refill bufsiz = (\<lambda>(buf, left, eof).
     if length buf < cmd_maxlen \<and> \<not> eof then (buf @ take bufsiz left, drop bufsiz left, length left < bufsiz)
     else (buf, left, eof))"

function dast_loop :: "nat \<Rightarrow> das \<Rightarrow> long \<Rightarrow> byte list \<Rightarrow> byte list \<Rightarrow> bool \<Rightarrow> (long \<times> das) list outcome" where
  "dast_loop bufsiz das point buf left eof =
     (if buf = [] then Inr []
      else case refill bufsiz (buf, left, eof) of
             (buf, left, eof) \<Rightarrow>
               (case disassemble das buf of
                  Inl s \<Rightarrow> Inl s
                | Inr das' \<Rightarrow>
                    let point' = point + of_nat (das_size das') in
                    obind (dast_loop bufsiz das' point' (drop (das_size das') buf) left eof) (\<lambda>rest.
                      Inr ((point', das') # rest))))"
  by pat_completeness auto
termination
proof (relation "measure (\<lambda>(_, _, _, buf, left, _). length buf + length left)", goal_cases)
  case (2 bufsiz das point buf left eof buf' r left' eof' das' point')
  then have "length buf' + length left' = length buf + length left" "buf' \<noteq> []"
    by (auto simp: refill_def split: if_splits)
  moreover have "length (drop (das_size das') buf') < length buf'"
    using disassemble_progress [of buf' das] 2 calculation(2) by (auto intro: diff_less)
  ultimately have "length (drop (das_size das') buf') + length left' < length buf + length left" by linarith
  then show ?case unfolding measure_def inv_image_def by simp
qed simp

declare dast_loop.simps [simp del]

definition dast :: "nat \<Rightarrow> das \<Rightarrow> byte list \<Rightarrow> (long \<times> das) list outcome" where
  "dast bufsiz das left = dast_loop bufsiz das 0 (take bufsiz left) (drop bufsiz left) (length left < bufsiz)"

text \<open>
  What the loop has read from the file is a multiple of the size of the buffer as long as the end of the file has not been met.
\<close>

lemma dast_loop_covers:
  assumes "cmd_maxlen \<le> bufsiz" "eof \<Longrightarrow> left = []" "buf = [] \<Longrightarrow> left = []"
  shows "\<exists>rs. dast_loop bufsiz das pt buf left eof = Inr rs \<and>
    (sum_list (map (das_size \<circ> snd) rs) = length buf + length left \<or>
     (\<exists>k. sum_list (map (das_size \<circ> snd) rs) = length buf + k * bufsiz \<and> length buf + k * bufsiz < length buf + length left) \<and> rs \<noteq> [] \<and> das_size (snd (last rs)) = cmd_maxlen)"
  using assms
proof (induction bufsiz das pt buf left eof rule: dast_loop.induct)
  case (1 bufsiz das pt buf left eof)
  show ?case
  proof (cases "buf = []")
    case True
    then show ?thesis using "1.prems" by (simp add: dast_loop.simps)
  next
    case False
    obtain buf' left' eof' where r: "refill bufsiz (buf, left, eof) = (buf', left', eof')" by (cases "refill bufsiz (buf, left, eof)")
    then have buf': "buf' \<noteq> []" and len: "length buf' + length left' = length buf + length left" and e: "eof' \<Longrightarrow> left' = []"
      and k: "\<exists>j. length buf' = length buf + j * bufsiz \<or> left' = []" and short: "length buf' < cmd_maxlen \<Longrightarrow> eof'"
      using False "1.prems" by (auto simp: refill_def split: if_splits intro: exI [of _ 0] exI [of _ "Suc 0"])
    obtain das' where d: "disassemble das buf' = Inr das'" "1 \<le> das_size das'" "das_size das' \<le> length buf'" "das_size das' \<le> cmd_maxlen"
      using disassemble_progress [of buf' das] buf' by auto
    let ?buf = "drop (das_size das') buf'" and ?pt = "pt + of_nat (das_size das')"
    show ?thesis
    proof (cases "?buf = [] \<and> left' \<noteq> []")
      case True
      then have sz: "das_size das' = cmd_maxlen" using d short e by (metis drop_eq_Nil le_antisym not_le)
      then obtain j where j: "length buf' = length buf + j * bufsiz" using k True by blast
      have "length buf' = das_size das'" using True d by simp
      then have "dast_loop bufsiz das pt buf left eof = Inr [(?pt, das')]"
        using True False r d by (simp add: dast_loop.simps [of bufsiz das pt] dast_loop.simps [of bufsiz das' _ "[]"] Let_def)
      then show ?thesis using sz j True len \<open>length buf' = das_size das'\<close> by (auto intro!: exI [of _ j])
    next
      case nil: False
      then have "?buf = [] \<Longrightarrow> left' = []" by blast
      with "1.IH" [OF False r [symmetric] refl d(1) refl "1.prems"(1)] e obtain rs where rs:
        "dast_loop bufsiz das' ?pt ?buf left' eof' = Inr rs"
        "sum_list (map (das_size \<circ> snd) rs) = length ?buf + length left' \<or>
          (\<exists>k. sum_list (map (das_size \<circ> snd) rs) = length ?buf + k * bufsiz \<and> length ?buf + k * bufsiz < length ?buf + length left') \<and> rs \<noteq> [] \<and> das_size (snd (last rs)) = cmd_maxlen"
        by blast
      have run: "dast_loop bufsiz das pt buf left eof = Inr ((?pt, das') # rs)"
        using False r d rs(1) by (simp add: dast_loop.simps [of bufsiz das pt] Let_def)
      from rs(2) show ?thesis
      proof (elim disjE conjE exE)
        assume "sum_list (map (das_size \<circ> snd) rs) = length ?buf + length left'"
        then show ?thesis using run len d(3) by (auto simp: comp_def)
      next
        fix i
        assume i: "sum_list (map (das_size \<circ> snd) rs) = length ?buf + i * bufsiz" "length ?buf + i * bufsiz < length ?buf + length left'"
          and last: "rs \<noteq> []" "das_size (snd (last rs)) = cmd_maxlen"
        from i(2) have "left' \<noteq> []" by auto
        with k obtain j where "length buf' = length buf + j * bufsiz" by blast
        then have "das_size das' + (length ?buf + i * bufsiz) = length buf + (j + i) * bufsiz" using d(3) by (simp add: algebra_simps)
        moreover from this i(2) have "length buf + (j + i) * bufsiz < length buf + length left" using len d(3) by simp
        ultimately show ?thesis using run i(1) last by (auto simp: comp_def)
      qed
    qed
  qed
qed

section \<open>Properties\<close>

text \<open>
  C8: The disassembler inverts the encoder: a direct command that \<open>cmd_generate\<close> emitted is
  shown with the mnemonic of its opcode, its operand, its length and its bytes, whatever
  follows it, as long as the command is not \<open>opr\<close> and is not taken for an FPU command.
\<close>

theorem disassemble_direct:
  assumes "opcode_ok op" "cmd_generate op (a :: long) 0 = Some bs" "op \<noteq> opcode_opr"
    "op = opcode_ldc \<longrightarrow> take 2 rest \<noteq> [0x20, 0xfb]"
  shows "disassemble das (bs @ rest) =
    Inr \<lparr>das_mnem = tab_direct ! unat op, das_hasarg = True, das_pcrel = tab_pcrel ! unat op,
         das_arg = a, das_size = length bs, das_dump = hex_dump bs\<rparr>"
proof -
  let ?next = "take (cmd_maxlen - length bs) rest"
  have "\<not> (op = opcode_ldc \<and> 1 < length ?next \<and> ?next ! 0 = 0x20 \<and> ?next ! 1 = 0xfb)"
    using assms(4) by (cases rest; cases "tl rest") (auto simp: numeral_2_eq_2)
  then show ?thesis
    using assms(3) by (auto simp: disassemble_generate [OF assms(1,2)] das_select_def)
qed

theorem disassemble_direct_witness:
  "disassemble das_static ([0x60, 0x8f] @ [0xf5]) =
    Inr \<lparr>das_mnem = tab_direct ! 0x80, das_hasarg = True, das_pcrel = tab_pcrel ! 0x80,
         das_arg = -1, das_size = 2, das_dump = hex_dump [0x60, 0x8f]\<rparr>"
proof -
  have "opcode_ok 0x80" "cmd_generate 0x80 (-1 :: long) 0 = Some [0x60, 0x8f]" by code_simp+
  from disassemble_direct [OF this] show ?thesis by simp
qed

text \<open>
  An indirect command is shown by name: \<open>opr\<close> with any operand the tables cover gives the
  table's entry for it, with no argument; an operand beyond the tables is shown as \<open>opr\<close>.
\<close>

theorem disassemble_indirect:
  assumes "cmd_generate opcode_opr (a :: long) 0 = Some bs"
  shows "\<exists>das'. disassemble das (bs @ rest) = Inr das' \<and> das_size das' = length bs \<and>
    (if 0 \<le> sint a \<and> sint a < 381
     then \<not> das_hasarg das' \<and> das_mnem das' = tab_indir ! nat (sint a)
     else if - 133 < sint a \<and> sint a < 0
     then \<not> das_hasarg das' \<and> das_mnem das' = tab_indir_negative ! nat (- sint a)
     else das_hasarg das' \<and> das_mnem das' = Some ''opr'' \<and> das_arg das' = a)"
proof -
  have ok: "opcode_ok opcode_opr" by code_simp
  have "length tab_indir = 381" "length tab_indir_negative = 133" "tab_direct ! 240 = Some ''opr''"
    by (simp_all add: tab_indir_def tab_indir_negative_def tab_direct_def nth_append)
  then show ?thesis
    by (simp add: disassemble_generate [OF ok assms] das_select_def)
qed

theorem disassemble_indirect_witness:
  "\<exists>das'. disassemble das_static ([0x60, 0xfb] @ [0x41]) = Inr das' \<and> das_mnem das' = Some ''tret''"
proof -
  have "cmd_generate opcode_opr (-5 :: long) 0 = Some [0x60, 0xfb]"
    and "tab_indir_negative ! 5 = Some ''tret''"
    by (code_simp, simp add: tab_indir_negative_def)
  with disassemble_indirect [OF this(1), of das_static "[0x41]"] show ?thesis by auto
qed

text \<open>
  C16: The loop of the disassembler ends on every image, and its commands cover the image byte for byte, unless a command
  of eight bytes empties the buffer where a reading of the file ended: then the loop takes this for the end of the image
  and leaves out everything behind a multiple of the size of the buffer.
\<close>

theorem dast_covers:
  assumes "cmd_maxlen \<le> bufsiz"
  shows "\<exists>rs. dast bufsiz das img = Inr rs \<and> (let n = sum_list (map (das_size \<circ> snd) rs) in
    n = length img \<or> n < length img \<and> bufsiz dvd n \<and> rs \<noteq> [] \<and> das_size (snd (last rs)) = cmd_maxlen)"
proof -
  have pos: "0 < bufsiz" using assms by (simp add: cmd_maxlen_def)
  have total: "length (take bufsiz img) + length (drop bufsiz img) = length img" by simp
  from dast_loop_covers [OF assms, of "length img < bufsiz" "drop bufsiz img" "take bufsiz img" das 0] obtain rs where
    rs: "dast bufsiz das img = Inr rs" "sum_list (map (das_size \<circ> snd) rs) = length img \<or>
     (\<exists>k. sum_list (map (das_size \<circ> snd) rs) = length (take bufsiz img) + k * bufsiz \<and> length (take bufsiz img) + k * bufsiz < length img)
       \<and> rs \<noteq> [] \<and> das_size (snd (last rs)) = cmd_maxlen"
    unfolding dast_def total using pos by auto
  from rs(2) show ?thesis
  proof (elim disjE conjE exE)
    fix k
    assume k: "sum_list (map (das_size \<circ> snd) rs) = length (take bufsiz img) + k * bufsiz" "length (take bufsiz img) + k * bufsiz < length img"
      "rs \<noteq> []" "das_size (snd (last rs)) = cmd_maxlen"
    then have "length (take bufsiz img) = bufsiz" by auto
    with k rs(1) show ?thesis by (auto simp: Let_def)
  qed (use rs(1) in simp)
qed

text \<open>With a buffer of eight bytes, an \<open>ldc\<close> of eight bytes is shown and the \<open>ldl\<close> behind it is not.\<close>

abbreviation sample_wide :: "byte list" where
  "sample_wide \<equiv> [0x21, 0x21, 0x21, 0x21, 0x21, 0x21, 0x21, 0x41, 0x71]"

lemma dast_stops_early:
  "(case dast 8 das_static sample_wide of Inr rs \<Rightarrow> map (das_mnem \<circ> snd) rs = [Some ''ldc''] \<and> sum_list (map (das_size \<circ> snd) rs) = 8 | Inl _ \<Rightarrow> False)"
  by code_simp

theorem dast_covers_witness:
  "\<exists>rs. dast 8 das_static sample_wide = Inr rs \<and> sum_list (map (das_size \<circ> snd) rs) = 8 \<and> das_size (snd (last rs)) = cmd_maxlen"
  using dast_covers [of 8 das_static sample_wide] dast_stops_early by (auto simp: cmd_maxlen_def)

text \<open>
  The lookup of FPU commands never applies to code of the assembler: in \<open>ldc n; fpentry\<close>
  the second command is encoded \<open>2a fb\<close>, while the disassembler looks for \<open>20 fb\<close>, so the
  \<open>ldc\<close> is shown as such, for every \<open>n\<close>; the byte sequence it does accept is \<open>ldc n\<close>, a
  meaningless \<open>pfix 0\<close> and \<open>out\<close>.
\<close>

lemma disassemble_fpu_unreachable:
  "cmd_generate opcode_opr opcode_fpentry 0 = Some [0x2a, 0xfb] \<and>
   (\<exists>bs. cmd_generate opcode_ldc (n :: long) 0 = Some bs \<and>
      (\<exists>das'. disassemble das (bs @ [0x2a, 0xfb] @ rest) = Inr das' \<and> das_mnem das' = Some ''ldc'')) \<and>
   (\<exists>das'. disassemble das [0x44, 0x20, 0xfb] = Inr das' \<and> das_mnem das' = Some ''fpurp'')"
proof (intro conjI)
  have ok: "opcode_ok opcode_ldc" by code_simp
  show "\<exists>bs. cmd_generate opcode_ldc (n :: long) 0 = Some bs \<and>
      (\<exists>das'. disassemble das (bs @ [0x2a, 0xfb] @ rest) = Inr das' \<and> das_mnem das' = Some ''ldc'')"
  proof -
    obtain bs where Some: "cmd_generate opcode_ldc n 0 = Some bs"
      using cmd_generate_long by blast
    have "tab_direct ! 64 = Some ''ldc''"
      by (simp add: tab_direct_def nth_append)
    then show ?thesis
      by (auto simp: Some disassemble_generate [OF ok Some] das_select_def nth_append)
  qed
next
  have "cmd_generate opcode_ldc (4 :: long) 0 = Some [0x44]" "opcode_ok opcode_ldc" by code_simp+
  moreover have "length tab_fpu = 157" "tab_fpu ! 4 = Some ''fpurp''"
    by (simp_all add: tab_fpu_def)
  ultimately show "\<exists>das'. disassemble das [0x44, 0x20, 0xfb] = Inr das' \<and> das_mnem das' = Some ''fpurp''"
    using disassemble_generate [of opcode_ldc 4 "[0x44]" das "[0x20, 0xfb]"]
    by (simp add: das_select_def cmd_maxlen_def)
qed code_simp

end
