(* ===== verification/Expr.thy ===== *)
theory Expr
  imports Prelude
begin

text \<open>
  Expressions (\<open>shared/expr.h\<close>, the first half of \<open>shared/expr.c\<close>): the tags, constant
  evaluation, comparison and the constructors.  An expression is the tree it denotes;
  nodes are shared and reference-counted in the source, which the tree abstracts from.
  The two places where the source's answer depends on sharing (\<open>e1->nrefs == 1\<close> in
  \<open>expr_binop\<close>, pointer equality in \<open>expr_equal\<close>) ask the state's oracle \<open>shared\<close>, so every theorem
  holds for every way the nodes may be shared.
\<close>

section \<open>Tags\<close>

datatype expr_tag =
    EXPR_CONST | EXPR_NAME
  | EXPR_NEG | EXPR_NOT | EXPR_COMPL
  | EXPR_MINUS | EXPR_PLUS
  | EXPR_LSH | EXPR_RSH
  | EXPR_MUL | EXPR_DIV | EXPR_REM
  | EXPR_AND | EXPR_XOR | EXPR_OR
  | EXPR_LT | EXPR_LE | EXPR_GT | EXPR_GE | EXPR_EQ | EXPR_NE
  | EXPR_ANDAND | EXPR_OROR
  | EXPR_QUEST | EXPR_COLON
  | EXPR_RANGE
  | EXPR_ELEMENT
  | EXPR_ELSUM

definition expr_tags :: "expr_tag list" where
  "expr_tags =
     [EXPR_CONST, EXPR_NAME, EXPR_NEG, EXPR_NOT, EXPR_COMPL, EXPR_MINUS, EXPR_PLUS, EXPR_LSH, EXPR_RSH,
      EXPR_MUL, EXPR_DIV, EXPR_REM, EXPR_AND, EXPR_XOR, EXPR_OR, EXPR_LT, EXPR_LE, EXPR_GT, EXPR_GE,
      EXPR_EQ, EXPR_NE, EXPR_ANDAND, EXPR_OROR, EXPR_QUEST, EXPR_COLON, EXPR_RANGE, EXPR_ELEMENT,
      EXPR_ELSUM]"

definition tag_isleaf :: "expr_tag \<Rightarrow> bool" where
  "tag_isleaf t \<longleftrightarrow>
     t = EXPR_CONST \<or> t = EXPR_NAME \<or> t = EXPR_RANGE \<or> t = EXPR_ELEMENT \<or> t = EXPR_ELSUM"

definition tag_isunary :: "expr_tag \<Rightarrow> bool" where
  "tag_isunary t \<longleftrightarrow> t = EXPR_NEG \<or> t = EXPR_NOT \<or> t = EXPR_COMPL"

definition tag_iscomm :: "expr_tag \<Rightarrow> bool" where
  "tag_iscomm t \<longleftrightarrow>
     t = EXPR_PLUS \<or> t = EXPR_MUL \<or> t = EXPR_AND \<or> t = EXPR_XOR \<or> t = EXPR_OR
     \<or> t = EXPR_ANDAND \<or> t = EXPR_OROR"

section \<open>Expressions\<close>

text \<open>
  \<open>struct expr\<close>.  Names and elements are indices into the tables of the state.  A range
  carries its identity: two range nodes with the same bounds stand for different values.
  \<open>Binop EXPR_QUEST c (Binop EXPR_COLON a b)\<close> is \<open>c ? a : b\<close>.
\<close>

datatype expr =
    Const (constval: long)
  | Name nat
  | Range nat (range_lo: long) (range_hi: long)
  | Element nat
  | Elsum "expr list"
  | Unop expr_tag expr
  | Binop expr_tag expr expr

fun tag_of :: "expr \<Rightarrow> expr_tag" where
  "tag_of (Const _) = EXPR_CONST"
| "tag_of (Name _) = EXPR_NAME"
| "tag_of (Range _ _ _) = EXPR_RANGE"
| "tag_of (Element _) = EXPR_ELEMENT"
| "tag_of (Elsum _) = EXPR_ELSUM"
| "tag_of (Unop t _) = t"
| "tag_of (Binop t _ _) = t"

fun is_const :: "expr \<Rightarrow> bool" where
  "is_const (Const _) = True"
| "is_const _ = False"

text \<open>
  The tables expressions refer to: the value, alignment and globality of a name (\<open>struct name\<close>
  in \<open>shared/misc.h\<close>), the size of an element (\<open>struct element\<close> in \<open>shared/ments.h\<close>), the count of
  diagnostics, and the sharing oracle with the number of questions it has answered.
  \<open>unsound\<close> counts, for the theorems only, the applications of those rules of the reducer
  that do not preserve values; no definition reads it.
\<close>

record est =
  name_val :: "nat \<Rightarrow> expr option"
  name_align :: "nat \<Rightarrow> long"
  name_global :: "nat \<Rightarrow> bool"
  el_size :: "nat \<Rightarrow> expr"
  errors :: nat
  shared :: "nat \<Rightarrow> bool"
  asked :: nat
  unsound :: nat

definition ask_shared :: "('x est_scheme, bool) step" where
  "ask_shared s = Inr (shared s (asked s), s\<lparr>asked := Suc (asked s)\<rparr>)"

definition report_error :: "('x est_scheme, unit) step" where
  "report_error s = Inr ((), s\<lparr>errors := Suc (errors s)\<rparr>)"

definition note_unsound :: "('x est_scheme, unit) step" where
  "note_unsound s = Inr ((), s\<lparr>unsound := Suc (unsound s)\<rparr>)"

section \<open>Constant evaluation\<close>

text \<open>
  The values of \<open>eval\<close>.  The source shifts by the operand as given; the processors it runs
  on take the count modulo 32.  C's \<open>/\<close> and \<open>%\<close> truncate.  Division by zero yields the left
  operand.
\<close>

definition eval_val :: "expr_tag \<Rightarrow> long \<Rightarrow> long \<Rightarrow> long" where
  "eval_val t l r =
     (case t of
        EXPR_NEG \<Rightarrow> - r
      | EXPR_NOT \<Rightarrow> of_truth (r = 0)
      | EXPR_COMPL \<Rightarrow> NOT r
      | EXPR_MINUS \<Rightarrow> l - r
      | EXPR_PLUS \<Rightarrow> l + r
      | EXPR_LSH \<Rightarrow> push_bit (unat (r AND 31)) l
      | EXPR_RSH \<Rightarrow> signed_drop_bit (unat (r AND 31)) l
      | EXPR_MUL \<Rightarrow> l * r
      | EXPR_DIV \<Rightarrow> if r = 0 then l else word_of_int (sint l sdiv sint r)
      | EXPR_REM \<Rightarrow> if r = 0 then l else word_of_int (sint l smod sint r)
      | EXPR_AND \<Rightarrow> l AND r
      | EXPR_XOR \<Rightarrow> l XOR r
      | EXPR_OR \<Rightarrow> l OR r
      | EXPR_LT \<Rightarrow> of_truth (l <s r)
      | EXPR_LE \<Rightarrow> of_truth (l \<le>s r)
      | EXPR_GT \<Rightarrow> of_truth (r <s l)
      | EXPR_GE \<Rightarrow> of_truth (r \<le>s l)
      | EXPR_EQ \<Rightarrow> of_truth (l = r)
      | EXPR_NE \<Rightarrow> of_truth (l \<noteq> r)
      | EXPR_ANDAND \<Rightarrow> of_truth (l \<noteq> 0 \<and> r \<noteq> 0)
      | EXPR_OROR \<Rightarrow> of_truth (l \<noteq> 0 \<or> r \<noteq> 0)
      | _ \<Rightarrow> 0)"

text \<open>
  \<open>eval\<close>: leaf tags, \<open>QUEST\<close> and \<open>COLON\<close> abort, a zero divisor is reported, and the one
  quotient that overflows traps.
\<close>

definition eval :: "expr_tag \<Rightarrow> long \<Rightarrow> long \<Rightarrow> ('x est_scheme, long) step" where
  "eval t l r =
     (if tag_isleaf t \<or> t = EXPR_QUEST \<or> t = EXPR_COLON then rstop Abort
      else if (t = EXPR_DIV \<or> t = EXPR_REM) \<and> r = 0
      then rbind report_error (\<lambda>_. rret (eval_val t l r))
      else if (t = EXPR_DIV \<or> t = EXPR_REM) \<and> l = long_min \<and> r = -1 then rstop Trap
      else rret (eval_val t l r))"

section \<open>Comparison\<close>

fun expr_equal :: "expr \<Rightarrow> expr \<Rightarrow> ('x est_scheme, bool) step" where
  "expr_equal (Const a) (Const b) = rret (a = b)"
| "expr_equal (Name a) (Name b) = rret (a = b)"
| "expr_equal (Element a) (Element b) = rret (a = b)"
| "expr_equal (Elsum xs) (Elsum ys) = (if xs = ys then ask_shared else rret False)"
| "expr_equal (Range i lo hi) (Range j lo' hi') =
     (if i = j \<and> lo = lo' \<and> hi = hi' then ask_shared else rret False)"
| "expr_equal (Unop t e) (Unop u f) = (if t = u then expr_equal e f else rret False)"
| "expr_equal (Binop t l r) (Binop u l' r') =
     (if t = u then rbind (expr_equal r r') (\<lambda>b. if b then expr_equal l l' else rret False)
      else rret False)"
| "expr_equal _ _ = rret False"

section \<open>Constructors\<close>

text \<open>\<open>expr_binop\<close>; the lifting of a constant asks whether the node of \<open>e1\<close> has one owner.\<close>

definition expr_binop_general :: "expr_tag \<Rightarrow> expr \<Rightarrow> expr \<Rightarrow> ('x est_scheme, expr) step" where
  "expr_binop_general t e1 e2 =
     (case e1 of
        Binop EXPR_PLUS x (Const c) \<Rightarrow>
          if t = EXPR_PLUS
          then case e2 of
                 Const d \<Rightarrow> rret (Binop EXPR_PLUS x (Const (c + d)))
               | _ \<Rightarrow> rbind ask_shared (\<lambda>sh.
                   rret (if \<not> sh then Binop EXPR_PLUS (Binop EXPR_PLUS x e2) (Const c)
                         else Binop t e1 e2))
          else rret (Binop t e1 e2)
      | _ \<Rightarrow> rret (Binop t e1 e2))"

definition expr_binop :: "expr_tag \<Rightarrow> expr \<Rightarrow> expr \<Rightarrow> ('x est_scheme, expr) step" where
  "expr_binop t e1 e2 =
     (case (e1, e2) of
        (Const a, Const b) \<Rightarrow> rbind (eval t a b) (\<lambda>v. rret (Const v))
      | _ \<Rightarrow> if tag_iscomm t \<and> is_const e1 then expr_binop_general t e2 e1
             else expr_binop_general t e1 e2)"

definition expr_unop :: "expr_tag \<Rightarrow> expr \<Rightarrow> ('x est_scheme, expr) step" where
  "expr_unop t e =
     (if t = EXPR_NEG then expr_binop EXPR_MINUS (Const 0) e
      else case e of
             Const v \<Rightarrow> rbind (eval t 0 v) (\<lambda>v'. rret (Const v'))
           | _ \<Rightarrow> rret (Unop t e))"

definition expr_questop :: "expr \<Rightarrow> expr \<Rightarrow> expr \<Rightarrow> expr" where
  "expr_questop cond iftrue ifnot =
     (case cond of
        Const c \<Rightarrow> if c \<noteq> 0 then iftrue else ifnot
      | _ \<Rightarrow> Binop EXPR_QUEST cond (Binop EXPR_COLON iftrue ifnot))"

text \<open>\<open>*e1p op= e2\<close>; the result is the new \<open>*e1p\<close>.\<close>

definition expr_asgop :: "expr_tag \<Rightarrow> expr \<Rightarrow> expr \<Rightarrow> ('x est_scheme, expr) step" where
  "expr_asgop t e1 e2 =
     (case e1 of
        Binop t1 x y \<Rightarrow>
          if t = EXPR_PLUS \<and> t1 = EXPR_PLUS \<and> is_const e2 \<and> is_const y
          then rret (Binop EXPR_PLUS x (Const (constval y + constval e2)))
          else if t = EXPR_MINUS \<and> t1 = EXPR_PLUS
          then rbind (expr_equal y e2) (\<lambda>eq. if eq then rret x else expr_binop t e1 e2)
          else expr_binop t e1 e2
      | _ \<Rightarrow> expr_binop t e1 e2)"

definition expr_plus_constant :: "expr \<Rightarrow> long \<Rightarrow> ('x est_scheme, expr) step" where
  "expr_plus_constant e n =
     (case e of
        Binop EXPR_PLUS x (Const c) \<Rightarrow> rret (Binop EXPR_PLUS x (Const (c + n)))
      | _ \<Rightarrow> expr_binop EXPR_PLUS e (Const n))"

text \<open>\<open>None\<close> is \<open>NULL\<close>: nothing to glue to.\<close>

fun expr_glue_element :: "expr \<Rightarrow> expr \<Rightarrow> ('x est_scheme, expr option) step" where
  "expr_glue_element (Elsum es) el = rret (Some (Elsum (es @ [el])))"
| "expr_glue_element (Element n) el = rret (Some (Elsum [Element n, el]))"
| "expr_glue_element (Binop t l r) el =
     (if t = EXPR_PLUS
      then rbind (expr_glue_element l el) (\<lambda>l'.
             case l' of
               Some l'' \<Rightarrow> rbind (expr_binop EXPR_PLUS l'' r) (\<lambda>e. rret (Some e))
             | None \<Rightarrow> rbind (expr_glue_element r el) (\<lambda>r'.
                 case r' of
                   Some r'' \<Rightarrow> rbind (expr_binop EXPR_PLUS l r'') (\<lambda>e. rret (Some e))
                 | None \<Rightarrow> rret None))
      else rret None)"
| "expr_glue_element _ el = rret None"

definition expr_plus_element :: "expr \<Rightarrow> nat \<Rightarrow> ('x est_scheme, expr) step" where
  "expr_plus_element e el =
     rbind (rget (\<lambda>s. el_size s el)) (\<lambda>size.
       case size of
         Const c \<Rightarrow> expr_plus_constant e c
       | _ \<Rightarrow> rbind (expr_glue_element e (Element el)) (\<lambda>g.
           case g of
             Some e' \<Rightarrow> rret e'
           | None \<Rightarrow> expr_asgop EXPR_PLUS e (Element el)))"

end
