(* ===== verification/ExprReduce.thy ===== *)
theory ExprReduce
  imports Expr
begin

text \<open>
  The reducer of expressions (\<open>expr_reduce\<close> and its helpers in \<open>shared/expr.c\<close>).  Rewriting a
  node in place becomes returning the new tree; the values of names and the sizes of
  elements, which \<open>expr_reduce\<close> also rewrites, are updated in the state.
\<close>

section \<open>Alignment\<close>

text \<open>
  \<open>expr_check_alignment\<close>: the low bits of the expression, or \<open>align\<close> itself when they are not
  known.  A cycle through names recurses for ever in the source: running out of fuel is \<open>Trap\<close>.
\<close>

fun expr_check_alignment :: "nat \<Rightarrow> 'x est_scheme \<Rightarrow> expr \<Rightarrow> long \<Rightarrow> long outcome" where
  "expr_check_alignment 0 s e align = Inl Trap"
| "expr_check_alignment (Suc fuel) s e align =
     (if align = 0 then Inl Abort
      else case e of
        Const c \<Rightarrow> Inr (c AND (align - 1))
      | Name n \<Rightarrow>
          if name_align s n \<noteq> 0 \<and> align \<le>s name_align s n then Inr 0
          else (case name_val s n of
                  Some v \<Rightarrow> if \<not> name_global s n then expr_check_alignment fuel s v align else Inr align
                | None \<Rightarrow> Inr align)
      | Binop t l r \<Rightarrow>
          if t = EXPR_PLUS \<or> t = EXPR_MINUS
          then obind (expr_check_alignment fuel s l align) (\<lambda>loffset.
               obind (expr_check_alignment fuel s r align) (\<lambda>roffset.
                 if loffset = align \<or> roffset = align then Inr align
                 else if t = EXPR_PLUS then Inr ((loffset + roffset) AND (align - 1))
                 else Inr ((loffset - roffset) AND (align - 1))))
          else Inr align
      | _ \<Rightarrow> Inr align)"

section \<open>Local rules\<close>

text \<open>
  \<open>expr_reduce_trivia\<close> on a unary or binary node: \<open>Some\<close> is the replacement (return value 1),
  and the second component the node with a constant swapped to the right (return value 0).
\<close>

definition identity_tags :: "expr_tag list" where
  "identity_tags = [EXPR_MINUS, EXPR_PLUS, EXPR_LSH, EXPR_RSH, EXPR_XOR, EXPR_OR, EXPR_OROR]"

definition trivia_align :: "nat \<Rightarrow> expr \<Rightarrow> ('x est_scheme, expr + expr) step" where
  "trivia_align fuel e =
     (case e of
        Binop EXPR_AND l (Const c) \<Rightarrow>
          let n = c + 1 in
          if n AND (n - 1) = 0
          then (\<lambda>s. obind (expr_check_alignment fuel s l n) (\<lambda>offset.
                 if offset <s n then Inr (Inl (Const offset), s) else Inr (Inr e, s)))
          else rret (Inr e)
      | _ \<Rightarrow> rret (Inr e))"

definition trivia_binary :: "nat \<Rightarrow> expr_tag \<Rightarrow> expr \<Rightarrow> expr \<Rightarrow> ('x est_scheme, expr + expr) step" where
  "trivia_binary fuel t l r =
     (if t \<in> set identity_tags \<and> r = Const 0
      then if t = EXPR_OROR then rbind note_unsound (\<lambda>_. rret (Inl l)) else rret (Inl l)
      else if (t = EXPR_MUL \<or> t = EXPR_DIV) \<and> r = Const 1 then rret (Inl l)
      else if (t = EXPR_MUL \<or> t = EXPR_AND) \<and> r = Const 0 then rret (Inl (Const 0))
      else if t = EXPR_ANDAND \<and> is_const r \<and> r \<noteq> Const 0
      then rbind note_unsound (\<lambda>_. rret (Inl l))
      else if t = EXPR_AND \<and> r = Const (-1) then rret (Inl l)
      else if t = EXPR_QUEST \<and> is_const l
      then (case r of
              Binop EXPR_COLON a b \<Rightarrow> rret (Inl (if l \<noteq> Const 0 then a else b))
            | _ \<Rightarrow> rstop Abort)
      else if (t = EXPR_DIV \<or> t = EXPR_REM) \<and> r = Const 0
      then rbind report_error (\<lambda>_. rbind report_error (\<lambda>_. rret (Inl l)))
      else trivia_align fuel (Binop t l r))"

definition expr_reduce_trivia :: "nat \<Rightarrow> expr \<Rightarrow> ('x est_scheme, expr + expr) step" where
  "expr_reduce_trivia fuel e =
     (case e of
        Unop t (Const c) \<Rightarrow> rbind (eval t 0 c) (\<lambda>v. rret (Inl (Const v)))
      | Binop t (Const a) (Const b) \<Rightarrow> rbind (eval t a b) (\<lambda>v. rret (Inl (Const v)))
      | Binop t l r \<Rightarrow>
          if tag_iscomm t \<and> is_const l then trivia_binary fuel t r l else trivia_binary fuel t l r
      | _ \<Rightarrow> rret (Inr e))"

section \<open>Sums of elements\<close>

text \<open>
  The first loop of \<open>expr_reduce_elsum\<close> splits the vector into the elements that stay and the
  sum of the sizes of the others.
\<close>

definition add_to_sum :: "expr option \<Rightarrow> expr \<Rightarrow> ('x est_scheme, expr option) step" where
  "add_to_sum acc e =
     (case acc of
        None \<Rightarrow> rret (Some e)
      | Some s \<Rightarrow> rbind (expr_asgop EXPR_PLUS s e) (\<lambda>s'. rret (Some s')))"

fun elsum_split :: "expr list \<Rightarrow> expr option \<Rightarrow> ('x est_scheme, expr list \<times> expr option) step" where
  "elsum_split [] acc = rret ([], acc)"
| "elsum_split (e # es) acc =
     (case e of
        Element n \<Rightarrow>
          rbind (rget (\<lambda>s. el_size s n)) (\<lambda>size.
            if tag_of size \<noteq> EXPR_RANGE
            then rbind (add_to_sum acc size) (\<lambda>acc'. elsum_split es acc')
            else rbind (elsum_split es acc) (\<lambda>(kept, acc'). rret (e # kept, acc')))
      | _ \<Rightarrow> rbind (add_to_sum acc e) (\<lambda>acc'. elsum_split es acc'))"

definition expr_reduce_elsum :: "expr list \<Rightarrow> ('x est_scheme, expr) step" where
  "expr_reduce_elsum es =
     rbind (elsum_split es None) (\<lambda>(kept, acc).
       if kept = []
       then (case acc of Some s \<Rightarrow> rret s | None \<Rightarrow> rstop Trap)
       else (case acc of
               Some s \<Rightarrow> rret (Binop EXPR_PLUS (Elsum kept) s)
             | None \<Rightarrow> rret (Elsum kept)))"

text \<open>
  \<open>substract_elsums\<close>: \<open>xcount\<close> of the elements in question is local to the call.
\<close>

fun elsum_count :: "expr list \<Rightarrow> (nat \<Rightarrow> int) \<Rightarrow> nat \<Rightarrow> int" where
  "elsum_count [] x = x"
| "elsum_count (Element n # es) x = elsum_count es (x(n := x n + 1))"
| "elsum_count (_ # es) x = elsum_count es x"

fun elsum_discount :: "expr list \<Rightarrow> (nat \<Rightarrow> int) \<Rightarrow> bool \<Rightarrow> (nat \<Rightarrow> int) \<times> bool" where
  "elsum_discount [] x found = (x, found)"
| "elsum_discount (Element n # es) x found = elsum_discount es (x(n := x n - 1)) (found \<or> 0 < x n)"
| "elsum_discount (_ # es) x found = elsum_discount es x found"

text \<open>Build the new left vector (\<open>d = -1\<close>: positive counts) or right one (\<open>d = 1\<close>: negative counts).\<close>

fun elsum_pick :: "int \<Rightarrow> expr list \<Rightarrow> (nat \<Rightarrow> int) \<Rightarrow> (expr list \<times> long \<times> (nat \<Rightarrow> int)) outcome" where
  "elsum_pick d [] x = Inr ([], 0, x)"
| "elsum_pick d (e # es) x =
     (case e of
        Element n \<Rightarrow>
          if d * x n < 0
          then obind (elsum_pick d es (x(n := x n + d))) (\<lambda>(kept, c, x'). Inr (e # kept, c, x'))
          else elsum_pick d es x
      | Const v \<Rightarrow> obind (elsum_pick d es x) (\<lambda>(kept, c, x'). Inr (kept, v + c, x'))
      | _ \<Rightarrow> Inl Abort)"

text \<open>
  The result of \<open>scan1\<close>, \<open>scan2\<close> and \<open>substract_elsums\<close>: the argument itself, \<open>NULL\<close>, or
  another expression.
\<close>

datatype scan_result = Same | Gone | New expr

definition substract_elsums :: "expr list \<Rightarrow> expr list \<Rightarrow> ('x est_scheme, scan_result) step" where
  "substract_elsums es1 es2 =
     (let x1 = elsum_count es1 (\<lambda>_. 0);
          (x2, found) = elsum_discount es2 x1 False
      in if \<not> found then rret Same
         else (\<lambda>s. obind (elsum_pick (-1) es1 x2) (\<lambda>(newl, c1, x3).
                    obind (elsum_pick 1 es2 x3) (\<lambda>(newr, c2, _).
                      let cnst = c1 - c2 in
                      rbind (if newl \<noteq> [] \<and> newr \<noteq> []
                             then rbind (expr_binop EXPR_MINUS (Elsum newl) (Elsum newr)) (\<lambda>e. rret (Some e))
                             else if newl \<noteq> [] then rret (Some (Elsum newl))
                             else if newr \<noteq> []
                             then rbind (expr_unop EXPR_NEG (Elsum newr)) (\<lambda>e. rret (Some e))
                             else rret None)
                        (\<lambda>newe.
                          if cnst \<noteq> 0
                          then (case newe of
                                  Some e \<Rightarrow> rbind (expr_binop EXPR_PLUS e (Const cnst)) (\<lambda>e'. rret (New e'))
                                | None \<Rightarrow> rret (New (Const cnst)))
                          else rret (case newe of Some e \<Rightarrow> New e | None \<Rightarrow> Gone)) s))))"

section \<open>Scanning\<close>

definition assoc_node :: "expr_tag \<Rightarrow> expr_tag \<Rightarrow> bool" where
  "assoc_node t op \<longleftrightarrow>
     t = op \<or> (op = EXPR_PLUS \<or> op = EXPR_MINUS) \<and> (t = EXPR_PLUS \<or> t = EXPR_MINUS)"

text \<open>The operation the right operand of a \<open>t\<close> node is combined with.\<close>

definition right_op :: "expr_tag \<Rightarrow> expr_tag \<Rightarrow> expr_tag" where
  "right_op t op = (if t = EXPR_MINUS then if op = EXPR_MINUS then EXPR_PLUS else EXPR_MINUS else op)"

definition scan2_leaf :: "expr \<Rightarrow> expr_tag \<Rightarrow> expr \<Rightarrow> ('x est_scheme, scan_result) step" where
  "scan2_leaf e op item =
     (case (e, item) of
        (Const a, Const b) \<Rightarrow> rbind (eval op a b) (\<lambda>v. rret (New (Const v)))
      | _ \<Rightarrow>
          rbind (if op = EXPR_MINUS \<or> op = EXPR_XOR then expr_equal e item else rret False) (\<lambda>eq.
            if eq then rret Gone
            else case (op, e, item) of
                   (EXPR_MINUS, Elsum es1, Elsum es2) \<Rightarrow> substract_elsums es1 es2
                 | _ \<Rightarrow> rret Same))"

fun scan2 :: "expr \<Rightarrow> expr_tag \<Rightarrow> expr \<Rightarrow> ('x est_scheme, scan_result) step" where
  "scan2 (Binop t l r) op item =
     (if assoc_node t op
      then rbind (scan2 l op item) (\<lambda>newl.
             case newl of
               Gone \<Rightarrow> if t = EXPR_MINUS then rbind (expr_unop EXPR_NEG r) (\<lambda>e. rret (New e))
                        else rret (New r)
             | New l' \<Rightarrow> rbind (expr_binop t l' r) (\<lambda>e. rret (New e))
             | Same \<Rightarrow> rbind (scan2 r (right_op t op) item) (\<lambda>newr.
                 case newr of
                   Gone \<Rightarrow> rret (New l)
                 | New r' \<Rightarrow> rbind (expr_binop t l r') (\<lambda>e. rret (New e))
                 | Same \<Rightarrow> rret Same))
      else scan2_leaf (Binop t l r) op item)"
| "scan2 e op item = scan2_leaf e op item"

text \<open>
  \<open>scan1\<close> passes the static variable \<open>scan_top\<close> through (\<open>None\<close> is \<open>NULL\<close>).  When the left operand
  of a node is gone, it returns the right one, also where the node is a subtraction.
\<close>

definition scan1_leaf :: "expr \<Rightarrow> expr_tag \<Rightarrow> expr \<Rightarrow> ('x est_scheme, scan_result \<times> expr option) step" where
  "scan1_leaf e op tp =
     rbind (scan2 tp op e) (\<lambda>newtop.
       case newtop of
         Same \<Rightarrow> rret (Same, Some tp)
       | Gone \<Rightarrow> rret (Gone, None)
       | New t \<Rightarrow> rret (Gone, Some t))"

definition scan1_join ::
  "expr_tag \<Rightarrow> expr \<Rightarrow> expr \<Rightarrow> scan_result \<Rightarrow> scan_result \<Rightarrow> ('x est_scheme, scan_result) step"
where
  "scan1_join t l r newl newr =
     (case (newl, newr) of
        (Same, Same) \<Rightarrow> rret Same
      | (Gone, Gone) \<Rightarrow> rret Gone
      | (Gone, Same) \<Rightarrow> rbind (if t = EXPR_MINUS then note_unsound else rret ()) (\<lambda>_. rret (New r))
      | (Gone, New r') \<Rightarrow> rbind (if t = EXPR_MINUS then note_unsound else rret ()) (\<lambda>_. rret (New r'))
      | (Same, Gone) \<Rightarrow> rret (New l)
      | (New l', Gone) \<Rightarrow> rret (New l')
      | (Same, New r') \<Rightarrow> rbind (expr_binop t l r') (\<lambda>e. rret (New e))
      | (New l', Same) \<Rightarrow> rbind (expr_binop t l' r) (\<lambda>e. rret (New e))
      | (New l', New r') \<Rightarrow> rbind (expr_binop t l' r') (\<lambda>e. rret (New e)))"

fun scan1 ::
  "expr \<Rightarrow> expr_tag \<Rightarrow> expr option \<Rightarrow> ('x est_scheme, scan_result \<times> expr option) step"
where
  "scan1 e op None = rret (Same, None)"
| "scan1 (Binop t l r) op (Some tp) =
     (if assoc_node t op
      then rbind (scan1 l op (Some tp)) (\<lambda>(newl, top1).
           rbind (scan1 r (right_op t op) top1) (\<lambda>(newr, top2).
           rbind (scan1_join t l r newl newr) (\<lambda>res. rret (res, top2))))
      else scan1_leaf (Binop t l r) op tp)"
| "scan1 e op (Some tp) = scan1_leaf e op tp"

section \<open>The reducer\<close>

definition assoc_tags :: "expr_tag list" where
  "assoc_tags = [EXPR_PLUS, EXPR_MINUS, EXPR_AND, EXPR_XOR, EXPR_OR]"

text \<open>The last step of \<open>expr_reduce\<close>: scan the right operand against the left one.\<close>

definition reduce_assoc :: "expr_tag \<Rightarrow> expr \<Rightarrow> expr \<Rightarrow> ('x est_scheme, expr) step" where
  "reduce_assoc t l r =
     rbind (scan1 r t (Some l)) (\<lambda>(res, newl).
       let newr = (case res of Same \<Rightarrow> Some r | Gone \<Rightarrow> None | New r' \<Rightarrow> Some r') in
       case (newl, newr) of
         (None, None) \<Rightarrow> rret (Const 0)
       | (None, Some r') \<Rightarrow> rret (if t = EXPR_MINUS then Binop t (Const 0) r' else r')
       | (Some l', None) \<Rightarrow> rret l'
       | (Some l', Some r') \<Rightarrow> rret (Binop t l' r'))"

definition reduce_node :: "nat \<Rightarrow> expr \<Rightarrow> ('x est_scheme, nat \<times> expr) step" where
  "reduce_node fuel e =
     rbind (expr_reduce_trivia fuel e) (\<lambda>res.
       let n = (case res of Inl _ \<Rightarrow> 1 | Inr _ \<Rightarrow> 0);
           e' = (case res of Inl x \<Rightarrow> x | Inr x \<Rightarrow> x)
       in case e' of
            Binop t l r \<Rightarrow>
              if t \<in> set assoc_tags then rbind (reduce_assoc t l r) (\<lambda>e''. rret (n, e''))
              else rret (n, e')
          | _ \<Rightarrow> rret (n, e'))"

text \<open>
  \<open>expr_reduce\<close> returns the count of reductions and the new tree.  The assertion on \<open>reent\<close>
  that stops the source in a cycle of names or elements is the end of the fuel.
\<close>

fun expr_reduce :: "nat \<Rightarrow> expr \<Rightarrow> ('x est_scheme, nat \<times> expr) step" where
  "expr_reduce 0 e = rstop Abort"
| "expr_reduce (Suc fuel) e =
     rbind (case e of Elsum es \<Rightarrow> expr_reduce_elsum es | _ \<Rightarrow> rret e) (\<lambda>e.
       case e of
         Name n \<Rightarrow>
           rbind (rget (\<lambda>s. if name_global s n then None else name_val s n)) (\<lambda>v.
             case v of
               None \<Rightarrow> rret (0, e)
             | Some v \<Rightarrow> rbind (expr_reduce fuel v) (\<lambda>(_, v').
                 rbind (rmodify (\<lambda>s. s\<lparr>name_val := (name_val s)(n := Some v')\<rparr>)) (\<lambda>_. rret (0, v'))))
       | Element n \<Rightarrow>
           rbind (rget (\<lambda>s. el_size s n)) (\<lambda>size.
             if tag_of size = EXPR_RANGE then rret (0, e)
             else rbind (expr_reduce fuel size) (\<lambda>(_, size').
                 rbind (rmodify (\<lambda>s. s\<lparr>el_size := (el_size s)(n := size')\<rparr>)) (\<lambda>_. rret (0, size'))))
       | Unop t r \<Rightarrow>
           rbind (expr_reduce fuel r) (\<lambda>(nr, r').
           rbind (reduce_node fuel (Unop t r')) (\<lambda>(n, e'). rret (nr + n, e')))
       | Binop t l r \<Rightarrow>
           rbind (expr_reduce fuel l) (\<lambda>(nl, l').
           rbind (expr_reduce fuel r) (\<lambda>(nr, r').
           rbind (reduce_node fuel (Binop t l' r')) (\<lambda>(n, e'). rret (nl + nr + n, e'))))
       | _ \<Rightarrow> rret (0, e))"

end
