(* ===== verification/ExprValue.thy ===== *)
theory ExprValue
  imports ExprReduce
begin

text \<open>
  The meaning of expressions, and that the constructors and the reducer keep it.  An
  environment gives the final values of names, ranges and elements; it agrees with a state
  when it satisfies the definitions, sizes and alignments the state records.
\<close>

section \<open>Values\<close>

record env =
  vname :: "nat \<Rightarrow> long"
  vrange :: "nat \<Rightarrow> long"
  vel :: "nat \<Rightarrow> long"

text \<open>
  The value of an expression, and the values of its operands, which a condition needs of its
  \<open>COLON\<close> node.
\<close>

primrec den :: "env \<Rightarrow> expr \<Rightarrow> long \<times> long \<times> long" where
  "den \<rho> (Const c) = (c, 0, 0)"
| "den \<rho> (Name n) = (vname \<rho> n, 0, 0)"
| "den \<rho> (Range i lo hi) = (vrange \<rho> i, 0, 0)"
| "den \<rho> (Element n) = (vel \<rho> n, 0, 0)"
| "den \<rho> (Elsum es) = (sum_list (map (\<lambda>e. fst (den \<rho> e)) es), 0, 0)"
| "den \<rho> (Unop t e) = (eval_val t 0 (fst (den \<rho> e)), 0, 0)"
| "den \<rho> (Binop t l r) =
     (if t = EXPR_QUEST then if fst (den \<rho> l) \<noteq> 0 then fst (snd (den \<rho> r)) else snd (snd (den \<rho> r))
      else eval_val t (fst (den \<rho> l)) (fst (den \<rho> r)),
      fst (den \<rho> l), fst (den \<rho> r))"

definition valof :: "env \<Rightarrow> expr \<Rightarrow> long" where
  "valof \<rho> e = fst (den \<rho> e)"

text \<open>
  Well-formed expressions: operator nodes carry operator tags (never \<open>NEG\<close>), and a \<open>COLON\<close> node,
  for which the flag stands, is found under \<open>QUEST\<close> only.
\<close>

fun wf_expr :: "bool \<Rightarrow> expr \<Rightarrow> bool" where
  "wf_expr colon (Binop t l r) =
     (if colon then t = EXPR_COLON \<and> wf_expr False l \<and> wf_expr False r
      else if t = EXPR_QUEST then wf_expr False l \<and> wf_expr True r
      else \<not> tag_isleaf t \<and> \<not> tag_isunary t \<and> t \<noteq> EXPR_COLON \<and> wf_expr False l \<and> wf_expr False r)"
| "wf_expr colon (Unop t e) = (\<not> colon \<and> (t = EXPR_NOT \<or> t = EXPR_COMPL) \<and> wf_expr False e)"
| "wf_expr colon (Elsum es) = (\<not> colon \<and> (\<forall>e\<in>set es. wf_expr False e))"
| "wf_expr colon _ = (\<not> colon)"

definition wf_tables :: "'x est_scheme \<Rightarrow> bool" where
  "wf_tables s \<longleftrightarrow>
     (\<forall>n v. name_val s n = Some v \<longrightarrow> wf_expr False v) \<and> (\<forall>n. wf_expr False (el_size s n))"

definition pow2 :: "long \<Rightarrow> bool" where
  "pow2 a \<longleftrightarrow> (\<exists>k < 31. a = 2 ^ k)"

definition agrees :: "env \<Rightarrow> 'x est_scheme \<Rightarrow> bool" where
  "agrees \<rho> s \<longleftrightarrow>
     (\<forall>n v. name_val s n = Some v \<longrightarrow> \<not> name_global s n \<longrightarrow> vname \<rho> n = valof \<rho> v) \<and>
     (\<forall>n. vel \<rho> n = valof \<rho> (el_size s n)) \<and>
     (\<forall>n. name_align s n \<noteq> 0 \<longrightarrow>
        pow2 (name_align s n) \<and> vname \<rho> n AND (name_align s n - 1) = 0)"

text \<open>What every helper of the reducer leaves alone.\<close>

definition same_tables :: "'x est_scheme \<Rightarrow> 'x est_scheme \<Rightarrow> bool" where
  "same_tables s t \<longleftrightarrow>
     name_val t = name_val s \<and> name_align t = name_align s \<and> name_global t = name_global s \<and>
     el_size t = el_size s \<and> est.more t = est.more s \<and> unsound s \<le> unsound t \<and> errors s \<le> errors t"

named_theorems valof_simps

lemma valof_leaf [valof_simps]:
  "valof \<rho> (Const c) = c" "valof \<rho> (Name n) = vname \<rho> n" "valof \<rho> (Range i lo hi) = vrange \<rho> i"
  "valof \<rho> (Element n) = vel \<rho> n"
  by (simp_all add: valof_def)

lemma valof_Elsum [valof_simps]: "valof \<rho> (Elsum es) = sum_list (map (valof \<rho>) es)"
  by (simp add: valof_def [abs_def])

lemma valof_Unop [valof_simps]: "valof \<rho> (Unop t e) = eval_val t 0 (valof \<rho> e)"
  by (simp add: valof_def)

lemma valof_Binop [valof_simps]:
  "t \<noteq> EXPR_QUEST \<Longrightarrow> valof \<rho> (Binop t l r) = eval_val t (valof \<rho> l) (valof \<rho> r)"
  by (simp add: valof_def)

lemma valof_Quest [valof_simps]:
  "valof \<rho> (Binop EXPR_QUEST l (Binop t a b)) = (if valof \<rho> l \<noteq> 0 then valof \<rho> a else valof \<rho> b)"
  by (simp add: valof_def)

lemma same_tables_refl [simp]: "same_tables s s"
  by (simp add: same_tables_def)

lemma same_tables_trans [trans]: "same_tables s t \<Longrightarrow> same_tables t u \<Longrightarrow> same_tables s u"
  by (simp add: same_tables_def)

lemma same_tables_transfer:
  assumes "same_tables s t"
  shows "agrees \<rho> t = agrees \<rho> s" "wf_tables t = wf_tables s"
  using assms by (simp_all add: same_tables_def agrees_def wf_tables_def)

section \<open>Constructors\<close>

lemma ask_shared_Inr [outcome_iff]:
  "ask_shared s = Inr (b, t) \<longleftrightarrow> b = shared s (asked s) \<and> t = s\<lparr>asked := Suc (asked s)\<rparr>"
  by (auto simp: ask_shared_def)

lemma report_error_Inr [outcome_iff]:
  "report_error s = Inr (b, t) \<longleftrightarrow> t = s\<lparr>errors := Suc (errors s)\<rparr>"
  by (auto simp: report_error_def)

lemma note_unsound_Inr [outcome_iff]:
  "note_unsound s = Inr (b, t) \<longleftrightarrow> t = s\<lparr>unsound := Suc (unsound s)\<rparr>"
  by (auto simp: note_unsound_def)

lemma same_tables_update [simp]:
  "same_tables s (s\<lparr>asked := a\<rparr>)" "same_tables s (s\<lparr>errors := Suc (errors s)\<rparr>)"
  "same_tables s (s\<lparr>unsound := Suc (unsound s)\<rparr>)"
  by (simp_all add: same_tables_def)

text \<open>What the constructors do to the state.\<close>

definition calm :: "'x est_scheme \<Rightarrow> 'x est_scheme \<Rightarrow> bool" where
  "calm s t \<longleftrightarrow> same_tables s t \<and> unsound t = unsound s"

lemma calm_refl [simp]: "calm s s"
  by (simp add: calm_def)

lemma calm_trans [trans]: "calm s t \<Longrightarrow> calm t u \<Longrightarrow> calm s u"
  by (auto simp: calm_def intro: same_tables_trans)

lemma calm_update [simp]: "calm s (s\<lparr>asked := a\<rparr>)" "calm s (s\<lparr>errors := Suc (errors s)\<rparr>)"
  by (simp_all add: calm_def same_tables_def)

definition bin_tag :: "expr_tag \<Rightarrow> bool" where
  "bin_tag t \<longleftrightarrow> \<not> tag_isleaf t \<and> \<not> tag_isunary t \<and> t \<noteq> EXPR_COLON \<and> t \<noteq> EXPR_QUEST"

lemma bin_tag_PLUS [simp]: "bin_tag EXPR_PLUS" "bin_tag EXPR_MINUS"
  by (simp_all add: bin_tag_def tag_isleaf_def tag_isunary_def)

lemma wf_Binop: "bin_tag t \<Longrightarrow> wf_expr False (Binop t l r) \<longleftrightarrow> wf_expr False l \<and> wf_expr False r"
  by (auto simp: bin_tag_def)

lemma valof_bin: "bin_tag t \<Longrightarrow> valof \<rho> (Binop t l r) = eval_val t (valof \<rho> l) (valof \<rho> r)"
  by (auto simp: bin_tag_def valof_simps)

lemma eval_val_PLUS [simp]: "eval_val EXPR_PLUS a b = a + b" "eval_val EXPR_MINUS a b = a - b"
  by (simp_all add: eval_val_def)

lemma eval_sound:
  "eval t l r s = Inr (v, s') \<Longrightarrow> v = eval_val t l r \<and> calm s s'"
  by (auto simp: eval_def outcome_iff split: if_splits)

lemma eval_val_comm: "tag_iscomm t \<Longrightarrow> eval_val t a b = eval_val t b a"
  by (cases t)
    (auto simp: tag_iscomm_def eval_val_def of_truth_def add.commute mult.commute and.commute
      xor.commute or.commute)

lemma expr_equal_sound:
  "expr_equal e f s = Inr (b, s') \<Longrightarrow> (b \<longrightarrow> e = f) \<and> calm s s'"
  by (induction e f arbitrary: s s' b rule: expr_equal.induct)
    (auto simp: outcome_iff split: if_splits, (metis calm_trans)+)

lemma expr_binop_general_sound:
  assumes "expr_binop_general t e1 e2 s = Inr (e, s')" "bin_tag t" "wf_expr False e1" "wf_expr False e2"
  shows "wf_expr False e \<and> valof \<rho> e = eval_val t (valof \<rho> e1) (valof \<rho> e2) \<and> calm s s'"
proof (cases "\<exists>x c. e1 = Binop EXPR_PLUS x (Const c) \<and> t = EXPR_PLUS")
  case True
  then obtain x c where [simp]: "e1 = Binop EXPR_PLUS x (Const c)" "t = EXPR_PLUS" by blast
  show ?thesis
    using assms
    by (cases e2)
      (auto simp: expr_binop_general_def outcome_iff valof_bin wf_Binop valof_simps algebra_simps
        simp del: wf_expr.simps(1) split: if_splits)
next
  case False
  then have "e = Binop t e1 e2 \<and> s' = s"
    using assms(1)
    by (auto simp: expr_binop_general_def outcome_iff split: expr.splits expr_tag.splits if_splits)
  with assms show ?thesis
    by (simp add: valof_bin wf_Binop del: wf_expr.simps)
qed

lemma expr_binop_sound:
  assumes "expr_binop t e1 e2 s = Inr (e, s')" "bin_tag t" "wf_expr False e1" "wf_expr False e2"
  shows "wf_expr False e \<and> valof \<rho> e = eval_val t (valof \<rho> e1) (valof \<rho> e2) \<and> calm s s'"
proof (cases "is_const e1 \<and> is_const e2")
  case True
  then obtain a b where [simp]: "e1 = Const a" "e2 = Const b"
    by (cases e1; cases e2) auto
  show ?thesis
    using assms(1) by (auto simp: expr_binop_def outcome_iff valof_simps dest!: eval_sound)
next
  case False
  then have "expr_binop t e1 e2 s =
      (if tag_iscomm t \<and> is_const e1 then expr_binop_general t e2 e1 s else expr_binop_general t e1 e2 s)"
    by (cases e1; cases e2) (auto simp: expr_binop_def)
  then show ?thesis
    using assms expr_binop_general_sound [of t e1 e2 s e s' \<rho>] expr_binop_general_sound [of t e2 e1 s e s' \<rho>]
      eval_val_comm [of t "valof \<rho> e1" "valof \<rho> e2"]
    by (auto split: if_splits)
qed

lemma expr_unop_sound:
  assumes "expr_unop t e s = Inr (e', s')" "tag_isunary t" "wf_expr False e"
  shows "wf_expr False e' \<and> valof \<rho> e' = eval_val t 0 (valof \<rho> e) \<and> calm s s'"
proof (cases "t = EXPR_NEG")
  case True
  then show ?thesis
    using assms expr_binop_sound [of EXPR_MINUS "Const 0" e s e' s' \<rho>]
    by (simp add: expr_unop_def valof_simps eval_val_def)
next
  case False
  then show ?thesis
    using assms
    by (cases e) (auto simp: expr_unop_def outcome_iff valof_simps tag_isunary_def dest!: eval_sound)
qed

lemma is_const_iff: "is_const e \<longleftrightarrow> (\<exists>c. e = Const c)"
  by (cases e) auto

lemma expr_asgop_sound:
  assumes "expr_asgop t e1 e2 s = Inr (e, s')" "bin_tag t" "wf_expr False e1" "wf_expr False e2"
  shows "wf_expr False e \<and> valof \<rho> e = eval_val t (valof \<rho> e1) (valof \<rho> e2) \<and> calm s s'"
proof -
  consider (plus) x c d where "t = EXPR_PLUS" "e1 = Binop EXPR_PLUS x (Const c)" "e2 = Const d"
    | (minus) x y where "t = EXPR_MINUS" "e1 = Binop EXPR_PLUS x y"
    | (other) "\<nexists>x c d. t = EXPR_PLUS \<and> e1 = Binop EXPR_PLUS x (Const c) \<and> e2 = Const d"
      "\<nexists>x y. t = EXPR_MINUS \<and> e1 = Binop EXPR_PLUS x y"
    by blast
  then show ?thesis
  proof cases
    case plus
    with assms show ?thesis
      by (auto simp: expr_asgop_def outcome_iff valof_simps algebra_simps)
  next
    case minus
    with assms(1) obtain eq s1 where eq: "expr_equal y e2 s = Inr (eq, s1)"
      and rest: "(if eq then rret x else expr_binop t e1 e2) s1 = Inr (e, s')"
      by (auto simp: expr_asgop_def outcome_iff)
    show ?thesis
    proof (cases eq)
      case True
      with eq rest minus assms(3) expr_equal_sound [OF eq] show ?thesis
        by (auto simp: outcome_iff valof_simps)
    next
      case False
      with rest have "expr_binop t e1 e2 s1 = Inr (e, s')" by simp
      from expr_binop_sound [OF this assms(2-4), of \<rho>] expr_equal_sound [OF eq] show ?thesis
        by (auto intro: calm_trans)
    qed
  next
    case other
    then have "expr_asgop t e1 e2 s = expr_binop t e1 e2 s"
      by (cases e1) (auto simp: expr_asgop_def is_const_iff)
    with assms expr_binop_sound show ?thesis by metis
  qed
qed

section \<open>Alignment\<close>

lemma pow2_mask: "pow2 a \<Longrightarrow> \<exists>k < 31. a - 1 = mask k"
  by (auto simp: pow2_def mask_eq_exp_minus_1)

lemma and_mask_add: "((a AND mask k) + (b AND mask k)) AND mask k = (a + b) AND mask k" for a :: long
  by (simp add: mask_eqs)

lemma and_mask_diff: "((a AND mask k) - (b AND mask k)) AND mask k = (a - b) AND mask k" for a :: long
  by (simp add: mask_eqs)

lemma pow2_le_clear:
  assumes "pow2 a" "pow2 b" "b \<le>s a" "x AND (a - 1) = 0"
  shows "x AND (b - 1) = 0"
proof -
  obtain j k where jk: "j < 31" "a = 2 ^ j" "k < 31" "b = 2 ^ k"
    using assms(1,2) by (auto simp: pow2_def)
  have "sint (2 ^ i :: long) = 2 ^ i" if "i < 31" for i
  proof -
    have "(2::int) ^ i < 2 ^ 31" using that by (intro power_strict_increasing) auto
    moreover have "- (2 ^ 31) \<le> (2::int) ^ i"
      by (rule order.trans [of _ 0]) simp_all
    ultimately have "sint (word_of_int (2 ^ i) :: long) = 2 ^ i"
      by (intro sint_word_of_int_eq) simp_all
    then show ?thesis by simp
  qed
  with jk assms(3) have "(2::int) ^ k \<le> 2 ^ j" by (simp add: word_sle_eq)
  then have "k \<le> j" by simp
  have "x AND mask j = 0" using assms(4) jk by (simp add: mask_eq_exp_minus_1)
  have "\<not> bit x i" if "i < j" for i
  proof
    assume "bit x i"
    then have "bit (x AND mask j) i" using that jk(1) by (simp add: bit_simps)
    then show False unfolding \<open>x AND mask j = 0\<close> by simp
  qed
  then have "x AND mask k = 0"
    using \<open>k \<le> j\<close> by (intro bit_word_eqI) (auto simp: bit_simps)
  then show ?thesis using jk by (simp add: mask_eq_exp_minus_1)
qed

lemma agreesD:
  assumes "agrees \<rho> s"
  shows "name_val s n = Some v \<Longrightarrow> \<not> name_global s n \<Longrightarrow> vname \<rho> n = valof \<rho> v"
    and "vel \<rho> k = valof \<rho> (el_size s k)"
    and "name_align s n \<noteq> 0 \<Longrightarrow> pow2 (name_align s n)"
    and "name_align s n \<noteq> 0 \<Longrightarrow> vname \<rho> n AND (name_align s n - 1) = 0"
  using assms by (simp_all add: agrees_def)

text \<open>Alignments do not depend on the sizes of elements.\<close>

definition names_agree :: "env \<Rightarrow> 'x est_scheme \<Rightarrow> bool" where
  "names_agree \<rho> s \<longleftrightarrow>
     (\<forall>n v. name_val s n = Some v \<longrightarrow> \<not> name_global s n \<longrightarrow> vname \<rho> n = valof \<rho> v) \<and>
     (\<forall>n. name_align s n \<noteq> 0 \<longrightarrow>
        pow2 (name_align s n) \<and> vname \<rho> n AND (name_align s n - 1) = 0)"

lemma names_agreeD:
  assumes "names_agree \<rho> s"
  shows "name_val s n = Some v \<Longrightarrow> \<not> name_global s n \<Longrightarrow> vname \<rho> n = valof \<rho> v"
    and "name_align s n \<noteq> 0 \<Longrightarrow> pow2 (name_align s n)"
    and "name_align s n \<noteq> 0 \<Longrightarrow> vname \<rho> n AND (name_align s n - 1) = 0"
  using assms by (simp_all add: names_agree_def)

lemma check_alignment_names:
  assumes ag: "names_agree \<rho> s" and al: "pow2 align"
  shows "expr_check_alignment fuel s e align = Inr off \<Longrightarrow> off \<noteq> align \<Longrightarrow>
    valof \<rho> e AND (align - 1) = off"
proof (induction fuel arbitrary: e off)
  case (Suc fuel)
  have nz: "align \<noteq> 0" using Suc.prems(1) by auto
  show ?case
  proof (cases e)
    case (Name n)
    show ?thesis
    proof (cases "name_align s n \<noteq> 0 \<and> align \<le>s name_align s n")
      case True
      with pow2_le_clear [OF names_agreeD(2) [OF ag] al _ names_agreeD(3) [OF ag]] Suc.prems Name nz
      show ?thesis by (simp add: valof_simps)
    next
      case False
      with Suc.prems Name nz obtain v where "name_val s n = Some v" "\<not> name_global s n"
        "expr_check_alignment fuel s v align = Inr off"
        by (auto split: option.splits if_splits)
      with Suc.IH [OF this(3) Suc.prems(2)] names_agreeD(1) [OF ag] Name show ?thesis
        by (simp add: valof_simps)
    qed
  next
    case (Binop t l r)
    with Suc.prems nz obtain lo ro where t: "t = EXPR_PLUS \<or> t = EXPR_MINUS"
      and lo: "expr_check_alignment fuel s l align = Inr lo" "lo \<noteq> align"
      and ro: "expr_check_alignment fuel s r align = Inr ro" "ro \<noteq> align"
      and off: "off = (if t = EXPR_PLUS then (lo + ro) AND (align - 1) else (lo - ro) AND (align - 1))"
      by (auto simp: outcome_iff split: if_splits)
    obtain k where k: "align - 1 = mask k" using pow2_mask [OF al] by blast
    show ?thesis
      using t unfolding Binop off
      by (auto simp: valof_simps Suc.IH [OF lo, symmetric] Suc.IH [OF ro, symmetric] k
          and_mask_add and_mask_diff)
  qed (use Suc.prems nz in \<open>auto simp: valof_simps\<close>)
qed simp

lemma check_alignment_sound:
  assumes "agrees \<rho> s" "pow2 align" "expr_check_alignment fuel s e align = Inr off" "off \<noteq> align"
  shows "valof \<rho> e AND (align - 1) = off"
  using assms check_alignment_names [of \<rho> s align fuel e off]
  by (simp add: agrees_def names_agree_def)

section \<open>Local rules\<close>

lemma eval_val_identity:
  "t \<in> set identity_tags \<Longrightarrow> t \<noteq> EXPR_OROR \<Longrightarrow> eval_val t x 0 = x"
  by (auto simp: identity_tags_def eval_val_def)

lemma eval_val_one: "eval_val EXPR_MUL x 1 = x" "eval_val EXPR_DIV x 1 = x"
  by (simp_all add: eval_val_def)

lemma eval_val_absorb: "eval_val EXPR_MUL x 0 = 0" "eval_val EXPR_AND x 0 = 0"
  "eval_val EXPR_AND x (-1) = x" "eval_val EXPR_DIV x 0 = x" "eval_val EXPR_REM x 0 = x"
  by (simp_all add: eval_val_def)

definition preserves :: "env \<Rightarrow> expr \<Rightarrow> 'x est_scheme \<Rightarrow> expr \<Rightarrow> 'x est_scheme \<Rightarrow> bool" where
  "preserves \<rho> e s e' s' \<longleftrightarrow> wf_expr False e' \<and> valof \<rho> e' = valof \<rho> e \<and> calm s s'"

lemma identity_bin: "t \<in> set identity_tags \<Longrightarrow> bin_tag t"
  by (auto simp: identity_tags_def bin_tag_def tag_isleaf_def tag_isunary_def)

lemma and_pred_power:
  "0 < n \<Longrightarrow> n AND (n - 1) = 0 \<Longrightarrow> \<exists>k. n = 2 ^ k" for n :: nat
proof (induction n rule: less_induct)
  case (less n)
  have step: "n AND (n - 1) = of_bool (odd n \<and> odd (n - 1)) + 2 * ((n div 2) AND ((n - 1) div 2))"
    by (rule and_rec)
  show ?case
  proof (cases "odd n")
    case True
    then obtain m where n: "n = 2 * m + 1" by (elim oddE)
    with step less.prems(2) have "m AND m = 0" by simp
    then show ?thesis using n by (intro exI [of _ 0]) simp
  next
    case False
    then obtain m where n: "n = 2 * m" by (auto elim: evenE)
    then have "m > 0" "(n - 1) div 2 = m - 1" using less.prems(1) by auto
    with n step less.prems have "m AND (m - 1) = 0" by simp
    from less.IH [OF _ \<open>m > 0\<close> this] n \<open>m > 0\<close> obtain k where "m = 2 ^ k" by auto
    then show ?thesis using n by (intro exI [of _ "Suc k"]) simp
  qed
qed

lemma pow2_of_mask:
  fixes n :: long
  assumes "n AND (n - 1) = 0" "0 <s n"
  shows "pow2 n"
proof -
  have "n \<noteq> 0" using assms(2) by auto
  then have u: "unat (n - 1) = unat n - 1" by (simp add: unat_minus_one)
  have "unat n AND (unat n - 1) = unat (n AND (n - 1))"
    by (simp only: unsigned_and_eq u)
  then have "unat n AND (unat n - 1) = 0" using assms(1) by simp
  moreover have "0 < unat n" using \<open>n \<noteq> 0\<close> by (simp add: unat_gt_0)
  ultimately obtain k where k: "unat n = 2 ^ k" using and_pred_power by blast
  have "int (unat n) < 2 ^ 31"
    using unat_sint [of n] assms(2) sint_lt [of n] by (simp add: word_sless_alt)
  then have "int (unat n) < 2147483648" by simp
  then have "unat n < 2147483648" by linarith
  then have "(2::nat) ^ k < 2 ^ 31" by (simp add: k)
  then have "k < 31" by (rule power_less_imp_less_exp [rotated]) simp
  moreover have "n = 2 ^ k"
    using k by (metis of_nat_numeral of_nat_power of_nat_unat ucast_id)
  ultimately show ?thesis by (auto simp: pow2_def)
qed

lemma trivia_align_sound:
  assumes ag: "agrees \<rho> s" and run: "trivia_align fuel e s = Inr (res, s')" and wf: "wf_expr False e"
  shows "preserves \<rho> e s (case res of Inl x \<Rightarrow> x | Inr x \<Rightarrow> x) s'"
proof -
  consider (unchanged) "res = Inr e" "s' = s"
    | (known) l c off where "e = Binop EXPR_AND l (Const c)" "(c + 1) AND c = 0"
      "expr_check_alignment fuel s l (c + 1) = Inr off" "off <s c + 1" "res = Inl (Const off)" "s' = s"
    using run
    by (auto simp: trivia_align_def outcome_iff Let_def split: expr.splits expr_tag.splits if_splits)
  then show ?thesis
  proof cases
    case unchanged
    then show ?thesis using wf by (simp add: preserves_def)
  next
    case known
    let ?n = "c + 1"
    have "?n \<noteq> 0"
      using known(3) by (cases fuel) auto
    have "0 <s ?n"
    proof (rule ccontr)
      assume "\<not> 0 <s ?n"
      with \<open>?n \<noteq> 0\<close> have neg: "sint ?n < 0"
        by (metis linorder_neqE_linordered_idom sint_0 word_sless_alt signed_0 signed_word_eqI)
      moreover have "- (2 ^ 31) < sint ?n"
        using known(4) sint_ge [of off] by (simp add: word_sless_alt)
      ultimately have "sint (?n - 1) = sint ?n - 1"
        using sint_diff_eq [of ?n 1] by simp
      with neg have "bit (?n AND (?n - 1)) 31"
        using bit_last_iff [of ?n] bit_last_iff [of "?n - 1"] by (simp add: bit_and_iff)
      with known(2) show False by simp
    qed
    then have "pow2 ?n" using known(2) by (intro pow2_of_mask) simp_all
    moreover have "off \<noteq> ?n" using known(4) by auto
    ultimately have "valof \<rho> l AND (?n - 1) = off"
      using check_alignment_sound [OF ag _ known(3)] by blast
    with known show ?thesis
      by (simp add: preserves_def valof_simps eval_val_def)
  qed
qed

lemma calm_same_tables: "calm s t \<Longrightarrow> same_tables s t"
  by (simp add: calm_def)

text \<open>
  A rule keeps well-formedness and the tables, and the value as well unless it is one of
  those counted in \<open>unsound\<close>.
\<close>

definition keeps :: "env \<Rightarrow> expr \<Rightarrow> 'x est_scheme \<Rightarrow> expr \<Rightarrow> 'x est_scheme \<Rightarrow> bool" where
  "keeps \<rho> e s e' s' \<longleftrightarrow>
     wf_expr False e' \<and> same_tables s s' \<and> (unsound s' = unsound s \<longrightarrow> valof \<rho> e' = valof \<rho> e)"

lemma preserves_keeps: "preserves \<rho> e s e' s' \<Longrightarrow> keeps \<rho> e s e' s'"
  by (simp add: preserves_def keeps_def calm_def)

lemma trivia_binary_sound:
  assumes ag: "agrees \<rho> s" and run: "trivia_binary fuel t l r s = Inr (res, s')"
    and wf: "wf_expr False (Binop t l r)"
  shows "keeps \<rho> (Binop t l r) s (case res of Inl x \<Rightarrow> x | Inr x \<Rightarrow> x) s'"
proof (cases "t = EXPR_QUEST")
  case True
  with wf obtain a b where r: "r = Binop EXPR_COLON a b" "wf_expr False a" "wf_expr False b"
    by (cases r) auto
  show ?thesis
  proof (cases "is_const l")
    case True
    with r run \<open>t = EXPR_QUEST\<close> show ?thesis
      by (auto simp: trivia_binary_def identity_tags_def outcome_iff keeps_def valof_simps is_const_iff)
  next
    case False
    with r run \<open>t = EXPR_QUEST\<close> wf show ?thesis
      by (auto simp: trivia_binary_def trivia_align_def identity_tags_def outcome_iff keeps_def)
  qed
next
  case False
  with wf have t: "bin_tag t" and lr: "wf_expr False l" "wf_expr False r"
    by (auto simp: bin_tag_def)
  note vals = valof_bin [OF t] valof_simps(1)
  consider (id) "t \<in> set identity_tags" "r = Const 0"
    | (one) "t = EXPR_MUL \<or> t = EXPR_DIV" "r = Const 1"
    | (zero) "t = EXPR_MUL \<or> t = EXPR_AND" "r = Const 0"
    | (andand) "t = EXPR_ANDAND" "is_const r" "r \<noteq> Const 0"
    | (mask) "t = EXPR_AND" "r = Const (-1)"
    | (div0) "t = EXPR_DIV \<or> t = EXPR_REM" "r = Const 0"
    | (align) "\<not> (t \<in> set identity_tags \<and> r = Const 0)" "\<not> ((t = EXPR_MUL \<or> t = EXPR_DIV) \<and> r = Const 1)"
      "\<not> ((t = EXPR_MUL \<or> t = EXPR_AND) \<and> r = Const 0)"
      "\<not> (t = EXPR_ANDAND \<and> is_const r \<and> r \<noteq> Const 0)" "\<not> (t = EXPR_AND \<and> r = Const (-1))"
      "\<not> ((t = EXPR_DIV \<or> t = EXPR_REM) \<and> r = Const 0)"
    by argo
  then show ?thesis
  proof cases
    case id
    with run lr show ?thesis
      by (cases "t = EXPR_OROR")
        (auto simp: trivia_binary_def outcome_iff keeps_def vals eval_val_identity)
  next
    case align
    with False have "trivia_binary fuel t l r s = trivia_align fuel (Binop t l r) s"
      by (simp only: trivia_binary_def if_False simp_thms)
    with trivia_align_sound [OF ag _ wf] run show ?thesis by (auto intro: preserves_keeps)
  qed (use run lr False in \<open>auto simp: trivia_binary_def identity_tags_def outcome_iff keeps_def
      valof_simps eval_val_one eval_val_absorb same_tables_def\<close>)
qed

lemma expr_reduce_trivia_sound:
  assumes ag: "agrees \<rho> s" and run: "expr_reduce_trivia fuel e s = Inr (res, s')"
    and wf: "wf_expr False e"
  shows "keeps \<rho> e s (case res of Inl x \<Rightarrow> x | Inr x \<Rightarrow> x) s'"
proof (cases e)
  case (Unop t r)
  with run wf show ?thesis
    by (cases r) (auto simp: expr_reduce_trivia_def outcome_iff keeps_def valof_simps calm_def
        dest!: eval_sound)
next
  case (Binop t l r)
  show ?thesis
  proof (cases "is_const l \<and> is_const r")
    case True
    with run Binop wf show ?thesis
      by (auto simp: expr_reduce_trivia_def outcome_iff keeps_def valof_simps is_const_iff calm_def
          eval_def split: if_splits)
  next
    case False
    then have eq: "expr_reduce_trivia fuel e s =
        (if tag_iscomm t \<and> is_const l then trivia_binary fuel t r l s else trivia_binary fuel t l r s)"
      by (cases l; cases r) (auto simp: Binop expr_reduce_trivia_def)
    show ?thesis
    proof (cases "tag_iscomm t \<and> is_const l")
      case True
      then have "bin_tag t" using wf Binop by (auto simp: bin_tag_def tag_iscomm_def)
      moreover from this have "wf_expr False (Binop t r l)" using wf unfolding Binop by (simp only: wf_Binop)
      ultimately show ?thesis
        using trivia_binary_sound [OF ag, of fuel t r l res s'] run eq True Binop
          eval_val_comm [of t "valof \<rho> l" "valof \<rho> r"]
        by (simp add: keeps_def valof_bin)
    next
      case False
      then have "trivia_binary fuel t l r s = Inr (res, s')"
        using run eq by auto
      from trivia_binary_sound [OF ag this] wf show ?thesis
        unfolding Binop by blast
    qed
  qed
qed (use run wf in \<open>auto simp: expr_reduce_trivia_def outcome_iff keeps_def\<close>)

section \<open>A state for examples\<close>

text \<open>No names have values, every element is a command of one to eight bytes, no node is shared.\<close>

definition sample_state :: est where
  "sample_state = \<lparr>name_val = (\<lambda>_. None), name_align = (\<lambda>_. 0), name_global = (\<lambda>_. False),
     el_size = (\<lambda>n. Range n 1 8), errors = 0, shared = (\<lambda>_. False), asked = 0, unsound = 0\<rparr>"

definition sample_env :: env where
  "sample_env = \<lparr>vname = (\<lambda>n. of_nat (10 * n)), vrange = (\<lambda>_. 3), vel = (\<lambda>_. 3)\<rparr>"

lemma sample_agrees: "agrees sample_env sample_state" "wf_tables sample_state"
  by (simp_all add: agrees_def sample_state_def sample_env_def valof_simps wf_tables_def)

end
