(* ===== verification/ExprSound.thy ===== *)
theory ExprSound
  imports ExprValue
begin

text \<open>
  The reducer keeps the value of every expression, the well-formedness of expressions and
  the agreement of the tables with the environment: sums of elements, the two scans, and
  \<open>expr_reduce\<close> itself.
\<close>

section \<open>Sums of elements\<close>

fun optval :: "env \<Rightarrow> expr option \<Rightarrow> long" where
  "optval \<rho> None = 0"
| "optval \<rho> (Some e) = valof \<rho> e"

fun wf_opt :: "expr option \<Rightarrow> bool" where
  "wf_opt None = True"
| "wf_opt (Some e) = wf_expr False e"

lemma wf_tables_size: "wf_tables s \<Longrightarrow> wf_expr False (el_size s n)"
  by (simp add: wf_tables_def)

lemma add_to_sum_sound:
  assumes "add_to_sum acc e s = Inr (acc', s')" "wf_opt acc" "wf_expr False e"
  shows "calm s s' \<and> wf_opt acc' \<and> optval \<rho> acc' = optval \<rho> acc + valof \<rho> e"
proof (cases acc)
  case (Some a)
  with assms obtain b where "expr_asgop EXPR_PLUS a e s = Inr (b, s')" "acc' = Some b"
    by (auto simp: add_to_sum_def outcome_iff)
  with expr_asgop_sound [OF this(1), of \<rho>] assms Some show ?thesis by simp
qed (use assms in \<open>auto simp: add_to_sum_def outcome_iff\<close>)

lemma elsum_split_sound:
  assumes "elsum_split es acc s = Inr ((kept, acc'), s')" "agrees \<rho> s" "wf_tables s"
    "\<forall>e\<in>set es. wf_expr False e" "wf_opt acc"
  shows "calm s s' \<and> (\<forall>e\<in>set kept. wf_expr False e) \<and> wf_opt acc' \<and>
    sum_list (map (valof \<rho>) kept) + optval \<rho> acc' = sum_list (map (valof \<rho>) es) + optval \<rho> acc"
  using assms
proof (induction es arbitrary: acc kept s)
  case (Cons e es)
  have add: ?case if run: "rbind (add_to_sum acc x) (\<lambda>acc'. elsum_split es acc') s = Inr ((kept, acc'), s')"
    and x: "wf_expr False x" "valof \<rho> x = valof \<rho> e" for x
  proof -
    obtain a t where a: "add_to_sum acc x s = Inr (a, t)" and rest: "elsum_split es a t = Inr ((kept, acc'), s')"
      using run by (auto simp: outcome_iff)
    note A = add_to_sum_sound [OF a Cons.prems(5) x(1), of \<rho>]
    then have st: "same_tables s t" by (simp add: calm_def)
    from Cons.IH [OF rest] A Cons.prems(2-4) same_tables_transfer [OF st] x(2)
    show ?thesis by (auto intro: calm_trans simp: algebra_simps)
  qed
  show ?case
  proof (cases "\<exists>n. e = Element n \<and> tag_of (el_size s n) = EXPR_RANGE")
    case True
    then obtain n where "e = Element n" "tag_of (el_size s n) = EXPR_RANGE" by blast
    with Cons.prems(1) obtain k where "elsum_split es acc s = Inr ((k, acc'), s')" "kept = e # k"
      by (auto simp: outcome_iff)
    with Cons.IH [OF this(1)] Cons.prems(2-5) show ?thesis by (simp add: algebra_simps)
  next
    case False
    show ?thesis
    proof (cases "\<exists>n. e = Element n")
      case True
      then obtain n where e: "e = Element n" by blast
      with False have "tag_of (el_size s n) \<noteq> EXPR_RANGE" by blast
      with Cons.prems(1) e have "rbind (add_to_sum acc (el_size s n)) (\<lambda>acc'. elsum_split es acc') s
          = Inr ((kept, acc'), s')"
        by (simp add: rbind_def rget_def)
      moreover have "valof \<rho> (el_size s n) = valof \<rho> e"
        using agreesD(2) [OF Cons.prems(2)] by (simp add: e valof_simps)
      ultimately show ?thesis
        using add wf_tables_size [OF Cons.prems(3)] by blast
    next
      case False
      then have "rbind (add_to_sum acc e) (\<lambda>acc'. elsum_split es acc') s = Inr ((kept, acc'), s')"
        using Cons.prems(1) by (cases e) auto
      moreover have "wf_expr False e" using Cons.prems(4) by simp
      ultimately show ?thesis using add by blast
    qed
  qed
qed (auto simp: outcome_iff)

lemma expr_reduce_elsum_sound:
  assumes "expr_reduce_elsum es s = Inr (e', s')" "agrees \<rho> s" "wf_tables s" "wf_expr False (Elsum es)"
  shows "preserves \<rho> (Elsum es) s e' s'"
proof -
  obtain kept acc s1 where split: "elsum_split es None s = Inr ((kept, acc), s1)"
    and rest: "(if kept = [] then (case acc of Some s \<Rightarrow> rret s | None \<Rightarrow> rstop Trap)
       else (case acc of Some s \<Rightarrow> rret (Binop EXPR_PLUS (Elsum kept) s)
             | None \<Rightarrow> rret (Elsum kept))) s1 = Inr (e', s')"
    using assms(1) unfolding expr_reduce_elsum_def rbind_Inr by auto
  have "\<forall>e\<in>set es. wf_expr False e" using assms(4) by simp
  note S = elsum_split_sound [OF split assms(2,3) this]
  show ?thesis
  proof (cases acc)
    case None
    with rest S show ?thesis
      by (auto simp: preserves_def valof_simps outcome_iff split: if_splits)
  next
    case (Some a)
    with rest S show ?thesis
      by (auto simp: preserves_def valof_simps outcome_iff wf_Binop simp del: wf_expr.simps(1) split: if_splits)
  qed
qed

text \<open>Occurrences of an element in a vector.\<close>

fun occurs :: "expr list \<Rightarrow> nat \<Rightarrow> nat" where
  "occurs [] n = 0"
| "occurs (e # es) n = (if e = Element n then 1 else 0) + occurs es n"

lemma elsum_count_occurs: "elsum_count es x = (\<lambda>n. x n + int (occurs es n))"
  by (induction es x rule: elsum_count.induct) (auto simp: fun_upd_def fun_eq_iff)

lemma elsum_discount_occurs: "fst (elsum_discount es x found) = (\<lambda>n. x n - int (occurs es n))"
  by (induction es x found rule: elsum_discount.induct) (auto simp: fun_upd_def fun_eq_iff)

text \<open>The value of the elements a counter still has to deliver, of one sign.\<close>

definition owed :: "env \<Rightarrow> nat set \<Rightarrow> int \<Rightarrow> (nat \<Rightarrow> int) \<Rightarrow> long" where
  "owed \<rho> F d x = (\<Sum>n\<in>F. if d * x n < 0 then word_of_int (- d * x n) * vel \<rho> n else 0)"

fun const_part :: "expr list \<Rightarrow> long" where
  "const_part [] = 0"
| "const_part (Const v # es) = v + const_part es"
| "const_part (_ # es) = const_part es"

lemma owed_step:
  assumes "finite F" "n \<in> F" "d * x n < 0" "d = 1 \<or> d = -1"
  shows "owed \<rho> F d x = vel \<rho> n + owed \<rho> F d (x(n := x n + d))"
proof -
  have "owed \<rho> F d y = (if d * y n < 0 then word_of_int (- d * y n) * vel \<rho> n else 0) + owed \<rho> (F - {n}) d y" for y
    using assms(1,2) by (simp add: owed_def sum.remove)
  moreover have "owed \<rho> (F - {n}) d (x(n := x n + d)) = owed \<rho> (F - {n}) d x"
    unfolding owed_def by (rule sum.cong) auto
  moreover have "word_of_int (- d * x n) * vel \<rho> n
      = vel \<rho> n + (if d * (x n + d) < 0 then word_of_int (- d * (x n + d)) * vel \<rho> n else 0)"
  proof -
    define y where "y = - d * (x n + d)"
    have eq: "- d * x n = 1 + y" using assms(4) by (auto simp: y_def)
    have "d * (x n + d) < 0 \<longleftrightarrow> y \<noteq> 0" using assms(3,4) by (auto simp: y_def)
    then show ?thesis
      unfolding eq y_def [symmetric] by (simp add: distrib_right)
  qed
  ultimately show ?thesis using assms(3) by (simp add: algebra_simps)
qed

lemma elsum_pick_cases:
  assumes "elsum_pick d (e # es) x = Inr (kept, c, x')"
  obtains (take) n k where "e = Element n" "d * x n < 0" "kept = e # k"
      "elsum_pick d es (x(n := x n + d)) = Inr (k, c, x')"
    | (skip) n where "e = Element n" "\<not> d * x n < 0" "elsum_pick d es x = Inr (kept, c, x')"
    | (const) v c' where "e = Const v" "c = v + c'" "elsum_pick d es x = Inr (kept, c', x')"
  using assms by (auto simp: outcome_iff split: expr.splits if_splits)

lemma elsum_pick_owed:
  assumes "d = 1 \<or> d = -1" "finite F"
  shows "elsum_pick d es x = Inr (kept, c, x') \<Longrightarrow> \<forall>n. 0 < occurs es n \<longrightarrow> n \<in> F \<Longrightarrow>
    owed \<rho> F d x = sum_list (map (valof \<rho>) kept) + owed \<rho> F d x'"
proof (induction es arbitrary: x kept c)
  case (Cons e es)
  have F: "\<forall>n. 0 < occurs es n \<longrightarrow> n \<in> F" using Cons.prems(2) by auto
  from Cons.prems(1) show ?case
  proof (cases rule: elsum_pick_cases)
    case (take n k)
    then have "n \<in> F" using Cons.prems(2) by simp
    from Cons.IH [OF take(4) F] owed_step [where d = d and x = x, OF assms(2) this take(2) assms(1)] take show ?thesis
      by (simp add: valof_simps algebra_simps fun_upd_def)
  next
    case skip
    from Cons.IH [OF skip(3) F] show ?thesis .
  next
    case const
    from Cons.IH [OF const(3) F] show ?thesis .
  qed
qed simp

lemma elsum_pick_parts:
  "elsum_pick d es x = Inr (kept, c, x') \<Longrightarrow>
    c = const_part es \<and> (\<forall>e\<in>set kept. \<exists>n. e = Element n) \<and> (\<forall>e\<in>set es. (\<exists>n. e = Element n) \<or> is_const e)"
proof (induction es arbitrary: x kept c)
  case (Cons e es)
  from Cons.prems show ?case
  proof (cases rule: elsum_pick_cases)
    case (take n k)
    from Cons.IH [OF take(4)] take show ?thesis by auto
  next
    case skip
    from Cons.IH [OF skip(3)] skip show ?thesis by auto
  next
    case const
    from Cons.IH [OF const(3)] const show ?thesis by auto
  qed
qed simp

lemma elsum_pick_rest:
  assumes d: "d = 1 \<or> d = -1"
  shows "elsum_pick d es x = Inr (kept, c, x') \<Longrightarrow>
    x' n = (if d * x n < 0 then if int (occurs es n) \<le> - d * x n then x n + d * int (occurs es n) else 0 else x n)"
proof (induction es arbitrary: x kept c)
  case (Cons e es)
  from Cons.prems show ?case
  proof (cases rule: elsum_pick_cases)
    case (take m k)
    from Cons.IH [OF take(4)] take d show ?thesis by (cases "m = n") auto
  next
    case skip
    from Cons.IH [OF skip(3)] skip d show ?thesis by (cases "e = Element n") auto
  next
    case const
    from Cons.IH [OF const(3)] const d show ?thesis by auto
  qed
qed simp

lemma elsum_value:
  assumes "finite F" "\<forall>n. 0 < occurs es n \<longrightarrow> n \<in> F" "\<forall>e\<in>set es. (\<exists>n. e = Element n) \<or> is_const e"
  shows "valof \<rho> (Elsum es) = (\<Sum>n\<in>F. of_nat (occurs es n) * vel \<rho> n) + const_part es"
  using assms(2,3)
proof (induction es)
  case (Cons e es)
  then have IH: "valof \<rho> (Elsum es) = (\<Sum>n\<in>F. of_nat (occurs es n) * vel \<rho> n) + const_part es" by auto
  show ?case
  proof (cases "is_const e")
    case True
    then show ?thesis using IH by (auto simp: valof_simps is_const_iff)
  next
    case False
    then obtain n where e: "e = Element n" using Cons.prems(2) by auto
    then have "n \<in> F" using Cons.prems(1) by simp
    have "(\<Sum>m\<in>F. of_nat (occurs (e # es) m) * vel \<rho> m)
      = (\<Sum>m\<in>F. (if m = n then vel \<rho> m else 0) + of_nat (occurs es m) * vel \<rho> m)"
      by (rule sum.cong) (auto simp: e algebra_simps)
    also have "\<dots> = vel \<rho> n + (\<Sum>m\<in>F. of_nat (occurs es m) * vel \<rho> m)"
      using assms(1) \<open>n \<in> F\<close> by (simp add: sum.distrib)
    finally show ?thesis using IH e by (simp add: valof_simps)
  qed
qed (simp add: valof_simps)

section \<open>Scanning\<close>

text \<open>The value of a scan's result; \<open>Same\<close> stands for the scanned expression.\<close>

fun scan_val :: "env \<Rightarrow> expr \<Rightarrow> scan_result \<Rightarrow> long" where
  "scan_val \<rho> e Same = valof \<rho> e"
| "scan_val \<rho> e Gone = 0"
| "scan_val \<rho> e (New x) = valof \<rho> x"

fun wf_scan :: "scan_result \<Rightarrow> bool" where
  "wf_scan (New x) = wf_expr False x"
| "wf_scan _ = True"

lemma finite_occurs: "finite {n. 0 < occurs es n}"
proof (induction es)
  case (Cons e es)
  have "{n. 0 < occurs (e # es) n} \<subseteq> {n. 0 < occurs es n} \<union> {n. e = Element n}"
    by auto
  moreover have "finite {n. e = Element n}" by (cases e) auto
  ultimately show ?case using Cons.IH finite_subset by blast
qed simp

lemma owed_none: "(\<And>n. \<not> d * x n < 0) \<Longrightarrow> owed \<rho> F d x = 0"
  by (simp add: owed_def)

lemma owed_split:
  "(\<Sum>n\<in>F. word_of_int (x n) * vel \<rho> n) = owed \<rho> F (-1) x - owed \<rho> F 1 x"
  unfolding owed_def sum_subtractf [symmetric] by (rule sum.cong) auto

lemma picked_value:
  assumes p1: "elsum_pick (-1) es1 x2 = Inr (newl, c1, x3)" and p2: "elsum_pick 1 es2 x3 = Inr (newr, c2, x4)"
    and x2: "x2 = (\<lambda>n. int (occurs es1 n) - int (occurs es2 n))"
  shows "valof \<rho> (Elsum es1) - valof \<rho> (Elsum es2) =
    sum_list (map (valof \<rho>) newl) - sum_list (map (valof \<rho>) newr) + (c1 - c2)"
proof -
  define F where "F = {n. 0 < occurs es1 n} \<union> {n. 0 < occurs es2 n}"
  have F: "finite F" "\<forall>n. 0 < occurs es1 n \<longrightarrow> n \<in> F" "\<forall>n. 0 < occurs es2 n \<longrightarrow> n \<in> F"
    by (auto simp: F_def finite_occurs)
  have x3: "x3 n = (if 0 < x2 n then 0 else x2 n)" for n
    using elsum_pick_rest [OF _ p1, of n] by (auto simp: x2)
  have x4: "\<not> x4 n < 0" for n
    using elsum_pick_rest [OF _ p2, of n] by (auto simp: x3 x2 split: if_splits)
  have "owed \<rho> F (-1) x2 = sum_list (map (valof \<rho>) newl) + owed \<rho> F (-1) x3"
    using elsum_pick_owed [OF _ F(1) p1 F(2)] by simp
  moreover have "owed \<rho> F (-1) x3 = 0" by (rule owed_none) (simp add: x3)
  moreover have "owed \<rho> F 1 x3 = sum_list (map (valof \<rho>) newr) + owed \<rho> F 1 x4"
    using elsum_pick_owed [OF _ F(1) p2 F(3)] by simp
  moreover have "owed \<rho> F 1 x4 = 0" by (rule owed_none) (simp add: x4)
  moreover have "owed \<rho> F 1 x3 = owed \<rho> F 1 x2"
    unfolding owed_def by (rule sum.cong) (auto simp: x3)
  moreover have "(\<Sum>n\<in>F. of_nat (occurs es1 n) * vel \<rho> n) - (\<Sum>n\<in>F. of_nat (occurs es2 n) * vel \<rho> n)
      = (\<Sum>n\<in>F. word_of_int (x2 n) * vel \<rho> n)"
    unfolding sum_subtractf [symmetric] by (rule sum.cong) (simp_all add: x2 left_diff_distrib)
  moreover note owed_split [of x2 \<rho> F] elsum_pick_parts [OF p1] elsum_pick_parts [OF p2]
    elsum_value [OF F(1,2), of \<rho>] elsum_value [OF F(1,3), of \<rho>]
  ultimately show ?thesis by simp
qed

lemma substract_elsums_sound:
  assumes "substract_elsums es1 es2 s = Inr (res, s')"
  shows "calm s s' \<and> wf_scan res \<and>
    (res \<noteq> Same \<longrightarrow> scan_val \<rho> e res = valof \<rho> (Elsum es1) - valof \<rho> (Elsum es2))"
proof -
  obtain x2 found where d: "elsum_discount es2 (elsum_count es1 (\<lambda>_. 0)) False = (x2, found)"
    by fastforce
  then have x2: "x2 = (\<lambda>n. int (occurs es1 n) - int (occurs es2 n))"
    using elsum_discount_occurs [of es2 "elsum_count es1 (\<lambda>_. 0)" False] by (simp add: elsum_count_occurs)
  show ?thesis
  proof (cases found)
    case False
    with assms d show ?thesis by (simp add: substract_elsums_def outcome_iff)
  next
    case True
    with assms d obtain newl c1 x3 newr c2 x4 newe s1 where
      p1: "elsum_pick (-1) es1 x2 = Inr (newl, c1, x3)" and p2: "elsum_pick 1 es2 x3 = Inr (newr, c2, x4)"
      and body: "(if newl \<noteq> [] \<and> newr \<noteq> []
             then rbind (expr_binop EXPR_MINUS (Elsum newl) (Elsum newr)) (\<lambda>e. rret (Some e))
             else if newl \<noteq> [] then rret (Some (Elsum newl))
             else if newr \<noteq> [] then rbind (expr_unop EXPR_NEG (Elsum newr)) (\<lambda>e. rret (Some e))
             else rret None) s = Inr (newe, s1)"
      and fin: "(if c1 - c2 \<noteq> 0
          then (case newe of Some e \<Rightarrow> rbind (expr_binop EXPR_PLUS e (Const (c1 - c2))) (\<lambda>e'. rret (New e'))
                | None \<Rightarrow> rret (New (Const (c1 - c2))))
          else rret (case newe of Some e \<Rightarrow> New e | None \<Rightarrow> Gone)) s1 = Inr (res, s')"
      by (auto simp: substract_elsums_def Let_def outcome_iff rbind_Inr)
    have wf: "wf_expr False (Elsum newl)" "wf_expr False (Elsum newr)"
      using elsum_pick_parts [OF p1] elsum_pick_parts [OF p2] by fastforce+
    have body': "calm s s1 \<and> wf_opt newe \<and>
        optval \<rho> newe = sum_list (map (valof \<rho>) newl) - sum_list (map (valof \<rho>) newr)"
      using body wf
      by (auto simp: outcome_iff valof_simps tag_isunary_def eval_val_def split: if_splits
          dest!: expr_binop_sound [where \<rho> = \<rho>] expr_unop_sound [where \<rho> = \<rho>])
    have "calm s1 s' \<and> wf_scan res \<and> res \<noteq> Same \<and> scan_val \<rho> e res = optval \<rho> newe + (c1 - c2)"
      using fin body'
      by (auto simp: outcome_iff valof_simps split: if_splits option.splits
          dest!: expr_binop_sound [where \<rho> = \<rho>])
    with body' picked_value [OF p1 p2 x2, of \<rho>] show ?thesis
      by (auto intro: calm_trans)
  qed
qed

text \<open>The associative laws behind the scans.\<close>

lemma assoc_op_cases:
  assumes "assoc_node t op" "op \<in> set assoc_tags"
  obtains (sum) "t = EXPR_PLUS \<or> t = EXPR_MINUS" "op = EXPR_PLUS \<or> op = EXPR_MINUS"
    | (bits) "t = op" "op = EXPR_AND \<or> op = EXPR_XOR \<or> op = EXPR_OR"
  using assms by (auto simp: assoc_node_def assoc_tags_def)

lemma eval_val_bits:
  "eval_val EXPR_AND a b = a AND b" "eval_val EXPR_XOR a b = a XOR b" "eval_val EXPR_OR a b = a OR b"
  by (simp_all add: eval_val_def)

lemma assoc_left:
  assumes "assoc_node t op" "op \<in> set assoc_tags"
  shows "eval_val t (eval_val op l i) r = eval_val op (eval_val t l r) i"
  using assms
  by (cases rule: assoc_op_cases) (auto simp: eval_val_bits algebra_simps ac_simps)

lemma assoc_right:
  assumes "assoc_node t op" "op \<in> set assoc_tags"
  shows "eval_val t l (eval_val (right_op t op) r i) = eval_val op (eval_val t l r) i"
  using assms
  by (cases rule: assoc_op_cases) (auto simp: right_op_def eval_val_bits algebra_simps ac_simps)

lemma right_op_assoc: "op \<in> set assoc_tags \<Longrightarrow> assoc_node t op \<Longrightarrow> right_op t op \<in> set assoc_tags"
  by (auto simp: right_op_def assoc_tags_def)

lemma assoc_bin: "op \<in> set assoc_tags \<Longrightarrow> assoc_node t op \<Longrightarrow> bin_tag t"
  by (auto simp: assoc_node_def assoc_tags_def bin_tag_def tag_isleaf_def tag_isunary_def)

definition scan2_ok :: "env \<Rightarrow> expr \<Rightarrow> expr_tag \<Rightarrow> expr \<Rightarrow> 'x est_scheme \<Rightarrow> scan_result \<Rightarrow> 'x est_scheme \<Rightarrow> bool" where
  "scan2_ok \<rho> e op item s res s' \<longleftrightarrow>
     calm s s' \<and> wf_scan res \<and>
     (res \<noteq> Same \<longrightarrow> scan_val \<rho> e res = eval_val op (valof \<rho> e) (valof \<rho> item)) \<and>
     (res = Gone \<longrightarrow> op \<noteq> EXPR_AND \<and> op \<noteq> EXPR_OR)"

lemma scan2_leaf_sound:
  assumes run: "scan2_leaf e op item s = Inr (res, s')" and op: "op \<in> set assoc_tags"
  shows "scan2_ok \<rho> e op item s res s'"
proof (cases "is_const e \<and> is_const item")
  case True
  with run show ?thesis
    by (auto simp: scan2_leaf_def scan2_ok_def is_const_iff outcome_iff valof_simps dest!: eval_sound)
next
  case False
  then obtain eq s1 where eq: "(if op = EXPR_MINUS \<or> op = EXPR_XOR then expr_equal e item else rret False) s
      = Inr (eq, s1)"
    and rest: "(if eq then rret Gone
         else case (op, e, item) of (EXPR_MINUS, Elsum es1, Elsum es2) \<Rightarrow> substract_elsums es1 es2
              | _ \<Rightarrow> rret Same) s1 = Inr (res, s')"
    using run by (cases e; cases item) (auto simp: scan2_leaf_def rbind_Inr)
  have E: "calm s s1 \<and> (eq \<longrightarrow> e = item \<and> (op = EXPR_MINUS \<or> op = EXPR_XOR))"
    using eq expr_equal_sound [of e item s eq s1] by (auto simp: outcome_iff split: if_splits)
  show ?thesis
  proof (cases eq)
    case True
    with rest E show ?thesis by (auto simp: scan2_ok_def outcome_iff eval_val_bits)
  next
    case False
    show ?thesis
    proof (cases "\<exists>es1 es2. op = EXPR_MINUS \<and> e = Elsum es1 \<and> item = Elsum es2")
      case True
      with False rest obtain es1 es2 where m: "op = EXPR_MINUS" "e = Elsum es1" "item = Elsum es2"
        and sub: "substract_elsums es1 es2 s1 = Inr (res, s')" by auto
      from substract_elsums_sound [OF sub, of \<rho> e] E m show ?thesis
        by (auto simp: scan2_ok_def intro: calm_trans)
    next
      case no: False
      with False rest have "res = Same \<and> s' = s1"
        by (auto simp: outcome_iff split: expr_tag.splits expr.splits)
      with E show ?thesis by (simp add: scan2_ok_def)
    qed
  qed
qed

lemma scan2_sound:
  "scan2 e op item s = Inr (res, s') \<Longrightarrow> op \<in> set assoc_tags \<Longrightarrow> wf_expr False e \<Longrightarrow>
     wf_expr False item \<Longrightarrow> scan2_ok \<rho> e op item s res s'"
proof (induction e op item arbitrary: s s' res rule: scan2.induct)
  case (1 t l r op item)
  show ?case
  proof (cases "assoc_node t op")
    case False
    with "1.prems" scan2_leaf_sound show ?thesis by auto
  next
    case True
    have t: "bin_tag t" using assoc_bin [OF "1.prems"(2) True] .
    have lr: "wf_expr False l" "wf_expr False r"
      using "1.prems"(3) t by (simp_all only: wf_Binop)
    obtain nl s1 where nl: "scan2 l op item s = Inr (nl, s1)"
      using "1.prems"(1) True by (auto simp: outcome_iff)
    note L = "1.IH"(1) [OF True nl "1.prems"(2) lr(1) "1.prems"(4), unfolded scan2_ok_def]
    note left = assoc_left [OF True "1.prems"(2), of "valof \<rho> l" "valof \<rho> item" "valof \<rho> r"]
    show ?thesis
    proof (cases nl)
      case Gone
      with L left have z: "eval_val op (valof \<rho> (Binop t l r)) (valof \<rho> item) = eval_val t 0 (valof \<rho> r)"
        by (simp add: valof_bin [OF t])
      show ?thesis
      proof (cases "t = EXPR_MINUS")
        case True
        with "1.prems"(1) Gone nl \<open>assoc_node t op\<close> obtain x where "expr_unop EXPR_NEG r s1 = Inr (x, s')" "res = New x"
          by (auto simp: outcome_iff)
        with expr_unop_sound [OF this(1) _ lr(2), of \<rho>] L z True show ?thesis
          by (auto simp: scan2_ok_def tag_isunary_def eval_val_def intro: calm_trans)
      next
        case False
        with True "1.prems"(2) L Gone have "t = EXPR_PLUS \<or> t = EXPR_XOR"
          by (auto simp: assoc_node_def assoc_tags_def)
        with "1.prems"(1) Gone nl False \<open>assoc_node t op\<close> L z lr show ?thesis
          by (auto simp: outcome_iff scan2_ok_def eval_val_bits)
      qed
    next
      case (New l')
      with "1.prems"(1) nl True obtain x where x: "expr_binop t l' r s1 = Inr (x, s')" "res = New x"
        by (auto simp: outcome_iff)
      from L New have "wf_expr False l'" by simp
      from expr_binop_sound [OF x(1) t this lr(2), of \<rho>] L New x(2) left show ?thesis
        by (auto simp: scan2_ok_def valof_bin [OF t] intro: calm_trans)
    next
      case Same
      then obtain nr s2 where nr: "scan2 r (right_op t op) item s1 = Inr (nr, s2)"
        and rest: "(case nr of Gone \<Rightarrow> rret (New l) | New r' \<Rightarrow> rbind (expr_binop t l r') (\<lambda>e. rret (New e))
           | Same \<Rightarrow> rret Same) s2 = Inr (res, s')"
        using "1.prems"(1) nl True by (auto simp: rbind_Inr)
      note ra = right_op_assoc [OF "1.prems"(2) True]
      note R = "1.IH"(2) [OF True nr ra lr(2) "1.prems"(4), unfolded scan2_ok_def]
      note right = assoc_right [OF True "1.prems"(2), of "valof \<rho> l" "valof \<rho> r" "valof \<rho> item"]
      have c: "calm s s2" using L R calm_trans by blast
      show ?thesis
      proof (cases nr)
        case Gone
        with R True "1.prems"(2) have "t = EXPR_PLUS \<or> t = EXPR_MINUS \<or> t = EXPR_XOR"
          by (auto simp: assoc_node_def assoc_tags_def right_op_def)
        with rest Gone R right lr c show ?thesis
          by (auto simp: outcome_iff scan2_ok_def eval_val_bits valof_simps)
      next
        case (New r')
        with rest obtain x where x: "expr_binop t l r' s2 = Inr (x, s')" "res = New x"
          by (auto simp: outcome_iff)
        from R New have "wf_expr False r'" by simp
        from expr_binop_sound [OF x(1) t lr(1) this, of \<rho>] R New x(2) right c show ?thesis
          by (auto simp: scan2_ok_def valof_bin [OF t] intro: calm_trans)
      next
        case Same
        with rest c show ?thesis by (simp add: scan2_ok_def outcome_iff)
      qed
    qed
  qed
qed (use scan2_leaf_sound in auto)

text \<open>
  \<open>scan1\<close> moves operands of \<open>e\<close> into the top expression: combining the new top with what is left
  of \<open>e\<close> gives what combining the old ones gave.  An operand that is gone counts as the
  identity of the operation.
\<close>

definition identity_val :: "expr_tag \<Rightarrow> long" where
  "identity_val op = (if op = EXPR_AND then -1 else 0)"

fun rest_val :: "env \<Rightarrow> expr_tag \<Rightarrow> expr \<Rightarrow> scan_result \<Rightarrow> long" where
  "rest_val \<rho> op e Same = valof \<rho> e"
| "rest_val \<rho> op e Gone = identity_val op"
| "rest_val \<rho> op e (New x) = valof \<rho> x"

definition scan1_ok ::
  "env \<Rightarrow> expr \<Rightarrow> expr_tag \<Rightarrow> expr option \<Rightarrow> 'x est_scheme \<Rightarrow> scan_result \<times> expr option \<Rightarrow> 'x est_scheme \<Rightarrow> bool"
where
  "scan1_ok \<rho> e op tp s r s' \<longleftrightarrow>
     same_tables s s' \<and> wf_scan (fst r) \<and> wf_opt (snd r) \<and>
     (unsound s' = unsound s \<longrightarrow>
        eval_val op (optval \<rho> (snd r)) (rest_val \<rho> op e (fst r)) = eval_val op (optval \<rho> tp) (valof \<rho> e)) \<and>
     (op = EXPR_AND \<or> op = EXPR_OR \<longrightarrow> tp \<noteq> None \<longrightarrow> snd r \<noteq> None)"

lemma eval_identity: "op \<in> set assoc_tags \<Longrightarrow> eval_val op x (identity_val op) = x"
  by (auto simp: assoc_tags_def identity_val_def eval_val_bits)

lemma scan1_leaf_sound:
  assumes run: "scan1_leaf e op tp s = Inr (r, s')" and op: "op \<in> set assoc_tags"
    and wf: "wf_expr False e" "wf_expr False tp"
  shows "scan1_ok \<rho> e op (Some tp) s r s'"
proof -
  obtain res s1 where res: "scan2 tp op e s = Inr (res, s1)"
    and r: "(case res of Same \<Rightarrow> rret (Same, Some tp) | Gone \<Rightarrow> rret (Gone, None) | New t \<Rightarrow> rret (Gone, Some t)) s1
      = Inr (r, s')"
    using run unfolding scan1_leaf_def rbind_Inr by blast
  from scan2_sound [OF res op wf(2,1), of \<rho>] r show ?thesis
    using wf(2) eval_identity [OF op]
    by (cases res) (auto simp: scan1_ok_def scan2_ok_def calm_def outcome_iff)
qed

lemma scan1_algebra:
  assumes "assoc_node t op" "op \<in> set assoc_tags"
    and 1: "eval_val op T1 nl = eval_val op T l"
    and 2: "eval_val (right_op t op) T2 nr = eval_val (right_op t op) T1 r"
  shows "eval_val op T2 (eval_val t nl nr) = eval_val op T (eval_val t l r)"
  using assms(1,2)
proof (cases rule: assoc_op_cases)
  case sum
  have T: "T = (if op = EXPR_PLUS then T1 + nl - l else T1 - nl + l)"
    using 1 sum(2) by (auto simp: algebra_simps)
  have T2: "T2 = (if right_op t op = EXPR_PLUS then T1 + r - nr else T1 - r + nr)"
    using 2 sum by (auto simp: right_op_def algebra_simps split: if_splits)
  show ?thesis
    using sum unfolding T T2 by (auto simp: right_op_def)
next
  case bits
  have op: "right_op t op = op" using bits by (auto simp: right_op_def)
  have ac: "eval_val op (eval_val op a b) c = eval_val op a (eval_val op b c)"
    "eval_val op a b = eval_val op b a" for a b c
    using bits(2) by (auto simp: eval_val_bits ac_simps)
  have "eval_val op T2 (eval_val op nl nr) = eval_val op (eval_val op T2 nr) nl"
    by (metis ac)
  also have "\<dots> = eval_val op (eval_val op T1 nl) r"
    using 2 by (metis op ac)
  also have "\<dots> = eval_val op T (eval_val op l r)"
    using 1 by (metis ac)
  finally show ?thesis using bits(1) by simp
qed

lemma right_identity:
  assumes "assoc_node t op" "op \<in> set assoc_tags"
  shows "eval_val t x (identity_val (right_op t op)) = x"
  using assms
  by (cases rule: assoc_op_cases) (auto simp: right_op_def identity_val_def eval_val_bits)

lemma left_identity:
  assumes "assoc_node t op" "op \<in> set assoc_tags" "t \<noteq> EXPR_MINUS"
  shows "eval_val t (identity_val op) x = x"
  using assms
  by (cases rule: assoc_op_cases) (auto simp: identity_val_def eval_val_bits)

lemma both_identity:
  assumes "assoc_node t op" "op \<in> set assoc_tags"
  shows "eval_val t (identity_val op) (identity_val (right_op t op)) = identity_val op"
  by (rule right_identity [OF assms])

lemma scan1_join_sound:
  assumes run: "scan1_join t l r nl nr s = Inr (res, s')"
    and as: "assoc_node t op" and op: "op \<in> set assoc_tags"
    and wf: "wf_expr False l" "wf_expr False r" "wf_scan nl" "wf_scan nr"
  shows "same_tables s s' \<and> wf_scan res \<and>
    (unsound s' = unsound s \<longrightarrow>
       rest_val \<rho> op (Binop t l r) res
         = eval_val t (rest_val \<rho> op l nl) (rest_val \<rho> (right_op t op) r nr))"
proof -
  have t: "bin_tag t" using assoc_bin [OF op as] .
  note ids = right_identity [OF as op] left_identity [OF as op] valof_bin [OF t]
  have bin: ?thesis
    if "rbind (expr_binop t a b) (\<lambda>e. rret (New e)) s = Inr (res, s')" "wf_expr False a" "wf_expr False b"
      "valof \<rho> a = rest_val \<rho> op l nl" "valof \<rho> b = rest_val \<rho> (right_op t op) r nr" for a b
    using that expr_binop_sound [of t a b s _ s' \<rho>] t by (auto simp: outcome_iff calm_def)
  have right: ?thesis
    if "rbind (if t = EXPR_MINUS then note_unsound else rret ()) (\<lambda>_. rret (New b)) s = Inr (res, s')"
      "nl = Gone" "wf_expr False b" "valof \<rho> b = rest_val \<rho> (right_op t op) r nr" for b
    using that ids by (cases "t = EXPR_MINUS") (auto simp: outcome_iff)
  show ?thesis
  proof (cases nl)
    case Same
    with run wf bin [of l] ids show ?thesis
      by (cases nr) (auto simp: scan1_join_def outcome_iff)
  next
    case Gone
    with run wf right ids show ?thesis
      by (cases nr) (auto simp: scan1_join_def outcome_iff)
  next
    case (New l')
    with run wf bin [of l'] ids show ?thesis
      by (cases nr) (auto simp: scan1_join_def outcome_iff)
  qed
qed

lemma scan1_ok_none: "scan1_ok \<rho> e op None s (Same, None) s"
  by (simp add: scan1_ok_def)

lemma scan1_sound:
  "scan1 e op tp s = Inr (q, s') \<Longrightarrow> op \<in> set assoc_tags \<Longrightarrow> wf_expr False e \<Longrightarrow> wf_opt tp \<Longrightarrow>
     scan1_ok \<rho> e op tp s q s'"
proof (induction e op tp arbitrary: s s' q rule: scan1.induct)
  case (2 t l r op tp)
  show ?case
  proof (cases "assoc_node t op")
    case False
    with "2.prems" scan1_leaf_sound [of "Binop t l r" op tp] show ?thesis
      by (simp del: wf_expr.simps)
  next
    case True
    have t: "bin_tag t" using assoc_bin [OF "2.prems"(2) True] .
    have lr: "wf_expr False l" "wf_expr False r"
      using "2.prems"(3) t by (simp_all only: wf_Binop)
    note ra = right_op_assoc [OF "2.prems"(2) True]
    obtain nl t1 s1 where nl: "scan1 l op (Some tp) s = Inr ((nl, t1), s1)"
      and k1: "rbind (scan1 r (right_op t op) t1) (\<lambda>(newr, top2).
           rbind (scan1_join t l r nl newr) (\<lambda>res. rret (res, top2))) s1 = Inr (q, s')"
      using "2.prems"(1) True by (auto simp: rbind_Inr)
    obtain nr t2 s2 where nr: "scan1 r (right_op t op) t1 s1 = Inr ((nr, t2), s2)"
      and k2: "rbind (scan1_join t l r nl nr) (\<lambda>res. rret (res, t2)) s2 = Inr (q, s')"
      using k1 by (auto simp: rbind_Inr)
    obtain res where j: "scan1_join t l r nl nr s2 = Inr (res, s')" and q: "q = (res, t2)"
      using k2 by (auto simp: outcome_iff)
    note L = "2.IH"(1) [OF True nl "2.prems"(2) lr(1) "2.prems"(4), unfolded scan1_ok_def fst_conv snd_conv]
    have wt1: "wf_opt t1" using L by simp
    note R = "2.IH"(2) [OF True nr ra lr(2) wt1, unfolded scan1_ok_def fst_conv snd_conv]
    have J: "same_tables s2 s' \<and> wf_scan res \<and> (unsound s' = unsound s2 \<longrightarrow>
       rest_val \<rho> op (Binop t l r) res
         = eval_val t (rest_val \<rho> op l nl) (rest_val \<rho> (right_op t op) r nr))"
      using scan1_join_sound [OF j True "2.prems"(2) lr] L R by blast
    have tab: "same_tables s s'" using L R J same_tables_trans by blast
    have u: "unsound s1 = unsound s \<and> unsound s2 = unsound s1 \<and> unsound s' = unsound s2"
      if "unsound s' = unsound s"
      using that L R J by (auto simp: same_tables_def)
    have "eval_val op (optval \<rho> t2) (rest_val \<rho> op (Binop t l r) res)
        = eval_val op (optval \<rho> (Some tp)) (eval_val t (valof \<rho> l) (valof \<rho> r))"
      if "unsound s' = unsound s"
      using u [OF that] J L R scan1_algebra [OF True "2.prems"(2)] by metis
    moreover have "op = EXPR_AND \<or> op = EXPR_OR \<longrightarrow> t2 \<noteq> None"
      using L R True "2.prems"(2) by (auto simp: right_op_def assoc_node_def)
    ultimately show ?thesis
      using tab J R by (simp add: scan1_ok_def q valof_bin [OF t])
  qed
qed (auto simp: outcome_iff scan1_ok_none intro: scan1_leaf_sound)

section \<open>The reducer\<close>

lemma reduce_assoc_sound:
  assumes run: "reduce_assoc t l r s = Inr (e', s')" and t: "t \<in> set assoc_tags"
    and wf: "wf_expr False l" "wf_expr False r"
  shows "keeps \<rho> (Binop t l r) s e' s'"
proof -
  have bt: "bin_tag t"
    using t by (auto simp: assoc_tags_def bin_tag_def tag_isleaf_def tag_isunary_def)
  obtain res newl s1 where sc: "scan1 r t (Some l) s = Inr ((res, newl), s1)"
    and e': "(case (newl, case res of Same \<Rightarrow> Some r | Gone \<Rightarrow> None | New r' \<Rightarrow> Some r') of
         (None, None) \<Rightarrow> rret (Const 0)
       | (None, Some r') \<Rightarrow> rret (if t = EXPR_MINUS then Binop t (Const 0) r' else r')
       | (Some l', None) \<Rightarrow> rret l'
       | (Some l', Some r') \<Rightarrow> rret (Binop t l' r')) s1 = Inr (e', s')"
    using run by (auto simp: reduce_assoc_def rbind_Inr Let_def)
  have S: "scan1_ok \<rho> r t (Some l) s (res, newl) s1"
    using scan1_sound [OF sc t wf(2)] wf(1) by simp
  show ?thesis
  proof (cases newl)
    case None
    with S t have "t = EXPR_MINUS \<or> t = EXPR_PLUS \<or> t = EXPR_XOR"
      by (auto simp: scan1_ok_def assoc_tags_def)
    with S None e' wf show ?thesis
      by (cases res) (auto simp: keeps_def scan1_ok_def outcome_iff valof_simps eval_val_bits
          identity_val_def tag_isleaf_def tag_isunary_def)
  next
    case (Some l')
    with S e' wf bt eval_identity [OF t] show ?thesis
      by (cases res) (auto simp: keeps_def scan1_ok_def outcome_iff valof_bin wf_Binop
          simp del: wf_expr.simps(1))
  qed
qed

lemma keeps_trans:
  assumes "keeps \<rho> e s e1 s1" "keeps \<rho> e1 s1 e2 s2"
  shows "keeps \<rho> e s e2 s2"
  using assms by (auto simp: keeps_def same_tables_def)

lemma reduce_node_sound:
  assumes run: "reduce_node fuel e s = Inr ((n, e'), s')" and ag: "agrees \<rho> s"
    and wf: "wf_expr False e"
  shows "keeps \<rho> e s e' s'"
proof -
  obtain res s1 where tr: "expr_reduce_trivia fuel e s = Inr (res, s1)"
    and rest: "(let n = (case res of Inl _ \<Rightarrow> 1 | Inr _ \<Rightarrow> 0);
           e' = (case res of Inl x \<Rightarrow> x | Inr x \<Rightarrow> x)
       in case e' of
            Binop t l r \<Rightarrow>
              if t \<in> set assoc_tags then rbind (reduce_assoc t l r) (\<lambda>e''. rret (n, e''))
              else rret (n, e')
          | _ \<Rightarrow> rret (n, e')) s1 = Inr ((n, e'), s')"
    using run unfolding reduce_node_def rbind_Inr by blast
  define e1 where "e1 = (case res of Inl x \<Rightarrow> x | Inr x \<Rightarrow> x)"
  have K: "keeps \<rho> e s e1 s1"
    using expr_reduce_trivia_sound [OF ag tr wf] by (simp add: e1_def)
  consider (same) "e' = e1" "s' = s1"
    | (assoc) t l r where "e1 = Binop t l r" "t \<in> set assoc_tags" "reduce_assoc t l r s1 = Inr (e', s')"
    using rest
    by (cases e1) (auto simp: e1_def [symmetric] Let_def outcome_iff split: if_splits)
  then show ?thesis
  proof cases
    case same
    with K show ?thesis by simp
  next
    case assoc
    have "bin_tag t"
      using assoc(2) by (auto simp: assoc_tags_def bin_tag_def tag_isleaf_def tag_isunary_def)
    then have "wf_expr False l" "wf_expr False r"
      using K assoc(1) by (simp_all only: keeps_def wf_Binop)
    from reduce_assoc_sound [OF assoc(3,2) this, of \<rho>] K assoc(1) show ?thesis
      using keeps_trans by blast
  qed
qed

section \<open>What the helpers leave alone, whatever the expression\<close>

definition quiet :: "('x est_scheme, 'a) step \<Rightarrow> bool" where
  "quiet m \<longleftrightarrow> (\<forall>s r s'. m s = Inr (r, s') \<longrightarrow> same_tables s s')"

named_theorems quiet_intros

lemma quietD: "quiet m \<Longrightarrow> m s = Inr (r, s') \<Longrightarrow> same_tables s s'"
  by (auto simp: quiet_def)

lemma quiet_rret [quiet_intros]: "quiet (rret x)"
  by (simp add: quiet_def outcome_iff)

lemma quiet_rstop [quiet_intros]: "quiet (rstop x)"
  by (simp add: quiet_def outcome_iff)

lemma quiet_rget [quiet_intros]: "quiet (rget f)"
  by (simp add: quiet_def outcome_iff)

lemma quiet_rbind [quiet_intros]: "quiet m \<Longrightarrow> (\<And>x. quiet (f x)) \<Longrightarrow> quiet (rbind m f)"
  by (fastforce simp: quiet_def outcome_iff intro: same_tables_trans)

lemma quiet_basic [quiet_intros]: "quiet ask_shared" "quiet report_error" "quiet note_unsound"
  by (auto simp: quiet_def outcome_iff)

lemma quiet_if [quiet_intros]: "(b \<Longrightarrow> quiet f) \<Longrightarrow> (\<not> b \<Longrightarrow> quiet g) \<Longrightarrow> quiet (if b then f else g)"
  by simp

lemma quiet_prod [quiet_intros]: "(\<And>x y. quiet (f x y)) \<Longrightarrow> quiet (case p of (x, y) \<Rightarrow> f x y)"
  by (cases p) simp

lemma quiet_sum [quiet_intros]:
  "(\<And>x. quiet (f x)) \<Longrightarrow> (\<And>x. quiet (g x)) \<Longrightarrow> quiet (case p of Inl x \<Rightarrow> f x | Inr x \<Rightarrow> g x)"
  by (cases p) simp_all

lemma quiet_option [quiet_intros]:
  "quiet f \<Longrightarrow> (\<And>x. quiet (g x)) \<Longrightarrow> quiet (case p of None \<Rightarrow> f | Some x \<Rightarrow> g x)"
  by (cases p) simp_all

lemma quiet_scan_result [quiet_intros]:
  "quiet f \<Longrightarrow> quiet g \<Longrightarrow> (\<And>x. quiet (h x)) \<Longrightarrow>
     quiet (case p of Same \<Rightarrow> f | Gone \<Rightarrow> g | New x \<Rightarrow> h x)"
  by (cases p) simp_all

lemma quiet_expr [quiet_intros]:
  "(\<And>c. quiet (f1 c)) \<Longrightarrow> (\<And>n. quiet (f2 n)) \<Longrightarrow> (\<And>i l h. quiet (f3 i l h)) \<Longrightarrow> (\<And>n. quiet (f4 n)) \<Longrightarrow>
     (\<And>es. quiet (f5 es)) \<Longrightarrow> (\<And>t e. quiet (f6 t e)) \<Longrightarrow> (\<And>t l r. quiet (f7 t l r)) \<Longrightarrow>
     quiet (case e of Const c \<Rightarrow> f1 c | Name n \<Rightarrow> f2 n | Range i l h \<Rightarrow> f3 i l h | Element n \<Rightarrow> f4 n
       | Elsum es \<Rightarrow> f5 es | Unop t e \<Rightarrow> f6 t e | Binop t l r \<Rightarrow> f7 t l r)"
  by (cases e) simp_all

lemma quiet_eval [quiet_intros]: "quiet (eval t l r)"
  unfolding eval_def by (intro quiet_intros)

lemma quiet_equal [quiet_intros]: "quiet (expr_equal e f)"
  by (auto simp: quiet_def dest: expr_equal_sound calm_same_tables)

lemma quiet_binop_general [quiet_intros]: "quiet (expr_binop_general t e1 e2)"
  unfolding expr_binop_general_def
  by (auto split: expr_tag.split intro!: quiet_intros)

lemma quiet_binop [quiet_intros]: "quiet (expr_binop t e1 e2)"
  unfolding expr_binop_def by (intro quiet_intros)

lemma quiet_unop [quiet_intros]: "quiet (expr_unop t e)"
  unfolding expr_unop_def by (intro quiet_intros)

lemma quiet_asgop [quiet_intros]: "quiet (expr_asgop t e1 e2)"
  unfolding expr_asgop_def by (intro quiet_intros)

lemma quiet_add_to_sum [quiet_intros]: "quiet (add_to_sum acc e)"
  unfolding add_to_sum_def by (intro quiet_intros)

lemma quiet_elsum_split [quiet_intros]: "quiet (elsum_split es acc)"
  by (induction es arbitrary: acc) (auto split: expr.split intro!: quiet_intros)

lemma quiet_reduce_elsum [quiet_intros]: "quiet (expr_reduce_elsum es)"
  unfolding expr_reduce_elsum_def by (intro quiet_intros)

lemma quiet_substract [quiet_intros]: "quiet (substract_elsums es1 es2)"
  by (auto simp: quiet_def dest: substract_elsums_sound calm_same_tables)

lemma quiet_trivia_align [quiet_intros]: "quiet (trivia_align fuel e)"
  unfolding trivia_align_def
  by (auto split: expr.split expr_tag.split simp: quiet_def outcome_iff Let_def)

lemma quiet_trivia_binary [quiet_intros]: "quiet (trivia_binary fuel t l r)"
  unfolding trivia_binary_def
  by (auto split: expr.split expr_tag.split intro!: quiet_intros)

lemma quiet_trivia [quiet_intros]: "quiet (expr_reduce_trivia fuel e)"
  unfolding expr_reduce_trivia_def by (intro quiet_intros)

lemma quiet_scan2_leaf [quiet_intros]: "quiet (scan2_leaf e op item)"
  unfolding scan2_leaf_def
  by (auto split: expr.split expr_tag.split intro!: quiet_intros)

lemma quiet_scan2 [quiet_intros]: "quiet (scan2 e op item)"
  by (induction e op item rule: scan2.induct) (auto split: scan_result.split intro!: quiet_intros)

lemma quiet_scan1_leaf [quiet_intros]: "quiet (scan1_leaf e op tp)"
  unfolding scan1_leaf_def by (intro quiet_intros)

lemma quiet_scan1_join [quiet_intros]: "quiet (scan1_join t l r nl nr)"
  unfolding scan1_join_def by (intro quiet_intros)

lemma quiet_scan1 [quiet_intros]: "quiet (scan1 e op tp)"
  by (induction e op tp rule: scan1.induct) (auto intro!: quiet_intros)

lemma quiet_reduce_node [quiet_intros]: "quiet (reduce_node fuel e)"
  unfolding reduce_node_def reduce_assoc_def Let_def by (intro quiet_intros)

section \<open>\<open>expr_reduce\<close>\<close>

declare expr_reduce.simps(2) [simp del]

text \<open>The cases of one call, after the sum of elements at the top has been split.\<close>

lemma expr_reduce_cases:
  assumes "expr_reduce (Suc fuel) e s = Inr ((n, e'), s')"
  obtains (elsum) e0 s0 where
    "(case e of Elsum es \<Rightarrow> expr_reduce_elsum es | _ \<Rightarrow> rret e) s = Inr (e0, s0)"
    "(tag_isleaf (tag_of e0) \<and> e' = e0 \<and> s' = s0) \<or>
     (\<exists>k v v' m s1. e0 = Name k \<and> \<not> name_global s0 k \<and> name_val s0 k = Some v \<and>
        expr_reduce fuel v s0 = Inr ((m, v'), s1) \<and> e' = v' \<and>
        s' = s1\<lparr>name_val := (name_val s1)(k := Some v')\<rparr>) \<or>
     (\<exists>k v' m s1. e0 = Element k \<and> tag_of (el_size s0 k) \<noteq> EXPR_RANGE \<and>
        expr_reduce fuel (el_size s0 k) s0 = Inr ((m, v'), s1) \<and> e' = v' \<and>
        s' = s1\<lparr>el_size := (el_size s1)(k := v')\<rparr>) \<or>
     (\<exists>t r r' m m' s1. e0 = Unop t r \<and> expr_reduce fuel r s0 = Inr ((m, r'), s1) \<and>
        reduce_node fuel (Unop t r') s1 = Inr ((m', e'), s')) \<or>
     (\<exists>t l r l' r' m m' m'' s1 s2. e0 = Binop t l r \<and> expr_reduce fuel l s0 = Inr ((m, l'), s1) \<and>
        expr_reduce fuel r s1 = Inr ((m', r'), s2) \<and>
        reduce_node fuel (Binop t l' r') s2 = Inr ((m'', e'), s'))"
proof -
  obtain e0 s0 where 1: "(case e of Elsum es \<Rightarrow> expr_reduce_elsum es | _ \<Rightarrow> rret e) s = Inr (e0, s0)"
    using assms unfolding expr_reduce.simps(2) rbind_Inr by blast
  have 2: "expr_reduce (Suc fuel) e s = (case e0 of
       Name n \<Rightarrow>
           rbind (rget (\<lambda>s. if name_global s n then None else name_val s n)) (\<lambda>v.
             case v of
               None \<Rightarrow> rret (0, e0)
             | Some v \<Rightarrow> rbind (expr_reduce fuel v) (\<lambda>(_, v').
                 rbind (rmodify (\<lambda>s. s\<lparr>name_val := (name_val s)(n := Some v')\<rparr>)) (\<lambda>_. rret (0, v'))))
       | Element n \<Rightarrow>
           rbind (rget (\<lambda>s. el_size s n)) (\<lambda>size.
             if tag_of size = EXPR_RANGE then rret (0, e0)
             else rbind (expr_reduce fuel size) (\<lambda>(_, size').
                 rbind (rmodify (\<lambda>s. s\<lparr>el_size := (el_size s)(n := size')\<rparr>)) (\<lambda>_. rret (0, size'))))
       | Unop t r \<Rightarrow>
           rbind (expr_reduce fuel r) (\<lambda>(nr, r').
           rbind (reduce_node fuel (Unop t r')) (\<lambda>(n, e'). rret (nr + n, e')))
       | Binop t l r \<Rightarrow>
           rbind (expr_reduce fuel l) (\<lambda>(nl, l').
           rbind (expr_reduce fuel r) (\<lambda>(nr, r').
           rbind (reduce_node fuel (Binop t l' r')) (\<lambda>(n, e'). rret (nl + nr + n, e'))))
       | _ \<Rightarrow> rret (0, e0)) s0"
    using 1 unfolding expr_reduce.simps(2) by (simp add: rbind_def)
  show thesis
    by (rule elsum [OF 1], cases e0)
      (use assms 2 in \<open>auto simp: outcome_iff tag_isleaf_def split: option.splits if_splits\<close>)
qed

definition evolves :: "'x est_scheme \<Rightarrow> 'x est_scheme \<Rightarrow> bool" where
  "evolves s t \<longleftrightarrow>
     name_align t = name_align s \<and> name_global t = name_global s \<and> est.more t = est.more s \<and>
     unsound s \<le> unsound t \<and> errors s \<le> errors t \<and> (\<forall>n. name_val t n = None \<longleftrightarrow> name_val s n = None)"

lemma evolves_trans: "evolves s t \<Longrightarrow> evolves t u \<Longrightarrow> evolves s u"
  by (simp add: evolves_def)

lemma evolves_same_tables: "same_tables s t \<Longrightarrow> evolves s t"
  by (simp add: evolves_def same_tables_def)

lemma evolves_update [simp]:
  "evolves s (t\<lparr>el_size := g\<rparr>) = evolves s t"
  by (simp add: evolves_def)

lemma evolves_value:
  assumes "evolves s t" "name_val s n = Some v"
  shows "evolves s (t\<lparr>name_val := (name_val t)(n \<mapsto> w)\<rparr>)"
  using assms by (simp add: evolves_def)

lemma quiet_top_elsum: "quiet (case e of Elsum es \<Rightarrow> expr_reduce_elsum es | _ \<Rightarrow> rret e)"
  by (intro quiet_intros)

lemma expr_reduce_evolves:
  "expr_reduce fuel e s = Inr ((n, e'), s') \<Longrightarrow> evolves s s'"
proof (induction fuel arbitrary: e s n e' s')
  case (Suc fuel)
  from Suc.prems show ?case
  proof (cases rule: expr_reduce_cases)
    case (elsum e0 s0)
    have 0: "evolves s s0"
      using quietD [OF quiet_top_elsum elsum(1)] by (rule evolves_same_tables)
    from elsum(2) have "evolves s0 s'"
      by (elim disjE exE conjE)
        (auto dest!: Suc.IH quietD [OF quiet_reduce_node] evolves_same_tables
          intro: evolves_trans evolves_value evolves_same_tables [OF same_tables_refl])
    with 0 show ?thesis by (rule evolves_trans)
  qed
qed (simp add: outcome_iff)

lemma reduce_node_colon:
  assumes "reduce_node fuel (Binop EXPR_COLON l r) s = Inr ((n, e'), s')"
  shows "e' = Binop EXPR_COLON l r \<and> s' = s"
proof (cases "is_const l \<and> is_const r")
  case True
  with assms show ?thesis
    by (auto simp: reduce_node_def expr_reduce_trivia_def is_const_iff outcome_iff eval_def)
next
  case False
  then have "expr_reduce_trivia fuel (Binop EXPR_COLON l r) s = Inr (Inr (Binop EXPR_COLON l r), s)"
    by (cases l; cases r)
      (auto simp: expr_reduce_trivia_def trivia_binary_def trivia_align_def identity_tags_def tag_iscomm_def rret_def)
  with assms show ?thesis
    by (auto simp: reduce_node_def outcome_iff assoc_tags_def)
qed

text \<open>What a reduction of \<open>e\<close> promises; a \<open>COLON\<close> node keeps the values of both its operands.\<close>

definition reduced_to :: "env \<Rightarrow> bool \<Rightarrow> expr \<Rightarrow> expr \<Rightarrow> bool" where
  "reduced_to \<rho> colon e e' \<longleftrightarrow>
     wf_expr colon e' \<and> (if colon then snd (den \<rho> e') = snd (den \<rho> e) else valof \<rho> e' = valof \<rho> e)"

definition sound_state :: "env \<Rightarrow> 'x est_scheme \<Rightarrow> bool" where
  "sound_state \<rho> s \<longleftrightarrow> agrees \<rho> s \<and> wf_tables s"

lemma sound_state_transfer: "same_tables s t \<Longrightarrow> sound_state \<rho> t = sound_state \<rho> s"
  by (simp add: sound_state_def same_tables_transfer)

lemma sound_state_name_val:
  assumes "sound_state \<rho> s" "wf_expr False v" "\<not> name_global s k \<longrightarrow> vname \<rho> k = valof \<rho> v"
  shows "sound_state \<rho> (s\<lparr>name_val := (name_val s)(k := Some v)\<rparr>)"
  using assms by (auto simp: sound_state_def agrees_def wf_tables_def)

lemma sound_state_el_size:
  assumes "sound_state \<rho> s" "wf_expr False v" "vel \<rho> k = valof \<rho> v"
  shows "sound_state \<rho> (s\<lparr>el_size := (el_size s)(k := v)\<rparr>)"
  using assms by (auto simp: sound_state_def agrees_def wf_tables_def)

lemma reduced_to_trans: "reduced_to \<rho> c e e1 \<Longrightarrow> reduced_to \<rho> c e1 e2 \<Longrightarrow> reduced_to \<rho> c e e2"
  by (auto simp: reduced_to_def split: if_splits)

lemma reduced_to_leaf:
  "wf_expr colon e \<Longrightarrow> tag_isleaf (tag_of e) \<Longrightarrow> \<not> colon"
  by (cases e) (auto simp: tag_isleaf_def split: if_splits)

text \<open>Reducing both operands of a node, then the node.\<close>

lemma reduce_binop_sound:
  assumes node: "reduce_node fuel (Binop t l' r') s = Inr ((n, e'), s')"
    and u: "unsound s' = unsound s" and st: "sound_state \<rho> s" and wf: "wf_expr colon (Binop t l r)"
    and l: "reduced_to \<rho> False l l'" and r: "reduced_to \<rho> (t = EXPR_QUEST) r r'"
  shows "sound_state \<rho> s' \<and> reduced_to \<rho> colon (Binop t l r) e'"
proof (cases colon)
  case True
  then have "t = EXPR_COLON" using wf by simp
  with reduce_node_colon [of fuel l' r' s n e' s'] node st l r True wf show ?thesis
    by (auto simp: reduced_to_def valof_def)
next
  case False
  then have wf': "wf_expr False (Binop t l' r')"
    using wf l r by (auto simp: reduced_to_def split: if_splits)
  have ag: "agrees \<rho> s" using st by (simp add: sound_state_def)
  have v: "valof \<rho> (Binop t l' r') = valof \<rho> (Binop t l r)"
    using l r by (auto simp: reduced_to_def valof_def split: if_splits)
  from reduce_node_sound [OF node ag wf'] u v False st show ?thesis
    by (auto simp: keeps_def reduced_to_def sound_state_transfer)
qed

lemma expr_reduce_sound:
  "expr_reduce fuel e s = Inr ((n, e'), s') \<Longrightarrow> unsound s' = unsound s \<Longrightarrow> sound_state \<rho> s \<Longrightarrow>
     wf_expr colon e \<Longrightarrow> sound_state \<rho> s' \<and> reduced_to \<rho> colon e e'"
proof (induction fuel arbitrary: e s n e' s' colon)
  case (Suc fuel)
  from Suc.prems(1) show ?case
  proof (cases rule: expr_reduce_cases)
    case (elsum e0 s0)
    have t0: "same_tables s s0" using quietD [OF quiet_top_elsum elsum(1)] .
    have s0: "sound_state \<rho> s0"
      using Suc.prems(3) sound_state_transfer [OF t0] by simp
    have e0: "reduced_to \<rho> colon e e0"
    proof (cases "\<exists>es. e = Elsum es")
      case True
      then obtain es where "e = Elsum es" by blast
      with elsum(1) Suc.prems(3,4) expr_reduce_elsum_sound [of es s e0 s0 \<rho>] show ?thesis
        by (auto simp: reduced_to_def preserves_def sound_state_def)
    next
      case False
      then have "e0 = e" using elsum(1) by (cases e) (auto simp: outcome_iff)
      with Suc.prems(4) show ?thesis by (simp add: reduced_to_def)
    qed
    then have wf0: "wf_expr colon e0" by (simp add: reduced_to_def)
    have le: "unsound s \<le> unsound s0" using t0 by (simp add: same_tables_def)
    note IH = Suc.IH
    have "sound_state \<rho> s' \<and> reduced_to \<rho> colon e0 e'"
      using elsum(2)
    proof (elim disjE exE conjE)
      assume "tag_isleaf (tag_of e0)" "e' = e0" "s' = s0"
      with s0 wf0 show ?thesis by (simp add: reduced_to_def)
    next
      fix k v v' m s1
      assume e: "e0 = Name k" and g: "\<not> name_global s0 k" "name_val s0 k = Some v"
        and run: "expr_reduce fuel v s0 = Inr ((m, v'), s1)" and res: "e' = v'"
          "s' = s1\<lparr>name_val := (name_val s1)(k := Some v')\<rparr>"
      have wv: "wf_expr False v" "vname \<rho> k = valof \<rho> v"
        using s0 g by (auto simp: sound_state_def wf_tables_def agrees_def)
      have u: "unsound s1 = unsound s0"
        using expr_reduce_evolves [OF run] res le Suc.prems(2) by (simp add: evolves_def)
      from IH [OF run u s0 wv(1)] wf0 e wv(2) res show ?thesis
        by (auto simp: reduced_to_def valof_simps intro!: sound_state_name_val)
    next
      fix k v' m s1
      assume e: "e0 = Element k" and run: "expr_reduce fuel (el_size s0 k) s0 = Inr ((m, v'), s1)"
        and res: "e' = v'" "s' = s1\<lparr>el_size := (el_size s1)(k := v')\<rparr>"
      have wv: "wf_expr False (el_size s0 k)" "vel \<rho> k = valof \<rho> (el_size s0 k)"
        using s0 by (auto simp: sound_state_def wf_tables_def agrees_def)
      have u: "unsound s1 = unsound s0"
        using expr_reduce_evolves [OF run] res le Suc.prems(2) by (simp add: evolves_def)
      from IH [OF run u s0 wv(1)] wf0 e wv(2) res show ?thesis
        by (auto simp: reduced_to_def valof_simps intro!: sound_state_el_size)
    next
      fix t r r' m m' s1
      assume e: "e0 = Unop t r" and run: "expr_reduce fuel r s0 = Inr ((m, r'), s1)"
        and node: "reduce_node fuel (Unop t r') s1 = Inr ((m', e'), s')"
      have u: "unsound s1 = unsound s0" "unsound s' = unsound s1"
        using expr_reduce_evolves [OF run] quietD [OF quiet_reduce_node node] le Suc.prems(2)
        by (simp_all add: evolves_def same_tables_def)
      have "wf_expr False r" using wf0 e by simp
      note R = IH [OF run u(1) s0 this]
      then have "wf_expr False (Unop t r')" using wf0 e by (simp add: reduced_to_def)
      from reduce_node_sound [OF node _ this, of \<rho>] R u(2) wf0 e show ?thesis
        by (auto simp: keeps_def reduced_to_def sound_state_transfer valof_simps sound_state_def
            same_tables_transfer)
    next
      fix t l r l' r' m m' m'' s1 s2
      assume e: "e0 = Binop t l r" and l: "expr_reduce fuel l s0 = Inr ((m, l'), s1)"
        and r: "expr_reduce fuel r s1 = Inr ((m', r'), s2)"
        and node: "reduce_node fuel (Binop t l' r') s2 = Inr ((m'', e'), s')"
      have u: "unsound s1 = unsound s0" "unsound s2 = unsound s1" "unsound s' = unsound s2"
        using expr_reduce_evolves [OF l] expr_reduce_evolves [OF r] quietD [OF quiet_reduce_node node]
          le Suc.prems(2) by (simp_all add: evolves_def same_tables_def)
      have w: "wf_expr False l" "wf_expr (t = EXPR_QUEST) r"
        using wf0 e by (auto split: if_splits)
      from IH [OF l u(1) s0 w(1)] IH [OF r u(2) _ w(2)] reduce_binop_sound [OF node u(3)] wf0 e
      show ?thesis by blast
    qed
    with e0 show ?thesis using reduced_to_trans by blast
  qed
qed (simp add: outcome_iff)

section \<open>Properties\<close>



text \<open>
  The scan loses a sign: when the left operand of a subtraction on the right-hand side is merged into the left-hand side, the
  right operand is put in its place without being negated, so \<open>(x + 3) - (5 - y)\<close>
  becomes \<open>(x - 2) - y\<close>.
\<close>

theorem expr_reduce_loses_sign:
  "(case expr_reduce 4 (Binop EXPR_MINUS (Binop EXPR_PLUS (Name 1) (Const 3)) (Binop EXPR_MINUS (Const 5) (Name 2)))
           sample_state of
      Inr ((n, e'), s') \<Rightarrow> e' = Binop EXPR_MINUS (Binop EXPR_PLUS (Name 1) (Const (-2))) (Name 2) \<and>
        valof sample_env e' \<noteq> valof sample_env
          (Binop EXPR_MINUS (Binop EXPR_PLUS (Name 1) (Const 3)) (Binop EXPR_MINUS (Const 5) (Name 2)))
    | Inl _ \<Rightarrow> False)"
  by code_simp

text \<open>
  A condition whose arms come out as constants cannot be reduced, whatever is decided and whatever the arms were: the
  reducer evaluates the \<open>COLON\<close> node as if it were an operation and aborts.
\<close>

theorem expr_reduce_colon_aborts:
  assumes "expr_reduce (Suc (Suc fuel)) e s = Inr ((k, e'), s1)"
    "expr_reduce (Suc fuel) l s1 = Inr ((m, Const a), s2)" "expr_reduce (Suc fuel) r s2 = Inr ((n, Const b), s3)"
  shows "expr_reduce (Suc (Suc (Suc fuel))) (Binop EXPR_QUEST e (Binop EXPR_COLON l r)) s = Inl Abort"
proof -
  have "reduce_node (Suc fuel) (Binop EXPR_COLON (Const a) (Const b)) s3 = Inl Abort"
    by (simp add: reduce_node_def expr_reduce_trivia_def eval_def rstop_def rbind_def rret_def)
  then have "expr_reduce (Suc (Suc fuel)) (Binop EXPR_COLON l r) s1 = Inl Abort"
    using assms(2,3) by (subst expr_reduce.simps(2)) (simp add: rbind_def rret_def)
  then show ?thesis
    using assms(1) by (subst expr_reduce.simps(2)) (simp add: rbind_def rret_def)
qed

theorem expr_reduce_colon_aborts_witness:
  "expr_reduce 4 (Binop EXPR_QUEST (Name 1) (Binop EXPR_COLON (Unop EXPR_NEG (Const 4)) (Const 5))) sample_state = Inl Abort"
proof -
  have e: "expr_reduce (Suc (Suc 1)) (Name 1) sample_state = Inr ((0, Name 1), sample_state)"
    by (simp add: sample_state_def expr_reduce.simps(2) rbind_def rget_def rret_def)
  have "case expr_reduce 2 (Unop EXPR_NEG (Const 4)) sample_state of Inr ((m, l), s2) \<Rightarrow> l = Const (-4) | Inl _ \<Rightarrow> False" by code_simp
  then obtain m s2 where l: "expr_reduce (Suc 1) (Unop EXPR_NEG (Const 4)) sample_state = Inr ((m, Const (-4)), s2)"
    by (auto simp: numeral_2_eq_2 split: sum.splits prod.splits)
  have r: "expr_reduce (Suc 1) (Const 5) s2 = Inr ((0, Const 5), s2)"
    by (simp add: expr_reduce.simps(2) rbind_def rret_def)
  from expr_reduce_colon_aborts [OF e l r] show ?thesis by (simp add: eval_nat_numeral)
qed

text \<open>
  The rules for \<open>&&\<close> and \<open>||\<close> keep the truth of an expression but not its value: \<open>x && 5\<close> becomes
  \<open>x\<close>, which is 1 only when \<open>x\<close> is.
\<close>

lemma expr_reduce_logical_value:
  "(case expr_reduce 2 (Binop EXPR_ANDAND (Name 1) (Const 5)) sample_state of
      Inr ((n, e'), s') \<Rightarrow> e' = Name 1 \<and> unsound s' = 1 \<and>
        valof sample_env e' = 10 \<and> valof sample_env (Binop EXPR_ANDAND (Name 1) (Const 5)) = 1
    | Inl _ \<Rightarrow> False)"
  by code_simp

text \<open>
  C14: The alignment an expression is found to have is the alignment of its value: unless
  \<open>expr_check_alignment\<close> gives up, the low bits of the value are what it returns.
\<close>

theorem expr_check_alignment_sound:
  assumes "agrees \<rho> s" "pow2 align" "expr_check_alignment fuel s e align = Inr off" "off \<noteq> align"
  shows "valof \<rho> e AND (align - 1) = off"
  by (rule check_alignment_sound [OF assms])

theorem expr_check_alignment_sound_witness:
  "valof \<lparr>vname = (\<lambda>_. 64), vrange = (\<lambda>_. 3), vel = (\<lambda>_. 3)\<rparr> (Binop EXPR_PLUS (Name 1) (Const 5)) AND (4 - 1) = 1"
proof (rule expr_check_alignment_sound [where s = "sample_state\<lparr>name_align := (\<lambda>_. 8)\<rparr>" and fuel = 2])
  show "agrees \<lparr>vname = (\<lambda>_. 64), vrange = (\<lambda>_. 3), vel = (\<lambda>_. 3)\<rparr> (sample_state\<lparr>name_align := (\<lambda>_. 8)\<rparr>)"
    by (simp add: agrees_def sample_state_def valof_simps pow2_def exI [of _ 3])
  show "pow2 4" by (auto simp: pow2_def intro!: exI [of _ 2])
qed code_simp+

text \<open>
  Subtracting two sums of elements cancels the elements they have in common, however
  often each occurs, and collects the constants: what is left has the value of the difference.
\<close>

theorem substract_elsums_difference:
  "(case substract_elsums es1 es2 s of
      Inr (Same, s') \<Rightarrow> calm s s'
    | Inr (Gone, s') \<Rightarrow> calm s s' \<and> valof \<rho> (Elsum es1) = valof \<rho> (Elsum es2)
    | Inr (New e, s') \<Rightarrow> calm s s' \<and> valof \<rho> e = valof \<rho> (Elsum es1) - valof \<rho> (Elsum es2)
    | Inl _ \<Rightarrow> True)"
proof (cases "substract_elsums es1 es2 s")
  case (Inr p)
  then obtain res s' where "substract_elsums es1 es2 s = Inr (res, s')"
    by (cases p) simp
  from substract_elsums_sound [OF this, of \<rho> undefined] this show ?thesis
    by (cases res) (auto split: sum.split prod.split scan_result.split)
qed simp

end
