(* ===== verification/ExprEstimate.thy ===== *)
theory ExprEstimate
  imports ExprValue
begin

text \<open>
  Bounds on expressions whose ranges are not settled yet (\<open>expr_estimate\<close> and its helpers in
  \<open>shared/expr.c\<close>).  A range expression that is returned is its pair of bounds.
\<close>

definition sum_overflows :: "long \<Rightarrow> long \<Rightarrow> bool" where
  "sum_overflows a b \<longleftrightarrow>
     (0 <s a \<and> 0 <s b \<and> a + b <s 0) \<or> (a <s 0 \<and> b <s 0 \<and> 0 \<le>s a + b)"

abbreviation widest :: "long \<times> long" where
  "widest \<equiv> (long_min, long_max)"

text \<open>The loop of \<open>expr_estimate_elsum\<close>, from the partial sums \<open>lo\<close> and \<open>hi\<close>.\<close>

fun expr_estimate_elsum :: "(nat \<Rightarrow> expr) \<Rightarrow> expr list \<Rightarrow> long \<Rightarrow> long \<Rightarrow> (long \<times> long) outcome" where
  "expr_estimate_elsum sz [] lo hi = Inr (lo, hi)"
| "expr_estimate_elsum sz (e # es) lo hi =
     (case e of
        Element n \<Rightarrow>
          (case sz n of
             Range _ rlo rhi \<Rightarrow>
               if sum_overflows lo rlo \<or> sum_overflows hi rhi then Inr widest
               else expr_estimate_elsum sz es (lo + rlo) (hi + rhi)
           | Const c \<Rightarrow> expr_estimate_elsum sz es (lo + c) (hi + c)
           | _ \<Rightarrow> Inl Abort)
      | Const c \<Rightarrow> expr_estimate_elsum sz es (lo + c) (hi + c)
      | _ \<Rightarrow> Inl Abort)"

definition low_mask :: "expr \<Rightarrow> bool" where
  "low_mask e \<longleftrightarrow> is_const e \<and> constval e AND (constval e + 1) = 0"

text \<open>Recursion through a cycle of names or elements does not end: running out of fuel is \<open>Trap\<close>.\<close>

fun expr_estimate1 :: "nat \<Rightarrow> 'x est_scheme \<Rightarrow> expr \<Rightarrow> (long \<times> long) outcome" where
  "expr_estimate1 0 s e = Inl Trap"
| "expr_estimate1 (Suc fuel) s e =
     (case e of
        Const c \<Rightarrow> Inr (c, c)
      | Range _ lo hi \<Rightarrow> Inr (lo, hi)
      | Element n \<Rightarrow> expr_estimate1 fuel s (el_size s n)
      | Elsum es \<Rightarrow> expr_estimate_elsum (el_size s) es 0 0
      | Name n \<Rightarrow>
          (case name_val s n of
             Some v \<Rightarrow> if name_global s n then Inr widest else expr_estimate1 fuel s v
           | None \<Rightarrow> Inr widest)
      | Unop t r \<Rightarrow> if t = EXPR_NEG then Inl Abort else if t = EXPR_NOT then Inr (0, 1) else Inr widest
      | Binop t l r \<Rightarrow>
          if t = EXPR_MINUS
          then obind (expr_estimate1 fuel s r) (\<lambda>(rlo, rhi).
                 if rlo = long_min then Inr widest
                 else obind (expr_estimate1 fuel s l) (\<lambda>(llo, lhi).
                   if sum_overflows llo rlo \<or> sum_overflows lhi rhi then Inr widest
                   else Inr (llo - rhi, lhi - rlo)))
          else if t = EXPR_PLUS
          then obind (expr_estimate1 fuel s r) (\<lambda>(rlo, rhi).
                 obind (expr_estimate1 fuel s l) (\<lambda>(llo, lhi).
                   if sum_overflows llo rlo \<or> sum_overflows lhi rhi then Inr widest
                   else Inr (llo + rlo, lhi + rhi)))
          else if t = EXPR_AND \<and> low_mask r then Inr (0, constval r)
          else if t = EXPR_AND \<and> low_mask l then Inr (0, constval l)
          else Inr widest)"

text \<open>\<open>expr_estimate\<close>: a constant when the bounds meet.\<close>

definition expr_estimate :: "nat \<Rightarrow> 'x est_scheme \<Rightarrow> expr \<Rightarrow> (long \<times> long) outcome" where
  "expr_estimate fuel s e = expr_estimate1 fuel s e"

section \<open>Soundness\<close>

definition within :: "long \<Rightarrow> long \<times> long \<Rightarrow> bool" where
  "within v b \<longleftrightarrow> fst b \<le>s v \<and> v \<le>s snd b"

text \<open>The environment keeps every range of an expression within its bounds.\<close>

fun in_ranges :: "env \<Rightarrow> expr \<Rightarrow> bool" where
  "in_ranges \<rho> (Range i lo hi) = within (vrange \<rho> i) (lo, hi)"
| "in_ranges \<rho> (Elsum es) = (\<forall>e\<in>set es. in_ranges \<rho> e)"
| "in_ranges \<rho> (Unop t e) = in_ranges \<rho> e"
| "in_ranges \<rho> (Binop t l r) = (in_ranges \<rho> l \<and> in_ranges \<rho> r)"
| "in_ranges \<rho> _ = True"

definition tables_in_ranges :: "env \<Rightarrow> 'x est_scheme \<Rightarrow> bool" where
  "tables_in_ranges \<rho> s \<longleftrightarrow>
     (\<forall>n v. name_val s n = Some v \<longrightarrow> in_ranges \<rho> v) \<and> (\<forall>n. in_ranges \<rho> (el_size s n))"

text \<open>
  The three places where the source does not check for overflow: the bounds of a
  difference, constants in sums of elements, and a mask of all ones.
\<close>

definition fits :: "int \<Rightarrow> bool" where
  "fits x \<longleftrightarrow> - (2 ^ 31) \<le> x \<and> x < 2 ^ 31"

fun elsum_checked :: "(nat \<Rightarrow> expr) \<Rightarrow> expr list \<Rightarrow> long \<Rightarrow> long \<Rightarrow> bool" where
  "elsum_checked sz [] lo hi = True"
| "elsum_checked sz (e # es) lo hi =
     (let add_const = (\<lambda>c. fits (sint lo + sint c) \<and> fits (sint hi + sint c) \<and>
                        elsum_checked sz es (lo + c) (hi + c))
      in case e of
           Element n \<Rightarrow>
             (case sz n of
                Range _ rlo rhi \<Rightarrow>
                  sum_overflows lo rlo \<or> sum_overflows hi rhi \<or> elsum_checked sz es (lo + rlo) (hi + rhi)
              | Const c \<Rightarrow> add_const c
              | _ \<Rightarrow> True)
         | Const c \<Rightarrow> add_const c
         | _ \<Rightarrow> True)"

fun estimate_checked :: "nat \<Rightarrow> 'x est_scheme \<Rightarrow> expr \<Rightarrow> bool" where
  "estimate_checked 0 s e = False"
| "estimate_checked (Suc fuel) s e =
     (case e of
        Element n \<Rightarrow> estimate_checked fuel s (el_size s n)
      | Elsum es \<Rightarrow> elsum_checked (el_size s) es 0 0
      | Name n \<Rightarrow>
          (case name_val s n of
             Some v \<Rightarrow> name_global s n \<or> estimate_checked fuel s v
           | None \<Rightarrow> True)
      | Binop t l r \<Rightarrow>
          if t = EXPR_MINUS
          then estimate_checked fuel s l \<and> estimate_checked fuel s r \<and>
               (case (expr_estimate1 fuel s l, expr_estimate1 fuel s r) of
                  (Inr (llo, lhi), Inr (rlo, rhi)) \<Rightarrow>
                    fits (sint llo - sint rhi) \<and> fits (sint lhi - sint rlo)
                | _ \<Rightarrow> False)
          else if t = EXPR_PLUS then estimate_checked fuel s l \<and> estimate_checked fuel s r
          else t = EXPR_AND \<longrightarrow> l \<noteq> Const (-1) \<and> r \<noteq> Const (-1)
      | _ \<Rightarrow> True)"

lemma sum_overflows_fits: "\<not> sum_overflows a b \<longleftrightarrow> fits (sint a + sint b)"
proof (cases "fits (sint a + sint b)")
  case True
  then have "sint (a + b) = sint a + sint b"
    by (simp add: fits_def sint_add_eq)
  with True show ?thesis
    by (auto simp: sum_overflows_def word_sless_alt word_sle_eq)
next
  case False
  have b: "- (2 ^ 31) \<le> sint a" "sint a < 2 ^ 31" "- (2 ^ 31) \<le> sint b" "sint b < 2 ^ 31"
    using sint_ge [of a] sint_lt [of a] sint_ge [of b] sint_lt [of b] by simp_all
  have s: "sint (a + b) = sint (word_of_int (sint a + sint b) :: long)" by simp
  have big: "sint (word_of_int x :: long) = x - 2 ^ 32" if "2 ^ 31 \<le> x" "x < 2 ^ 32" for x
  proof -
    have eq: "(word_of_int x :: long) = word_of_int (x - 2 ^ 32)"
      by (simp add: word_of_int_eq_iff take_bit_eq_mod)
    show ?thesis
      unfolding eq by (rule sint_word_of_int_eq) (use that in simp_all)
  qed
  have small: "sint (word_of_int x :: long) = x + 2 ^ 32" if "x < - (2 ^ 31)" "- (2 ^ 32) \<le> x" for x
  proof -
    have eq: "(word_of_int x :: long) = word_of_int (x + 2 ^ 32)"
      by (simp add: word_of_int_eq_iff take_bit_eq_mod)
    show ?thesis
      unfolding eq by (rule sint_word_of_int_eq) (use that in simp_all)
  qed
  from False consider "2 ^ 31 \<le> sint a + sint b" | "sint a + sint b < - (2 ^ 31)"
    by (fastforce simp: fits_def)
  then show ?thesis
  proof cases
    case 1
    have "sint (a + b) = sint a + sint b - 2 ^ 32"
      unfolding s by (rule big) (use 1 b in simp_all)
    then have "sint (a + b) < 0" "0 < sint a" "0 < sint b" using 1 b by simp_all
    with False show ?thesis by (simp add: sum_overflows_def word_sless_alt)
  next
    case 2
    have "sint (a + b) = sint a + sint b + 2 ^ 32"
      unfolding s by (rule small) (use 2 b in simp_all)
    then have "0 \<le> sint (a + b)" "sint a < 0" "sint b < 0" using 2 b by simp_all
    with False show ?thesis by (simp add: sum_overflows_def word_sless_alt word_sle_eq)
  qed
qed

lemma within_widest: "within v widest"
proof -
  have "sint long_min = - (2 ^ 31)" "sint long_max = 2 ^ 31 - 1" by code_simp+
  then show ?thesis
    using sint_ge [of v] sint_lt [of v] by (simp add: within_def word_sle_eq)
qed

lemma within_add:
  assumes "within a (alo, ahi)" "within b (blo, bhi)" "fits (sint alo + sint blo)" "fits (sint ahi + sint bhi)"
  shows "within (a + b) (alo + blo, ahi + bhi)"
proof -
  have "sint (alo + blo) = sint alo + sint blo" "sint (ahi + bhi) = sint ahi + sint bhi"
    "sint (a + b) = sint a + sint b"
    using assms by (auto simp: within_def fits_def word_sle_eq intro!: sint_add_eq)
  with assms show ?thesis by (simp add: within_def word_sle_eq)
qed

lemma within_diff:
  assumes "within a (alo, ahi)" "within b (blo, bhi)" "fits (sint alo - sint bhi)" "fits (sint ahi - sint blo)"
  shows "within (a - b) (alo - bhi, ahi - blo)"
proof -
  have "sint (alo - bhi) = sint alo - sint bhi" "sint (ahi - blo) = sint ahi - sint blo"
    "sint (a - b) = sint a - sint b"
    using assms by (auto simp: within_def fits_def word_sle_eq intro!: sint_diff_eq)
  with assms show ?thesis by (simp add: within_def word_sle_eq)
qed

lemma low_mask_bounds:
  assumes "m AND (m + 1) = 0" "m \<noteq> -1"
  shows "within (x AND m) (0, m)"
proof -
  have "0 \<le> sint m"
  proof (rule ccontr)
    assume neg: "\<not> 0 \<le> sint m"
    have "sint m \<noteq> -1" using assms(2) by (metis signed_word_eqI sint_n1)
    with neg have "sint (m + 1) = sint m + 1"
      using sint_add_eq [of m 1] sint_ge [of m] by simp
    with neg \<open>sint m \<noteq> -1\<close> have "bit (m AND (m + 1)) 31"
      using bit_last_iff [of m] bit_last_iff [of "m + 1"] by (simp add: bit_and_iff)
    with assms(1) show False by simp
  qed
  then have m31: "\<not> bit m 31"
    using bit_last_iff [of m] by simp
  then have "\<not> bit (x AND m) 31" by (simp add: bit_and_iff)
  then have p: "0 \<le> sint (x AND m)"
    using bit_last_iff [of "x AND m"] by simp
  have "uint (x AND m) \<le> uint m"
    by (simp add: unsigned_and_eq AND_upper2)
  then have "sint (x AND m) \<le> sint m"
    using unat_sint [OF p] unat_sint [OF \<open>0 \<le> sint m\<close>] uint_nat [of m] uint_nat [of "x AND m"] by linarith
  with p show ?thesis by (simp add: within_def word_sle_eq)
qed

lemma estimate_elsum_sound:
  assumes "expr_estimate_elsum (el_size s) es lo hi = Inr b" "elsum_checked (el_size s) es lo hi"
    "agrees \<rho> s" "tables_in_ranges \<rho> s" "\<forall>e\<in>set es. in_ranges \<rho> e" "within v (lo, hi)"
  shows "within (v + sum_list (map (valof \<rho>) es)) b"
  using assms(1,2,5,6)
proof (induction es arbitrary: lo hi v)
  case (Cons e es)
  have step: ?case
    if "expr_estimate_elsum (el_size s) es (lo + l) (hi + h) = Inr b"
      "elsum_checked (el_size s) es (lo + l) (hi + h)" "within (valof \<rho> e) (l, h)"
      "fits (sint lo + sint l)" "fits (sint hi + sint h)" for l h
    using Cons.IH [OF that(1,2) _ within_add [OF Cons.prems(4) that(3-5)]] Cons.prems(3)
    by (simp add: add.assoc)
  have self: "within c (c, c)" for c by (simp add: within_def)
  show ?case
  proof (cases e)
    case (Const c)
    with Cons.prems step [of c c] self show ?thesis by (auto simp: Let_def valof_simps)
  next
    case (Element n)
    have v: "valof \<rho> e = valof \<rho> (el_size s n)" "in_ranges \<rho> (el_size s n)"
      using agreesD(2) [OF assms(3)] assms(4) Element by (simp_all add: valof_simps tables_in_ranges_def)
    show ?thesis
    proof (cases "el_size s n")
      case (Const c)
      with Cons.prems step [of c c] self v Element show ?thesis by (auto simp: Let_def valof_simps)
    next
      case (Range i l h)
      with Cons.prems v Element show ?thesis
        using step [of l h] within_widest
        by (cases "sum_overflows lo l \<or> sum_overflows hi h") (auto simp: Let_def valof_simps sum_overflows_fits [symmetric])
    qed (use Cons.prems Element in \<open>auto simp: Let_def\<close>)
  qed (use Cons.prems in auto)
qed simp

lemma expr_estimate1_sound:
  assumes "agrees \<rho> s" "tables_in_ranges \<rho> s"
  shows "expr_estimate1 fuel s e = Inr b \<Longrightarrow> estimate_checked fuel s e \<Longrightarrow> in_ranges \<rho> e \<Longrightarrow>
    within (valof \<rho> e) b"
proof (induction fuel arbitrary: e b)
  case (Suc fuel)
  show ?case
  proof (cases e)
    case (Name n)
    show ?thesis
    proof (cases "\<exists>v. name_val s n = Some v \<and> \<not> name_global s n")
      case True
      then obtain v where v: "name_val s n = Some v" "\<not> name_global s n" by blast
      with Suc.prems Name Suc.IH [of v b] assms(2) agreesD(1) [OF assms(1) v] show ?thesis
        by (simp add: valof_simps tables_in_ranges_def)
    next
      case False
      with Suc.prems Name within_widest show ?thesis
        by (auto split: option.splits if_splits)
    qed
  next
    case (Element n)
    with Suc.prems Suc.IH [of "el_size s n" b] assms(2) agreesD(2) [OF assms(1)] show ?thesis
      by (simp add: valof_simps tables_in_ranges_def)
  next
    case (Elsum es)
    with Suc.prems estimate_elsum_sound [OF _ _ assms, of es 0 0 b 0] show ?thesis
      by (simp add: within_def valof_simps)
  next
    case (Unop t r)
    with Suc.prems within_widest show ?thesis
      by (auto simp: valof_simps eval_val_def of_truth_def within_def word_sle_eq split: if_splits)
  next
    case (Binop t l r)
    consider (minus) "t = EXPR_MINUS" | (plus) "t = EXPR_PLUS"
      | (mask) m x where "t = EXPR_AND" "(l, r) = (x, Const m) \<or> (l, r) = (Const m, x)" "m AND (m + 1) = 0" "b = (0, m)"
      | (widest) "b = widest"
      using Suc.prems(1) Binop by (auto simp: low_mask_def is_const_iff split: if_splits)
    then show ?thesis
    proof cases
      case minus
      then obtain rlo rhi where r: "expr_estimate1 fuel s r = Inr (rlo, rhi)"
        using Suc.prems(1) Binop by (auto simp: outcome_iff)
      show ?thesis
      proof (cases "b = widest")
        case False
        with minus r Suc.prems(1) Binop obtain llo lhi where l: "expr_estimate1 fuel s l = Inr (llo, lhi)"
          and b: "b = (llo - rhi, lhi - rlo)"
          by (auto simp: outcome_iff split: if_splits)
        with minus r Suc.prems(2,3) Binop Suc.IH [OF l] Suc.IH [OF r] show ?thesis
          by (auto simp: valof_simps intro!: within_diff)
      qed (use within_widest in simp)
    next
      case plus
      with Suc.prems(1) Binop obtain rlo rhi llo lhi where r: "expr_estimate1 fuel s r = Inr (rlo, rhi)"
        and l: "expr_estimate1 fuel s l = Inr (llo, lhi)"
        and b: "b = (if sum_overflows llo rlo \<or> sum_overflows lhi rhi then widest else (llo + rlo, lhi + rhi))"
        by (auto simp: outcome_iff split: if_splits)
      with plus Suc.prems(2,3) Binop Suc.IH [OF l] Suc.IH [OF r] within_widest show ?thesis
        by (auto simp: valof_simps sum_overflows_fits intro!: within_add)
    next
      case mask
      with Suc.prems(2) Binop have "m \<noteq> -1" by auto
      from low_mask_bounds [OF mask(3) this, of "valof \<rho> x"] mask Binop show ?thesis
        by (auto simp: valof_simps eval_val_def and.commute)
    qed (use within_widest in simp)
  qed (use Suc.prems in \<open>auto simp: valof_simps within_def\<close>)
qed simp

section \<open>Properties\<close>

text \<open>
  C9: The estimate of an expression bounds its final value, for every environment that agrees with
  the tables and keeps the ranges within their bounds, unless one of the three sums the
  source does not check overflows.
\<close>

theorem expr_estimate_bounds:
  assumes "agrees \<rho> s" "tables_in_ranges \<rho> s" "in_ranges \<rho> e" "estimate_checked fuel s e"
    "expr_estimate fuel s e = Inr (lo, hi)"
  shows "lo \<le>s valof \<rho> e \<and> valof \<rho> e \<le>s hi"
  using expr_estimate1_sound [OF assms(1,2) _ assms(4,3)] assms(5)
  by (simp add: expr_estimate_def within_def)

theorem expr_estimate_bounds_witness:
  "(2 :: long) \<le>s valof \<lparr>vname = (\<lambda>_. 0), vrange = (\<lambda>_. 3), vel = (\<lambda>_. 3)\<rparr>
       (Binop EXPR_MINUS (Elsum [Element 0, Element 1]) (Const 0)) \<and>
   valof \<lparr>vname = (\<lambda>_. 0), vrange = (\<lambda>_. 3), vel = (\<lambda>_. 3)\<rparr>
       (Binop EXPR_MINUS (Elsum [Element 0, Element 1]) (Const 0)) \<le>s (16 :: long)"
proof (rule expr_estimate_bounds [where fuel = 3 and s = sample_state])
  show "agrees \<lparr>vname = (\<lambda>_. 0), vrange = (\<lambda>_. 3), vel = (\<lambda>_. 3)\<rparr> sample_state"
    by (simp add: agrees_def sample_state_def valof_simps)
  show "tables_in_ranges \<lparr>vname = (\<lambda>_. 0), vrange = (\<lambda>_. 3), vel = (\<lambda>_. 3)\<rparr> sample_state"
    by (simp add: tables_in_ranges_def sample_state_def within_def word_sle_eq)
qed code_simp+

text \<open>
  The check for overflow of a difference tests the sums of the bounds instead: the estimate of
  \<open>x - y\<close> with \<open>x\<close> in \<open>0..LONG_MAX\<close> and \<open>y\<close> in \<open>-1..0\<close> is the empty range \<open>0..LONG_MIN\<close>.
\<close>

lemma expr_estimate_minus_unsound:
  "expr_estimate 2 sample_state (Binop EXPR_MINUS (Range 1 0 long_max) (Range 2 (-1) 0)) = Inr (0, long_min) \<and>
   \<not> 0 \<le>s long_min \<and>
   expr_estimate 2 sample_state (Binop EXPR_AND (Name 1) (Const (-1))) = Inr (0, -1)"
  by code_simp

end
