(* ===== verification/LitNumber.thy ===== *)
theory LitNumber
  imports Prelude
begin

text \<open>
  Numbers, blocks, strings and area markers of the LIT object format
  (\<open>shared/litout.c\<close>, \<open>shared/litin.c\<close>, \<open>shared/litio.h\<close>).  A number is a tag byte and up to four
  bytes of payload, so a host whose \<open>long\<close> is wider loses bits: the codec is generic in the
  width.  Writers return the bytes they add to the file, readers are state transformers of
  the bytes left (\<open>Prelude\<close>).  \<open>putc\<close> and \<open>fwrite\<close> are taken to succeed.
\<close>

section \<open>Writer\<close>

abbreviation "out_byte number \<equiv> (ucast number :: byte)"

definition lit_out_tagged :: "'l::len word \<Rightarrow> byte list" where
  "lit_out_tagged n =
     (if 0 \<le>s n \<and> n \<le>s 250 then [out_byte n]
      else if n AND NOT 0xff = 0 then [251, out_byte n]
      else if n AND NOT 0xffff = 0 then [252, out_byte n, out_byte (signed_drop_bit 8 n)]
      else [253, out_byte n, out_byte (signed_drop_bit 8 n), out_byte (signed_drop_bit 16 n),
            out_byte (signed_drop_bit 24 n)])"

definition lit_out_number :: "'l::len word \<Rightarrow> byte list" where
  "lit_out_number number =
     (if number <s 0 \<and> NOT 0xffff \<le>s number then 255 # lit_out_tagged (NOT number)
      else lit_out_tagged number)"

text \<open>\<open>lit_out_string (str, len)\<close>.\<close>

definition lit_out_string :: "byte list \<Rightarrow> byte list" where
  "lit_out_string str = lit_out_number (word_of_nat (length str) :: long) @ str"

section \<open>Reader\<close>

text \<open>The payload bytes, as the reader ors them in; \<open>c << 24\<close> is an \<open>int\<close> and sign-extends.\<close>

definition lit_payload :: "byte list \<Rightarrow> 'l::len word" where
  "lit_payload bs =
     (case bs of
        [a, b, c, d] \<Rightarrow>
          ucast a OR push_bit 8 (ucast b) OR push_bit 16 (ucast c)
            OR scast (push_bit 24 (ucast d) :: 32 word)
      | [a, b] \<Rightarrow> ucast a OR push_bit 8 (ucast b)
      | [a] \<Rightarrow> ucast a
      | _ \<Rightarrow> 0)"

definition lit_in_tagged :: "byte \<Rightarrow> bool \<Rightarrow> 'l::len word reader" where
  "lit_in_tagged c invert =
     (let finish = (\<lambda>number. rret (if invert then NOT number else number)) in
      if c = 255 \<or> c = 254 then rbind rerror (\<lambda>_. rret 0)
      else if c = 253 then rbind (rblock 4) (\<lambda>bs. finish (lit_payload bs))
      else if c = 252 then rbind (rblock 2) (\<lambda>bs. finish (lit_payload bs))
      else if c = 251 then rbind (rblock 1) (\<lambda>bs. finish (lit_payload bs))
      else finish (ucast c))"

definition lit_in_number :: "'l::len word reader" where
  "lit_in_number =
     rbind rbyte (\<lambda>c. if c = 255 then rbind rbyte (\<lambda>c'. lit_in_tagged c' True) else lit_in_tagged c False)"

definition lit_in_block :: "nat \<Rightarrow> byte list reader" where
  "lit_in_block len = rblock len"

text \<open>
  \<open>lit_in_string\<close> takes the length as an \<open>int\<close>; \<open>xmalloc\<close> and \<open>fread\<close> get it as a \<open>size_t\<close>, so
  a negative length asks for more bytes than any file has.
\<close>

definition lit_in_string :: "byte list reader" where
  "lit_in_string = rbind (lit_in_number :: long reader) (\<lambda>len. rblock (unat len))"

section \<open>Area markers\<close>

abbreviation LIT_DUMMY :: long where "LIT_DUMMY \<equiv> 0"
abbreviation LIT_DATA :: long where "LIT_DATA \<equiv> -1"
abbreviation LIT_CMD :: long where "LIT_CMD \<equiv> -2"
abbreviation LIT_NAME :: long where "LIT_NAME \<equiv> -3"
abbreviation LIT_NEEDS :: long where "LIT_NEEDS \<equiv> -4"
abbreviation LIT_SEGMENT :: long where "LIT_SEGMENT \<equiv> -5"
abbreviation LIT_FRAGMENT :: long where "LIT_FRAGMENT \<equiv> -6"
abbreviation LIT_NAMEDEF :: long where "LIT_NAMEDEF \<equiv> -7"
abbreviation LIT_MARKER :: long where "LIT_MARKER \<equiv> -8"
abbreviation LIT_COMMENT :: long where "LIT_COMMENT \<equiv> -9"

definition lit_marker_length :: nat where
  "lit_marker_length = 8"

text \<open>
  \<open>lit_out_marker\<close> at file position \<open>curpos\<close>; \<open>oldpos\<close> is its static variable, the position
  behind the previous marker.  The result holds the bytes and the new \<open>oldpos\<close>.
\<close>

definition lit_out_marker :: "nat \<Rightarrow> nat \<Rightarrow> long \<Rightarrow> (byte list \<times> nat) outcome" where
  "lit_out_marker oldpos curpos area_type =
     (if curpos < oldpos then Inl Abort
      else
        let body = lit_out_number LIT_MARKER @ lit_out_number area_type
                     @ lit_out_number (word_of_nat (curpos - oldpos) :: long)
        in if lit_marker_length < length body then Inl Abort
           else Inr (body @ concat (replicate (lit_marker_length - length body) (lit_out_number LIT_DUMMY)),
                     curpos + lit_marker_length))"

section \<open>Round trip of numbers\<close>

lemma mask8: "(0xff :: 'l::len word) = mask 8"
  by (simp add: mask_eq_exp_minus_1)

lemma mask16: "(0xffff :: 'l::len word) = mask 16"
  by (simp add: mask_eq_exp_minus_1)

lemma bit_signed_drop_low:
  fixes n :: "'l::len word"
  shows "j < 8 \<Longrightarrow> k + 8 \<le> LENGTH('l) \<Longrightarrow> bit (signed_drop_bit k n) j \<longleftrightarrow> bit n (k + j)"
  by (auto simp: bit_signed_drop_bit_iff)

lemma bit_payload4:
  assumes "32 \<le> LENGTH('l)" "i < LENGTH('l)"
  shows "bit (lit_payload [a, b, c, d] :: 'l::len word) i \<longleftrightarrow>
    bit a i \<or> 8 \<le> i \<and> bit b (i - 8) \<or> 16 \<le> i \<and> bit c (i - 16) \<or> 24 \<le> i \<and> bit d (min i 31 - 24)"
proof -
  have "bit (scast (push_bit 24 (ucast d) :: 32 word) :: 'l word) i \<longleftrightarrow> 24 \<le> i \<and> bit d (min i 31 - 24)"
    using assms by (cases "i < 31") (auto simp: bit_simps min_def)
  then show ?thesis
    using assms(2)
    by (auto simp: lit_payload_def bit_or_iff bit_push_bit_iff bit_unsigned_iff less_imp_diff_less)
qed

lemma payload4:
  fixes n :: "'l::len word"
  assumes L: "32 \<le> LENGTH('l)"
  shows "lit_payload [out_byte n, out_byte (signed_drop_bit 8 n), out_byte (signed_drop_bit 16 n),
           out_byte (signed_drop_bit 24 n)] = (scast (ucast n :: 32 word) :: 'l word)" (is "?l = ?r")
proof (rule bit_word_eqI)
  fix i assume i: "i < LENGTH('l)"
  consider "i < 8" | "8 \<le> i" "i < 16" | "16 \<le> i" "i < 24" | "24 \<le> i"
    by linarith
  then have "bit ?l i \<longleftrightarrow> bit n (min i 31)"
    unfolding bit_payload4 [OF L i] using L
    by cases (auto simp: bit_signed_drop_low bit_unsigned_iff min_def)
  also have "\<dots> \<longleftrightarrow> bit ?r i"
    using i L by (auto simp: bit_simps min_def)
  finally show "bit ?l i = bit ?r i" .
qed

lemma high_clear:
  fixes n :: "'l::len word"
  assumes "n AND NOT (mask k) = 0" "bit n i"
  shows "i < k"
  using arg_cong [OF assms(1), of "\<lambda>w. bit w i"] assms(2)
  by (cases "i < LENGTH('l)") (auto simp: bit_simps dest: bit_imp_le_length)

lemma payload2:
  fixes n :: "'l::len word"
  assumes L: "32 \<le> LENGTH('l)" and n: "n AND NOT 0xffff = 0"
  shows "lit_payload [out_byte n, out_byte (signed_drop_bit 8 n)] = n" (is "?l = _")
proof (rule bit_word_eqI)
  fix i assume i: "i < LENGTH('l)"
  have "bit ?l i \<longleftrightarrow> i < 8 \<and> bit n i \<or> 8 \<le> i \<and> i - 8 < 8 \<and> bit n i"
    using i L bit_signed_drop_low [of "i - 8" 8 n]
    by (auto simp: lit_payload_def bit_or_iff bit_push_bit_iff bit_unsigned_iff)
  then show "bit ?l i = bit n i"
    using high_clear [OF n [unfolded mask16], of i] by auto
qed

lemma payload1:
  fixes n :: "'l::len word"
  assumes "n AND NOT 0xff = 0"
  shows "(ucast (out_byte n) :: 'l word) = n"
  by (rule bit_word_eqI) (auto simp: bit_simps dest: high_clear [OF assms [unfolded mask8]])

lemma small_high_clear:
  fixes m :: "'l::len word"
  assumes "32 \<le> LENGTH('l)" "0 \<le>s m" "m \<le>s 250"
  shows "m AND NOT 0xff = 0" "unat (out_byte m) \<le> 250"
proof -
  have "(2::int) ^ 31 \<le> 2 ^ (LENGTH('l) - 1)"
    using assms(1) by (intro power_increasing) auto
  then have "sint (word_of_int 250 :: 'l word) = 250"
    by (intro sint_word_of_int_eq) auto
  then have s: "0 \<le> sint m" "sint m \<le> 250"
    using assms(2,3) by (simp_all add: word_sle_eq)
  then have u: "unat m \<le> 250"
    using unat_sint [of m] by linarith
  then have "uint m < 256"
    using uint_nat [of m] by linarith
  then have "uint m < 2 ^ 8" by simp
  then have "m AND mask 8 = m"
    by (simp only: mask_eq_iff)
  then have "m AND NOT (mask 8) = (m AND mask 8) AND NOT (mask 8)" by simp
  also have "\<dots> = 0" by (rule bit_word_eqI) (auto simp: bit_simps)
  finally show "m AND NOT 0xff = 0" by (simp only: mask8)
  have "unat (out_byte m) = unat m mod 256"
    by (simp add: unsigned_ucast_eq take_bit_eq_mod)
  then show "unat (out_byte m) \<le> 250" using u by simp
qed

lemma scast_ucast_small:
  fixes m :: "'l::len word"
  assumes "32 \<le> LENGTH('l)" "m AND NOT 0xffff = 0"
  shows "scast (ucast m :: 32 word) = m"
proof (rule bit_word_eqI)
  fix i assume "i < LENGTH('l)"
  then show "bit (scast (ucast m :: 32 word) :: 'l word) i = bit m i"
    using high_clear [OF assms(2) [unfolded mask16], of i] high_clear [OF assms(2) [unfolded mask16], of 31]
    by (auto simp: bit_simps min_def)
qed

lemma scast_ucast_not:
  fixes n :: "'l::len word"
  assumes "32 \<le> LENGTH('l)"
  shows "NOT (scast (ucast (NOT n) :: 32 word)) = (scast (ucast n :: 32 word) :: 'l word)"
  by (rule bit_word_eqI) (use assms in \<open>auto simp: bit_simps min_def\<close>)

lemma high_clear_mono:
  fixes m :: "'l::len word"
  assumes "m AND NOT 0xff = 0"
  shows "m AND NOT 0xffff = 0"
  unfolding mask16
  by (rule bit_word_eqI) (auto simp: bit_simps dest: high_clear [OF assms [unfolded mask8]])

lemma lit_in_out_tagged:
  fixes m :: "'l::len word"
  assumes L: "32 \<le> LENGTH('l)"
  obtains c bs where "lit_out_tagged m = c # bs" "c \<noteq> 255"
    "\<And>rest k. lit_in_tagged c iv \<lparr>inp = bs @ rest, nerr = k\<rparr> =
       Inr (if iv then NOT (scast (ucast m :: 32 word)) else (scast (ucast m :: 32 word) :: 'l word),
            \<lparr>inp = rest, nerr = k\<rparr>)"
proof -
  consider (one) "0 \<le>s m" "m \<le>s 250" | (two) "\<not> (0 \<le>s m \<and> m \<le>s 250)" "m AND NOT 0xff = 0"
    | (three) "\<not> (0 \<le>s m \<and> m \<le>s 250)" "m AND NOT 0xff \<noteq> 0" "m AND NOT 0xffff = 0"
    | (five) "\<not> (0 \<le>s m \<and> m \<le>s 250)" "m AND NOT 0xff \<noteq> 0" "m AND NOT 0xffff \<noteq> 0"
    by blast
  then show thesis
  proof cases
    case one
    note s = small_high_clear [OF L one]
    then have "out_byte m \<notin> {251, 252, 253, 254, 255}" by auto
    with one that [of "out_byte m" "[]"] s payload1 [OF s(1)]
      scast_ucast_small [OF L high_clear_mono [OF s(1)]]
    show ?thesis
      by (simp add: lit_out_tagged_def lit_in_tagged_def Let_def reader_simps)
  next
    case two
    with that [of 251 "[out_byte m]"] payload1 [OF two(2)]
      scast_ucast_small [OF L high_clear_mono [OF two(2)]]
      rblock_append [of "[out_byte m]" 1]
    show ?thesis
      by (simp add: lit_out_tagged_def lit_in_tagged_def Let_def reader_simps lit_payload_def)
  next
    case three
    with that [of 252 "[out_byte m, out_byte (signed_drop_bit 8 m)]"] payload2 [OF L three(3)]
      scast_ucast_small [OF L three(3)] rblock_append [of "[out_byte m, out_byte (signed_drop_bit 8 m)]" 2]
    show ?thesis
      by (simp add: lit_out_tagged_def lit_in_tagged_def Let_def reader_simps)
  next
    case five
    let ?bs = "[out_byte m, out_byte (signed_drop_bit 8 m), out_byte (signed_drop_bit 16 m),
      out_byte (signed_drop_bit 24 m)]"
    from five that [of 253 ?bs] payload4 [OF L, of m] rblock_append [of ?bs 4]
    show ?thesis
      by (simp add: lit_out_tagged_def lit_in_tagged_def Let_def reader_simps)
  qed
qed

lemma lit_number_roundtrip_wide:
  fixes n :: "'l::len word"
  assumes L: "32 \<le> LENGTH('l)"
  shows "lit_in_number \<lparr>inp = lit_out_number n @ rest, nerr = k\<rparr> =
     Inr (scast (ucast n :: 32 word) :: 'l word, \<lparr>inp = rest, nerr = k\<rparr>)"
proof (cases "n <s 0 \<and> NOT 0xffff \<le>s n")
  case True
  obtain c bs where "lit_out_tagged (NOT n) = c # bs"
    "\<And>rest k. lit_in_tagged c True \<lparr>inp = bs @ rest, nerr = k\<rparr> =
       Inr (NOT (scast (ucast (NOT n) :: 32 word)) :: 'l word, \<lparr>inp = rest, nerr = k\<rparr>)"
    using lit_in_out_tagged [OF L, of "NOT n" True] by (metis (full_types))
  with True scast_ucast_not [OF L, of n] show ?thesis
    by (simp add: lit_out_number_def lit_in_number_def reader_simps)
next
  case False
  obtain c bs where "lit_out_tagged n = c # bs" "c \<noteq> 255"
    "\<And>rest k. lit_in_tagged c False \<lparr>inp = bs @ rest, nerr = k\<rparr> =
       Inr (scast (ucast n :: 32 word) :: 'l word, \<lparr>inp = rest, nerr = k\<rparr>)"
    using lit_in_out_tagged [OF L, of n False] by (metis (full_types))
  with False show ?thesis
    by (auto simp: lit_out_number_def lit_in_number_def reader_simps)
qed

lemma lit_number_roundtrip_long:
  "lit_in_number \<lparr>inp = lit_out_number (n :: long) @ rest, nerr = k\<rparr> = Inr (n, \<lparr>inp = rest, nerr = k\<rparr>)"
  by (simp add: lit_number_roundtrip_wide)

lemma lit_out_number_length: "1 \<le> length (lit_out_number n) \<and> length (lit_out_number n) \<le> 5"
  for n :: long
proof (cases "n <s 0 \<and> NOT 0xffff \<le>s n")
  case True
  then have s: "- 65536 \<le> sint n" "sint n < 0"
    by (simp_all add: word_sless_alt word_sle_eq)
  then have "int (unat (NOT n)) < 65536"
    using unat_sint [of "NOT n"] sint_not_eq [of n] by linarith
  then have "uint (NOT n) < 65536"
    using uint_nat [of "NOT n"] by linarith
  then have "uint (NOT n) < 2 ^ 16" by simp
  then have "NOT n AND mask 16 = NOT n" by (simp only: mask_eq_iff)
  then have "NOT n AND NOT 0xffff = (NOT n AND mask 16) AND NOT (mask 16)"
    by (simp only: mask16)
  also have "\<dots> = 0" by (rule bit_word_eqI) (auto simp: bit_simps)
  finally show ?thesis
    using True by (simp add: lit_out_number_def lit_out_tagged_def)
qed (auto simp: lit_out_number_def lit_out_tagged_def)

section \<open>Clients of a number codec\<close>

text \<open>
  What the readers of strings, markers and expressions use of the number codec: a reader
  that gives back what the writer wrote and leaves the rest.
\<close>

locale number_codec =
  fixes out_num :: "long \<Rightarrow> byte list"
    and in_num :: "long reader"
  assumes in_out: "in_num \<lparr>inp = out_num n @ rest, nerr = k\<rparr> = Inr (n, \<lparr>inp = rest, nerr = k\<rparr>)"
begin

lemma out_nonempty: "out_num n \<noteq> []"
proof
  assume "out_num n = []"
  then have eq: "in_num \<lparr>inp = rest, nerr = k\<rparr> = Inr (n, \<lparr>inp = rest, nerr = k\<rparr>)" for rest k
    using in_out [of n rest k] by simp
  from in_out [of "n + 1" "[]" 0] eq [of "out_num (n + 1)" 0]
  show False by simp
qed

lemma out_prefix_free:
  assumes "out_num m @ r = out_num n @ s"
  shows "m = n \<and> r = s"
proof -
  have "(Inr (m, \<lparr>inp = r, nerr = 0\<rparr>) :: (long \<times> rstate) outcome) = Inr (n, \<lparr>inp = s, nerr = 0\<rparr>)"
    using in_out [of m r 0, unfolded assms] in_out [of n s 0] by (rule trans [OF sym])
  then show ?thesis by simp
qed

lemma string_in_out:
  assumes "length str < 2 ^ 32"
  shows "rbind in_num (\<lambda>len. rblock (unat len))
      \<lparr>inp = out_num (word_of_nat (length str)) @ str @ rest, nerr = k\<rparr>
    = Inr (str, \<lparr>inp = rest, nerr = k\<rparr>)"
proof -
  have "unat (word_of_nat (length str) :: long) = length str"
    using assms by (simp add: unat_of_nat)
  then show ?thesis by (simp add: reader_simps in_out)
qed

lemma three_in_out:
  "rbind in_num (\<lambda>a. rbind in_num (\<lambda>b. rbind in_num (\<lambda>c. rret (a, b, c))))
      \<lparr>inp = out_num a @ out_num b @ out_num c @ rest, nerr = k\<rparr>
    = Inr ((a, b, c), \<lparr>inp = rest, nerr = k\<rparr>)"
  by (simp add: reader_simps in_out)

end

interpretation lit: number_codec lit_out_number lit_in_number
  by unfold_locales (rule lit_number_roundtrip_long)

section \<open>Properties\<close>

text \<open>
  C6: A number written by \<open>lit_out_number\<close> on a 32-bit host is read back by \<open>lit_in_number\<close>
  exactly, without a diagnostic and without touching what follows it.
\<close>

theorem lit_number_roundtrip:
  "lit_in_number \<lparr>inp = lit_out_number (n :: long) @ rest, nerr = k\<rparr> = Inr (n, \<lparr>inp = rest, nerr = k\<rparr>)"
  by (rule lit.in_out)

text \<open>
  On a 64-bit host the reader gives back the low 32 bits, sign-extended: the widest
  range \<open>LONG_MIN..LONG_MAX\<close> comes back as \<open>0..-1\<close>.
\<close>

lemma lit_number_truncates:
  "lit_in_number \<lparr>inp = lit_out_number (n :: 64 word) @ rest, nerr = k\<rparr>
     = Inr (scast (ucast n :: 32 word) :: 64 word, \<lparr>inp = rest, nerr = k\<rparr>) \<and>
   scast (ucast (0x8000000000000000 :: 64 word) :: 32 word) = (0 :: 64 word) \<and>
   scast (ucast (0x7fffffffffffffff :: 64 word) :: 32 word) = (-1 :: 64 word)"
proof (intro conjI)
  show "lit_in_number \<lparr>inp = lit_out_number n @ rest, nerr = k\<rparr>
     = Inr (scast (ucast n :: 32 word) :: 64 word, \<lparr>inp = rest, nerr = k\<rparr>)"
    by (rule lit_number_roundtrip_wide) simp
qed code_simp+

text \<open>Strings round-trip, whatever bytes they hold, as long as their length is an \<open>int\<close>.\<close>

theorem lit_string_roundtrip:
  assumes "length str < 2 ^ 31"
  shows "lit_in_string \<lparr>inp = lit_out_string str @ rest, nerr = k\<rparr> = Inr (str, \<lparr>inp = rest, nerr = k\<rparr>)"
  using assms lit.string_in_out [of str rest k] by (simp add: lit_in_string_def lit_out_string_def)

theorem lit_string_roundtrip_witness:
  "lit_in_string \<lparr>inp = lit_out_string [0x6d, 0x61, 0x00] @ [0xfb], nerr = 0\<rparr>
     = Inr ([0x6d, 0x61, 0x00], \<lparr>inp = [0xfb], nerr = 0\<rparr>)"
  by (rule lit_string_roundtrip) simp

text \<open>
  An area marker is exactly eight bytes long, never trips the assertion, and starts with
  the three numbers the linker reads back from it: tag, area and distance to the previous
  marker.
\<close>

lemma lit_marker_fixed_length:
  assumes "oldpos \<le> curpos" "0 \<le>s area" "area \<le>s 250"
  shows "\<exists>bs. lit_out_marker oldpos curpos area = Inr (bs, curpos + 8) \<and> length bs = 8 \<and>
    (\<exists>pad. rbind lit_in_number (\<lambda>a. rbind lit_in_number (\<lambda>b. rbind lit_in_number (\<lambda>c. rret (a, b, c))))
       \<lparr>inp = bs @ rest, nerr = k\<rparr>
     = Inr ((LIT_MARKER, area, word_of_nat (curpos - oldpos) :: long), \<lparr>inp = pad @ rest, nerr = k\<rparr>))"
proof -
  let ?d = "lit_out_number (word_of_nat (curpos - oldpos) :: long)"
  have m: "lit_out_number LIT_MARKER = [255, 7]" and z: "lit_out_number LIT_DUMMY = [0]" by code_simp+
  have "lit_out_number area = [out_byte area]"
    using assms(2,3) by (simp add: lit_out_number_def lit_out_tagged_def signed.not_less)
  with lit_out_number_length [of "word_of_nat (curpos - oldpos)"]
  have len: "length (lit_out_number LIT_MARKER @ lit_out_number area @ ?d) \<le> 8"
    by (simp add: m)
  define pad where "pad = replicate (8 - length (lit_out_number LIT_MARKER @ lit_out_number area @ ?d)) (0 :: byte)"
  have "lit_out_marker oldpos curpos area
      = Inr (lit_out_number LIT_MARKER @ lit_out_number area @ ?d @ pad, curpos + 8)"
    using assms(1) len by (simp add: lit_out_marker_def lit_marker_length_def Let_def z pad_def)
  moreover have "length (lit_out_number LIT_MARKER @ lit_out_number area @ ?d @ pad) = 8"
    using len by (simp add: pad_def)
  moreover have "\<exists>p. rbind lit_in_number (\<lambda>a. rbind lit_in_number (\<lambda>b. rbind lit_in_number (\<lambda>c. rret (a, b, c))))
       \<lparr>inp = (lit_out_number LIT_MARKER @ lit_out_number area @ ?d @ pad) @ rest, nerr = k\<rparr>
     = Inr ((LIT_MARKER, area, word_of_nat (curpos - oldpos) :: long), \<lparr>inp = p @ rest, nerr = k\<rparr>)"
    by (rule exI [of _ pad])
      (simp only: append_assoc lit.three_in_out [of LIT_MARKER area "word_of_nat (curpos - oldpos)" "pad @ rest" k])
  ultimately show ?thesis by blast
qed

lemma lit_marker_fixed_length_example:
  "\<exists>bs. lit_out_marker 8 1000 2 = Inr (bs, 1008) \<and> length bs = 8"
  using lit_marker_fixed_length [of 8 1000 2] by (auto simp: word_sle_eq)

end
