(* ===== verification/LitExpr.thy ===== *)
theory LitExpr
  imports LitNumber ExprValue
begin

text \<open>
  Expressions in LIT files (\<open>lit_out_expr\<close> and \<open>lit_out_ntab_entry\<close> in \<open>shared/litout.c\<close>,
  \<open>lit_in_expr\<close> and \<open>lit_area_name\<close> in \<open>shared/litin.c\<close>): reverse Polish, each tag and operand a
  number, closed by \<open>LIT_EXPR_END\<close>.
\<close>

section \<open>Tags on file\<close>

abbreviation LIT_EXPR_END :: long where "LIT_EXPR_END \<equiv> 250"

text \<open>The enumerator of a tag, and \<open>EXPR_TAG_COUNT\<close>.\<close>

definition tag_code :: "expr_tag \<Rightarrow> long" where
  "tag_code t =
     (case t of
        EXPR_CONST \<Rightarrow> 0 | EXPR_NAME \<Rightarrow> 1 | EXPR_NEG \<Rightarrow> 2 | EXPR_NOT \<Rightarrow> 3 | EXPR_COMPL \<Rightarrow> 4
      | EXPR_MINUS \<Rightarrow> 5 | EXPR_PLUS \<Rightarrow> 6 | EXPR_LSH \<Rightarrow> 7 | EXPR_RSH \<Rightarrow> 8 | EXPR_MUL \<Rightarrow> 9
      | EXPR_DIV \<Rightarrow> 10 | EXPR_REM \<Rightarrow> 11 | EXPR_AND \<Rightarrow> 12 | EXPR_XOR \<Rightarrow> 13 | EXPR_OR \<Rightarrow> 14
      | EXPR_LT \<Rightarrow> 15 | EXPR_LE \<Rightarrow> 16 | EXPR_GT \<Rightarrow> 17 | EXPR_GE \<Rightarrow> 18 | EXPR_EQ \<Rightarrow> 19 | EXPR_NE \<Rightarrow> 20
      | EXPR_ANDAND \<Rightarrow> 21 | EXPR_OROR \<Rightarrow> 22 | EXPR_QUEST \<Rightarrow> 23 | EXPR_COLON \<Rightarrow> 24
      | EXPR_RANGE \<Rightarrow> 25 | EXPR_ELEMENT \<Rightarrow> 26 | EXPR_ELSUM \<Rightarrow> 27)"

definition code_tag :: "long \<Rightarrow> expr_tag option" where
  "code_tag n = (if n <s 0 \<or> 28 \<le>s n then None else Some (expr_tags ! unat n))"

lemma code_tag_code [simp]: "code_tag (tag_code t) = Some t"
  by (cases t) (simp_all add: code_tag_def tag_code_def expr_tags_def word_sle_eq word_sless_alt)

lemma tag_code_not_end [simp]: "tag_code t \<noteq> LIT_EXPR_END" "tag_code t \<noteq> -1"
  by (cases t; simp add: tag_code_def)+

section \<open>Writer\<close>

text \<open>The indices of names and elements in the object file; \<open>-1\<close> where none was assigned.\<close>

record indices =
  name_index :: "nat \<Rightarrow> long"
  el_index :: "nat \<Rightarrow> long"

definition out_index :: "long \<Rightarrow> byte list outcome" where
  "out_index n = (if 0 \<le>s n then Inr (lit_out_number n) else Inl Abort)"

text \<open>A member of an \<open>ELSUM\<close> vector that is not an \<open>ELEMENT\<close> is read through the wrong union member.\<close>

fun out_elsum :: "indices \<Rightarrow> expr list \<Rightarrow> byte list outcome" where
  "out_elsum ix [] = Inr (lit_out_number (-1 :: long))"
| "out_elsum ix (Element n # es) =
     obind (out_index (el_index ix n)) (\<lambda>b. obind (out_elsum ix es) (\<lambda>bs. Inr (b @ bs)))"
| "out_elsum ix (_ # es) = Inl Trap"

fun out_expr :: "indices \<Rightarrow> expr \<Rightarrow> byte list outcome" where
  "out_expr ix (Const c) = Inr (lit_out_number (tag_code EXPR_CONST) @ lit_out_number c)"
| "out_expr ix (Name n) =
     obind (out_index (name_index ix n)) (\<lambda>b. Inr (lit_out_number (tag_code EXPR_NAME) @ b))"
| "out_expr ix (Element n) =
     obind (out_index (el_index ix n)) (\<lambda>b. Inr (lit_out_number (tag_code EXPR_ELEMENT) @ b))"
| "out_expr ix (Elsum es) =
     obind (out_elsum ix es) (\<lambda>bs. Inr (lit_out_number (tag_code EXPR_ELSUM) @ bs))"
| "out_expr ix (Range i lo hi) =
     Inr (lit_out_number (tag_code EXPR_RANGE) @ lit_out_number lo @ lit_out_number hi)"
| "out_expr ix (Unop t r) = obind (out_expr ix r) (\<lambda>b. Inr (b @ lit_out_number (tag_code t)))"
| "out_expr ix (Binop t l r) =
     obind (out_expr ix l) (\<lambda>a. obind (out_expr ix r) (\<lambda>b.
       Inr (a @ b @ lit_out_number (tag_code t))))"

definition lit_out_expr :: "indices \<Rightarrow> expr \<Rightarrow> byte list outcome" where
  "lit_out_expr ix e = obind (out_expr ix e) (\<lambda>b. Inr (b @ lit_out_number LIT_EXPR_END))"

text \<open>
  \<open>lit_out_ntab_entry\<close>: \<open>last_index\<close> is its static variable.  The identifier is written up to
  its terminating null.
\<close>

definition lit_out_ntab_entry ::
  "long \<Rightarrow> long \<Rightarrow> byte list \<Rightarrow> bool \<Rightarrow> bool \<Rightarrow> bool \<Rightarrow> (byte list \<times> long) outcome"
where
  "lit_out_ntab_entry last_index index ident defined fragment common =
     (if index = 0 \<or> index = last_index + 1
      then let flags = (if defined then 1 else 0) OR (if fragment then 2 else 0) OR (if common then 4 else 0)
           in Inr (lit_out_number LIT_NAME @ lit_out_string ident @ lit_out_number (flags :: long), index)
      else Inl Abort)"

section \<open>Reader\<close>

text \<open>
  The reader works on the file and on the tables of expressions.  What it calls to find a
  name or an element is supplied by the program it is linked with, and so are arguments here; a
  range node is new, so its identity is an argument too.
\<close>

record 't expr_client =
  name_by_index :: "long \<Rightarrow> ('t, nat) step"
  element_by_index :: "long \<Rightarrow> ('t, expr) step"
  new_range :: "long \<Rightarrow> long \<Rightarrow> ('t, expr) step"

definition on_file :: "'a reader \<Rightarrow> (rstate \<times> 't, 'a) step" where
  "on_file m = (\<lambda>(f, t). obind (m f) (\<lambda>(x, f'). Inr (x, (f', t))))"

definition on_tables :: "('t, 'a) step \<Rightarrow> (rstate \<times> 't, 'a) step" where
  "on_tables m = (\<lambda>(f, t). obind (m t) (\<lambda>(x, t'). Inr (x, (f, t'))))"

abbreviation in_long :: "(rstate \<times> 't, long) step" where
  "in_long \<equiv> on_file lit_in_number"

text \<open>
  The loops run as long as there is input: every round reads at least one byte, so the fuel is the
  length of the input, and its end (\<open>Trap\<close>) is never reached.
\<close>

fun in_elsum :: "'t expr_client \<Rightarrow> nat \<Rightarrow> expr list \<Rightarrow> (rstate \<times> 't, expr) step" where
  "in_elsum cl 0 acc = rstop Trap"
| "in_elsum cl (Suc fuel) acc =
     rbind in_long (\<lambda>n.
       if n = -1 then rret (Elsum acc)
       else rbind (on_tables (element_by_index cl n)) (\<lambda>e.
              case e of Element _ \<Rightarrow> in_elsum cl fuel (acc @ [e]) | _ \<Rightarrow> rstop Abort))"

definition in_leaf :: "'t expr_client \<Rightarrow> nat \<Rightarrow> expr_tag \<Rightarrow> (rstate \<times> 't, expr) step" where
  "in_leaf cl fuel t =
     (case t of
        EXPR_CONST \<Rightarrow> rbind in_long (\<lambda>c. rret (Const c))
      | EXPR_NAME \<Rightarrow> rbind in_long (\<lambda>n. rbind (on_tables (name_by_index cl n)) (\<lambda>np. rret (Name np)))
      | EXPR_ELEMENT \<Rightarrow> rbind in_long (\<lambda>n. on_tables (element_by_index cl n))
      | EXPR_ELSUM \<Rightarrow> in_elsum cl fuel []
      | _ \<Rightarrow> rbind in_long (\<lambda>lo. rbind in_long (\<lambda>hi. on_tables (new_range cl lo hi))))"

text \<open>The stack \<open>estack\<close> is a list with its top at the front.\<close>

fun in_expr_loop ::
  "'x est_scheme expr_client \<Rightarrow> nat \<Rightarrow> expr list \<Rightarrow> (rstate \<times> 'x est_scheme, expr) step"
where
  "in_expr_loop cl 0 estack = rstop Trap"
| "in_expr_loop cl (Suc fuel) estack =
     rbind in_long (\<lambda>tag.
       if tag = LIT_EXPR_END
       then (case estack of [e] \<Rightarrow> rret e | _ \<Rightarrow> rstop Fatal)
       else case code_tag tag of
              None \<Rightarrow> rstop Fatal
            | Some t \<Rightarrow>
                if tag_isleaf t
                then rbind (in_leaf cl fuel t) (\<lambda>e. in_expr_loop cl fuel (e # estack))
                else if tag_isunary t
                then (case estack of
                        r # es \<Rightarrow> rbind (on_tables (expr_unop t r)) (\<lambda>e. in_expr_loop cl fuel (e # es))
                      | [] \<Rightarrow> rstop Fatal)
                else (case estack of
                        r # l # es \<Rightarrow>
                          rbind (on_tables (expr_binop t l r)) (\<lambda>e. in_expr_loop cl fuel (e # es))
                      | _ \<Rightarrow> rstop Fatal))"

definition lit_in_expr :: "'x est_scheme expr_client \<Rightarrow> (rstate \<times> 'x est_scheme, expr) step" where
  "lit_in_expr cl = (\<lambda>(f, t). in_expr_loop cl (Suc (length (inp f))) [] (f, t))"

text \<open>\<open>%lx\<close>, and the names of the areas; an unknown one is named by its code.\<close>

fun hex_number :: "nat \<Rightarrow> string" where
  "hex_number n =
     (if n < 16 then [''0123456789abcdef'' ! n]
      else hex_number (n div 16) @ [''0123456789abcdef'' ! (n mod 16)])"

definition lit_area_name :: "long \<Rightarrow> string" where
  "lit_area_name area =
     (if area = 0 then ''NAMETABLE''
      else if area = 1 then ''NEEDS''
      else if area = 3 then ''DEFINITIONS''
      else if area = 2 then ''SEGMENTS''
      else if area = 4 then ''STABS''
      else ''illegal area code 0x'' @ hex_number (unat area))"

declare hex_number.simps [simp del]

section \<open>Reading back what was written\<close>

text \<open>
  What reading makes of a written expression: the client finds what the indices of names and elements stand for, and the
  constructors rebuild the expression from the leaves up, evaluating and rearranging on the way.
\<close>

fun reread_elsum :: "'t expr_client \<Rightarrow> indices \<Rightarrow> expr list \<Rightarrow> expr list \<Rightarrow> ('t, expr) step" where
  "reread_elsum cl ix [] acc = rret (Elsum acc)"
| "reread_elsum cl ix (Element n # es) acc =
     rbind (element_by_index cl (el_index ix n)) (\<lambda>e.
       case e of Element _ \<Rightarrow> reread_elsum cl ix es (acc @ [e]) | _ \<Rightarrow> rstop Abort)"
| "reread_elsum cl ix (_ # es) acc = rstop Abort"

fun reread :: "'x est_scheme expr_client \<Rightarrow> indices \<Rightarrow> expr \<Rightarrow> ('x est_scheme, expr) step" where
  "reread cl ix (Const c) = rret (Const c)"
| "reread cl ix (Name n) = rbind (name_by_index cl (name_index ix n)) (\<lambda>np. rret (Name np))"
| "reread cl ix (Element n) = element_by_index cl (el_index ix n)"
| "reread cl ix (Range i lo hi) = new_range cl lo hi"
| "reread cl ix (Elsum es) = reread_elsum cl ix es []"
| "reread cl ix (Unop t r) = rbind (reread cl ix r) (\<lambda>r'. expr_unop t r')"
| "reread cl ix (Binop t l r) = rbind (reread cl ix l) (\<lambda>l'. rbind (reread cl ix r) (\<lambda>r'. expr_binop t l' r'))"

text \<open>Operator nodes carry operator tags.\<close>

fun tags_ok :: "expr \<Rightarrow> bool" where
  "tags_ok (Unop t r) \<longleftrightarrow> tag_isunary t \<and> tags_ok r"
| "tags_ok (Binop t l r) \<longleftrightarrow> \<not> tag_isleaf t \<and> \<not> tag_isunary t \<and> tags_ok l \<and> tags_ok r"
| "tags_ok _ \<longleftrightarrow> True"

lemma wf_tags_ok: "wf_expr c e \<Longrightarrow> tags_ok e"
  by (induction c e rule: wf_expr.induct)
    (auto simp: tag_isleaf_def tag_isunary_def split: if_splits)

text \<open>The number of rounds the reader's loop takes for an expression.\<close>

fun rounds :: "expr \<Rightarrow> nat" where
  "rounds (Unop t r) = Suc (rounds r)"
| "rounds (Binop t l r) = Suc (rounds l + rounds r)"
| "rounds _ = 1"

lemma out_number_length: "Suc 0 \<le> length (lit_out_number (n :: long))"
  using lit.out_nonempty [of n] by (cases "lit_out_number n") simp_all

lemma out_expr_Unop:
  "out_expr ix (Unop t r) = Inr bs \<longleftrightarrow>
     (\<exists>b. out_expr ix r = Inr b \<and> bs = b @ lit_out_number (tag_code t))"
  by (auto simp: outcome_iff)

lemma out_expr_Binop:
  "out_expr ix (Binop t l r) = Inr bs \<longleftrightarrow>
     (\<exists>a b. out_expr ix l = Inr a \<and> out_expr ix r = Inr b \<and> bs = a @ b @ lit_out_number (tag_code t))"
  by (auto simp: outcome_iff)

lemma rounds_le_length: "out_expr ix e = Inr bs \<Longrightarrow> rounds e \<le> length bs"
proof (induction e arbitrary: bs)
  case (Unop t r)
  then obtain b where b: "out_expr ix r = Inr b" "bs = b @ lit_out_number (tag_code t)"
    by (auto simp only: out_expr_Unop)
  then show ?case using Unop.IH [OF b(1)] out_number_length [of "tag_code t"] by simp
next
  case (Binop t l r)
  then obtain a b where ab: "out_expr ix l = Inr a" "out_expr ix r = Inr b"
    "bs = a @ b @ lit_out_number (tag_code t)"
    by (auto simp only: out_expr_Binop)
  then show ?case
    using Binop.IH(1) [OF ab(1)] Binop.IH(2) [OF ab(2)] out_number_length [of "tag_code t"] by simp
qed (auto simp: outcome_iff out_number_length trans_le_add1)

lemma in_long_out [simp]:
  "in_long (\<lparr>inp = lit_out_number n @ rest, nerr = k\<rparr>, s) = Inr (n, (\<lparr>inp = rest, nerr = k\<rparr>, s))"
  by (simp add: on_file_def lit.in_out)

lemma in_elsum_out:
  assumes "out_elsum ix es = Inr bs" "length bs \<le> fuel"
  shows "in_elsum cl fuel acc (\<lparr>inp = bs @ rest, nerr = k\<rparr>, s)
    = obind (reread_elsum cl ix es acc s) (\<lambda>(e, s'). Inr (e, (\<lparr>inp = rest, nerr = k\<rparr>, s')))"
  using assms
proof (induction es arbitrary: bs fuel acc s)
  case Nil
  then obtain f where "fuel = Suc f"
    using out_number_length [of "-1"] by (cases fuel) auto
  moreover from Nil have "bs = lit_out_number (-1 :: long)" by simp
  ultimately show ?case by (simp add: rbind_def rret_def)
next
  case (Cons e es)
  then obtain n b b' where e: "e = Element n" and b: "out_index (el_index ix n) = Inr b"
    and b': "out_elsum ix es = Inr b'" and bs: "bs = b @ b'"
    by (cases e) (auto simp: outcome_iff)
  from b have nonneg: "0 \<le>s el_index ix n" and b_eq: "b = lit_out_number (el_index ix n)"
    by (auto simp: out_index_def split: if_splits)
  then have not_end: "el_index ix n \<noteq> -1" by (auto simp: word_sle_eq)
  obtain f where f: "fuel = Suc f"
    using Cons.prems(2) out_number_length [of "el_index ix n"] bs b_eq by (cases fuel) auto
  have "length b' \<le> f"
    using Cons.prems(2) out_number_length [of "el_index ix n"] bs b_eq f by simp
  note IH = Cons.IH [OF b' this]
  show ?case
  proof (cases "element_by_index cl (el_index ix n) s")
    case (Inr p)
    obtain x s1 where p: "p = (x, s1)" by (cases p)
    show ?thesis
      using not_end IH [of _ s1] by (cases x) (simp_all add: f bs b_eq e rbind_def on_tables_def Inr p rstop_def)
  qed (use not_end in \<open>simp add: f bs b_eq e rbind_def on_tables_def\<close>)
qed

lemma loop_tag:
  "in_expr_loop cl (Suc f) stk (\<lparr>inp = lit_out_number (tag_code t) @ rest, nerr = k\<rparr>, s) =
     (if tag_isleaf t
      then rbind (in_leaf cl f t) (\<lambda>e. in_expr_loop cl f (e # stk))
      else if tag_isunary t
      then (case stk of
              r # es \<Rightarrow> rbind (on_tables (expr_unop t r)) (\<lambda>e. in_expr_loop cl f (e # es))
            | [] \<Rightarrow> rstop Fatal)
      else (case stk of
              r # l # es \<Rightarrow> rbind (on_tables (expr_binop t l r)) (\<lambda>e. in_expr_loop cl f (e # es))
            | _ \<Rightarrow> rstop Fatal)) (\<lparr>inp = rest, nerr = k\<rparr>, s)"
  by (simp add: rbind_def [of in_long] if_distrib [of "\<lambda>f. f _"] split del: if_split)

lemma leaf_tags: "tag_isleaf EXPR_CONST" "tag_isleaf EXPR_NAME" "tag_isleaf EXPR_ELEMENT"
  "tag_isleaf EXPR_ELSUM" "tag_isleaf EXPR_RANGE"
  by (simp_all add: tag_isleaf_def)

lemma unary_not_leaf: "tag_isunary t \<Longrightarrow> \<not> tag_isleaf t"
  by (auto simp: tag_isunary_def tag_isleaf_def)

lemma loop_out_expr:
  assumes "out_expr ix e = Inr bs" "tags_ok e" "length bs \<le> rounds e + f"
  shows "in_expr_loop cl (rounds e + f) stk (\<lparr>inp = bs @ rest, nerr = k\<rparr>, s) =
    obind (reread cl ix e s) (\<lambda>(e', s'). in_expr_loop cl f (e' # stk) (\<lparr>inp = rest, nerr = k\<rparr>, s'))"
  using assms
proof (induction e arbitrary: bs f stk rest s)
  case (Elsum es)
  then obtain b where b: "out_elsum ix es = Inr b" and bs: "bs = lit_out_number (tag_code EXPR_ELSUM) @ b"
    by (auto simp: outcome_iff)
  have "length b \<le> f" using Elsum.prems(3) out_number_length [of "tag_code EXPR_ELSUM"] bs by simp
  show ?case
    by (simp add: in_elsum_out [OF b \<open>length b \<le> f\<close>] bs loop_tag leaf_tags in_leaf_def rbind_def obind_assoc case_prod_beta del: in_expr_loop.simps)
next
  case (Unop t r)
  then obtain b where b: "out_expr ix r = Inr b" and bs: "bs = b @ lit_out_number (tag_code t)"
    by (auto simp: outcome_iff)
  have "length b \<le> rounds r + Suc f" using Unop.prems(3) bs by simp
  from Unop.IH [OF b _ this] Unop.prems(2) show ?case
    by (simp add: bs loop_tag rbind_def on_tables_def obind_assoc case_prod_beta
        unary_not_leaf del: in_expr_loop.simps)
next
  case (Binop t l r)
  then obtain a b where a: "out_expr ix l = Inr a" and b: "out_expr ix r = Inr b"
    and bs: "bs = a @ b @ lit_out_number (tag_code t)"
    by (auto simp: outcome_iff)
  have "length a \<le> rounds l + (rounds r + Suc f)" "length b \<le> rounds r + Suc f"
    using Binop.prems(3) bs rounds_le_length [OF a] out_number_length [of "tag_code t"] by simp_all
  note la = this(1) and lb = this(2)
  have "tags_ok l" "tags_ok r" using Binop.prems(2) by simp_all
  note IHl = Binop.IH(1) [OF a this(1) la] and IHr = Binop.IH(2) [OF b this(2) lb]
  show ?case
    using IHl IHr Binop.prems(2)
    by (simp add: bs loop_tag rbind_def on_tables_def obind_assoc case_prod_beta add.assoc
        del: in_expr_loop.simps)
qed (auto simp: outcome_iff out_index_def loop_tag leaf_tags in_leaf_def rbind_def rret_def on_tables_def obind_assoc case_prod_unfold
    simp del: in_expr_loop.simps split: if_splits)

text \<open>The whole expression, with the fuel of \<open>lit_in_expr\<close>.\<close>

lemma lit_in_out_expr:
  assumes "lit_out_expr ix e = Inr bs" "tags_ok e"
  shows "lit_in_expr cl (\<lparr>inp = bs @ rest, nerr = k\<rparr>, s) =
    obind (reread cl ix e s) (\<lambda>(e', s'). Inr (e', (\<lparr>inp = rest, nerr = k\<rparr>, s')))"
proof -
  from assms(1) obtain b where b: "out_expr ix e = Inr b" and bs: "bs = b @ lit_out_number LIT_EXPR_END"
    by (auto simp: lit_out_expr_def outcome_iff)
  define f where "f = Suc (length (bs @ rest)) - rounds e"
  have le: "rounds e \<le> length b" by (rule rounds_le_length [OF b])
  then have fuel: "Suc (length (bs @ rest)) = rounds e + f" "length b \<le> rounds e + f"
    using bs by (simp_all add: f_def)
  obtain g where g: "f = Suc g"
    using le bs out_number_length [of LIT_EXPR_END] by (cases f) (simp_all add: f_def)
  have "in_expr_loop cl f [e'] (\<lparr>inp = lit_out_number LIT_EXPR_END @ rest, nerr = k\<rparr>, s') =
      Inr (e', (\<lparr>inp = rest, nerr = k\<rparr>, s'))" for e' s'
    by (simp add: g rbind_def [of in_long] rret_def)
  then show ?thesis
    using loop_out_expr [OF b assms(2) fuel(2), of cl "[]" "lit_out_number LIT_EXPR_END @ rest" k s] fuel(1)
    by (simp add: lit_in_expr_def bs case_prod_beta del: in_expr_loop.simps)
qed

text \<open>Rebuilding keeps the value; a \<open>COLON\<close> node keeps those of its arms.\<close>

lemma expr_binop_colon:
  "expr_binop EXPR_COLON a b s = Inr (e, s') \<Longrightarrow> e = Binop EXPR_COLON a b \<and> s' = s"
  by (auto simp: expr_binop_def expr_binop_general_def eval_def outcome_iff tag_iscomm_def
      split: expr.splits expr_tag.splits if_splits)

lemma expr_binop_quest:
  "wf_expr True b \<Longrightarrow> expr_binop EXPR_QUEST a b s = Inr (Binop EXPR_QUEST a b, s)"
  by (cases b) (auto simp: expr_binop_def expr_binop_general_def tag_iscomm_def rret_def
      split: expr.splits expr_tag.splits)

text \<open>
  A renaming of an expression: the same operations on constants and ranges, where the leaves for names and elements are
  related.
\<close>

fun renamed :: "(expr \<Rightarrow> expr \<Rightarrow> bool) \<Rightarrow> expr \<Rightarrow> expr \<Rightarrow> bool" where
  "renamed L (Const c) e \<longleftrightarrow> e = Const c"
| "renamed L (Name n) e \<longleftrightarrow> (\<exists>m. e = Name m) \<and> L (Name n) e"
| "renamed L (Element n) e \<longleftrightarrow> (\<exists>m. e = Element m) \<and> L (Element n) e"
| "renamed L (Range i lo hi) e \<longleftrightarrow> (\<exists>j. e = Range j lo hi)"
| "renamed L (Elsum es) e \<longleftrightarrow> (\<exists>es'. e = Elsum es' \<and> list_all2 L es es')"
| "renamed L (Unop t r) e \<longleftrightarrow> (\<exists>r'. e = Unop t r' \<and> renamed L r r')"
| "renamed L (Binop t l r) e \<longleftrightarrow> (\<exists>l' r'. e = Binop t l' r' \<and> renamed L l l' \<and> renamed L r r')"

lemma renamed_mono: "renamed L e e' \<Longrightarrow> (\<And>x y. L x y \<Longrightarrow> L' x y) \<Longrightarrow> renamed L' e e'"
  by (induction e arbitrary: e') (auto elim!: list_all2_mono)

text \<open>
  What the reader relies on: that what the client calls for names, elements and ranges gives what the index \<open>stands\<close> for in the tables,
  and that this remains so whatever is read later.  It holds in the states that are \<open>ready\<close>.
\<close>

locale expr_source =
  fixes cl :: "'x est_scheme expr_client" and ix :: indices and ready :: "'x est_scheme \<Rightarrow> bool"
    and later :: "'x est_scheme \<Rightarrow> 'x est_scheme \<Rightarrow> bool" and stands :: "'x est_scheme \<Rightarrow> expr \<Rightarrow> expr \<Rightarrow> bool"
  assumes refl: "later s s" and trans: "later s t \<Longrightarrow> later t u \<Longrightarrow> later s u" and calm: "calm s t \<Longrightarrow> later s t"
    and ready: "ready s \<Longrightarrow> later s t \<Longrightarrow> ready t"
    and still: "ready s \<Longrightarrow> stands s x y \<Longrightarrow> later s t \<Longrightarrow> stands t x y"
    and name: "ready s \<Longrightarrow> name_by_index cl (name_index ix n) s = Inr (m, t) \<Longrightarrow> later s t \<and> stands t (Name n) (Name m)"
    and element: "ready s \<Longrightarrow> element_by_index cl (el_index ix n) s = Inr (e, t) \<Longrightarrow> later s t \<and> (\<exists>m. e = Element m) \<and> stands t (Element n) e"
    and range: "ready s \<Longrightarrow> new_range cl lo hi s = Inr (e, t) \<Longrightarrow> later s t \<and> (\<exists>j. e = Range j lo hi)"
begin

lemma reread_elsum_sound:
  "reread_elsum cl ix es acc s = Inr (e, t) \<Longrightarrow> \<forall>x \<in> set acc. \<exists>m. x = Element m \<Longrightarrow> ready s \<Longrightarrow>
     later s t \<and> (\<exists>es'. e = Elsum (acc @ es') \<and> list_all2 (stands t) es es' \<and> (\<forall>x \<in> set es'. \<exists>m. x = Element m))"
proof (induction es arbitrary: acc s)
  case Nil
  then show ?case by (simp add: outcome_iff refl)
next
  case (Cons y es)
  then obtain n where y: "y = Element n" by (cases y) (simp_all add: rstop_def)
  from Cons.prems(1) obtain x s1 where x: "element_by_index cl (el_index ix n) s = Inr (x, s1)"
    and more: "(case x of Element _ \<Rightarrow> reread_elsum cl ix es (acc @ [x]) | _ \<Rightarrow> rstop Abort) s1 = Inr (e, t)"
    by (auto simp: y outcome_iff)
  from element [OF Cons.prems(3) x] obtain m where m: "later s s1" "x = Element m" "stands s1 y x" by (auto simp: y)
  with more have "reread_elsum cl ix es (acc @ [x]) s1 = Inr (e, t)" by simp
  from Cons.IH [OF this] Cons.prems(2) ready [OF Cons.prems(3)] m obtain es' where es': "later s1 t" "e = Elsum (acc @ [x] @ es')"
    "list_all2 (stands t) es es'" "\<forall>x \<in> set es'. \<exists>m. x = Element m" by auto
  then have "list_all2 (stands t) (y # es) (x # es')" using still [OF ready [OF Cons.prems(3) m(1)] m(3)] by simp
  then show ?case using es' m trans [OF m(1) es'(1)] by (intro conjI exI [of _ "x # es'"]) auto
qed

lemma stands_renamed: "ready s \<Longrightarrow> renamed (stands s) e e' \<Longrightarrow> later s t \<Longrightarrow> renamed (stands t) e e'"
  by (erule renamed_mono) (rule still)

lemma reread_sound:
  "reread cl ix e s = Inr (e', t) \<Longrightarrow> wf_expr c e \<Longrightarrow> ready s \<Longrightarrow>
     later s t \<and> wf_expr c e' \<and> (\<exists>e1. renamed (stands t) e e1 \<and>
       (\<forall>\<rho>. if c then snd (den \<rho> e') = snd (den \<rho> e1) else valof \<rho> e' = valof \<rho> e1))"
proof (induction e arbitrary: s e' t c)
  case (Name n)
  then show ?case using name by (force simp: outcome_iff)
next
  case (Element n)
  then show ?case using element [of s n e' t] by force
next
  case (Range i lo hi)
  then show ?case using range [of s lo hi e' t] by force
next
  case (Elsum es)
  then obtain es' where "later s t" "e' = Elsum es'" "list_all2 (stands t) es es'" "\<forall>x \<in> set es'. \<exists>m. x = Element m"
    using reread_elsum_sound [of es "[]" s e' t] by auto
  moreover from this have "\<forall>x \<in> set es'. wf_expr False x" by auto
  ultimately show ?case using Elsum.prems(2) by auto
next
  case (Unop tg r)
  from Unop.prems(1) obtain r' s1 where r: "reread cl ix r s = Inr (r', s1)" and u: "expr_unop tg r' s1 = Inr (e', t)"
    by (auto simp: outcome_iff)
  from Unop.prems(2) have c: "\<not> c" "tag_isunary tg" "wf_expr False r"
    by (auto simp: tag_isunary_def)
  from Unop.IH [OF r c(3) Unop.prems(3)] obtain r1 where IH: "later s s1" "wf_expr False r'" "renamed (stands s1) r r1" "\<forall>\<rho>. valof \<rho> r' = valof \<rho> r1"
    by auto
  have e: "wf_expr False e'" "calm s1 t" "\<And>\<rho>. valof \<rho> e' = eval_val tg 0 (valof \<rho> r')"
    using expr_unop_sound [OF u c(2) IH(2)] by simp_all
  have l: "later s1 t" by (rule calm [OF e(2)])
  have "renamed (stands t) (Unop tg r) (Unop tg r1)" using stands_renamed [OF ready [OF Unop.prems(3) IH(1)] IH(3) l] by simp
  moreover have "\<forall>\<rho>. valof \<rho> e' = valof \<rho> (Unop tg r1)" using e(3) IH(4) by (simp add: valof_simps)
  ultimately show ?case using e(1) c(1) trans [OF IH(1) l] by auto
next
  case (Binop tg l r)
  from Binop.prems(1) obtain l' s1 r' s2 where l: "reread cl ix l s = Inr (l', s1)" and r: "reread cl ix r s1 = Inr (r', s2)"
    and e: "expr_binop tg l' r' s2 = Inr (e', t)"
    by (auto simp: outcome_iff)
  have both: ?case
    if "later s s1" "later s1 s2" "later s2 t" "renamed (stands s1) l l1" "renamed (stands s2) r r1" "wf_expr c e'"
      "\<forall>\<rho>. if c then snd (den \<rho> e') = snd (den \<rho> (Binop tg l1 r1)) else valof \<rho> e' = valof \<rho> (Binop tg l1 r1)" for l1 r1
  proof -
    have "renamed (stands t) (Binop tg l r) (Binop tg l1 r1)"
      using stands_renamed [OF ready [OF Binop.prems(3) that(1)] that(4) trans [OF that(2,3)]]
        stands_renamed [OF ready [OF ready [OF Binop.prems(3) that(1)] that(2)] that(5,3)] by simp
    with that(6,7) trans [OF that(1) trans [OF that(2,3)]] show ?thesis by blast
  qed
  consider (op) "bin_tag tg" | (colon) "tg = EXPR_COLON" | (quest) "tg = EXPR_QUEST"
    using Binop.prems(2) by (auto simp: bin_tag_def split: if_splits)
  then show ?case
  proof cases
    case op
    with Binop.prems(2) have c: "\<not> c" "wf_expr False l" "wf_expr False r"
      by (auto simp: bin_tag_def split: if_splits)
    from Binop.IH(1) [OF l c(2) Binop.prems(3)] obtain l1 where 1: "later s s1" "wf_expr False l'" "renamed (stands s1) l l1" "\<forall>\<rho>. valof \<rho> l' = valof \<rho> l1" by auto
    from Binop.IH(2) [OF r c(3) ready [OF Binop.prems(3) 1(1)]] obtain r1 where 2: "later s1 s2" "wf_expr False r'" "renamed (stands s2) r r1" "\<forall>\<rho>. valof \<rho> r' = valof \<rho> r1" by auto
    have 3: "wf_expr False e'" "calm s2 t" "\<And>\<rho>. valof \<rho> e' = eval_val tg (valof \<rho> l') (valof \<rho> r')"
      using expr_binop_sound [OF e op 1(2) 2(2)] by simp_all
    show ?thesis
      by (rule both [OF 1(1) 2(1) calm [OF 3(2)] 1(3) 2(3)]) (use c(1) 3 1(4) 2(4) op in \<open>simp_all add: valof_bin\<close>)
  next
    case colon
    with Binop.prems(2) have c: "c" "wf_expr False l" "wf_expr False r" by (auto split: if_splits)
    from Binop.IH(1) [OF l c(2) Binop.prems(3)] obtain l1 where 1: "later s s1" "wf_expr False l'" "renamed (stands s1) l l1" "\<forall>\<rho>. valof \<rho> l' = valof \<rho> l1" by auto
    from Binop.IH(2) [OF r c(3) ready [OF Binop.prems(3) 1(1)]] obtain r1 where 2: "later s1 s2" "wf_expr False r'" "renamed (stands s2) r r1" "\<forall>\<rho>. valof \<rho> r' = valof \<rho> r1" by auto
    have 3: "e' = Binop EXPR_COLON l' r'" "t = s2" using expr_binop_colon [OF e [unfolded colon]] by simp_all
    show ?thesis
      by (rule both [OF 1(1) 2(1) _ 1(3) 2(3)]) (use c(1) 3 1 2 colon refl in \<open>simp_all add: valof_def\<close>)
  next
    case quest
    with Binop.prems(2) have c: "\<not> c" "wf_expr False l" "wf_expr True r" by (auto split: if_splits)
    from Binop.IH(1) [OF l c(2) Binop.prems(3)] obtain l1 where 1: "later s s1" "wf_expr False l'" "renamed (stands s1) l l1" "\<forall>\<rho>. valof \<rho> l' = valof \<rho> l1" by auto
    from Binop.IH(2) [OF r c(3) ready [OF Binop.prems(3) 1(1)]] obtain r1 where 2: "later s1 s2" "wf_expr True r'" "renamed (stands s2) r r1" "\<forall>\<rho>. snd (den \<rho> r') = snd (den \<rho> r1)" by auto
    have 3: "e' = Binop EXPR_QUEST l' r'" "t = s2" using e expr_binop_quest [OF 2(2), of l' s2] by (simp_all add: quest)
    show ?thesis
      by (rule both [OF 1(1) 2(1) _ 1(3) 2(3)]) (use c(1) 3 1 2 quest refl in \<open>simp_all add: valof_def\<close>)
  qed
qed (auto simp: outcome_iff refl)

end

section \<open>The fuel of the reader\<close>

lemma lit_in_number_consumes:
  "lit_in_number f = Inr (n, f') \<Longrightarrow> length (inp f') < length (inp f)"
  by (cases "inp f")
    (auto simp: lit_in_number_def lit_in_tagged_def rbyte_def rblock_def rerror_def outcome_iff Let_def
      split: if_splits list.splits)

lemma in_long_consumes:
  "in_long (f, t) = Inr (n, (f', t')) \<Longrightarrow> length (inp f') < length (inp f) \<and> t' = t"
  by (auto simp: on_file_def outcome_iff lit_in_number_consumes)

lemma on_tables_file: "on_tables m (f, t) = Inr (x, (f', t')) \<Longrightarrow> f' = f"
  by (auto simp: on_tables_def outcome_iff)

lemma rbind_same:
  "(\<And>x s'. m s = Inr (x, s') \<Longrightarrow> F x s' = G x s') \<Longrightarrow> rbind m F s = rbind m G s"
  by (auto simp: rbind_def intro: obind_cong)

lemma in_elsum_fuel:
  "length (inp f) < fuel \<Longrightarrow> in_elsum cl (fuel + k) acc (f, t) = in_elsum cl fuel acc (f, t)"
proof (induction fuel arbitrary: acc f t)
  case (Suc fuel)
  have "in_elsum cl (fuel + k) (acc @ [e]) (f', t') = in_elsum cl fuel (acc @ [e]) (f', t')"
    if "in_long (f, t) = Inr (n, (f1, t1))" "on_tables m (f1, t1) = Inr (x, (f', t'))" for n f1 t1 m f' t' e and x :: expr
    using Suc.IH Suc.prems in_long_consumes [OF that(1)] on_tables_file [OF that(2)] by simp
  then show ?case
    by (auto intro!: rbind_same split: expr.splits)
qed simp

lemma in_elsum_consumes:
  "in_elsum cl fuel acc (f, t) = Inr (e, (f', t')) \<Longrightarrow> length (inp f') < length (inp f)"
proof (induction fuel arbitrary: acc f t)
  case (Suc fuel)
  from Suc.prems obtain n f1 t1 where n: "in_long (f, t) = Inr (n, (f1, t1))"
    and rest: "(if n = -1 then rret (Elsum acc)
       else rbind (on_tables (element_by_index cl n)) (\<lambda>e.
              case e of Element _ \<Rightarrow> in_elsum cl fuel (acc @ [e]) | _ \<Rightarrow> rstop Abort)) (f1, t1) = Inr (e, (f', t'))"
    by (auto simp: rbind_Inr split del: if_split)
  show ?case
  proof (cases "n = -1")
    case True
    with rest show ?thesis using in_long_consumes [OF n] by (simp add: rret_Inr)
  next
    case False
    with rest obtain x f2 t2 where x: "on_tables (element_by_index cl n) (f1, t1) = Inr (x, (f2, t2))"
      and more: "(case x of Element _ \<Rightarrow> in_elsum cl fuel (acc @ [x]) | _ \<Rightarrow> rstop Abort) (f2, t2) = Inr (e, (f', t'))"
      by (auto simp: rbind_Inr)
    from more have "in_elsum cl fuel (acc @ [x]) (f2, t2) = Inr (e, (f', t'))"
      by (cases x) (simp_all add: rstop_Inr)
    from Suc.IH [OF this] on_tables_file [OF x] in_long_consumes [OF n] show ?thesis by simp
  qed
qed (simp add: rstop_def)

lemma in_leaf_consumes:
  assumes "in_leaf cl fuel t (f, s) = Inr (e, (f', s'))"
  shows "length (inp f') < length (inp f)"
proof (cases "t = EXPR_ELSUM")
  case True
  with assms show ?thesis by (simp add: in_leaf_def in_elsum_consumes)
next
  case False
  with assms show ?thesis
    by (cases t) (auto simp: in_leaf_def outcome_iff dest!: in_long_consumes on_tables_file)
qed

lemma in_leaf_fuel:
  "length (inp f) < fuel \<Longrightarrow> in_leaf cl (fuel + k) t (f, s) = in_leaf cl fuel t (f, s)"
  by (cases t) (simp_all add: in_leaf_def in_elsum_fuel)

lemma in_expr_loop_fuel:
  "length (inp f) < fuel \<Longrightarrow> in_expr_loop cl (fuel + k) stk (f, s) = in_expr_loop cl fuel stk (f, s)"
proof (induction fuel arbitrary: stk f s)
  case (Suc fuel)
  have step: "in_expr_loop cl (fuel + k) stk' (f', s') = in_expr_loop cl fuel stk' (f', s')"
    if "length (inp f') < length (inp f)" for stk' f' s'
    using Suc.IH Suc.prems that by simp
  have leaf: "rbind (in_leaf cl (fuel + k) t) (\<lambda>e. in_expr_loop cl (fuel + k) (e # stk)) (f1, s1) =
      rbind (in_leaf cl fuel t) (\<lambda>e. in_expr_loop cl fuel (e # stk)) (f1, s1)"
    if f1: "length (inp f1) < length (inp f)" for t f1 s1
  proof -
    from f1 Suc.prems have "length (inp f1) < fuel" by simp
    then show ?thesis
      unfolding rbind_def in_leaf_fuel [OF \<open>length (inp f1) < fuel\<close>]
      by (intro obind_cong) (auto dest!: in_leaf_consumes intro!: step less_trans [OF _ f1])
  qed
  have tables: "rbind (on_tables m) (\<lambda>e. in_expr_loop cl (fuel + k) (e # es)) (f1, s1) =
      rbind (on_tables m) (\<lambda>e. in_expr_loop cl fuel (e # es)) (f1, s1)"
    if "length (inp f1) < length (inp f)" for m es f1 s1
    by (rule rbind_same) (auto dest!: on_tables_file intro!: step that)
  show ?case
    unfolding add_Suc in_expr_loop.simps
    by (rule rbind_same, clarify, drule in_long_consumes)
      (simp add: leaf tables split: option.split list.split)
qed simp

section \<open>Properties\<close>

text \<open>The fuel of the reader makes no difference once it is more than the bytes of the file.\<close>

lemma lit_in_expr_fuel:
  "in_expr_loop cl (Suc (length (inp f)) + k) [] (f, s) = lit_in_expr cl (f, s)"
  using in_expr_loop_fuel [of f "Suc (length (inp f))" cl k "[]" s] by (simp add: lit_in_expr_def)

text \<open>
  A condition between two constants is written, but reading it back aborts: the reader
  has the \<open>COLON\<close> node evaluated.
\<close>

lemma lit_in_conditional_aborts:
  "lit_out_expr ix (Binop EXPR_QUEST (Const 7) (Binop EXPR_COLON (Const 1) (Const 2)))
     = Inr [0, 7, 0, 1, 0, 2, 24, 23, 250] \<and>
   lit_in_expr cl (\<lparr>inp = [0, 7, 0, 1, 0, 2, 24, 23, 250], nerr = k\<rparr>, s) = Inl Abort"
proof -
  let ?e = "Binop EXPR_QUEST (Const 7) (Binop EXPR_COLON (Const 1) (Const 2))"
  have "out_expr ix ?e = Inr [0, 7, 0, 1, 0, 2, 24, 23]"
    by code_simp
  then have out: "lit_out_expr ix ?e = Inr [0, 7, 0, 1, 0, 2, 24, 23, 250]"
    by (simp add: lit_out_expr_def) code_simp
  moreover have "reread cl ix ?e s = Inl Abort"
    by (simp add: rbind_def rret_def expr_binop_def eval_def rstop_def)
  ultimately show ?thesis
    using lit_in_out_expr [OF out, of cl "[]" k s] by (simp add: tag_isleaf_def tag_isunary_def)
qed

end
