(* ===== verification/Loader.thy ===== *)
theory Loader
  imports LitExpr Cmd
begin

text \<open>
  The loader that startup code and the cross-loader share (\<open>startups/shared/litload.c\<close>), with the
  two input routines of \<open>startups/absolute/crossload.c\<close> and its loop over the segments.
  The loader has a reader of numbers, an encoder of commands and an evaluator of expressions of
  its own, since it must do without a C library.
\<close>

section \<open>State\<close>

text \<open>
  The file, the static variables, and the memory written through \<open>area\<close> so far.  \<open>room\<close> is the
  size of the memory that is really there: writing more bytes than that is a \<open>Trap\<close>.
\<close>

record loader =
  linp :: "byte list"
  last_number_len :: nat
  segsize :: long
  segname :: "byte list"
  mem :: "byte list"
  room :: nat

definition max_segment_name_length :: nat where
  "max_segment_name_length = 32"

definition max_expression_depth :: nat where
  "max_expression_depth = 30"

definition lit_load_in_byte :: "(loader, byte) step" where
  "lit_load_in_byte s =
     (case linp s of [] \<Rightarrow> Inl Fatal | b # bs \<Rightarrow> Inr (b, s\<lparr>linp := bs\<rparr>))"

text \<open>
  \<open>lit_load_in_block\<close> into a buffer of \<open>space\<close> bytes; \<open>fread\<close> takes its \<open>int\<close> argument as a \<open>size_t\<close>,
  and stores what it could read before the short count is found.
\<close>

definition lit_load_in_block :: "nat \<Rightarrow> long \<Rightarrow> (loader, byte list) step" where
  "lit_load_in_block space len s =
     (if space < min (unat len) (length (linp s)) then Inl Trap
      else if length (linp s) < unat len then Inl Fatal
      else Inr (take (unat len) (linp s), s\<lparr>linp := drop (unat len) (linp s)\<rparr>))"

definition store :: "byte list \<Rightarrow> (loader, unit) step" where
  "store bs s =
     (if room s < length (mem s) + length bs then Inl Trap else Inr ((), s\<lparr>mem := mem s @ bs\<rparr>))"

section \<open>Numbers\<close>

fun in_bytes :: "nat \<Rightarrow> (loader, byte list) step" where
  "in_bytes 0 = rret []"
| "in_bytes (Suc n) = rbind lit_load_in_byte (\<lambda>b. rbind (in_bytes n) (\<lambda>bs. rret (b # bs)))"

definition load_tagged :: "byte \<Rightarrow> nat \<Rightarrow> bool \<Rightarrow> (loader, long) step" where
  "load_tagged c len invert =
     (let finish = (\<lambda>number n. rbind (rmodify (\<lambda>s. s\<lparr>last_number_len := len + n\<rparr>))
                      (\<lambda>_. rret (if invert then NOT number else number))) in
      if c = 255 \<or> c = 254 then rstop Fatal
      else if c = 253 then rbind (in_bytes 4) (\<lambda>bs. finish (lit_payload bs) 4)
      else if c = 252 then rbind (in_bytes 2) (\<lambda>bs. finish (lit_payload bs) 2)
      else if c = 251 then rbind (in_bytes 1) (\<lambda>bs. finish (lit_payload bs) 1)
      else finish (ucast c) 0)"

definition lit_load_in_number :: "(loader, long) step" where
  "lit_load_in_number =
     rbind lit_load_in_byte (\<lambda>c.
       if c = 255 then rbind lit_load_in_byte (\<lambda>c'. load_tagged c' 2 True)
       else load_tagged c 1 False)"

section \<open>Commands\<close>

text \<open>The loops are those of \<open>cmd_generate\<close>; what does not fit the slot is fatal.\<close>

definition lit_load_cmd_generate :: "long \<Rightarrow> long \<Rightarrow> long \<Rightarrow> byte list outcome" where
  "lit_load_cmd_generate opcode arg slot =
     (let size = nat (sint slot) in
      case (case cmd_push size (ucast opcode OR low_nibble arg) [] of
              None \<Rightarrow> None
            | Some q \<Rightarrow> if 0 \<le>s arg then cmd_gen_pos size arg q else cmd_gen_neg size (NOT arg) q) of
        None \<Rightarrow> Inl Fatal
      | Some q \<Rightarrow> Inr (replicate (size - length q) opcode_pfix @ q))"

section \<open>Expressions\<close>

definition load_unop :: "expr_tag \<Rightarrow> long \<Rightarrow> long" where
  "load_unop t v = (if t = EXPR_NEG then - v else if t = EXPR_NOT then of_truth (v = 0) else NOT v)"

text \<open>A shift is the host's, as in \<open>eval_val\<close>.\<close>

definition load_binop :: "expr_tag \<Rightarrow> long \<Rightarrow> long \<Rightarrow> long outcome" where
  "load_binop t l r =
     (case t of
        EXPR_MINUS \<Rightarrow> Inr (l - r)
      | EXPR_PLUS \<Rightarrow> Inr (l + r)
      | EXPR_LSH \<Rightarrow> Inr (push_bit (unat (r AND 31)) l)
      | EXPR_RSH \<Rightarrow> Inr (signed_drop_bit (unat (r AND 31)) l)
      | EXPR_MUL \<Rightarrow> Inr (l * r)
      | EXPR_DIV \<Rightarrow> if r = 0 then Inl Fatal else if l = long_min \<and> r = -1 then Inl Trap
                    else Inr (word_of_int (sint l sdiv sint r))
      | EXPR_REM \<Rightarrow> if r = 0 then Inl Fatal else if l = long_min \<and> r = -1 then Inl Trap
                    else Inr (word_of_int (sint l smod sint r))
      | EXPR_AND \<Rightarrow> Inr (l AND r)
      | EXPR_XOR \<Rightarrow> Inr (l XOR r)
      | EXPR_OR \<Rightarrow> Inr (l OR r)
      | EXPR_LT \<Rightarrow> Inr (of_truth (l <s r))
      | EXPR_LE \<Rightarrow> Inr (of_truth (l \<le>s r))
      | EXPR_GT \<Rightarrow> Inr (of_truth (r <s l))
      | EXPR_GE \<Rightarrow> Inr (of_truth (r \<le>s l))
      | EXPR_EQ \<Rightarrow> Inr (of_truth (l = r))
      | EXPR_NE \<Rightarrow> Inr (of_truth (l \<noteq> r))
      | EXPR_ANDAND \<Rightarrow> Inr (of_truth (l \<noteq> 0 \<and> r \<noteq> 0))
      | EXPR_OROR \<Rightarrow> Inr (of_truth (l \<noteq> 0 \<or> r \<noteq> 0))
      | _ \<Rightarrow> Inl Fatal)"

text \<open>
  \<open>ntab\<close> is read at a negative index without a check.  An \<open>ELSUM\<close> tag is a leaf, but has no case
  in the switch: nothing is pushed.
\<close>

definition load_leaf :: "long list \<Rightarrow> expr_tag \<Rightarrow> long list \<Rightarrow> (loader, long list) step" where
  "load_leaf ntab t estack =
     (if max_expression_depth \<le> length estack then rstop Fatal
      else case t of
        EXPR_CONST \<Rightarrow> rbind lit_load_in_number (\<lambda>c. rret (c # estack))
      | EXPR_NAME \<Rightarrow> rbind lit_load_in_number (\<lambda>n.
          if int (length ntab) \<le> sint n then rstop Fatal
          else if n <s 0 then rstop Trap
          else rret (ntab ! unat n # estack))
      | EXPR_ELSUM \<Rightarrow> rret estack
      | _ \<Rightarrow> rstop Fatal)"

fun load_expr_loop :: "long list \<Rightarrow> nat \<Rightarrow> long list \<Rightarrow> (loader, long) step" where
  "load_expr_loop ntab 0 estack = rstop Abort"
| "load_expr_loop ntab (Suc fuel) estack =
     rbind lit_load_in_number (\<lambda>tag.
       if tag = LIT_EXPR_END
       then (case estack of [v] \<Rightarrow> rret v | _ \<Rightarrow> rstop Fatal)
       else case code_tag tag of
              None \<Rightarrow> rstop Fatal
            | Some t \<Rightarrow>
                if tag_isleaf t
                then rbind (load_leaf ntab t estack) (load_expr_loop ntab fuel)
                else if tag_isunary t
                then (case estack of
                        v # vs \<Rightarrow> load_expr_loop ntab fuel (load_unop t v # vs)
                      | [] \<Rightarrow> rstop Fatal)
                else if t = EXPR_QUEST
                then rbind lit_load_in_number (\<lambda>tag'.
                       if tag' \<noteq> tag_code EXPR_COLON then rstop Fatal
                       else case estack of
                              b # a # c # vs \<Rightarrow> load_expr_loop ntab fuel ((if c \<noteq> 0 then a else b) # vs)
                            | _ \<Rightarrow> rstop Fatal)
                else (case estack of
                        r # l # vs \<Rightarrow>
                          (case load_binop t l r of
                             Inl e \<Rightarrow> rstop e
                           | Inr v \<Rightarrow> load_expr_loop ntab fuel (v # vs))
                      | _ \<Rightarrow> rstop Fatal))"

definition lit_load_in_expr :: "long list \<Rightarrow> (loader, long) step" where
  "lit_load_in_expr ntab = (\<lambda>s. load_expr_loop ntab (Suc (length (linp s))) [] s)"

section \<open>Segments\<close>

definition data_unit :: "long \<Rightarrow> long \<Rightarrow> byte list" where
  "data_unit width v =
     (if width = 4 then [ucast v, ucast (signed_drop_bit 8 v), ucast (signed_drop_bit 16 v),
                         ucast (signed_drop_bit 24 v)]
      else if width = 2 then [ucast v, ucast (signed_drop_bit 8 v)]
      else [ucast v])"

text \<open>
  A \<open>DATA\<close> record.  The products and differences are computed in C's \<open>long\<close> and wrap; \<open>while (i--)\<close>
  runs \<open>unat i\<close> times, and \<open>areasz\<close> is returned decreased.
\<close>

definition load_data :: "long list \<Rightarrow> long \<Rightarrow> (loader, long) step" where
  "load_data ntab areasz =
     rbind lit_load_in_number (\<lambda>width.
     rbind (lit_load_in_expr ntab) (\<lambda>v.
     rbind (lit_load_in_expr ntab) (\<lambda>count.
     rbind (lit_load_in_expr ntab) (\<lambda>sz.
       if count <s 0 then rstop Fatal
       else if sz <s count * width then rstop Fatal
       else if areasz <s sz then rstop Fatal
       else if width \<noteq> 4 \<and> width \<noteq> 2 \<and> width \<noteq> 1 then rstop Fatal
       else rbind (store (concat (replicate (unat count) (data_unit width v))
                            @ replicate (unat (sz - width * count)) (ucast v))) (\<lambda>_.
            rbind (rmodify (\<lambda>s. s\<lparr>segsize := segsize s + sz\<rparr>)) (\<lambda>_. rret (areasz - sz)))))))"

definition load_cmd :: "long list \<Rightarrow> long \<Rightarrow> (loader, long) step" where
  "load_cmd ntab areasz =
     rbind lit_load_in_number (\<lambda>opcode.
     rbind (lit_load_in_expr ntab) (\<lambda>arg.
     rbind (lit_load_in_expr ntab) (\<lambda>sz.
       if areasz <s sz then rstop Fatal
       else case lit_load_cmd_generate opcode arg sz of
              Inl e \<Rightarrow> rstop e
            | Inr bs \<Rightarrow> rbind (store bs) (\<lambda>_.
                rbind (rmodify (\<lambda>s. s\<lparr>segsize := segsize s + sz\<rparr>)) (\<lambda>_. rret (areasz - sz))))))"

definition load_block :: "long \<Rightarrow> long \<Rightarrow> (loader, long) step" where
  "load_block areasz len =
     (if areasz <s len then rstop Fatal
      else rbind (rget (\<lambda>s. room s - length (mem s))) (\<lambda>space.
           rbind (lit_load_in_block space len) (\<lambda>bs. rbind (store bs) (\<lambda>_.
           rbind (rmodify (\<lambda>s. s\<lparr>segsize := segsize s + len\<rparr>)) (\<lambda>_. rret (areasz - len))))))"

text \<open>The marker's padding is skipped byte by byte, and \<open>lit_load_segname[0]\<close> cleared.\<close>

definition load_marker :: "(loader, bool) step" where
  "load_marker =
     rbind (rget last_number_len) (\<lambda>len1.
     rbind lit_load_in_number (\<lambda>_. rbind (rget last_number_len) (\<lambda>len2.
     rbind lit_load_in_number (\<lambda>_. rbind (rget last_number_len) (\<lambda>len3.
     rbind (in_bytes (lit_marker_length - (len1 + len2 + len3))) (\<lambda>_.
     rbind (rmodify (\<lambda>s. s\<lparr>segname := (segname s)[0 := 0]\<rparr>)) (\<lambda>_. rret False)))))))"

definition load_segment_switch :: "(loader, bool) step" where
  "load_segment_switch =
     rbind lit_load_in_number (\<lambda>len.
       if int max_segment_name_length < sint len then rstop Fatal
       else rbind (lit_load_in_block (Suc max_segment_name_length) len) (\<lambda>bs.
            rbind (rmodify (\<lambda>s. s\<lparr>segname := bs @ drop (length bs) (segname s)\<rparr>)) (\<lambda>_.
            rbind lit_load_in_number (\<lambda>_. rret True))))"

fun load_records :: "long list \<Rightarrow> nat \<Rightarrow> long \<Rightarrow> (loader, bool) step" where
  "load_records ntab 0 areasz = rstop Abort"
| "load_records ntab (Suc fuel) areasz =
     rbind lit_load_in_number (\<lambda>ltag.
       if 0 <s ltag then rbind (load_block areasz ltag) (load_records ntab fuel)
       else if ltag = LIT_DUMMY then load_records ntab fuel areasz
       else if ltag = LIT_DATA then rbind (load_data ntab areasz) (load_records ntab fuel)
       else if ltag = LIT_CMD then rbind (load_cmd ntab areasz) (load_records ntab fuel)
       else if ltag = LIT_MARKER then load_marker
       else if ltag = LIT_SEGMENT then load_segment_switch
       else rstop Fatal)"

text \<open>
  \<open>lit_load_segment\<close>: 1 (\<open>True\<close>) if there are more segments.  \<open>mem\<close> starts empty at the \<open>area\<close> given.
\<close>

definition lit_load_segment :: "long list \<Rightarrow> long \<Rightarrow> (loader, bool) step" where
  "lit_load_segment ntab areasz =
     rbind (rmodify (\<lambda>s. s\<lparr>segsize := 0\<rparr>)) (\<lambda>_ s. load_records ntab (Suc (length (linp s))) areasz s)"

section \<open>The cross-loader\<close>

definition max_image_size :: long where
  "max_image_size = 512 * 1024"

text \<open>
  The loop of \<open>main\<close>: \<open>p\<close> is the offset in the image buffer, \<open>img\<close> what the segments before it
  hold.  The result is what is written to the output file.
\<close>

fun crossload :: "nat \<Rightarrow> byte list \<Rightarrow> (loader, byte list) step" where
  "crossload 0 img = rstop Trap"
| "crossload (Suc fuel) img =
     rbind (rmodify (\<lambda>s. s\<lparr>mem := [], room := unat max_image_size - length img\<rparr>)) (\<lambda>_.
     rbind (lit_load_segment [] (max_image_size - word_of_nat (length img))) (\<lambda>more.
     rbind (rget (\<lambda>s. (segsize s, mem s))) (\<lambda>(sz, m).
       let img' = img @ take (unat sz) m in
       if more then crossload fuel img' else rret img')))"

section \<open>Numbers\<close>

lemma in_bytes_run:
  "in_bytes n s = (if length (linp s) < n then Inl Fatal
     else Inr (take n (linp s), s\<lparr>linp := drop n (linp s)\<rparr>))"
  by (induction n arbitrary: s) (auto simp: rret_def rbind_def lit_load_in_byte_def split: list.split)

lemma load_tagged_reads:
  "load_tagged c len neg s =
     (case lit_in_tagged c neg \<lparr>inp = linp s, nerr = 0\<rparr> of
        Inl e \<Rightarrow> Inl Fatal
      | Inr (n, f) \<Rightarrow>
          if nerr f = 0
          then Inr (n, s\<lparr>linp := inp f, last_number_len := len + (length (linp s) - length (inp f))\<rparr>)
          else Inl Fatal)"
proof -
  have one: "xs \<noteq> [] \<Longrightarrow> k + length xs - (length xs - Suc 0) = Suc k" for xs :: "byte list" and k
    by (cases xs) simp_all
  show ?thesis
    by (auto simp: load_tagged_def lit_in_tagged_def in_bytes_run rblock_def reader_simps Let_def one
        simp del: in_bytes.simps)
qed

lemma lit_in_tagged_consumes:
  "lit_in_tagged c neg f = Inr (n, f') \<Longrightarrow> length (inp f') \<le> length (inp f)"
  by (auto simp: lit_in_tagged_def rblock_def rerror_def outcome_iff Let_def split: if_splits)

lemma lit_load_in_number_reads:
  "lit_load_in_number s =
     (case lit_in_number \<lparr>inp = linp s, nerr = 0\<rparr> of
        Inl e \<Rightarrow> Inl Fatal
      | Inr (n, f) \<Rightarrow>
          if nerr f = 0
          then Inr (n, s\<lparr>linp := inp f, last_number_len := length (linp s) - length (inp f)\<rparr>)
          else Inl Fatal)"
proof (cases "linp s")
  case Nil
  then show ?thesis
    by (simp add: lit_load_in_number_def lit_in_number_def lit_load_in_byte_def reader_simps)
next
  case (Cons c bs)
  have len: "length (inp f) \<le> length xs"
    if "lit_in_tagged c' neg \<lparr>inp = xs, nerr = 0\<rparr> = Inr (n, f)" for c' neg f and xs and n :: long
    using lit_in_tagged_consumes [OF that] by simp
  show ?thesis
  proof (cases "c = 255")
    case False
    with Cons show ?thesis
      by (simp add: lit_load_in_number_def lit_in_number_def lit_load_in_byte_def rbyte_def rbind_def
          load_tagged_reads Suc_diff_le len split: sum.split prod.split)
  next
    case True
    then show ?thesis
    proof (cases bs)
      case Nil
      with Cons True show ?thesis
        by (simp add: lit_load_in_number_def lit_in_number_def lit_load_in_byte_def reader_simps)
    next
      case (Cons c' bs')
      with \<open>linp s = c # bs\<close> True show ?thesis
        by (simp add: lit_load_in_number_def lit_in_number_def lit_load_in_byte_def rbyte_def rbind_def
            load_tagged_reads Suc_diff_le len le_SucI split: sum.split prod.split)
    qed
  qed
qed

lemma lit_load_out_number [simp]:
  "linp s = lit_out_number n @ rest \<Longrightarrow>
     lit_load_in_number s = Inr (n, s\<lparr>linp := rest, last_number_len := length (lit_out_number n)\<rparr>)"
  by (simp add: lit_load_in_number_reads lit.in_out)

section \<open>Expressions\<close>

text \<open>
  The expressions a loadable file may hold: constants, segments that \<open>ntab\<close> covers, and
  operators whose divisions are defined.
\<close>

fun loadable :: "long list \<Rightarrow> indices \<Rightarrow> env \<Rightarrow> expr \<Rightarrow> bool" where
  "loadable ntab ix \<rho> (Const c) \<longleftrightarrow> True"
| "loadable ntab ix \<rho> (Name n) \<longleftrightarrow>
     sint (name_index ix n) < int (length ntab) \<and> ntab ! unat (name_index ix n) = vname \<rho> n"
| "loadable ntab ix \<rho> (Unop t r) \<longleftrightarrow> tag_isunary t \<and> loadable ntab ix \<rho> r"
| "loadable ntab ix \<rho> (Binop t l r) \<longleftrightarrow>
     bin_tag t \<and> loadable ntab ix \<rho> l \<and> loadable ntab ix \<rho> r \<and>
     (t = EXPR_DIV \<or> t = EXPR_REM \<longrightarrow>
        valof \<rho> r \<noteq> 0 \<and> \<not> (valof \<rho> l = long_min \<and> valof \<rho> r = -1))"
| "loadable ntab ix \<rho> _ \<longleftrightarrow> False"

fun depth :: "expr \<Rightarrow> nat" where
  "depth (Unop t r) = depth r"
| "depth (Binop t l r) = max (depth l) (Suc (depth r))"
| "depth _ = 1"

text \<open>The length of the last number written for an expression.\<close>

fun last_len :: "indices \<Rightarrow> expr \<Rightarrow> nat" where
  "last_len ix (Const c) = length (lit_out_number c)"
| "last_len ix (Name n) = length (lit_out_number (name_index ix n))"
| "last_len ix (Unop t r) = length (lit_out_number (tag_code t))"
| "last_len ix (Binop t l r) = length (lit_out_number (tag_code t))"
| "last_len ix _ = 0"

lemma load_binop_value:
  assumes "bin_tag t" "t = EXPR_DIV \<or> t = EXPR_REM \<longrightarrow> r \<noteq> 0 \<and> \<not> (l = long_min \<and> r = -1)"
  shows "load_binop t l r = Inr (eval_val t l r)"
  using assms by (cases t) (auto simp: load_binop_def eval_val_def bin_tag_def tag_isleaf_def tag_isunary_def)

lemma load_unop_value: "tag_isunary t \<Longrightarrow> load_unop t v = eval_val t 0 v"
  by (auto simp: load_unop_def eval_val_def tag_isunary_def)

lemma load_loop_tag:
  assumes "linp s = lit_out_number (tag_code t) @ rest"
  shows "load_expr_loop ntab (Suc f) stk s =
    (if tag_isleaf t
     then rbind (load_leaf ntab t stk) (load_expr_loop ntab f)
     else if tag_isunary t
     then (case stk of
             v # vs \<Rightarrow> load_expr_loop ntab f (load_unop t v # vs)
           | [] \<Rightarrow> rstop Fatal)
     else if t = EXPR_QUEST
     then rbind lit_load_in_number (\<lambda>tag'.
            if tag' \<noteq> tag_code EXPR_COLON then rstop Fatal
            else case stk of
                   b # a # c # vs \<Rightarrow> load_expr_loop ntab f ((if c \<noteq> 0 then a else b) # vs)
                 | _ \<Rightarrow> rstop Fatal)
     else (case stk of
             r # l # vs \<Rightarrow>
               (case load_binop t l r of
                  Inl e \<Rightarrow> rstop e
                | Inr v \<Rightarrow> load_expr_loop ntab f (v # vs))
           | _ \<Rightarrow> rstop Fatal)) (s\<lparr>linp := rest, last_number_len := length (lit_out_number (tag_code t))\<rparr>)"
  using assms by (simp add: rbind_def [of lit_load_in_number] split del: if_split)

lemma load_loop_out_expr:
  assumes "out_expr ix e = Inr bs" "loadable ntab ix \<rho> e" "length stk + depth e \<le> max_expression_depth"
    "linp s = bs @ rest"
  shows "load_expr_loop ntab (rounds e + f) stk s =
    load_expr_loop ntab f (valof \<rho> e # stk) (s\<lparr>linp := rest, last_number_len := last_len ix e\<rparr>)"
  using assms
proof (induction e arbitrary: bs f stk rest s)
  case (Const c)
  then show ?case
    by (subst (1) rounds.simps)
      (auto simp: load_loop_tag leaf_tags load_leaf_def rbind_def rret_def valof_simps
        simp del: load_expr_loop.simps)
next
  case (Name n)
  then have nonneg: "0 \<le>s name_index ix n"
    and bs: "bs = lit_out_number (tag_code EXPR_NAME) @ lit_out_number (name_index ix n)"
    by (auto simp: outcome_iff out_index_def split: if_splits)
  from nonneg have "\<not> name_index ix n <s 0" by (simp add: word_sle_eq word_sless_alt)
  with Name.prems bs show ?case
    by (auto simp: load_loop_tag leaf_tags load_leaf_def rbind_def rret_def valof_simps
        simp del: load_expr_loop.simps)
next
  case (Unop t r)
  then obtain b where b: "out_expr ix r = Inr b" and bs: "bs = b @ lit_out_number (tag_code t)"
    by (auto simp only: out_expr_Unop)
  have "load_expr_loop ntab (rounds r + Suc f) stk s =
      load_expr_loop ntab (Suc f) (valof \<rho> r # stk)
        (s\<lparr>linp := lit_out_number (tag_code t) @ rest, last_number_len := last_len ix r\<rparr>)"
    using Unop.prems bs by (intro Unop.IH [OF b]) simp_all
  then show ?case
    using Unop.prems(2)
    by (simp add: load_loop_tag unary_not_leaf load_unop_value valof_simps del: load_expr_loop.simps)
next
  case (Binop t l r)
  then obtain a b where a: "out_expr ix l = Inr a" and b: "out_expr ix r = Inr b"
    and bs: "bs = a @ b @ lit_out_number (tag_code t)"
    by (auto simp only: out_expr_Binop)
  have "load_expr_loop ntab (rounds l + (rounds r + Suc f)) stk s =
      load_expr_loop ntab (rounds r + Suc f) (valof \<rho> l # stk)
        (s\<lparr>linp := b @ lit_out_number (tag_code t) @ rest, last_number_len := last_len ix l\<rparr>)"
    using Binop.prems bs by (intro Binop.IH(1) [OF a]) simp_all
  also have "\<dots> = load_expr_loop ntab (Suc f) (valof \<rho> r # valof \<rho> l # stk)
        (s\<lparr>linp := lit_out_number (tag_code t) @ rest, last_number_len := last_len ix r\<rparr>)"
    using Binop.prems bs Binop.IH(2) [OF b, of "valof \<rho> l # stk"
        "s\<lparr>linp := b @ lit_out_number (tag_code t) @ rest, last_number_len := last_len ix l\<rparr>"
        "lit_out_number (tag_code t) @ rest" "Suc f"]
    by (simp del: load_expr_loop.simps)
  finally show ?case
    using Binop.prems(2) load_binop_value [of t "valof \<rho> r" "valof \<rho> l"]
    by (auto simp: load_loop_tag bin_tag_def valof_bin add.assoc simp del: load_expr_loop.simps)
qed simp_all

lemma lit_load_out_expr:
  assumes "lit_out_expr ix e = Inr bs" "loadable ntab ix \<rho> e" "depth e \<le> max_expression_depth"
    "linp s = bs @ rest"
  shows "lit_load_in_expr ntab s = Inr (valof \<rho> e, s\<lparr>linp := rest, last_number_len := 1\<rparr>)"
proof -
  from assms(1) obtain b where b: "out_expr ix e = Inr b" and bs: "bs = b @ lit_out_number LIT_EXPR_END"
    by (auto simp: lit_out_expr_def outcome_iff)
  define f where "f = Suc (length (bs @ rest)) - rounds e"
  have le: "rounds e \<le> length b" by (rule rounds_le_length [OF b])
  then have fuel: "Suc (length (linp s)) = rounds e + f"
    using bs assms(4) by (simp add: f_def)
  obtain g where g: "f = Suc g"
    using le bs out_number_length [of LIT_EXPR_END] by (cases f) (simp_all add: f_def)
  have "length (lit_out_number LIT_EXPR_END) = 1" by code_simp
  with load_loop_out_expr [OF b assms(2), of "[]" s "lit_out_number LIT_EXPR_END @ rest" f] assms(3,4)
  show ?thesis
    unfolding lit_load_in_expr_def fuel by (simp add: bs g rbind_def rret_def)
qed

declare load_expr_loop.simps(2) [simp del]

text \<open>A condition as \<open>lit_out_expr\<close> writes it: \<open>COLON\<close> comes first, and is no operation.\<close>

lemma lit_load_conditional:
  assumes "out_expr ix (Binop EXPR_QUEST c (Binop EXPR_COLON a b)) = Inr bs"
    "loadable ntab ix \<rho> c" "loadable ntab ix \<rho> a" "loadable ntab ix \<rho> b"
    "depth (Binop EXPR_QUEST c (Binop EXPR_COLON a b)) \<le> max_expression_depth"
    "linp s = bs @ rest"
  shows "lit_load_in_expr ntab s = Inl Fatal"
proof -
  from assms(1) obtain bc ba bb where b: "out_expr ix c = Inr bc" "out_expr ix a = Inr ba" "out_expr ix b = Inr bb"
    and bs: "bs = bc @ ba @ bb @ lit_out_number (tag_code EXPR_COLON) @ lit_out_number (tag_code EXPR_QUEST)"
    by (auto simp: outcome_iff)
  obtain g where g: "Suc (length (linp s)) = rounds c + (rounds a + (rounds b + Suc g))"
  proof
    show "Suc (length (linp s)) = rounds c + (rounds a + (rounds b + Suc
        (length (linp s) - (rounds c + rounds a + rounds b))))"
      using rounds_le_length [OF b(1)] rounds_le_length [OF b(2)] rounds_le_length [OF b(3)] bs assms(6)
      by simp
  qed
  have d: "depth c \<le> max_expression_depth" "Suc (depth a) \<le> max_expression_depth"
    "Suc (Suc (depth b)) \<le> max_expression_depth"
    using assms(5) by auto
  let ?tail = "lit_out_number (tag_code EXPR_COLON) @ lit_out_number (tag_code EXPR_QUEST) @ rest"
  have "lit_load_in_expr ntab s = load_expr_loop ntab (rounds a + (rounds b + Suc g)) [valof \<rho> c]
      (s\<lparr>linp := ba @ bb @ ?tail, last_number_len := last_len ix c\<rparr>)"
    unfolding lit_load_in_expr_def g using d assms(6) bs
    by (intro load_loop_out_expr [OF b(1) assms(2)]) simp_all
  also have "\<dots> = load_expr_loop ntab (rounds b + Suc g) [valof \<rho> a, valof \<rho> c]
      (s\<lparr>linp := bb @ ?tail, last_number_len := last_len ix a\<rparr>)"
    using d load_loop_out_expr [OF b(2) assms(3), of "[valof \<rho> c]"
        "s\<lparr>linp := ba @ bb @ ?tail, last_number_len := last_len ix c\<rparr>" "bb @ ?tail" "rounds b + Suc g"]
    by simp
  also have "\<dots> = load_expr_loop ntab (Suc g) [valof \<rho> b, valof \<rho> a, valof \<rho> c]
      (s\<lparr>linp := ?tail, last_number_len := last_len ix b\<rparr>)"
    using d load_loop_out_expr [OF b(3) assms(4), of "[valof \<rho> a, valof \<rho> c]"
        "s\<lparr>linp := bb @ ?tail, last_number_len := last_len ix a\<rparr>" ?tail "Suc g"]
    by simp
  also have "\<dots> = Inl Fatal"
    by (simp add: load_loop_tag tag_isleaf_def tag_isunary_def load_binop_def rstop_def)
  finally show ?thesis .
qed

section \<open>The memory written\<close>

definition frame :: "loader \<Rightarrow> loader \<Rightarrow> bool" where
  "frame s t \<longleftrightarrow> mem t = mem s \<and> room t = room s \<and> segsize t = segsize s \<and> segname t = segname s"

lemma frame_refl [simp]: "frame s s"
  by (simp add: frame_def)

lemma frame_trans [trans]: "frame s t \<Longrightarrow> frame t u \<Longrightarrow> frame s u"
  by (simp add: frame_def)

lemma lit_load_in_number_frame: "lit_load_in_number s = Inr (n, t) \<Longrightarrow> frame s t"
  by (auto simp: lit_load_in_number_reads frame_def split: sum.splits prod.splits if_splits)

lemma load_leaf_frame: "load_leaf ntab tg stk s = Inr (r, t) \<Longrightarrow> frame s t"
  by (auto simp: load_leaf_def outcome_iff dest: lit_load_in_number_frame
      split: if_splits expr_tag.splits)

lemma load_expr_loop_frame: "load_expr_loop ntab fuel stk s = Inr (v, t) \<Longrightarrow> frame s t"
proof (induction fuel arbitrary: stk s)
  case (Suc fuel)
  from Suc.prems show ?case
    unfolding load_expr_loop.simps(2)
    by (auto simp: outcome_iff dest!: lit_load_in_number_frame load_leaf_frame Suc.IH
        split: if_splits option.splits list.splits sum.splits intro: frame_trans)
qed (simp add: rstop_def)

lemma lit_load_in_expr_frame: "lit_load_in_expr ntab s = Inr (v, t) \<Longrightarrow> frame s t"
  unfolding lit_load_in_expr_def by (rule load_expr_loop_frame)

text \<open>
  What a record does: \<open>n\<close> bytes more in memory, counted in the size of the segment and taken off
  what is left of the area.
\<close>

definition account :: "long \<Rightarrow> loader \<Rightarrow> long \<Rightarrow> loader \<Rightarrow> bool" where
  "account a s a' t \<longleftrightarrow>
     (\<exists>n. length (mem t) = length (mem s) + n \<and> room t = room s \<and>
        segsize t = segsize s + word_of_nat n \<and> sint a' = sint a - int n \<and> 0 \<le> sint a')"

lemma account_refl: "0 \<le> sint a \<Longrightarrow> account a s a s"
  by (auto simp: account_def intro!: exI [of _ 0])

lemma account_trans:
  assumes "account a s b t" "account b t c u"
  shows "account a s c u"
proof -
  from assms obtain m n where
    "length (mem t) = length (mem s) + m \<and> room t = room s \<and>
        segsize t = segsize s + word_of_nat m \<and> sint b = sint a - int m \<and> 0 \<le> sint b"
    "length (mem u) = length (mem t) + n \<and> room u = room t \<and>
        segsize u = segsize t + word_of_nat n \<and> sint c = sint b - int n \<and> 0 \<le> sint c"
    by (auto simp: account_def)
  then show ?thesis
    by (auto simp: account_def intro!: exI [of _ "m + n"])
qed

lemma account_frame_left: "frame s t \<Longrightarrow> account a t b u = account a s b u"
  by (simp add: account_def frame_def)

lemma sint_areasz:
  fixes a sz :: long
  assumes "0 \<le> sint a" "0 \<le> sint sz" "\<not> a <s sz"
  shows "sint (a - sz) = sint a - int (unat sz)" "0 \<le> sint (a - sz)"
proof -
  have le: "sint sz \<le> sint a" using assms(3) by (simp add: word_sless_alt)
  moreover have "sint a < 2 ^ 31" using sint_lt [of a] by simp
  ultimately have "sint (a - sz) = sint a - sint sz"
    using assms(1,2) by (intro sint_diff_eq) simp_all
  then show "sint (a - sz) = sint a - int (unat sz)" "0 \<le> sint (a - sz)"
    using le unat_sint [OF assms(2)] by simp_all
qed

lemma store_Inr:
  "store bs s = Inr (u, t) \<longleftrightarrow> length (mem s) + length bs \<le> room s \<and> t = s\<lparr>mem := mem s @ bs\<rparr>"
  by (auto simp: store_def)

lemma sint_small: "unat w < 2 ^ 31 \<Longrightarrow> sint w = int (unat w)" for w :: long
proof -
  assume "unat w < 2 ^ 31"
  then have "nat (uint w) < 2 ^ 31" unfolding unat_eq_nat_uint .
  then have "uint w < 2 ^ 31" by (simp only: nat_less_iff [OF uint_ge_0]) simp
  moreover have "- 2147483648 \<le> uint w" by (rule order_trans [OF _ uint_ge_0]) simp
  ultimately show ?thesis
    using sint_word_of_int_eq [where 'l = 32, of "uint w"] by simp
qed

lemma data_bytes:
  fixes count width sz :: long
  assumes w: "width = 4 \<or> width = 2 \<or> width = 1" and c: "0 \<le> sint count"
    and le: "\<not> sz <s count * width"
    and small: "unat count * unat width < 2 ^ 31"
  shows "0 \<le> sint sz \<and> unat count * unat width + unat (sz - width * count) = unat sz"
proof -
  from small have prod: "unat (count * width) = unat count * unat width"
    by (subst unat_mult_lem [THEN iffD1]) simp_all
  have "sint (count * width) = int (unat (count * width))"
    using small prod by (intro sint_small) simp
  then have "int (unat count * unat width) \<le> sint sz"
    using le prod by (simp add: word_sless_alt)
  then have nonneg: "0 \<le> sint sz" by (rule order_trans [OF of_nat_0_le_iff])
  then have "unat count * unat width \<le> unat sz"
    using \<open>int (unat count * unat width) \<le> sint sz\<close> unat_sint [OF nonneg] by linarith
  then have "unat (sz - width * count) = unat sz - unat count * unat width"
    using prod by (subst unat_sub) (simp_all add: word_le_nat_alt mult.commute)
  with \<open>unat count * unat width \<le> unat sz\<close> nonneg show ?thesis by simp
qed


lemma account_store:
  assumes "frame s t" "room t < 2 ^ 31" "store bs t = Inr (u, t')"
    "length bs = unat sz" "0 \<le> sint sz" "0 \<le> sint a" "\<not> a <s sz"
  shows "account a s (a - sz) (t'\<lparr>segsize := segsize t' + sz\<rparr>)"
  using assms sint_areasz [OF assms(6,5,7)]
  by (auto simp: account_def frame_def store_Inr intro!: exI [of _ "unat sz"])

lemma load_block_account:
  assumes "load_block a len s = Inr (a', t)" "0 \<le> sint a" "0 <s len" "room s < 2 ^ 31"
  shows "account a s a' t"
proof -
  from assms(1) obtain bs s1 u s2 where a: "\<not> a <s len" "a' = a - len"
    and b: "lit_load_in_block (room s - length (mem s)) len s = Inr (bs, s1)"
    and st: "store bs s1 = Inr (u, s2)" and t: "t = s2\<lparr>segsize := segsize s2 + len\<rparr>"
    by (auto simp: load_block_def outcome_iff split: if_splits)
  from b have "frame s s1" "length bs = unat len"
    by (auto simp: lit_load_in_block_def frame_def split: if_splits)
  moreover have "0 \<le> sint len" using assms(3) by (simp add: word_sless_alt)
  ultimately show ?thesis
    unfolding a(2) t using assms(2,4) a(1) st by (intro account_store) (simp_all add: frame_def)
qed

lemma data_unit_length: "width = 4 \<or> width = 2 \<or> width = 1 \<Longrightarrow> length (data_unit width v) = unat width"
  by (auto simp: data_unit_def)

lemma load_data_account:
  assumes "load_data ntab a s = Inr (a', t)" "0 \<le> sint a" "room s < 2 ^ 31"
  shows "account a s a' t"
proof -
  from assms(1) obtain width s1 v s2 count s3 sz s4 u s5 where
    run: "lit_load_in_number s = Inr (width, s1)" "lit_load_in_expr ntab s1 = Inr (v, s2)"
      "lit_load_in_expr ntab s2 = Inr (count, s3)" "lit_load_in_expr ntab s3 = Inr (sz, s4)"
    and chk: "\<not> count <s 0" "\<not> sz <s count * width" "\<not> a <s sz" "width = 4 \<or> width = 2 \<or> width = 1"
    and st: "store (concat (replicate (unat count) (data_unit width v))
               @ replicate (unat (sz - width * count)) (ucast v)) s4 = Inr (u, s5)"
    and t: "a' = a - sz" "t = s5\<lparr>segsize := segsize s5 + sz\<rparr>"
    by (auto simp: load_data_def outcome_iff split: if_splits)
  have fr: "frame s s4"
    using run lit_load_in_number_frame lit_load_in_expr_frame by (metis frame_trans)
  have len: "length (concat (replicate (unat count) (data_unit width v))
      @ replicate (unat (sz - width * count)) (ucast v :: byte))
      = unat count * unat width + unat (sz - width * count)"
    by (simp add: length_concat sum_list_replicate data_unit_length [OF chk(4)])
  have "unat count * unat width < 2 ^ 31"
    using st assms(3) fr len by (simp add: store_Inr frame_def)
  from data_bytes [OF chk(4) _ chk(2) this] chk(1)
  have sz: "0 \<le> sint sz" "unat count * unat width + unat (sz - width * count) = unat sz"
    by (simp_all add: word_sless_alt)
  show ?thesis
    unfolding t using assms(2,3) fr st len sz chk(3)
    by (intro account_store) (auto simp: frame_def)
qed

text \<open>The loader's encoder is \<open>cmd_generate\<close> with a slot; what does not fit is fatal.\<close>

lemma lit_load_cmd_generate_eq:
  "lit_load_cmd_generate opcode arg sz =
     (if sint sz \<le> 0 then Inl Fatal
      else case cmd_generate (ucast opcode) arg (nat (sint sz)) of None \<Rightarrow> Inl Fatal | Some bs \<Rightarrow> Inr bs)"
  by (auto simp: lit_load_cmd_generate_def cmd_generate_def cmd_push_def Let_def split: option.split)

lemma lit_load_cmd_generate_length:
  assumes "lit_load_cmd_generate opcode arg sz = Inr bs"
  shows "0 < sint sz" "length bs = unat sz"
proof -
  from assms have sz: "0 < sint sz" and bs: "cmd_generate (ucast opcode) arg (nat (sint sz)) = Some bs"
    by (auto simp: lit_load_cmd_generate_eq split: if_splits option.splits)
  then have "length bs = nat (sint sz)"
    using cmd_generate_length [OF _ bs] by simp
  with sz show "0 < sint sz" "length bs = unat sz"
    using unat_sint [of sz] by linarith+
qed

lemma load_cmd_account:
  assumes "load_cmd ntab a s = Inr (a', t)" "0 \<le> sint a" "room s < 2 ^ 31"
  shows "account a s a' t"
proof -
  from assms(1) obtain opcode s1 arg s2 sz s3 bs u s4 where
    run: "lit_load_in_number s = Inr (opcode, s1)" "lit_load_in_expr ntab s1 = Inr (arg, s2)"
      "lit_load_in_expr ntab s2 = Inr (sz, s3)"
    and chk: "\<not> a <s sz" and bs: "lit_load_cmd_generate opcode arg sz = Inr bs"
    and st: "store bs s3 = Inr (u, s4)" and t: "a' = a - sz" "t = s4\<lparr>segsize := segsize s4 + sz\<rparr>"
    by (auto simp: load_cmd_def outcome_iff split: if_splits sum.splits)
  have fr: "frame s s3"
    using run lit_load_in_number_frame lit_load_in_expr_frame by (metis frame_trans)
  with assms(2,3) st chk lit_load_cmd_generate_length [OF bs] show ?thesis
    unfolding t by (intro account_store) (simp_all add: frame_def)
qed

lemma account_room: "account a s a' t \<Longrightarrow> room t = room s \<and> 0 \<le> sint a'"
  by (auto simp: account_def)

lemma load_marker_frame:
  "load_marker s = Inr (b, t) \<Longrightarrow> mem t = mem s \<and> room t = room s \<and> segsize t = segsize s"
  by (auto simp: load_marker_def outcome_iff in_bytes_run frame_def dest!: lit_load_in_number_frame
      split: if_splits simp del: in_bytes.simps)

lemma load_segment_switch_frame:
  "load_segment_switch s = Inr (b, t) \<Longrightarrow> mem t = mem s \<and> room t = room s \<and> segsize t = segsize s"
  by (auto simp: load_segment_switch_def lit_load_in_block_def outcome_iff frame_def
      dest!: lit_load_in_number_frame split: if_splits)

lemma account_end:
  "mem t = mem s \<and> room t = room s \<and> segsize t = segsize s \<Longrightarrow> 0 \<le> sint a \<Longrightarrow> account a s a t"
  by (auto simp: account_def intro!: exI [of _ 0])

lemma load_records_account:
  "load_records ntab fuel a s = Inr (b, t) \<Longrightarrow> 0 \<le> sint a \<Longrightarrow> room s < 2 ^ 31 \<Longrightarrow>
     \<exists>a'. account a s a' t"
proof (induction fuel arbitrary: a s)
  case (Suc fuel)
  from Suc.prems(1) obtain ltag s1 where n: "lit_load_in_number s = Inr (ltag, s1)"
    and rest: "(if 0 <s ltag then rbind (load_block a ltag) (load_records ntab fuel)
       else if ltag = LIT_DUMMY then load_records ntab fuel a
       else if ltag = LIT_DATA then rbind (load_data ntab a) (load_records ntab fuel)
       else if ltag = LIT_CMD then rbind (load_cmd ntab a) (load_records ntab fuel)
       else if ltag = LIT_MARKER then load_marker
       else if ltag = LIT_SEGMENT then load_segment_switch
       else rstop Fatal) s1 = Inr (b, t)"
    by (auto simp: rbind_Inr split del: if_split)
  have fr: "frame s s1" by (rule lit_load_in_number_frame [OF n])
  then have room: "room s1 < 2 ^ 31" using Suc.prems(3) by (simp add: frame_def)
  have next_record: "\<exists>a'. account a s1 a' t"
    if "account a s1 a1 s2" "load_records ntab fuel a1 s2 = Inr (b, t)" for a1 s2
    using Suc.IH [OF that(2)] account_room [OF that(1)] room account_trans [OF that(1)] by auto
  have neg: "\<not> (0 :: long) <s LIT_CMD" "\<not> (0 :: long) <s LIT_MARKER" "\<not> (0 :: long) <s LIT_SEGMENT"
    by (simp_all add: word_sless_alt)
  note block = next_record [OF load_block_account [OF _ Suc.prems(2) _ room]]
  note data = next_record [OF load_data_account [OF _ Suc.prems(2) room]]
  note cmd = next_record [OF load_cmd_account [OF _ Suc.prems(2) room]]
  note dummy = next_record [OF account_refl [OF Suc.prems(2)]]
  consider "0 <s ltag" | "ltag = LIT_DUMMY" | "ltag = LIT_DATA" | "ltag = LIT_CMD" | "ltag = LIT_MARKER"
    | "ltag = LIT_SEGMENT"
    using rest by (auto simp: rstop_Inr split: if_splits)
  then have "\<exists>a'. account a s1 a' t"
  proof cases
    case 1
    with rest obtain a1 s2 where "load_block a ltag s1 = Inr (a1, s2)" "load_records ntab fuel a1 s2 = Inr (b, t)"
      by (auto simp: rbind_Inr)
    then show ?thesis using block 1 by blast
  next
    case 3
    with rest obtain a1 s2 where "load_data ntab a s1 = Inr (a1, s2)" "load_records ntab fuel a1 s2 = Inr (b, t)"
      by (auto simp: rbind_Inr)
    then show ?thesis using data by blast
  next
    case 4
    then obtain a1 s2 where "load_cmd ntab a s1 = Inr (a1, s2)" "load_records ntab fuel a1 s2 = Inr (b, t)"
      using rest neg by (auto simp: rbind_Inr)
    then show ?thesis using cmd by blast
  qed (use rest neg dummy account_end [OF load_marker_frame Suc.prems(2)]
      account_end [OF load_segment_switch_frame Suc.prems(2)] in \<open>auto intro: exI [of _ a]\<close>)
  then show ?case using account_frame_left [OF fr] by blast
qed (simp add: rstop_def)


section \<open>Inside the area\<close>

text \<open>The fields of a record, whose reading writes nothing.\<close>

definition data_fields :: "long list \<Rightarrow> (loader, long \<times> long \<times> long \<times> long) step" where
  "data_fields ntab =
     rbind lit_load_in_number (\<lambda>width. rbind (lit_load_in_expr ntab) (\<lambda>v.
     rbind (lit_load_in_expr ntab) (\<lambda>count. rbind (lit_load_in_expr ntab) (\<lambda>sz. rret (width, v, count, sz)))))"

definition cmd_fields :: "long list \<Rightarrow> (loader, long \<times> long \<times> long) step" where
  "cmd_fields ntab =
     rbind lit_load_in_number (\<lambda>opcode. rbind (lit_load_in_expr ntab) (\<lambda>arg.
     rbind (lit_load_in_expr ntab) (\<lambda>sz. rret (opcode, arg, sz))))"

text \<open>One record of a segment.\<close>

inductive loaded :: "long list \<Rightarrow> long \<times> loader \<Rightarrow> long \<times> loader \<Rightarrow> bool" for ntab where
  block: "lit_load_in_number s = Inr (ltag, s1) \<Longrightarrow> 0 <s ltag \<Longrightarrow> load_block a ltag s1 = Inr (a', t) \<Longrightarrow> loaded ntab (a, s) (a', t)"
| dummy: "lit_load_in_number s = Inr (LIT_DUMMY, t) \<Longrightarrow> loaded ntab (a, s) (a, t)"
| data: "lit_load_in_number s = Inr (LIT_DATA, s1) \<Longrightarrow> load_data ntab a s1 = Inr (a', t) \<Longrightarrow> loaded ntab (a, s) (a', t)"
| cmd: "lit_load_in_number s = Inr (LIT_CMD, s1) \<Longrightarrow> load_cmd ntab a s1 = Inr (a', t) \<Longrightarrow> loaded ntab (a, s) (a', t)"

definition hazard :: "long list \<Rightarrow> loader \<Rightarrow> bool" where
  "hazard ntab s \<longleftrightarrow>
     (\<exists>s1. lit_load_in_number s = Inr (LIT_DATA, s1) \<and>
        (data_fields ntab s1 = Inl Trap \<or>
         (\<exists>width v count sz t. data_fields ntab s1 = Inr ((width, v, count, sz), t) \<and> 0 \<le>s count \<and> 2 ^ 31 \<le> unat count * unat width))) \<or>
     (\<exists>s1. lit_load_in_number s = Inr (LIT_CMD, s1) \<and> cmd_fields ntab s1 = Inl Trap) \<or>
     (\<exists>s1 len t. lit_load_in_number s = Inr (LIT_SEGMENT, s1) \<and> lit_load_in_number s1 = Inr (len, t) \<and> len <s 0)"

lemma lit_load_in_number_stop: "lit_load_in_number s = Inl e \<Longrightarrow> e = Fatal"
  by (auto simp: lit_load_in_number_reads split: sum.splits prod.splits if_splits)

lemma store_trap: "store bs s = Inl e \<longleftrightarrow> e = Trap \<and> room s < length (mem s) + length bs"
  by (auto simp: store_def)

lemmas stop_iff = rbind_Inl rget_def rmodify_def rret_def rstop_def store_trap


text \<open>
  The fuel of the loops is more than the bytes left, and every round takes one: it never runs out, which would be an
  \<open>Abort\<close>.
\<close>

lemma lit_load_in_number_takes: "lit_load_in_number s = Inr (n, t) \<Longrightarrow> length (linp t) < length (linp s)"
  by (auto simp: lit_load_in_number_reads dest!: lit_in_number_consumes split: sum.splits prod.splits if_splits)

lemma load_leaf_takes: "load_leaf ntab tg stk s = Inr (r, t) \<Longrightarrow> length (linp t) \<le> length (linp s)"
  by (auto simp: load_leaf_def outcome_iff dest!: lit_load_in_number_takes split: if_splits expr_tag.splits)

lemma load_expr_loop_takes: "load_expr_loop ntab fuel stk s = Inr (v, t) \<Longrightarrow> length (linp t) \<le> length (linp s)"
proof (induction fuel arbitrary: stk s)
  case (Suc fuel)
  from Suc.prems show ?case
    unfolding load_expr_loop.simps(2)
    by (auto simp: outcome_iff dest!: lit_load_in_number_takes load_leaf_takes Suc.IH
        split: if_splits option.splits list.splits sum.splits)
qed (simp add: rstop_def)

lemma lit_load_in_expr_takes: "lit_load_in_expr ntab s = Inr (v, t) \<Longrightarrow> length (linp t) \<le> length (linp s)"
  unfolding lit_load_in_expr_def by (rule load_expr_loop_takes)

lemma load_leaf_stop: "load_leaf ntab tg stk s \<noteq> Inl Abort"
  by (auto simp: load_leaf_def stop_iff dest: lit_load_in_number_stop split: if_splits expr_tag.splits)

lemma load_expr_loop_stop: "length (linp s) < fuel \<Longrightarrow> load_expr_loop ntab fuel stk s \<noteq> Inl Abort"
proof (induction fuel arbitrary: stk s)
  case (Suc fuel)
  have loop: "load_expr_loop ntab fuel stk' t \<noteq> Inl Abort" if "length (linp t) < length (linp s)" for stk' t
    using Suc.IH [of t stk'] Suc.prems that by simp
  have binop: "load_binop tg l r \<noteq> Inl Abort" for tg l r by (cases tg) (simp_all add: load_binop_def)
  show ?case
  proof
    assume run: "load_expr_loop ntab (Suc fuel) stk s = Inl Abort"
    then obtain tag t where tag: "lit_load_in_number s = Inr (tag, t)"
      using lit_load_in_number_stop unfolding load_expr_loop.simps(2) rbind_Inl by blast
    note less = lit_load_in_number_takes [OF tag]
    have leaf: "rbind (load_leaf ntab tg stk) (load_expr_loop ntab fuel) t \<noteq> Inl Abort" for tg
      using load_leaf_stop loop less load_leaf_takes by (fastforce simp: rbind_Inl)
    have quest: "rbind lit_load_in_number (\<lambda>tag'. if tag' \<noteq> tag_code EXPR_COLON then rstop Fatal
        else case stk of b # a # c # vs \<Rightarrow> load_expr_loop ntab fuel ((if c \<noteq> 0 then a else b) # vs) | _ \<Rightarrow> rstop Fatal) t \<noteq> Inl Abort"
      using loop less by (auto simp: rbind_Inl rstop_def dest!: lit_load_in_number_takes dest: lit_load_in_number_stop split: list.splits)
    from run [unfolded load_expr_loop.simps(2)] tag show False
      using leaf quest loop [OF less] binop
      by (auto simp: rbind_def rstop_def rret_def split: if_splits option.splits list.splits sum.splits)
  qed
qed simp

lemma lit_load_in_expr_stop: "lit_load_in_expr ntab s \<noteq> Inl Abort"
  unfolding lit_load_in_expr_def by (rule load_expr_loop_stop) simp

definition in_area :: "long \<Rightarrow> loader \<Rightarrow> bool" where
  "in_area a s \<longleftrightarrow> 0 \<le> sint a \<and> length (mem s) + unat a \<le> room s"

lemma in_area_frame: "frame s t \<Longrightarrow> in_area a s = in_area a t"
  by (simp add: in_area_def frame_def)

lemma in_area_account:
  assumes "account a s a' t" "in_area a s"
  shows "in_area a' t"
proof -
  from assms obtain n where n: "length (mem t) = length (mem s) + n" "room t = room s" "sint a' = sint a - int n" "0 \<le> sint a'"
    and a: "0 \<le> sint a" "length (mem s) + unat a \<le> room s"
    by (auto simp: account_def in_area_def)
  have "unat a' + n = unat a" using n(3) unat_sint [OF n(4)] unat_sint [OF a(1)] by linarith
  with n a show ?thesis by (simp add: in_area_def)
qed

lemma unat_le_signed: "\<not> a <s b \<Longrightarrow> 0 \<le> sint b \<Longrightarrow> unat b \<le> unat a" for a b :: long
proof -
  assume ab: "\<not> a <s b" "0 \<le> sint b"
  then have "sint b \<le> sint a" by (simp add: word_sless_alt)
  with ab(2) unat_sint [OF ab(2)] unat_sint [of a] show "unat b \<le> unat a" by linarith
qed

lemma load_block_safe:
  assumes "in_area a s" "0 <s len"
  shows "load_block a len s \<noteq> Inl Trap"
proof
  assume run: "load_block a len s = Inl Trap"
  then have a: "\<not> a <s len" by (auto simp: load_block_def stop_iff split: if_splits)
  then have le: "unat len \<le> unat a" using assms(2) by (intro unat_le_signed) (simp_all add: word_sless_alt)
  from run a assms(1) le show False
    by (auto simp: load_block_def lit_load_in_block_def in_area_def stop_iff split: if_splits)
qed

lemma data_fields_frame: "data_fields ntab s = Inr (x, t) \<Longrightarrow> frame s t"
  by (auto simp: data_fields_def outcome_iff intro: frame_trans dest!: lit_load_in_number_frame lit_load_in_expr_frame)

lemma cmd_fields_frame: "cmd_fields ntab s = Inr (x, t) \<Longrightarrow> frame s t"
  by (auto simp: cmd_fields_def outcome_iff intro: frame_trans dest!: lit_load_in_number_frame lit_load_in_expr_frame)

lemma load_data_fields:
  "load_data ntab a = rbind (data_fields ntab) (\<lambda>(width, v, count, sz).
       if count <s 0 then rstop Fatal
       else if sz <s count * width then rstop Fatal
       else if a <s sz then rstop Fatal
       else if width \<noteq> 4 \<and> width \<noteq> 2 \<and> width \<noteq> 1 then rstop Fatal
       else rbind (store (concat (replicate (unat count) (data_unit width v))
                            @ replicate (unat (sz - width * count)) (ucast v))) (\<lambda>_.
            rbind (rmodify (\<lambda>s. s\<lparr>segsize := segsize s + sz\<rparr>)) (\<lambda>_. rret (a - sz))))"
  by (simp add: load_data_def data_fields_def rbind_assoc rbind_rret)

lemma load_cmd_fields:
  "load_cmd ntab a = rbind (cmd_fields ntab) (\<lambda>(opcode, arg, sz).
       if a <s sz then rstop Fatal
       else case lit_load_cmd_generate opcode arg sz of
              Inl e \<Rightarrow> rstop e
            | Inr bs \<Rightarrow> rbind (store bs) (\<lambda>_.
                rbind (rmodify (\<lambda>s. s\<lparr>segsize := segsize s + sz\<rparr>)) (\<lambda>_. rret (a - sz))))"
  by (simp add: load_cmd_def cmd_fields_def rbind_assoc rbind_rret)

lemma load_data_trap:
  assumes run: "load_data ntab a s = Inl Trap" and area: "in_area a s"
  shows "data_fields ntab s = Inl Trap \<or>
    (\<exists>width v count sz t. data_fields ntab s = Inr ((width, v, count, sz), t) \<and> 0 \<le>s count \<and> 2 ^ 31 \<le> unat count * unat width)"
proof (rule disjCI)
  assume none: "\<not> (\<exists>width v count sz t. data_fields ntab s = Inr ((width, v, count, sz), t) \<and> 0 \<le>s count \<and> 2 ^ 31 \<le> unat count * unat width)"
  show "data_fields ntab s = Inl Trap"
  proof (rule ccontr)
    assume no: "data_fields ntab s \<noteq> Inl Trap"
    with run obtain width v count sz t where f: "data_fields ntab s = Inr ((width, v, count, sz), t)"
      and c: "\<not> count <s 0" "\<not> sz <s count * width" "\<not> a <s sz" "width = 4 \<or> width = 2 \<or> width = 1"
      and st: "room t < length (mem t) + (length (concat (replicate (unat count) (data_unit width v))
               @ replicate (unat (sz - width * count)) (ucast v :: byte)))"
      unfolding load_data_fields by (auto simp: stop_iff split: if_splits)
    from none f c(1) have small: "unat count * unat width < 2 ^ 31" by (auto simp: word_sle_eq word_sless_alt not_le)
    from data_bytes [OF c(4) _ c(2) small] c(1)
    have sz: "0 \<le> sint sz" "unat count * unat width + unat (sz - width * count) = unat sz" by (simp_all add: word_sless_alt)
    have "unat sz \<le> unat a" by (rule unat_le_signed [OF c(3) sz(1)])
    moreover have "in_area a t" using area in_area_frame [OF data_fields_frame [OF f]] by simp
    ultimately show False
      using st sz(2) by (simp add: length_concat sum_list_replicate data_unit_length [OF c(4)] in_area_def)
  qed
qed

lemma load_cmd_trap:
  assumes run: "load_cmd ntab a s = Inl Trap" and area: "in_area a s"
  shows "cmd_fields ntab s = Inl Trap"
proof (rule ccontr)
  assume no: "cmd_fields ntab s \<noteq> Inl Trap"
  have fatal: "lit_load_cmd_generate opcode arg sz \<noteq> Inl Trap" for opcode arg sz
    by (simp add: lit_load_cmd_generate_eq split: option.split)
  from run no obtain opcode arg sz t bs where f: "cmd_fields ntab s = Inr ((opcode, arg, sz), t)"
    and c: "\<not> a <s sz" "lit_load_cmd_generate opcode arg sz = Inr bs" and st: "room t < length (mem t) + length bs"
    unfolding load_cmd_fields by (auto simp: stop_iff fatal split: if_splits sum.splits)
  have "length bs \<le> unat a" using lit_load_cmd_generate_length [OF c(2)] unat_le_signed [OF c(1)] by simp
  moreover have "in_area a t" using area in_area_frame [OF cmd_fields_frame [OF f]] by simp
  ultimately show False using st by (simp add: in_area_def)
qed

lemma load_marker_safe: "load_marker s \<noteq> Inl Trap"
  by (auto simp: load_marker_def stop_iff in_bytes_run simp del: in_bytes.simps split: if_splits dest: lit_load_in_number_stop)

lemma load_segment_switch_trap:
  assumes "load_segment_switch s = Inl Trap"
  shows "\<exists>len t. lit_load_in_number s = Inr (len, t) \<and> len <s 0"
proof -
  from assms obtain len t where n: "lit_load_in_number s = Inr (len, t)" "sint len \<le> 32"
    and b: "lit_load_in_block 33 len t = Inl Trap"
    by (auto simp: load_segment_switch_def max_segment_name_length_def stop_iff split: if_splits dest: lit_load_in_number_stop)
  have "len <s 0"
  proof (rule ccontr)
    assume "\<not> len <s 0"
    then have "0 \<le> sint len" by (simp add: word_sless_alt)
    with unat_sint [OF this] n(2) have "unat len \<le> 32" by linarith
    with b show False by (simp add: lit_load_in_block_def split: if_splits)
  qed
  with n show ?thesis by blast
qed

lemma loaded_in_area:
  assumes "(loaded ntab)\<^sup>*\<^sup>* (a, s) (a', t)" "in_area a s" "room s < 2 ^ 31"
  shows "in_area a' t \<and> room t = room s"
  using assms
proof (induction "(a', t)" arbitrary: a' t rule: rtranclp_induct)
  case (step p)
  obtain a1 s1 where p: "p = (a1, s1)" by (cases p)
  with step have IH: "in_area a1 s1" "room s1 = room s" and l: "loaded ntab (a1, s1) (a', t)" by simp_all
  have room: "room s1 < 2 ^ 31" and nonneg: "0 \<le> sint a1" using IH step.prems by (simp_all add: in_area_def)
  from l show ?case
  proof (cases rule: loaded.cases)
    case (block ltag s2)
    note f = lit_load_in_number_frame [OF block(1)]
    have "account a1 s2 a' t" by (rule load_block_account [OF block(3) nonneg block(2)]) (use f room in \<open>simp add: frame_def\<close>)
    with f IH in_area_frame [OF f] in_area_account show ?thesis by (auto simp: frame_def dest: account_room)
  next
    case dummy
    note f = lit_load_in_number_frame [OF dummy(2)]
    with IH in_area_frame [OF f] dummy(1) show ?thesis by (simp add: frame_def)
  next
    case (data s2)
    note f = lit_load_in_number_frame [OF data(1)]
    have "account a1 s2 a' t" by (rule load_data_account [OF data(2) nonneg]) (use f room in \<open>simp add: frame_def\<close>)
    with f IH in_area_frame [OF f] in_area_account show ?thesis by (auto simp: frame_def dest: account_room)
  next
    case (cmd s2)
    note f = lit_load_in_number_frame [OF cmd(1)]
    have "account a1 s2 a' t" by (rule load_cmd_account [OF cmd(2) nonneg]) (use f room in \<open>simp add: frame_def\<close>)
    with f IH in_area_frame [OF f] in_area_account show ?thesis by (auto simp: frame_def dest: account_room)
  qed
qed simp

text \<open>Every record takes a byte at least.\<close>

lemma store_takes: "store bs s = Inr (u, t) \<Longrightarrow> linp t = linp s"
  by (simp add: store_Inr)

lemma records_take:
  "load_block a len s = Inr (a', t) \<Longrightarrow> length (linp t) \<le> length (linp s)"
  "load_data ntab a s = Inr (a', t) \<Longrightarrow> length (linp t) \<le> length (linp s)"
  "load_cmd ntab a s = Inr (a', t) \<Longrightarrow> length (linp t) \<le> length (linp s)"
  by (auto simp: load_block_def lit_load_in_block_def load_data_def load_cmd_def outcome_iff
      dest!: lit_load_in_number_takes lit_load_in_expr_takes store_takes split: if_splits sum.splits)

lemma records_stop:
  "load_block a len s \<noteq> Inl Abort" "load_data ntab a s \<noteq> Inl Abort" "load_cmd ntab a s \<noteq> Inl Abort"
  "load_marker s \<noteq> Inl Abort" "load_segment_switch s \<noteq> Inl Abort"
proof -
  have fatal: "in_bytes n t = Inl e \<Longrightarrow> e = Fatal" for n t e
    by (induction n arbitrary: t) (auto simp: lit_load_in_byte_def stop_iff split: list.splits)
  have block: "lit_load_in_block space k t \<noteq> Inl Abort" for space k t by (simp add: lit_load_in_block_def)
  have gen: "lit_load_cmd_generate opcode arg sz \<noteq> Inl Abort" for opcode arg sz
    by (simp add: lit_load_cmd_generate_def Let_def split: option.splits)
  show "load_block a len s \<noteq> Inl Abort" by (auto simp: load_block_def stop_iff block)
  show "load_data ntab a s \<noteq> Inl Abort"
    by (auto simp: load_data_def stop_iff lit_load_in_expr_stop dest: lit_load_in_number_stop split: if_splits)
  show "load_cmd ntab a s \<noteq> Inl Abort"
    by (auto simp: load_cmd_def stop_iff lit_load_in_expr_stop gen dest: lit_load_in_number_stop split: if_splits sum.splits)
  show "load_marker s \<noteq> Inl Abort" by (auto simp: load_marker_def stop_iff dest: lit_load_in_number_stop fatal)
  show "load_segment_switch s \<noteq> Inl Abort"
    by (auto simp: load_segment_switch_def stop_iff block dest: lit_load_in_number_stop split: if_splits)
qed

lemma load_records_stop: "length (linp s) < fuel \<Longrightarrow> load_records ntab fuel a s \<noteq> Inl Abort"
proof (induction fuel arbitrary: a s)
  case (Suc fuel)
  show ?case
  proof
    assume run: "load_records ntab (Suc fuel) a s = Inl Abort"
    then obtain ltag s1 where n: "lit_load_in_number s = Inr (ltag, s1)"
      using lit_load_in_number_stop unfolding load_records.simps(2) rbind_Inl by blast
    have go: "load_records ntab fuel a' t \<noteq> Inl Abort" if "length (linp t) \<le> length (linp s1)" for a' t
      using Suc.IH Suc.prems lit_load_in_number_takes [OF n] that by simp
    have step: "rbind m (load_records ntab fuel) s1 \<noteq> Inl Abort"
      if "m s1 \<noteq> Inl Abort" "\<And>a' t. m s1 = Inr (a', t) \<Longrightarrow> length (linp t) \<le> length (linp s1)" for m
      using that go by (auto simp: rbind_Inl)
    have "rbind (load_block a ltag) (load_records ntab fuel) s1 \<noteq> Inl Abort"
      "rbind (load_data ntab a) (load_records ntab fuel) s1 \<noteq> Inl Abort"
      "rbind (load_cmd ntab a) (load_records ntab fuel) s1 \<noteq> Inl Abort"
      by (rule step; rule records_stop records_take; assumption?)+
    with run n go records_stop(4,5) show False
      unfolding load_records.simps(2) by (auto simp: rbind_def [of lit_load_in_number] rstop_def split: if_splits)
  qed
qed simp

lemma load_records_trap:
  "load_records ntab fuel a s = Inl Trap \<Longrightarrow> in_area a s \<Longrightarrow> room s < 2 ^ 31 \<Longrightarrow> length (linp s) < fuel \<Longrightarrow>
     \<exists>a' t. (loaded ntab)\<^sup>*\<^sup>* (a, s) (a', t) \<and> hazard ntab t"
proof (induction fuel arbitrary: a s)
  case (Suc fuel)
  from Suc.prems(1) obtain ltag s1 where n: "lit_load_in_number s = Inr (ltag, s1)"
    and rest: "(if 0 <s ltag then rbind (load_block a ltag) (load_records ntab fuel)
       else if ltag = LIT_DUMMY then load_records ntab fuel a
       else if ltag = LIT_DATA then rbind (load_data ntab a) (load_records ntab fuel)
       else if ltag = LIT_CMD then rbind (load_cmd ntab a) (load_records ntab fuel)
       else if ltag = LIT_MARKER then load_marker
       else if ltag = LIT_SEGMENT then load_segment_switch
       else rstop Fatal) s1 = Inl Trap"
    using lit_load_in_number_stop by (auto simp: rbind_Inl split del: if_split)
  note f = lit_load_in_number_frame [OF n] and less = lit_load_in_number_takes [OF n]
  have area: "in_area a s1" using Suc.prems(2) in_area_frame [OF f] by simp
  have go: "\<exists>a' t. (loaded ntab)\<^sup>*\<^sup>* (a, s) (a', t) \<and> hazard ntab t"
    if l: "loaded ntab (a, s) (a1, s2)" and r: "load_records ntab fuel a1 s2 = Inl Trap" and k: "length (linp s2) \<le> length (linp s1)" for a1 s2
  proof -
    have i: "in_area a1 s2" "room s2 < 2 ^ 31"
      using loaded_in_area [OF r_into_rtranclp [of "loaded ntab", OF l] Suc.prems(2,3)] Suc.prems(3) by simp_all
    from Suc.IH [OF r i] k less Suc.prems(4) obtain a' t where "(loaded ntab)\<^sup>*\<^sup>* (a1, s2) (a', t)" "hazard ntab t" by auto
    with l show ?thesis by (blast intro: converse_rtranclp_into_rtranclp)
  qed
  have here: "?case" if "hazard ntab s" using that by blast
  consider "0 <s ltag" | "ltag = LIT_DUMMY" | "ltag = LIT_DATA" | "ltag = LIT_CMD" | "ltag = LIT_SEGMENT"
    using rest load_marker_safe by (auto simp: rstop_def split: if_splits)
  then show ?case
  proof cases
    case 1
    with rest load_block_safe [OF area 1] obtain a1 s2 where b: "load_block a ltag s1 = Inr (a1, s2)" "load_records ntab fuel a1 s2 = Inl Trap"
      by (auto simp: rbind_Inl)
    show ?thesis by (rule go [OF loaded.block [OF n 1 b(1)] b(2) records_take(1) [OF b(1)]])
  next
    case 2
    with rest show ?thesis by (intro go [OF loaded.dummy [of s s1]]) (use n in auto)
  next
    case 3
    with rest consider "load_data ntab a s1 = Inl Trap" | a1 s2 where "load_data ntab a s1 = Inr (a1, s2)" "load_records ntab fuel a1 s2 = Inl Trap"
      by (auto simp: rbind_Inl)
    then show ?thesis
    proof cases
      case 1
      from load_data_trap [OF this area] have "hazard ntab s" using n 3 by (auto simp: hazard_def)
      then show ?thesis by (rule here)
    next
      case (2 a1 s2)
      show ?thesis by (rule go [OF loaded.data [OF n [unfolded 3] 2(1)] 2(2) records_take(2) [OF 2(1)]])
    qed
  next
    case 4
    with rest consider "load_cmd ntab a s1 = Inl Trap" | a1 s2 where "load_cmd ntab a s1 = Inr (a1, s2)" "load_records ntab fuel a1 s2 = Inl Trap"
      by (auto simp: rbind_Inl word_sless_alt)
    then show ?thesis
    proof cases
      case 1
      from load_cmd_trap [OF this area] have "hazard ntab s" using n 4 by (auto simp: hazard_def)
      then show ?thesis by (rule here)
    next
      case (2 a1 s2)
      show ?thesis by (rule go [OF loaded.cmd [OF n [unfolded 4] 2(1)] 2(2) records_take(3) [OF 2(1)]])
    qed
  next
    case 5
    with rest have "load_segment_switch s1 = Inl Trap" by (simp add: word_sless_alt)
    from load_segment_switch_trap [OF this] have "hazard ntab s" using n 5 by (auto simp: hazard_def)
    then show ?thesis by (rule here)
  qed
qed simp

section \<open>Properties\<close>

text \<open>
  C17: The loader evaluates what \<open>lit_out_expr\<close> wrote to the value of the expression, for every
  expression of operators whose names \<open>ntab\<close> covers and whose divisions are defined.
\<close>

theorem lit_load_expr_value:
  assumes "lit_out_expr ix e = Inr bs" "loadable ntab ix \<rho> e" "depth e \<le> max_expression_depth"
    "linp s = bs @ rest"
  shows "lit_load_in_expr ntab s = Inr (valof \<rho> e, s\<lparr>linp := rest, last_number_len := 1\<rparr>)"
  by (rule lit_load_out_expr [OF assms])

definition sample_loader :: "byte list \<Rightarrow> nat \<Rightarrow> loader" where
  "sample_loader bs k =
     \<lparr>linp = bs, last_number_len = 0, segsize = 0, segname = replicate 33 0, mem = [], room = k\<rparr>"

theorem lit_load_expr_value_witness:
  "lit_load_in_expr [0x1000, 0x2000] (sample_loader [1, 1, 0, 40, 6, 0, 2, 10, 250, 7] 0) =
     Inr (0x1014, (sample_loader [7] 0)\<lparr>last_number_len := 1\<rparr>)"
proof -
  let ?e = "Binop EXPR_DIV (Binop EXPR_PLUS (Name 1) (Const 40)) (Const 2)"
  let ?ix = "\<lparr>name_index = word_of_nat, el_index = word_of_nat\<rparr>"
  let ?\<rho> = "\<lparr>vname = (\<lambda>_. 0x2000), vrange = (\<lambda>_. 0), vel = (\<lambda>_. 0)\<rparr>"
  have "lit_out_expr ?ix ?e = Inr [1, 1, 0, 40, 6, 0, 2, 10, 250]" by code_simp
  moreover have "loadable [0x1000, 0x2000] ?ix ?\<rho> ?e"
    by (simp add: bin_tag_def tag_isleaf_def tag_isunary_def valof_simps eval_val_def)
  moreover have "depth ?e \<le> max_expression_depth" by code_simp
  moreover have "linp (sample_loader [1, 1, 0, 40, 6, 0, 2, 10, 250, 7] 0) =
      [1, 1, 0, 40, 6, 0, 2, 10, 250] @ [7]" by (simp add: sample_loader_def)
  ultimately have "lit_load_in_expr [0x1000, 0x2000] (sample_loader [1, 1, 0, 40, 6, 0, 2, 10, 250, 7] 0) =
     Inr (valof ?\<rho> ?e, (sample_loader [1, 1, 0, 40, 6, 0, 2, 10, 250, 7] 0)\<lparr>linp := [7], last_number_len := 1\<rparr>)"
    by (rule lit_load_expr_value)
  moreover have "valof ?\<rho> ?e = 0x1014" by code_simp
  ultimately show ?thesis by (simp add: sample_loader_def)
qed

text \<open>
  C24: The loader refuses every conditional expression in the form \<open>lit_out_expr\<close> writes it: it expects
  \<open>QUEST\<close> before \<open>COLON\<close>, the writer puts \<open>COLON\<close> first.
\<close>

theorem lit_load_conditional_fatal:
  assumes "out_expr ix (Binop EXPR_QUEST c (Binop EXPR_COLON a b)) = Inr bs"
    "loadable ntab ix \<rho> c" "loadable ntab ix \<rho> a" "loadable ntab ix \<rho> b"
    "depth (Binop EXPR_QUEST c (Binop EXPR_COLON a b)) \<le> max_expression_depth"
    "linp s = bs @ rest"
  shows "lit_load_in_expr ntab s = Inl Fatal"
  by (rule lit_load_conditional [OF assms])

theorem lit_load_conditional_fatal_witness:
  "lit_load_in_expr [] (sample_loader [0, 1, 0, 5, 0, 6, 24, 23, 250] 0) = Inl Fatal"
proof (rule lit_load_conditional_fatal [where c = "Const 1" and a = "Const 5" and b = "Const 6"
      and bs = "[0, 1, 0, 5, 0, 6, 24, 23]" and rest = "[250]"
      and ix = "\<lparr>name_index = word_of_nat, el_index = word_of_nat\<rparr>"])
  show "out_expr \<lparr>name_index = word_of_nat, el_index = word_of_nat\<rparr>
      (Binop EXPR_QUEST (Const 1) (Binop EXPR_COLON (Const 5) (Const 6))) = Inr [0, 1, 0, 5, 0, 6, 24, 23]"
    by code_simp
qed (simp_all add: sample_loader_def max_expression_depth_def)

text \<open>
  C18: The loader writes inside the area: given memory for exactly the area, a segment that is loaded to its end has filled
  \<open>lit_load_segsize\<close> bytes of it, and the only records at which behaviour is undefined are an expression that
  divides the least number by -1 or uses a negative name index, a \<open>DATA\<close> record whose count times width does not fit a
  \<open>long\<close>, and a \<open>SEGMENT\<close> record with a negative length.  Before such a record all bytes written are inside the area.
  Any other end is fatal, and there is always one: the fuel of the loops, whose end would be an \<open>Abort\<close>, does not run out.
\<close>

theorem lit_load_segment_bounds:
  assumes "0 \<le>s areasz" "mem s = []" "room s = unat areasz"
  shows "case lit_load_segment ntab areasz s of
      Inr (another, t) \<Rightarrow> length (mem t) \<le> unat areasz \<and> segsize t = word_of_nat (length (mem t))
    | Inl Trap \<Rightarrow> \<exists>a t. (loaded ntab)\<^sup>*\<^sup>* (areasz, s\<lparr>segsize := 0\<rparr>) (a, t) \<and> length (mem t) + unat a \<le> unat areasz \<and> hazard ntab t
    | Inl e \<Rightarrow> e = Fatal"
proof -
  let ?s = "s\<lparr>segsize := 0\<rparr>"
  have run: "lit_load_segment ntab areasz s = load_records ntab (Suc (length (linp ?s))) areasz ?s"
    by (simp add: lit_load_segment_def rbind_def rmodify_def del: load_records.simps)
  have nonneg: "0 \<le> sint areasz" using assms(1) by (simp add: word_sle_eq)
  have "sint areasz < 2 ^ 31" using sint_lt [of areasz] by simp
  then have "int (unat areasz) < int (2 ^ 31)" unfolding unat_sint [OF nonneg] by simp
  then have "unat areasz < 2 ^ 31" by (simp only: of_nat_less_iff)
  then have room: "room ?s < 2 ^ 31" using assms(3) by simp
  have area: "in_area areasz ?s" using nonneg assms(2,3) by (simp add: in_area_def)
  show ?thesis
  proof (cases "lit_load_segment ntab areasz s")
    case (Inl e)
    show ?thesis
    proof (cases e)
      case Trap
      with Inl run have "load_records ntab (Suc (length (linp ?s))) areasz ?s = Inl Trap" by simp
      from load_records_trap [OF this area room] obtain a t where at: "(loaded ntab)\<^sup>*\<^sup>* (areasz, ?s) (a, t)" "hazard ntab t" by auto
      have "length (mem t) + unat a \<le> unat areasz"
        using loaded_in_area [OF at(1) area room] assms(3) by (simp add: in_area_def)
      with at have "\<exists>a t. (loaded ntab)\<^sup>*\<^sup>* (areasz, ?s) (a, t) \<and> length (mem t) + unat a \<le> unat areasz \<and> hazard ntab t" by blast
      then show ?thesis by (simp add: Inl Trap)
    next
      case Abort
      with Inl run show ?thesis using load_records_stop [of ?s "Suc (length (linp ?s))" ntab areasz] by simp
    qed (simp add: Inl)
  next
    case (Inr p)
    obtain another t where p: "p = (another, t)" by (cases p)
    with Inr run have "load_records ntab (Suc (length (linp ?s))) areasz ?s = Inr (another, t)" by (simp only:)
    from load_records_account [OF this nonneg room] obtain a' where "account areasz ?s a' t" by blast
    then obtain k where k: "length (mem t) = k" "segsize t = word_of_nat k" "int k \<le> sint areasz" using assms(2) by (auto simp: account_def)
    then have "k \<le> unat areasz" using unat_sint [OF nonneg] by linarith
    with k show ?thesis by (simp add: Inr p)
  qed
qed


theorem lit_load_segment_bounds_witness:
  "\<exists>t. lit_load_segment [] (8 :: long) (sample_loader [2, 0x11, 0x22, 255, 0, 1, 0, 7, 250, 0, 2, 250, 0, 2, 250, 255, 7, 2, 19, 0, 0, 0, 0] 8) = Inr (False, t) \<and>
     length (mem t) \<le> unat (8 :: long) \<and> segsize t = word_of_nat (length (mem t))"
proof -
  let ?s = "sample_loader [2, 0x11, 0x22, 255, 0, 1, 0, 7, 250, 0, 2, 250, 0, 2, 250, 255, 7, 2, 19, 0, 0, 0, 0] 8"
  let ?t = "\<lparr>linp = [] :: byte list, last_number_len = 1, segsize = 4, segname = replicate 33 0,
    mem = [0x11, 0x22, 7, 7], room = 8\<rparr>"
  have run: "lit_load_segment [] 8 ?s = Inr (False, ?t)" by code_simp
  have "length (mem ?t) \<le> unat (8 :: long) \<and> segsize ?t = word_of_nat (length (mem ?t))"
    using lit_load_segment_bounds [where areasz = 8 and s = ?s and ntab = "[]"] unfolding run by (simp add: sample_loader_def word_sle_eq)
  then show ?thesis using run by auto
qed

text \<open>
  C27: The consistency check of a \<open>DATA\<close> record multiplies in 32 bits: a count of \<open>0x40000000\<close> words
  with size 0 passes all checks, for an area of no bytes, and four gigabytes are written.
\<close>

theorem load_data_overflow:
  assumes "linp s = [4, 0, 0, 250, 0, 253, 0, 0, 0, 64, 250, 0, 0, 250] @ rest" "room s < 2 ^ 31"
  shows "load_data ntab 0 s = Inl Trap"
proof -
  let ?ix = "\<lparr>name_index = word_of_nat, el_index = word_of_nat\<rparr>"
  let ?\<rho> = "\<lparr>vname = (\<lambda>_. 0), vrange = (\<lambda>_. 0), vel = (\<lambda>_. 0)\<rparr>"
  have out: "lit_out_number (4 :: long) = [4]" "lit_out_expr ?ix (Const 0) = Inr [0, 0, 250]"
    "lit_out_expr ?ix (Const 0x40000000) = Inr [0, 253, 0, 0, 0, 64, 250]"
    by code_simp+
  let ?s1 = "s\<lparr>linp := [0, 0, 250, 0, 253, 0, 0, 0, 64, 250, 0, 0, 250] @ rest, last_number_len := 1\<rparr>"
  let ?s2 = "s\<lparr>linp := [0, 253, 0, 0, 0, 64, 250, 0, 0, 250] @ rest, last_number_len := 1\<rparr>"
  let ?s3 = "s\<lparr>linp := [0, 0, 250] @ rest, last_number_len := 1\<rparr>"
  have width: "lit_load_in_number s = Inr (4, ?s1)"
    using lit_load_out_number [of s 4 "[0, 0, 250, 0, 253, 0, 0, 0, 64, 250, 0, 0, 250] @ rest"] assms(1)
    by (simp add: out)
  have value1: "lit_load_in_expr ntab ?s1 = Inr (0, ?s2)"
    using lit_load_out_expr [OF out(2), of ntab ?\<rho> ?s1 "[0, 253, 0, 0, 0, 64, 250, 0, 0, 250] @ rest"]
    by (simp add: valof_simps max_expression_depth_def)
  have count: "lit_load_in_expr ntab ?s2 = Inr (0x40000000, ?s3)"
    using lit_load_out_expr [OF out(3), of ntab ?\<rho> ?s2 "[0, 0, 250] @ rest"]
    by (simp add: valof_simps max_expression_depth_def)
  have sz: "lit_load_in_expr ntab ?s3 = Inr (0, s\<lparr>linp := rest, last_number_len := 1\<rparr>)"
    using lit_load_out_expr [OF out(2), of ntab ?\<rho> ?s3 rest]
    by (simp add: valof_simps max_expression_depth_def)
  have len: "length (concat (replicate 0x40000000 (data_unit 4 0))) = 0x100000000"
    by (simp add: length_concat sum_list_replicate data_unit_def)
  show ?thesis
    using assms(2) width value1 count sz len
    by (simp add: load_data_def rbind_def store_def word_sless_alt)
qed

theorem load_data_overflow_witness:
  "load_data [] 0 (sample_loader [4, 0, 0, 250, 0, 253, 0, 0, 0, 64, 250, 0, 0, 250] 0) = Inl Trap"
  by (rule load_data_overflow [where rest = "[]"]) (simp_all add: sample_loader_def)

text \<open>
  A segment name read over a longer one keeps its tail: after \<open>text\<close>, the name \<open>bss\<close>
  reads \<open>bsst\<close>, because \<open>lit_load_segname\<close> is not terminated.
\<close>

lemma load_segname_stale:
  "(case load_segment_switch (sample_loader [4, 116, 101, 120, 116, 0] 0) of
      Inr (_, s) \<Rightarrow>
        (case load_segment_switch (s\<lparr>linp := [3, 98, 115, 115, 0]\<rparr>) of
           Inr (_, t) \<Rightarrow> take 5 (segname t) = [98, 115, 115, 116, 0]
         | Inl _ \<Rightarrow> False)
    | Inl _ \<Rightarrow> False)"
  by code_simp

end
