(* ===== verification/Names.thy ===== *)
theory Names
  imports ExprValue
begin

text \<open>
  Names and the tables they are kept in (\<open>shared/misc.h\<close>, the second half of \<open>shared/misc.c\<close>):
  growing vectors, the hash table, allocation, assignment of values and alignments, the lists of
  needs, and the trace specifications.
\<close>

section \<open>Vectors\<close>

text \<open>\<open>VECTOR_FULL\<close> and the new capacity of \<open>VECTOR_GROW\<close>.\<close>

definition vector_full :: "nat \<Rightarrow> nat \<Rightarrow> bool" where
  "vector_full minsize count \<longleftrightarrow>
     count = 0 \<or> count = minsize \<or> count AND (count - 1) = 0"

definition vector_grow :: "nat \<Rightarrow> nat \<Rightarrow> nat" where
  "vector_grow minsize count = (if count < minsize then minsize else count * 2)"

text \<open>The capacity of a vector that got its elements one by one.\<close>

fun vector_capacity :: "nat \<Rightarrow> nat \<Rightarrow> nat" where
  "vector_capacity minsize 0 = 0"
| "vector_capacity minsize (Suc count) =
     (if vector_full minsize count then vector_grow minsize count else vector_capacity minsize count)"

section \<open>Names\<close>

text \<open>
  \<open>struct name\<close>, as a table indexed by the identity of the name; the fields expressions need
  (value, alignment, globality) are those of \<open>est\<close>.  \<open>special\<close> is the kind of an
  identifier the linker defines, 0 for all others.
\<close>

record names = est +
  next_name :: nat
  name_ident :: "nat \<Rightarrow> byte list"
  name_idx :: "nat \<Rightarrow> long"
  name_needs :: "nat \<Rightarrow> nat list"
  name_defined :: "nat \<Rightarrow> bool"
  name_fragment :: "nat \<Rightarrow> bool"
  name_common :: "nat \<Rightarrow> bool"
  name_wanted :: "nat \<Rightarrow> bool"
  name_special :: "nat \<Rightarrow> nat"
  name_loadtime :: "nat \<Rightarrow> bool"

abbreviation (input) NAME_SPECIAL_START :: nat where "NAME_SPECIAL_START \<equiv> 1"
abbreviation (input) NAME_SPECIAL_SIZE :: nat where "NAME_SPECIAL_SIZE \<equiv> 2"
abbreviation (input) NAME_SPECIAL_BLOCKSIZE :: nat where "NAME_SPECIAL_BLOCKSIZE \<equiv> 3"

text \<open>The characters of an identifier, as the bytes they are stored in.\<close>

definition bytes_of :: "string \<Rightarrow> byte list" where
  "bytes_of = map of_char"

definition ends_with :: "byte list \<Rightarrow> byte list \<Rightarrow> bool" where
  "ends_with idn suf = (length suf \<le> length idn \<and> drop (length idn - length suf) idn = suf)"

text \<open>
  The comparison reads \<open>id[len - n]\<close> up to the end of the string \<open>id\<close>; every caller passes an
  identifier that ends there.  For a shorter one it reads before the string, which is taken
  not to match.
\<close>

definition special_kind :: "byte list \<Rightarrow> nat" where
  "special_kind idn =
     (if ends_with idn (bytes_of ''@@start'') then NAME_SPECIAL_START
      else if ends_with idn (bytes_of ''@@size'') then NAME_SPECIAL_SIZE
      else if ends_with idn (bytes_of ''@@blocksize'') then NAME_SPECIAL_BLOCKSIZE
      else 0)"

text \<open>\<open>name_alloc\<close>; the bit-field \<open>loadtime\<close> is not initialised by the source.\<close>

definition name_alloc :: "byte list \<Rightarrow> ('x names_scheme, nat) step" where
  "name_alloc idn s =
     (let n = next_name s in
      Inr (n, s\<lparr>next_name := Suc n, name_ident := (name_ident s)(n := idn),
                name_val := (name_val s)(n := None), name_needs := (name_needs s)(n := []),
                name_special := (name_special s)(n := special_kind idn),
                name_align := (name_align s)(n := 1), name_idx := (name_idx s)(n := -1),
                name_defined := (name_defined s)(n := False), name_global := (name_global s)(n := False),
                name_fragment := (name_fragment s)(n := False), name_common := (name_common s)(n := False),
                name_wanted := (name_wanted s)(n := False)\<rparr>))"

section \<open>Hash tables\<close>

text \<open>A column of the table: empty, a single name, or a sublevel.\<close>

datatype column = Empty | Single nat | Sublevel "nat list"

record table =
  ncolumns :: nat
  columns :: "nat \<Rightarrow> column"
  nonames :: "nat list"

definition table_init :: "nat \<Rightarrow> table" where
  "table_init n = \<lparr>ncolumns = n, columns = (\<lambda>_. Empty), nonames = []\<rparr>"

text \<open>
  The hash is computed from the end of the key.  The unrolled loop is entered in the middle, at
  the case for \<open>keylen % 16\<close>, and then goes on in rounds of 16.  \<open>char\<close> is signed on the hosts
  the tools run on.
\<close>

fun hash_rounds :: "byte list \<Rightarrow> long \<Rightarrow> long" where
  "hash_rounds [] acc = acc"
| "hash_rounds (b # bs) acc =
     hash_rounds (drop 15 bs) (acc + sum_list (map scast (take 16 (b # bs))))"

definition hash_key :: "byte list \<Rightarrow> long" where
  "hash_key key =
     (let r = rev key; entry = length key mod 16
      in hash_rounds (drop entry r) (sum_list (map scast (take entry r))))"

text \<open>The characters of a C string, up to its terminator.\<close>

definition c_string :: "byte list \<Rightarrow> byte list" where
  "c_string bs = takeWhile (\<lambda>b. b \<noteq> 0) bs"

definition strlen :: "byte list \<Rightarrow> nat" where
  "strlen idn = length (takeWhile (\<lambda>b. b \<noteq> 0) idn)"

definition key_matches :: "byte list \<Rightarrow> byte list \<Rightarrow> bool" where
  "key_matches key idn \<longleftrightarrow> take (length key) idn = key \<and> strlen idn = length key"

text \<open>The names of a column in the order they are compared.\<close>

fun column_names :: "column \<Rightarrow> nat list" where
  "column_names Empty = []"
| "column_names (Single n) = [n]"
| "column_names (Sublevel ns) = ns"

fun column_add :: "nat \<Rightarrow> column \<Rightarrow> column" where
  "column_add n Empty = Single n"
| "column_add n (Single m) = Sublevel [m, n]"
| "column_add n (Sublevel ns) = Sublevel (ns @ [n])"

definition table_add_noname :: "table \<Rightarrow> ('x names_scheme, nat \<times> table) step" where
  "table_add_noname t =
     rbind (name_alloc []) (\<lambda>n. rret (n, t\<lparr>nonames := nonames t @ [n]\<rparr>))"

text \<open>
  \<open>table_lookup\<close>.  \<open>sum % ncolumns\<close> takes the sign of the sum: a negative column is read outside
  the table.
\<close>

definition table_lookup :: "table \<Rightarrow> byte list \<Rightarrow> ('x names_scheme, nat \<times> table) step" where
  "table_lookup t key =
     (if key = [] then table_add_noname t
      else let col = sint (hash_key key) smod int (ncolumns t) in
        if ncolumns t = 0 \<or> col < 0 then rstop Trap
        else let c = columns t (nat col) in
          rbind (rget (\<lambda>s. find (\<lambda>n. key_matches key (name_ident s n)) (column_names c))) (\<lambda>found.
            case found of
              Some n \<Rightarrow> rret (n, t)
            | None \<Rightarrow> rbind (name_alloc key) (\<lambda>n.
                rret (n, t\<lparr>columns := (columns t)(nat col := column_add n c)\<rparr>))))"

text \<open>
  The order in which \<open>table_walk\<close> visits names: the nameless ones from the last to the first, then
  the columns from the last to the first.  \<open>fcn\<close> returns \<open>None\<close> for \<open>NULL\<close>.
\<close>

definition table_order :: "table \<Rightarrow> nat list" where
  "table_order t = rev (nonames t) @ concat (map (\<lambda>c. column_names (columns t c)) (rev [0..<ncolumns t]))"

fun walk_names :: "(nat \<Rightarrow> ('s, 'r option) step) \<Rightarrow> nat list \<Rightarrow> ('s, 'r option) step" where
  "walk_names fcn [] = rret None"
| "walk_names fcn (n # ns) =
     rbind (fcn n) (\<lambda>r. case r of Some x \<Rightarrow> rret (Some x) | None \<Rightarrow> walk_names fcn ns)"

definition table_walk :: "table \<Rightarrow> (nat \<Rightarrow> ('s, 'r option) step) \<Rightarrow> ('s, 'r option) step" where
  "table_walk t fcn = walk_names fcn (table_order t)"

section \<open>Values and alignments\<close>

text \<open>
  \<open>expr_name_mentioned\<close>: looks through the values of names, but not into elements.  A cycle of
  names recurses for ever: \<open>Trap\<close> at the end of the fuel.
\<close>

fun expr_name_mentioned :: "nat \<Rightarrow> 'x est_scheme \<Rightarrow> expr \<Rightarrow> nat \<Rightarrow> bool outcome" where
  "expr_name_mentioned 0 s e np = Inl Trap"
| "expr_name_mentioned (Suc fuel) s e np =
     (case e of
        Unop t r \<Rightarrow> expr_name_mentioned fuel s r np
      | Binop t l r \<Rightarrow>
          obind (expr_name_mentioned fuel s r np) (\<lambda>b.
            if b then Inr True else expr_name_mentioned fuel s l np)
      | Name n \<Rightarrow>
          if n = np then Inr True
          else (case name_val s n of
                  Some v \<Rightarrow> expr_name_mentioned fuel s v np
                | None \<Rightarrow> Inr False)
      | _ \<Rightarrow> Inr False)"

definition set_value :: "nat \<Rightarrow> expr \<Rightarrow> ('x est_scheme, unit) step" where
  "set_value np e = rmodify (\<lambda>s. s\<lparr>name_val := (name_val s)(np := Some e)\<rparr>)"

text \<open>
  \<open>name_assign_value\<close>.  The old value is freed first but left in place; it is looked through when the new
  value mentions the name, which ends the search anyway.
\<close>

definition name_assign_value :: "nat \<Rightarrow> nat \<Rightarrow> expr \<Rightarrow> ('x est_scheme, unit) step" where
  "name_assign_value fuel np e =
     rbind (\<lambda>s. obind (expr_name_mentioned fuel s e np) (\<lambda>b. Inr (b, s))) (\<lambda>cycle.
       if cycle then rbind report_error (\<lambda>_. set_value np (Const 0))
       else rbind (rget (\<lambda>s. name_align s np)) (\<lambda>align.
         if 1 <s align
         then rbind (\<lambda>s. obind (expr_check_alignment fuel s e align) (\<lambda>off. Inr (off, s))) (\<lambda>off.
                if off \<noteq> 0 then rbind report_error (\<lambda>_. set_value np (Const 0))
                else set_value np e)
         else set_value np e))"

definition name_set_align :: "nat \<Rightarrow> nat \<Rightarrow> long \<Rightarrow> ('x est_scheme, unit) step" where
  "name_set_align fuel np align =
     rbind (rget (\<lambda>s. (name_align s np, name_val s np))) (\<lambda>(old, v).
       if align \<le>s old then rret ()
       else case v of
              None \<Rightarrow> rmodify (\<lambda>s. s\<lparr>name_align := (name_align s)(np := align)\<rparr>)
            | Some e \<Rightarrow>
                rbind (\<lambda>s. obind (expr_check_alignment fuel s e align) (\<lambda>off. Inr (off, s))) (\<lambda>off.
                  if off \<noteq> 0 then report_error
                  else rmodify (\<lambda>s. s\<lparr>name_align := (name_align s)(np := align)\<rparr>)))"

section \<open>Needs\<close>

definition add_need :: "nat \<Rightarrow> nat \<Rightarrow> ('x names_scheme, unit) step" where
  "add_need np need =
     rmodify (\<lambda>s. if np = need \<or> need \<in> set (name_needs s np) then s
                  else s\<lparr>name_needs := (name_needs s)(np := name_needs s np @ [need])\<rparr>)"

text \<open>\<open>record_needs\<close>, with \<open>record_needs_name\<close> as an argument.  An \<open>ELSUM\<close> is a leaf.\<close>

fun record_needs :: "nat \<Rightarrow> expr \<Rightarrow> ('x names_scheme, unit) step" where
  "record_needs np (Name n) =
     rbind (rget (\<lambda>s. name_global s n)) (\<lambda>g. if g then add_need np n else rstop Abort)"
| "record_needs np (Unop t r) = record_needs np r"
| "record_needs np (Binop t l r) = rbind (record_needs np r) (\<lambda>_. record_needs np l)"
| "record_needs np _ = rret ()"

section \<open>Trace specifications\<close>

text \<open>
  \<open>parse_trace_spec\<close>: the key up to the next \<open>+\<close> or \<open>-\<close>, then all entries of the table it is a prefix of.  The
  mask changes even if a later key is not found; the result is the mask and success.
\<close>

definition trace_apply :: "bool \<Rightarrow> string \<Rightarrow> (string \<times> long) list \<Rightarrow> long \<Rightarrow> long" where
  "trace_apply negative key tab bits =
     fold (\<lambda>(idn, m) acc. if take (length key) idn = key
             then if negative then acc AND NOT m else acc OR m else acc) tab bits"

definition trace_found :: "string \<Rightarrow> (string \<times> long) list \<Rightarrow> bool" where
  "trace_found key tab \<longleftrightarrow> (\<exists>e\<in>set tab. take (length key) (fst e) = key)"

definition key_char :: "char \<Rightarrow> bool" where
  "key_char c \<longleftrightarrow> c \<noteq> CHR ''+'' \<and> c \<noteq> CHR ''-''"

lemma dropWhile_less: "dropWhile P xs = c # ys \<Longrightarrow> length ys < length xs"
  using length_dropWhile_le [of P xs] by simp

function parse_trace_keys :: "bool \<Rightarrow> string \<Rightarrow> (string \<times> long) list \<Rightarrow> long \<Rightarrow> long \<times> bool" where
  "parse_trace_keys negative p tab bits =
     (let key = takeWhile key_char p; rest = dropWhile key_char p in
      if \<not> trace_found key tab then (bits, False)
      else let bits' = trace_apply negative key tab bits in
           case rest of
             [] \<Rightarrow> (bits', True)
           | c # p' \<Rightarrow> parse_trace_keys (c = CHR ''-'') p' tab bits')"
  by pat_completeness auto
termination
  by (relation "measure (\<lambda>(_, p, _, _). length p)")
    (auto dest: dropWhile_less [OF sym])

definition parse_trace_spec :: "string \<Rightarrow> (string \<times> long) list \<Rightarrow> long \<Rightarrow> long \<times> bool" where
  "parse_trace_spec spec tab bits = parse_trace_keys False spec tab bits"

section \<open>Vectors\<close>

lemma power_and_pred: "(2::nat) ^ j AND (2 ^ j - 1) = 0"
proof -
  have "(2::nat) ^ j AND mask j = take_bit j (2 ^ j)" by (simp only: take_bit_eq_mask)
  then show ?thesis by (simp add: mask_eq_exp_minus_1)
qed

lemma vector_capacity_power:
  assumes "minsize = 2 ^ k"
  shows "0 < count \<Longrightarrow> (\<exists>j. vector_capacity minsize count = 2 ^ j) \<and> count \<le> vector_capacity minsize count"
proof (induction count)
  case (Suc count)
  show ?case
  proof (cases "count = 0")
    case True
    then show ?thesis using assms by (auto simp: vector_full_def vector_grow_def Suc_le_eq)
  next
    case False
    then obtain j where cap: "vector_capacity minsize count = 2 ^ j" "count \<le> 2 ^ j"
      using Suc.IH by auto
    show ?thesis
    proof (cases "vector_full minsize count")
      case True
      show ?thesis
      proof (cases "count < minsize")
        case True
        then show ?thesis using \<open>vector_full minsize count\<close> assms by (auto simp: vector_grow_def)
      next
        case ge: False
        with True False consider "count = minsize" | "count AND (count - 1) = 0"
          by (auto simp: vector_full_def)
        then obtain i where "count = 2 ^ i"
          using assms False and_pred_power [of count] by cases auto
        then have "vector_grow minsize count = 2 ^ Suc i"
          using ge by (simp add: vector_grow_def)
        with True \<open>count = 2 ^ i\<close> show ?thesis by (auto simp: Suc_le_eq intro: exI [of _ "Suc i"])
      qed
    next
      case nf: False
      then have "count \<noteq> 2 ^ j" using power_and_pred [of j] by (auto simp: vector_full_def)
      with cap nf show ?thesis by auto
    qed
  qed
qed simp

section \<open>The hash\<close>

lemma sum_list_rev_scast: "sum_list (map scast (rev key)) = (sum_list (map scast key) :: long)"
  by (simp add: rev_map [symmetric] sum_list_rev)

lemma hash_rounds_sum:
  "hash_rounds bs acc = acc + sum_list (map scast bs)"
proof (induction bs acc rule: hash_rounds.induct)
  case (2 b bs acc)
  have "take 16 (b # bs) @ drop 15 bs = b # bs"
    using append_take_drop_id [of 16 "b # bs"] by simp
  then have "sum_list (map scast (take 16 (b # bs))) + sum_list (map scast (drop 15 bs)) =
      (sum_list (map scast (b # bs)) :: long)"
    by (metis map_append sum_list_append)
  with 2 show ?case by (simp add: add.assoc)
qed simp

lemma hash_key_sum: "hash_key key = sum_list (map scast key)"
proof -
  let ?r = "rev key" and ?k = "length key mod 16"
  have "sum_list (map scast (take ?k ?r)) + sum_list (map scast (drop ?k ?r)) =
      (sum_list (map scast ?r) :: long)"
    by (metis append_take_drop_id map_append sum_list_append)
  then show ?thesis by (simp add: hash_key_def hash_rounds_sum sum_list_rev_scast Let_def)
qed

section \<open>Tables as maps\<close>

definition key_ok :: "byte list \<Rightarrow> bool" where
  "key_ok key \<longleftrightarrow> key \<noteq> [] \<and> 0 \<notin> set key"

definition column_of :: "table \<Rightarrow> byte list \<Rightarrow> int" where
  "column_of t key = sint (hash_key key) smod int (ncolumns t)"

definition table_names :: "table \<Rightarrow> nat set" where
  "table_names t = (\<Union>c<ncolumns t. set (column_names (columns t c)))"

text \<open>
  A table in use: every name sits in the column of its identifier, identifiers are C strings and
  pairwise different.
\<close>

definition table_ok :: "table \<Rightarrow> 'x names_scheme \<Rightarrow> bool" where
  "table_ok t s \<longleftrightarrow>
     0 < ncolumns t \<and>
     (\<forall>c<ncolumns t. \<forall>n\<in>set (column_names (columns t c)).
        n < next_name s \<and> key_ok (name_ident s n) \<and> column_of t (name_ident s n) = int c) \<and>
     (\<forall>m\<in>table_names t. \<forall>n\<in>table_names t. name_ident s m = name_ident s n \<longrightarrow> m = n)"

lemma strlen_key_ok: "key_ok key \<Longrightarrow> strlen key = length key"
  unfolding key_ok_def strlen_def by (subst takeWhile_eq_all_conv [THEN iffD2]) auto

lemma key_matches_iff: "key_ok key \<Longrightarrow> key_ok idn \<Longrightarrow> key_matches key idn \<longleftrightarrow> key = idn"
  by (auto simp: key_matches_def strlen_key_ok)

lemma column_names_add: "set (column_names (column_add n c)) = insert n (set (column_names c))"
  by (cases c) auto

lemma smod_less: "0 < b \<Longrightarrow> a smod b < b" for a b :: int
  using pos_mod_bound [of b "\<bar>a\<bar>"] by (cases "a < 0") (auto simp: smod_int_alt_def sgn_if
      intro: le_less_trans [of _ 0])

lemma column_less: "0 < ncolumns t \<Longrightarrow> 0 \<le> column_of t key \<Longrightarrow> nat (column_of t key) < ncolumns t"
  using smod_less [of "int (ncolumns t)" "sint (hash_key key)"] by (simp add: column_of_def nat_less_iff)

lemma name_alloc_Inr:
  "name_alloc idn s = Inr (n, s') \<Longrightarrow>
     n = next_name s \<and> next_name s' = Suc n \<and> name_ident s' = (name_ident s)(n := idn)"
  by (auto simp: name_alloc_def Let_def)

text \<open>Looking up a key finds its name, or adds a new one.\<close>

lemma table_lookup_Inr:
  assumes ok: "table_ok t s" and key: "key_ok key" and run: "table_lookup t key s = Inr ((n, t'), s')"
  shows "(n \<in> table_names t \<and> name_ident s n = key \<and> t' = t \<and> s' = s) \<or>
    (key \<notin> name_ident s ` table_names t \<and> n = next_name s \<and> name_alloc key s = Inr (n, s') \<and>
     0 \<le> column_of t key \<and>
     t' = t\<lparr>columns := (columns t)(nat (column_of t key) := column_add n (columns t (nat (column_of t key))))\<rparr>)"
proof -
  let ?c = "nat (column_of t key)"
  let ?find = "find (\<lambda>n. key_matches key (name_ident s n)) (column_names (columns t ?c))"
  from key run have nonneg: "0 \<le> column_of t key" and pos: "0 < ncolumns t"
    by (auto simp: table_lookup_def key_ok_def column_of_def rstop_def Let_def not_less split: if_splits)
  have c: "?c < ncolumns t" by (rule column_less [OF pos nonneg])
  have matches: "key_matches key (name_ident s m) \<longleftrightarrow> name_ident s m = key"
    if "m \<in> set (column_names (columns t ?c))" for m
    using ok that c key_matches_iff [OF key] by (auto simp: table_ok_def)
  have run': "(case ?find of
      Some n \<Rightarrow> rret (n, t)
    | None \<Rightarrow> rbind (name_alloc key) (\<lambda>n.
        rret (n, t\<lparr>columns := (columns t)(?c := column_add n (columns t ?c))\<rparr>))) s = Inr ((n, t'), s')"
    using run key nonneg pos unfolding column_of_def
    by (simp add: table_lookup_def key_ok_def Let_def rbind_def [of "rget _"] rget_def)
  show ?thesis
  proof (cases ?find)
    case (Some m)
    then have "m \<in> set (column_names (columns t ?c))" "key_matches key (name_ident s m)"
      by (auto simp: find_Some_iff)
    then have "m \<in> table_names t" "name_ident s m = key"
      using c matches by (auto simp: table_names_def)
    with run' Some show ?thesis by (simp add: rret_def)
  next
    case None
    have "key \<notin> name_ident s ` table_names t"
    proof
      assume "key \<in> name_ident s ` table_names t"
      then obtain m d where m: "name_ident s m = key" "d < ncolumns t" "m \<in> set (column_names (columns t d))"
        by (auto simp: table_names_def)
      then have "d = ?c" using ok by (auto simp: table_ok_def)
      with None m matches show False by (auto simp: find_None_iff)
    qed
    with run' None nonneg show ?thesis
      by (auto simp: rret_def rbind_Inr name_alloc_def Let_def)
  qed
qed

lemma table_names_update:
  "c < ncolumns t \<Longrightarrow>
     table_names (t\<lparr>columns := (columns t)(c := column_add n (columns t c))\<rparr>) = insert n (table_names t)"
  by (auto simp: table_names_def column_names_add split: if_splits)

lemma table_lookup_ok:
  assumes ok: "table_ok t s" and key: "key_ok key" and run: "table_lookup t key s = Inr ((n, t'), s')"
  shows "table_ok t' s' \<and> table_names t' = insert n (table_names t) \<and> name_ident s' n = key \<and>
    (\<forall>m\<in>table_names t. name_ident s' m = name_ident s m) \<and>
    (if key \<in> name_ident s ` table_names t then t' = t \<and> s' = s else n \<notin> table_names t)"
  using table_lookup_Inr [OF assms]
proof
  assume "n \<in> table_names t \<and> name_ident s n = key \<and> t' = t \<and> s' = s"
  then show ?thesis using ok by auto
next
  let ?c = "nat (column_of t key)"
  assume new: "key \<notin> name_ident s ` table_names t \<and> n = next_name s \<and> name_alloc key s = Inr (n, s') \<and>
     0 \<le> column_of t key \<and> t' = t\<lparr>columns := (columns t)(?c := column_add n (columns t ?c))\<rparr>"
  then have c: "?c < ncolumns t" using column_less ok by (auto simp: table_ok_def)
  from new have s': "n = next_name s" "next_name s' = Suc n" "name_ident s' = (name_ident s)(n := key)"
    using name_alloc_Inr by auto
  have old: "m < n \<and> key_ok (name_ident s m)" if "m \<in> table_names t" for m
    using ok that s'(1) by (auto simp: table_ok_def table_names_def)
  then have fresh: "n \<notin> table_names t" by auto
  have names: "table_names t' = insert n (table_names t)"
    using new table_names_update [OF c] by simp
  have col: "column_of t' = column_of t"
    using new by (simp add: column_of_def fun_eq_iff)
  have "table_ok t' s'"
    unfolding table_ok_def names
  proof (intro conjI allI impI ballI)
    show "0 < ncolumns t'" using new ok by (simp add: table_ok_def)
  next
    fix d m
    assume d: "d < ncolumns t'" and m: "m \<in> set (column_names (columns t' d))"
    then have "m = n \<and> d = ?c \<or> m \<in> set (column_names (columns t d)) \<and> m \<noteq> n"
      using new fresh by (auto simp: column_names_add table_names_def split: if_splits)
    then show "m < next_name s'" "key_ok (name_ident s' m)" "column_of t' (name_ident s' m) = int d"
      using ok d new key s' col by (auto simp: table_ok_def less_SucI)
  next
    fix l m
    assume "l \<in> insert n (table_names t)" "m \<in> insert n (table_names t)" "name_ident s' l = name_ident s' m"
    then show "l = m"
      using ok new s' fresh by (auto simp: table_ok_def split: if_splits)
  qed
  with names new fresh s' show ?thesis by auto
qed

lemma table_init_ok: "0 < n \<Longrightarrow> table_ok (table_init n) s \<and> table_names (table_init n) = {}"
  by (simp add: table_ok_def table_init_def table_names_def)

section \<open>Clients of a name table\<close>

text \<open>
  What the programs rely on: a name is identified by its key, whatever was looked up between.
\<close>

locale name_store =
  fixes ok :: "'t \<Rightarrow> 's \<Rightarrow> bool"
    and names_in :: "'t \<Rightarrow> nat set"
    and idn :: "'s \<Rightarrow> nat \<Rightarrow> byte list"
    and lookup :: "'t \<Rightarrow> byte list \<Rightarrow> ('s, nat \<times> 't) step"
  assumes unique: "ok t s \<Longrightarrow> m \<in> names_in t \<Longrightarrow> n \<in> names_in t \<Longrightarrow> idn s m = idn s n \<Longrightarrow> m = n"
    and lookup_ok: "ok t s \<Longrightarrow> key_ok key \<Longrightarrow> lookup t key s = Inr ((n, t'), s') \<Longrightarrow>
      ok t' s' \<and> names_in t' = insert n (names_in t) \<and> idn s' n = key \<and>
      (\<forall>m\<in>names_in t. idn s' m = idn s m)"
begin

text \<open>Looking up a list of keys one after the other, as the reader of a nametable does.\<close>

fun lookup_all :: "'t \<Rightarrow> byte list list \<Rightarrow> ('s, nat list \<times> 't) step" where
  "lookup_all t [] = rret ([], t)"
| "lookup_all t (k # ks) =
     rbind (lookup t k) (\<lambda>(n, t'). rbind (lookup_all t' ks) (\<lambda>(ns, t''). rret (n # ns, t'')))"

lemma lookup_all_ok:
  "ok t s \<Longrightarrow> \<forall>k\<in>set ks. key_ok k \<Longrightarrow> lookup_all t ks s = Inr ((ns, t'), s') \<Longrightarrow>
     ok t' s' \<and> names_in t' = names_in t \<union> set ns \<and> map (idn s') ns = ks \<and>
     (\<forall>m\<in>names_in t. idn s' m = idn s m)"
proof (induction ks arbitrary: t s ns)
  case (Cons k ks)
  then obtain n t1 s1 ns' where n: "lookup t k s = Inr ((n, t1), s1)"
    and ns: "lookup_all t1 ks s1 = Inr ((ns', t'), s')" and "ns = n # ns'"
    by (auto simp: outcome_iff)
  from lookup_ok [OF Cons.prems(1) _ n] Cons.prems(2)
  have "ok t1 s1" "names_in t1 = insert n (names_in t)" "idn s1 n = k" "\<forall>m\<in>names_in t. idn s1 m = idn s m"
    by simp_all
  with Cons.IH [OF this(1) _ ns] Cons.prems(2) \<open>ns = n # ns'\<close> show ?case by auto
qed (auto simp: outcome_iff)

lemma lookup_identifies:
  assumes "ok t s" "\<forall>k\<in>set ks. key_ok k" "lookup_all t ks s = Inr ((ns, t'), s')"
    "i < length ks" "j < length ks"
  shows "ns ! i = ns ! j \<longleftrightarrow> ks ! i = ks ! j"
proof -
  note r = lookup_all_ok [OF assms(1-3)]
  then have len: "length ns = length ks" by (metis length_map)
  have key: "idn s' (ns ! i) = ks ! i" "idn s' (ns ! j) = ks ! j"
    using r assms(4,5) len by (metis nth_map)+
  have "ns ! i \<in> names_in t'" "ns ! j \<in> names_in t'"
    using r assms(4,5) len by auto
  with unique [of t' s'] r key show ?thesis by metis
qed

end

interpretation tab: name_store table_ok table_names name_ident table_lookup
proof
  fix t :: table and s :: "'x names_scheme" and m n
  assume "table_ok t s" "m \<in> table_names t" "n \<in> table_names t" "name_ident s m = name_ident s n"
  then show "m = n" by (auto simp: table_ok_def)
next
  fix t t' :: table and s s' :: "'x names_scheme" and key n
  assume "table_ok t s" "key_ok key" "table_lookup t key s = Inr ((n, t'), s')"
  from table_lookup_ok [OF this]
  show "table_ok t' s' \<and> table_names t' = insert n (table_names t) \<and> name_ident s' n = key \<and>
      (\<forall>m\<in>table_names t. name_ident s' m = name_ident s m)"
    by simp
qed

section \<open>Cycles\<close>

text \<open>The names an expression mentions outside of element sums, and the names a name's value mentions.\<close>

fun names_of :: "expr \<Rightarrow> nat set" where
  "names_of (Name n) = {n}"
| "names_of (Unop t r) = names_of r"
| "names_of (Binop t l r) = names_of l \<union> names_of r"
| "names_of _ = {}"

definition refers :: "'x est_scheme \<Rightarrow> (nat \<times> nat) set" where
  "refers s = {(m, n). \<exists>v. name_val s m = Some v \<and> n \<in> names_of v}"

lemma mentioned_reach:
  "expr_name_mentioned fuel s e np = Inr b \<Longrightarrow> b \<longleftrightarrow> (\<exists>n\<in>names_of e. (n, np) \<in> (refers s)\<^sup>*)"
proof (induction fuel arbitrary: e b)
  case (Suc fuel)
  show ?case
  proof (cases e)
    case (Name n)
    show ?thesis
    proof (cases "n = np")
      case False
      have step: "(n, np) \<in> (refers s)\<^sup>* \<longleftrightarrow> (\<exists>v m. name_val s n = Some v \<and> m \<in> names_of v \<and> (m, np) \<in> (refers s)\<^sup>*)"
      proof -
        have "(n, np) \<in> (refers s)\<^sup>* \<longleftrightarrow> (\<exists>m. (n, m) \<in> refers s \<and> (m, np) \<in> (refers s)\<^sup>*)"
          using False by (meson converse_rtranclE converse_rtrancl_into_rtrancl)
        then show ?thesis by (auto simp: refers_def)
      qed
      with Suc Name False show ?thesis by (auto split: option.splits)
    qed (use Suc Name in auto)
  next
    case (Binop t l r)
    with Suc.prems Suc.IH show ?thesis
      by (auto simp: obind_Inr_iff split: if_splits)
  qed (use Suc in auto)
qed simp

text \<open>The search ends when the values of names make no cycle yet.\<close>

lemma mentioned_more_fuel:
  "expr_name_mentioned fuel s e np = Inr b \<Longrightarrow> expr_name_mentioned (fuel + k) s e np = Inr b"
proof (induction fuel arbitrary: e b)
  case (Suc fuel)
  show ?case
  proof (cases e)
    case (Binop t l r)
    with Suc.prems obtain c where c: "expr_name_mentioned fuel s r np = Inr c"
      and rest: "(if c then Inr True else expr_name_mentioned fuel s l np) = Inr b"
      by (auto simp: obind_Inr_iff)
    with Suc.IH [OF c] Suc.IH [of l b] Binop show ?thesis by (auto split: if_splits)
  next
    case (Name n)
    with Suc.prems Suc.IH show ?thesis by (cases "name_val s n") auto
  qed (use Suc.prems Suc.IH in auto)
qed simp

lemma mentioned_total_expr:
  assumes "\<And>n. n \<in> names_of e \<Longrightarrow> \<exists>fuel b. expr_name_mentioned fuel s (Name n) np = Inr b"
  shows "\<exists>fuel b. expr_name_mentioned fuel s e np = Inr b"
  using assms
proof (induction e)
  case (Unop t r)
  then obtain fuel b where "expr_name_mentioned fuel s r np = Inr b" by auto
  then show ?case by (intro exI [of _ "Suc fuel"]) simp
next
  case (Binop t l r)
  then obtain f b g c where "expr_name_mentioned f s l np = Inr b" "expr_name_mentioned g s r np = Inr c"
    by auto
  then have "expr_name_mentioned (f + g) s l np = Inr b" "expr_name_mentioned (f + g) s r np = Inr c"
    using mentioned_more_fuel [of f s l np b g] mentioned_more_fuel [of g s r np c f]
    by (simp_all add: add.commute)
  then show ?case by (intro exI [of _ "Suc (f + g)"] exI [of _ "c \<or> b"]) simp
next
  case (Name n)
  then show ?case by simp
qed (auto intro!: exI [of _ "Suc 0"])

lemma mentioned_total:
  assumes "wf ((refers s)\<inverse>)"
  shows "\<exists>fuel b. expr_name_mentioned fuel s e np = Inr b"
proof -
  have "\<exists>fuel b. expr_name_mentioned fuel s (Name n) np = Inr b" for n
    using assms
  proof (induction n rule: wf_induct_rule)
    case (less n)
    show ?case
    proof (cases "n = np \<or> name_val s n = None")
      case True
      then show ?thesis by (intro exI [of _ "Suc 0"]) auto
    next
      case False
      then obtain v where v: "name_val s n = Some v" by auto
      then have "\<exists>fuel b. expr_name_mentioned fuel s (Name m) np = Inr b" if "m \<in> names_of v" for m
        using less that by (auto simp: refers_def)
      then obtain fuel b where "expr_name_mentioned fuel s v np = Inr b"
        using mentioned_total_expr by blast
      with v False show ?thesis by (intro exI [of _ "Suc fuel"]) auto
    qed
  qed
  then show ?thesis using mentioned_total_expr by blast
qed

lemma refers_set_value:
  "refers (s\<lparr>name_val := (name_val s)(np := Some e)\<rparr>) =
     {(m, n). (m, n) \<in> refers s \<and> m \<noteq> np} \<union> {np} \<times> names_of e"
  by (auto simp: refers_def split: if_splits)

lemma acyclic_set_value:
  assumes "acyclic (refers s)" "\<forall>n\<in>names_of e. (n, np) \<notin> (refers s)\<^sup>*"
  shows "acyclic (refers (s\<lparr>name_val := (name_val s)(np := Some e)\<rparr>))"
proof -
  let ?r = "{(m, n). (m, n) \<in> refers s \<and> m \<noteq> np}"
  have sub: "?r \<subseteq> refers s" by auto
  have "acyclic ?r" by (rule acyclic_subset [OF assms(1) sub])
  moreover have "(n, np) \<notin> ?r\<^sup>*" if "n \<in> names_of e" for n
    using that assms(2) rtrancl_mono [OF sub] by blast
  moreover have "acyclic (?r \<union> {np} \<times> A)" if "acyclic ?r" "\<forall>n\<in>A. (n, np) \<notin> ?r\<^sup>*" for A
  proof (rule acyclicI, rule allI, rule notI)
    fix x
    assume cyc: "(x, x) \<in> (?r \<union> {np} \<times> A)\<^sup>+"
    have reach: "(y, np) \<in> ?r\<^sup>*" if "(y, z) \<in> (?r \<union> {np} \<times> A)\<^sup>*" "(z, np) \<in> ?r\<^sup>*" for y z
      using that by (induction rule: converse_rtrancl_induct) (auto intro: converse_rtrancl_into_rtrancl)
    have split: "(y, z) \<in> ?r\<^sup>+ \<or> (\<exists>n\<in>A. (y, np) \<in> (?r \<union> {np} \<times> A)\<^sup>* \<and> (n, z) \<in> (?r \<union> {np} \<times> A)\<^sup>*)"
      if "(y, z) \<in> (?r \<union> {np} \<times> A)\<^sup>+" for y z
      using that
    proof (induction rule: trancl_induct)
      case (base z)
      then show ?case by auto
    next
      case (step z w)
      then show ?case
        by (auto intro: trancl_into_trancl trancl_into_rtrancl rtrancl_into_rtrancl)
    qed
    from split [OF cyc] show False
    proof
      assume "(x, x) \<in> ?r\<^sup>+"
      with that(1) show False by (auto simp: acyclic_def)
    next
      assume "\<exists>n\<in>A. (x, np) \<in> (?r \<union> {np} \<times> A)\<^sup>* \<and> (n, x) \<in> (?r \<union> {np} \<times> A)\<^sup>*"
      then obtain n where "n \<in> A" "(n, np) \<in> (?r \<union> {np} \<times> A)\<^sup>*"
        by (meson rtrancl_trans)
      with reach [of n np] that(2) show False by blast
    qed
  qed
  ultimately show ?thesis unfolding refers_set_value by blast
qed


lemma check_more_fuel:
  "expr_check_alignment fuel s e align = Inr off \<Longrightarrow> expr_check_alignment (fuel + k) s e align = Inr off"
proof (induction fuel arbitrary: e off)
  case (Suc fuel)
  have nz: "align \<noteq> 0" using Suc.prems by auto
  show ?case
  proof (cases e)
    case (Name n)
    with Suc.prems Suc.IH nz show ?thesis by (cases "name_val s n") auto
  next
    case (Binop t l r)
    show ?thesis
    proof (cases "t = EXPR_PLUS \<or> t = EXPR_MINUS")
      case True
      with Suc.prems Binop nz obtain a b where "expr_check_alignment fuel s l align = Inr a"
        "expr_check_alignment fuel s r align = Inr b"
        by (auto simp: obind_Inr_iff)
      with Suc.IH [OF this(1)] Suc.IH [OF this(2)] Suc.prems Binop nz True show ?thesis by auto
    qed (use Suc.prems Binop nz in auto)
  qed (use Suc.prems nz in auto)
qed simp

lemma check_total_expr:
  assumes "align \<noteq> 0" "\<And>n. n \<in> names_of e \<Longrightarrow> \<exists>fuel off. expr_check_alignment fuel s (Name n) align = Inr off"
  shows "\<exists>fuel off. expr_check_alignment fuel s e align = Inr off"
  using assms(2)
proof (induction e)
  case (Binop t l r)
  then obtain f a g b where "expr_check_alignment f s l align = Inr a" "expr_check_alignment g s r align = Inr b"
    by auto
  then have lr: "expr_check_alignment (f + g) s l align = Inr a" "expr_check_alignment (f + g) s r align = Inr b"
    using check_more_fuel [of f s l align a g] check_more_fuel [of g s r align b f]
    by (simp_all add: add.commute)
  have "\<exists>off. expr_check_alignment (Suc (f + g)) s (Binop t l r) align = Inr off"
    using lr assms(1) by auto
  then show ?case by blast
next
  case (Name n)
  then show ?case by simp
qed (use assms(1) in \<open>auto intro!: exI [of _ "Suc 0"]\<close>)

lemma check_total:
  assumes "wf ((refers s)\<inverse>)" "align \<noteq> 0"
  shows "\<exists>fuel off. expr_check_alignment fuel s e align = Inr off"
proof -
  have "\<exists>fuel off. expr_check_alignment fuel s (Name n) align = Inr off" for n
    using assms(1)
  proof (induction n rule: wf_induct_rule)
    case (less n)
    show ?case
    proof (cases "name_val s n")
      case None
      with assms(2) show ?thesis by (intro exI [of _ "Suc 0"]) auto
    next
      case (Some v)
      then have "\<exists>fuel off. expr_check_alignment fuel s (Name m) align = Inr off" if "m \<in> names_of v" for m
        using less that by (auto simp: refers_def)
      then obtain fuel off where "expr_check_alignment fuel s v align = Inr off"
        using check_total_expr [OF assms(2)] by blast
      with Some assms(2) have "\<exists>off. expr_check_alignment (Suc fuel) s (Name n) align = Inr off" by auto
      then show ?thesis by blast
    qed
  qed
  then show ?thesis using check_total_expr [OF assms(2)] by blast
qed

lemma assign_total:
  assumes "wf ((refers s)\<inverse>)"
  shows "\<exists>fuel s'. name_assign_value fuel np e s = Inr ((), s')"
proof -
  obtain f b where f: "expr_name_mentioned f s e np = Inr b"
    using mentioned_total [OF assms] by blast
  show ?thesis
  proof (cases "1 <s name_align s np")
    case True
    then have "name_align s np \<noteq> 0" by (auto simp: word_sless_alt)
    then obtain g off where g: "expr_check_alignment g s e (name_align s np) = Inr off"
      using check_total [OF assms] by blast
    have "expr_name_mentioned (f + g) s e np = Inr b" "expr_check_alignment (f + g) s e (name_align s np) = Inr off"
      using mentioned_more_fuel [OF f, of g] check_more_fuel [OF g, of f] by (simp_all add: add.commute)
    with True have "\<exists>s'. name_assign_value (f + g) np e s = Inr ((), s')"
      by (simp add: name_assign_value_def rbind_def rget_def report_error_def set_value_def rmodify_def)
    then show ?thesis by blast
  next
    case False
    with f have "\<exists>s'. name_assign_value f np e s = Inr ((), s')"
      by (simp add: name_assign_value_def rbind_def rget_def report_error_def set_value_def rmodify_def)
    then show ?thesis by blast
  qed
qed

text \<open>What an assignment leaves: the value, or a diagnostic and the value 0.\<close>

lemma assign_state:
  assumes "name_assign_value fuel np e s = Inr (u, s')"
  shows "\<exists>b. expr_name_mentioned fuel s e np = Inr b \<and>
    (\<not> b \<and> s' = s\<lparr>name_val := (name_val s)(np := Some e)\<rparr> \<or>
     s' = s\<lparr>errors := Suc (errors s), name_val := (name_val s)(np := Some (Const 0))\<rparr>)"
proof -
  from assms obtain b where b: "expr_name_mentioned fuel s e np = Inr b"
    by (cases "expr_name_mentioned fuel s e np") (auto simp: name_assign_value_def rbind_def)
  show ?thesis
  proof (cases b)
    case True
    with assms b show ?thesis
      by (intro exI [of _ b])
        (simp add: name_assign_value_def rbind_def report_error_def set_value_def rmodify_def)
  next
    case False
    then have rest: "(if 1 <s name_align s np
        then rbind (\<lambda>s. obind (expr_check_alignment fuel s e (name_align s np)) (\<lambda>off. Inr (off, s))) (\<lambda>off.
               if off \<noteq> 0 then rbind report_error (\<lambda>_. set_value np (Const 0)) else set_value np e)
        else set_value np e) s = Inr (u, s')"
      using assms b by (simp add: name_assign_value_def rbind_def rget_def split: if_splits)
    show ?thesis
    proof (cases "1 <s name_align s np")
      case True
      with rest obtain off where "expr_check_alignment fuel s e (name_align s np) = Inr off"
        "(if off \<noteq> 0 then rbind report_error (\<lambda>_. set_value np (Const 0)) else set_value np e) s = Inr (u, s')"
        by (cases "expr_check_alignment fuel s e (name_align s np)") (auto simp: rbind_def)
      with b False show ?thesis
        by (auto simp: rbind_def report_error_def set_value_def rmodify_def split: if_splits)
    next
      case no_align: False
      with rest b False show ?thesis by (intro exI [of _ b]) (simp add: set_value_def rmodify_def)
    qed
  qed
qed

lemma refers_update: "refers (s\<lparr>errors := k, name_val := v\<rparr>) = refers (s\<lparr>name_val := v\<rparr>)"
  by (simp add: refers_def)

lemma assign_acyclic:
  assumes "acyclic (refers s)" "name_assign_value fuel np e s = Inr (u, s')"
  shows "acyclic (refers s')"
proof -
  from assign_state [OF assms(2)] obtain b where b: "expr_name_mentioned fuel s e np = Inr b"
    and s': "\<not> b \<and> s' = s\<lparr>name_val := (name_val s)(np := Some e)\<rparr> \<or>
      s' = s\<lparr>errors := Suc (errors s), name_val := (name_val s)(np := Some (Const 0))\<rparr>"
    by blast
  from s' show ?thesis
  proof
    assume "\<not> b \<and> s' = s\<lparr>name_val := (name_val s)(np := Some e)\<rparr>"
    with acyclic_set_value [OF assms(1), of e np] mentioned_reach [OF b] show ?thesis by auto
  next
    assume "s' = s\<lparr>errors := Suc (errors s), name_val := (name_val s)(np := Some (Const 0))\<rparr>"
    with acyclic_set_value [OF assms(1), of "Const 0" np] show ?thesis by (simp add: refers_update)
  qed
qed

section \<open>Lists of needs\<close>

definition needs_ok :: "'x names_scheme \<Rightarrow> bool" where
  "needs_ok s \<longleftrightarrow> (\<forall>n. distinct (name_needs s n) \<and> n \<notin> set (name_needs s n))"

lemma add_need_result:
  "add_need np need s = Inr (u, s') \<Longrightarrow> needs_ok s \<Longrightarrow>
     needs_ok s' \<and> set (name_needs s' np) = set (name_needs s np) \<union> ({need} - {np}) \<and>
     name_global s' = name_global s \<and> (\<forall>m. m \<noteq> np \<longrightarrow> name_needs s' m = name_needs s m)"
  by (auto simp: add_need_def outcome_iff needs_ok_def split: if_splits)

lemma record_needs_result:
  "record_needs np e s = Inr (u, s') \<Longrightarrow> needs_ok s \<Longrightarrow>
     needs_ok s' \<and> set (name_needs s' np) = set (name_needs s np) \<union> (names_of e - {np}) \<and>
     name_global s' = name_global s \<and> (\<forall>n\<in>names_of e. name_global s n) \<and>
     (\<forall>m. m \<noteq> np \<longrightarrow> name_needs s' m = name_needs s m)"
proof (induction np e arbitrary: s u s' rule: record_needs.induct)
  case (1 np n)
  then have "name_global s n" "add_need np n s = Inr (u, s')"
    by (auto simp: outcome_iff split: if_splits)
  with add_need_result [OF this(2) 1(2)] show ?case by simp
next
  case (3 np t l r)
  then obtain v s1 where r: "record_needs np r s = Inr (v, s1)" and l: "record_needs np l s1 = Inr (u, s')"
    by (auto simp: outcome_iff)
  from 3(1) [OF r 3(4)] 3(2) [OF l] show ?case by (simp add: Un_Diff Un_ac ball_Un)
qed (auto simp: outcome_iff)


section \<open>Properties\<close>

lemma lookup_run_iff:
  "(case r of Inr ((n, t), s) \<Rightarrow> P n t s | Inl _ \<Rightarrow> False) \<longleftrightarrow> (\<exists>n t s. r = Inr ((n, t), s) \<and> P n t s)"
  by (auto split: sum.split prod.split)

text \<open>
  C20: Names are identified by their identifiers: two lookups in a row, whatever is between them
  in the table, find the same name exactly when their keys are equal, and every other name keeps
  its identifier.
\<close>

theorem table_lookup_identifies:
  assumes "table_ok t s" "key_ok j" "key_ok k"
    "table_lookup t j s = Inr ((m, t1), s1)" "table_lookup t1 k s1 = Inr ((n, t2), s2)"
  shows "(m = n \<longleftrightarrow> j = k) \<and> name_ident s2 m = j \<and> name_ident s2 n = k \<and> table_ok t2 s2 \<and>
    (\<forall>i\<in>table_names t. name_ident s2 i = name_ident s i)"
proof -
  have run: "tab.lookup_all t [j, k] s = Inr (([m, n], t2), s2)"
    using assms(4,5) by (simp add: rbind_def rret_def)
  from tab.lookup_identifies [OF assms(1) _ run, of 0 1] tab.lookup_all_ok [OF assms(1) _ run] assms(2,3)
  show ?thesis by simp
qed

definition sample_names :: names where
  "sample_names =
     \<lparr>name_val = (\<lambda>_. None), name_align = (\<lambda>_. 1), name_global = (\<lambda>_. False), el_size = (\<lambda>_. Const 0),
      errors = 0, shared = (\<lambda>_. False), asked = 0, unsound = 0,
      next_name = 0, name_ident = (\<lambda>_. []), name_idx = (\<lambda>_. -1), name_needs = (\<lambda>_. []),
      name_defined = (\<lambda>_. False), name_fragment = (\<lambda>_. False), name_common = (\<lambda>_. False),
      name_wanted = (\<lambda>_. False), name_special = (\<lambda>_. 0), name_loadtime = (\<lambda>_. False)\<rparr>"

theorem table_lookup_identifies_witness:
  "\<exists>t1 s1 t2 s2. table_lookup (table_init 4) [97, 98] sample_names = Inr ((0, t1), s1) \<and>
     table_lookup t1 [98, 97] s1 = Inr ((1, t2), s2) \<and> name_ident s2 0 = [97, 98]"
proof -
  have "case table_lookup (table_init 4) [97, 98] sample_names of
      Inr ((m, t1), s1) \<Rightarrow> m = 0 \<and>
        (case table_lookup t1 [98, 97] s1 of Inr ((n, t2), s2) \<Rightarrow> n = 1 | Inl _ \<Rightarrow> False)
    | Inl _ \<Rightarrow> False"
    by code_simp
  then obtain t1 s1 t2 s2 where
    "table_lookup (table_init 4) [97, 98] sample_names = Inr ((0, t1), s1)"
    "table_lookup t1 [98, 97] s1 = Inr ((1, t2), s2)"
    unfolding lookup_run_iff by blast
  moreover have "table_ok (table_init 4) sample_names" using table_init_ok [of 4 sample_names] by simp
  moreover have "key_ok [97, 98]" "key_ok [98, 97]" by (simp_all add: key_ok_def)
  ultimately show ?thesis using table_lookup_identifies by blast
qed

text \<open>
  \<open>table_lookup\<close> adds the bytes of a key as signed characters: a key whose bytes sum up to a
  negative number that \<open>ncolumns\<close> does not divide addresses a column in front of the table.
\<close>

theorem table_lookup_negative_column:
  "table_lookup (table_init 32) [0xe9] s = Inl Trap \<and>
   hash_key key = sum_list (map scast key)"
proof
  have "sint (hash_key [0xe9]) smod int (ncolumns (table_init 32)) < 0" by code_simp
  then show "table_lookup (table_init 32) [0xe9] s = Inl Trap"
    by (simp add: table_lookup_def Let_def rstop_def)
qed (rule hash_key_sum)

text \<open>
  C21: Assigning values to names keeps the graph of names acyclic: a value that would close a
  cycle is replaced by 0 with a diagnostic.  On an acyclic graph the check itself ends.
\<close>

theorem name_assign_value_acyclic:
  assumes "acyclic (refers s)" "name_assign_value fuel np e s = Inr (u, s')"
  shows "acyclic (refers s') \<and>
    ((\<exists>n\<in>names_of e. (n, np) \<in> (refers s)\<^sup>*) \<longrightarrow>
       name_val s' np = Some (Const 0) \<and> errors s' = Suc (errors s))"
proof
  show "acyclic (refers s')" by (rule assign_acyclic [OF assms])
  from assign_state [OF assms(2)] mentioned_reach show
    "(\<exists>n\<in>names_of e. (n, np) \<in> (refers s)\<^sup>*) \<longrightarrow>
       name_val s' np = Some (Const 0) \<and> errors s' = Suc (errors s)"
    by fastforce
qed

theorem name_assign_value_acyclic_witness:
  "\<exists>s'. name_assign_value 5 1 (Binop EXPR_PLUS (Name 1) (Const 2)) sample_state = Inr ((), s') \<and>
     acyclic (refers s') \<and> name_val s' 1 = Some (Const 0)"
proof -
  have "acyclic (refers sample_state)" by (simp add: refers_def sample_state_def acyclic_def)
  moreover have "\<exists>s'. name_assign_value 5 1 (Binop EXPR_PLUS (Name 1) (Const 2)) sample_state = Inr ((), s')"
    by (simp add: name_assign_value_def rbind_def report_error_def set_value_def rmodify_def numeral_eq_Suc)
  ultimately show ?thesis
    using name_assign_value_acyclic [of sample_state 5 1 "Binop EXPR_PLUS (Name 1) (Const 2)"] by auto
qed

text \<open>
  C22: The cycle check and the alignment check of an assignment come to an end whenever the
  graph of names has no infinite path.
\<close>

theorem name_assign_value_total:
  assumes "wf ((refers s)\<inverse>)"
  shows "\<exists>fuel s'. name_assign_value fuel np e s = Inr ((), s')"
  by (rule assign_total [OF assms])

theorem name_assign_value_total_witness:
  "\<exists>fuel s'. name_assign_value fuel 3 (Name 1) sample_state = Inr ((), s')"
proof (rule name_assign_value_total)
  have "refers sample_state = {}" by (simp add: refers_def sample_state_def)
  then show "wf ((refers sample_state)\<inverse>)" by simp
qed

text \<open>
  C23: \<open>record_needs\<close> adds to the needs of a name exactly the other names its expression mentions,
  which are all global; the list never holds a name twice, nor the name itself.
\<close>

theorem record_needs_exact:
  assumes "record_needs np e s = Inr (u, s')" "needs_ok s"
  shows "needs_ok s' \<and> set (name_needs s' np) = set (name_needs s np) \<union> (names_of e - {np}) \<and>
    (\<forall>n\<in>names_of e. name_global s n)"
  using record_needs_result [OF assms] by simp

theorem record_needs_exact_witness:
  "\<exists>s'. record_needs 1 (Binop EXPR_PLUS (Name 2) (Name 1)) (sample_names\<lparr>name_global := (\<lambda>_. True)\<rparr>)
     = Inr ((), s') \<and> set (name_needs s' 1) = {2}"
proof -
  let ?s = "sample_names\<lparr>name_global := (\<lambda>_. True)\<rparr>"
  have "\<exists>s'. record_needs 1 (Binop EXPR_PLUS (Name 2) (Name 1)) ?s = Inr ((), s')"
    by (simp add: rbind_def rget_def add_need_def rmodify_def sample_names_def)
  then obtain s' where s': "record_needs 1 (Binop EXPR_PLUS (Name 2) (Name 1)) ?s = Inr ((), s')" ..
  have "needs_ok ?s" by (simp add: needs_ok_def sample_names_def)
  from record_needs_exact [OF s' this] s' show ?thesis by (auto simp: sample_names_def)
qed

text \<open>
  A vector that is grown when \<open>VECTOR_FULL\<close> says so always has room for the element that is
  stored next, if its minimal size is a power of two.
\<close>

lemma vector_capacity_enough:
  assumes "minsize = 2 ^ k"
  shows "count \<le> vector_capacity minsize count"
proof (cases "count = 0")
  case False
  then show ?thesis using vector_capacity_power [OF assms, of count] by simp
qed simp

lemma vector_capacity_enough_example: "11 \<le> vector_capacity 8 11"
  using vector_capacity_enough [of 8 3 11] by simp

end
