(* ===== verification/ExprLeaves.thy ===== *)
theory ExprLeaves
  imports ExprSound
begin

text \<open>
  The leaves of reduced expressions: the reducer brings no name, range or element into an expression
  that was not in it or in the tables, and it leaves only those it cannot resolve.
\<close>

section \<open>Leaves\<close>

text \<open>All names, ranges and elements in an expression satisfy \<open>Q\<close>.\<close>

fun leaves_all :: "(expr \<Rightarrow> bool) \<Rightarrow> expr \<Rightarrow> bool" where
  "leaves_all Q (Const c) = True"
| "leaves_all Q (Elsum es) = (\<forall>e\<in>set es. leaves_all Q e)"
| "leaves_all Q (Unop t e) = leaves_all Q e"
| "leaves_all Q (Binop t l r) = (leaves_all Q l \<and> leaves_all Q r)"
| "leaves_all Q e = Q e"

section \<open>Constructors\<close>

lemma expr_binop_general_leaves:
  "expr_binop_general t e1 e2 s = Inr (e, s') \<Longrightarrow> leaves_all Q e1 \<Longrightarrow> leaves_all Q e2 \<Longrightarrow> leaves_all Q e"
  by (auto simp: expr_binop_general_def outcome_iff split: expr.splits expr_tag.splits if_splits)

lemma expr_binop_leaves:
  assumes "expr_binop t e1 e2 s = Inr (e, s')" "leaves_all Q e1" "leaves_all Q e2"
  shows "leaves_all Q e"
proof (cases "is_const e1 \<and> is_const e2")
  case True
  with assms show ?thesis by (auto simp: expr_binop_def is_const_iff outcome_iff)
next
  case False
  then have "expr_binop t e1 e2 s =
      (if tag_iscomm t \<and> is_const e1 then expr_binop_general t e2 e1 s else expr_binop_general t e1 e2 s)"
    by (cases e1; cases e2) (auto simp: expr_binop_def)
  with assms expr_binop_general_leaves show ?thesis by (metis (full_types))
qed

lemma expr_unop_leaves:
  assumes "expr_unop t e s = Inr (e', s')" "leaves_all Q e"
  shows "leaves_all Q e'"
proof (cases "t = EXPR_NEG")
  case True
  with assms show ?thesis
    by (auto simp: expr_unop_def intro: expr_binop_leaves)
next
  case False
  with assms show ?thesis
    by (cases e) (auto simp: expr_unop_def outcome_iff)
qed

lemma expr_asgop_leaves:
  assumes "expr_asgop t e1 e2 s = Inr (e, s')" "leaves_all Q e1" "leaves_all Q e2"
  shows "leaves_all Q e"
proof (cases e1)
  case (Binop t1 x y)
  consider "e = Binop EXPR_PLUS x (Const (constval y + constval e2))" | "e = x"
    | s1 where "expr_binop t e1 e2 s1 = Inr (e, s')"
    using assms(1) Binop by (auto simp: expr_asgop_def outcome_iff split: if_splits)
  then show ?thesis
  proof cases
    case 3
    then show ?thesis using assms(2,3) by (rule expr_binop_leaves)
  qed (use assms(2) Binop in auto)
qed (use assms in \<open>auto simp: expr_asgop_def intro: expr_binop_leaves\<close>)

section \<open>Sums of elements\<close>

lemma add_to_sum_leaves:
  "add_to_sum acc e s = Inr (r, s') \<Longrightarrow> pred_option (leaves_all Q) acc \<Longrightarrow> leaves_all Q e \<Longrightarrow>
     pred_option (leaves_all Q) r"
  by (auto simp: add_to_sum_def outcome_iff split: option.splits intro: expr_asgop_leaves)

text \<open>Sizes that are ranges stay in the elements.\<close>

definition sizes_all :: "(expr \<Rightarrow> bool) \<Rightarrow> 'x est_scheme \<Rightarrow> bool" where
  "sizes_all Q s \<longleftrightarrow> (\<forall>n. tag_of (el_size s n) = EXPR_RANGE \<or> leaves_all Q (el_size s n))"

lemma sizes_all_same: "same_tables s t \<Longrightarrow> sizes_all Q t = sizes_all Q s"
  by (simp add: sizes_all_def same_tables_def)

lemma elsum_split_leaves:
  "elsum_split es acc s = Inr ((kept, r), s') \<Longrightarrow> sizes_all Q s \<Longrightarrow> pred_option (leaves_all Q) acc \<Longrightarrow>
     \<forall>e\<in>set es. leaves_all Q e \<Longrightarrow>
     pred_option (leaves_all Q) r \<and>
     (\<forall>e\<in>set kept. e \<in> set es \<and> (\<exists>n. e = Element n \<and> tag_of (el_size s n) = EXPR_RANGE))"
proof (induction es arbitrary: acc kept r s)
  case Nil
  then show ?case by (simp add: outcome_iff)
next
  case (Cons e es)
  have added: ?case if 1: "add_to_sum acc x s = Inr (acc', s1)" and 2: "elsum_split es acc' s1 = Inr ((kept, r), s')"
    and x: "leaves_all Q x" for x acc' s1
  proof -
    have same: "same_tables s s1" using quietD [OF quiet_add_to_sum 1] .
    have "sizes_all Q s1" using Cons.prems(2) sizes_all_same [OF same] by simp
    from Cons.IH [OF 2 this add_to_sum_leaves [OF 1 Cons.prems(3) x]] Cons.prems(4) same show ?thesis
      by (auto simp: same_tables_def)
  qed
  show ?case
  proof (cases "\<exists>n. e = Element n")
    case True
    then obtain n where e: "e = Element n" by blast
    show ?thesis
    proof (cases "tag_of (el_size s n) = EXPR_RANGE")
      case True
      with Cons.prems(1) e obtain kept' where 1: "elsum_split es acc s = Inr ((kept', r), s')" "kept = e # kept'"
        by (auto simp: outcome_iff)
      from Cons.IH [OF 1(1) Cons.prems(2,3)] Cons.prems(4) 1(2) e True show ?thesis by auto
    next
      case False
      with Cons.prems(1) e obtain acc' s1 where "add_to_sum acc (el_size s n) s = Inr (acc', s1)"
        "elsum_split es acc' s1 = Inr ((kept, r), s')"
        by (auto simp: outcome_iff)
      moreover have "leaves_all Q (el_size s n)" using False Cons.prems(2) by (auto simp: sizes_all_def)
      ultimately show ?thesis by (rule added)
    qed
  next
    case False
    with Cons.prems(1) obtain acc' s1 where "add_to_sum acc e s = Inr (acc', s1)"
      "elsum_split es acc' s1 = Inr ((kept, r), s')"
      by (cases e) (auto simp: outcome_iff)
    then show ?thesis using added Cons.prems(4) by simp
  qed
qed

lemma expr_reduce_elsum_leaves:
  assumes "expr_reduce_elsum es s = Inr (e, s')" "sizes_all Q s" "\<forall>e\<in>set es. leaves_all Q e"
  shows "leaves_all Q e"
proof -
  from assms(1) obtain kept acc s1 where 1: "elsum_split es None s = Inr ((kept, acc), s1)"
    and 2: "(if kept = [] then (case acc of Some s \<Rightarrow> rret s | None \<Rightarrow> rstop Trap)
       else (case acc of
               Some s \<Rightarrow> rret (Binop EXPR_PLUS (Elsum kept) s)
             | None \<Rightarrow> rret (Elsum kept))) s1 = Inr (e, s')"
    by (auto simp: expr_reduce_elsum_def outcome_iff)
  from elsum_split_leaves [OF 1 assms(2) _ assms(3)] 2 assms(3) show ?thesis
    by (auto simp: outcome_iff split: if_splits option.splits)
qed

lemma elsum_pick_leaves:
  "elsum_pick d es x = Inr (kept, c, x') \<Longrightarrow> set kept \<subseteq> set es"
  by (induction d es x arbitrary: kept c x' rule: elsum_pick.induct)
    (fastforce simp: obind_Inr_iff split: expr.splits if_splits)+

section \<open>Scanning\<close>

fun leaves_scan :: "(expr \<Rightarrow> bool) \<Rightarrow> scan_result \<Rightarrow> bool" where
  "leaves_scan Q (New e) = leaves_all Q e"
| "leaves_scan Q _ = True"

lemma substract_elsums_leaves:
  assumes "substract_elsums es1 es2 s = Inr (r, s')" "leaves_all Q (Elsum es1)" "leaves_all Q (Elsum es2)"
  shows "leaves_scan Q r"
proof -
  define x1 where "x1 = elsum_count es1 (\<lambda>_. 0)"
  obtain x2 found where x2: "elsum_discount es2 x1 False = (x2, found)" by (cases "elsum_discount es2 x1 False")
  show ?thesis
  proof (cases found)
    case False
    with assms(1) x2 x1_def show ?thesis
      by (auto simp: substract_elsums_def outcome_iff Let_def)
  next
    case True
    with assms(1) x2 x1_def obtain newl c1 x3 newr c2 x4 where p1: "elsum_pick (-1) es1 x2 = Inr (newl, c1, x3)"
      and p2: "elsum_pick 1 es2 x3 = Inr (newr, c2, x4)"
      and rest: "rbind (if newl \<noteq> [] \<and> newr \<noteq> []
                             then rbind (expr_binop EXPR_MINUS (Elsum newl) (Elsum newr)) (\<lambda>e. rret (Some e))
                             else if newl \<noteq> [] then rret (Some (Elsum newl))
                             else if newr \<noteq> []
                             then rbind (expr_unop EXPR_NEG (Elsum newr)) (\<lambda>e. rret (Some e))
                             else rret None)
                        (\<lambda>newe.
                          if c1 - c2 \<noteq> 0
                          then (case newe of
                                  Some e \<Rightarrow> rbind (expr_binop EXPR_PLUS e (Const (c1 - c2))) (\<lambda>e'. rret (New e'))
                                | None \<Rightarrow> rret (New (Const (c1 - c2))))
                          else rret (case newe of Some e \<Rightarrow> New e | None \<Rightarrow> Gone)) s = Inr (r, s')"
      by (auto simp: substract_elsums_def Let_def obind_Inr_iff)
    have l: "leaves_all Q (Elsum newl)" "leaves_all Q (Elsum newr)"
      using elsum_pick_leaves [OF p1] elsum_pick_leaves [OF p2] assms(2,3) by auto
    from rest obtain newe s1 where 1: "(if newl \<noteq> [] \<and> newr \<noteq> []
                             then rbind (expr_binop EXPR_MINUS (Elsum newl) (Elsum newr)) (\<lambda>e. rret (Some e))
                             else if newl \<noteq> [] then rret (Some (Elsum newl))
                             else if newr \<noteq> []
                             then rbind (expr_unop EXPR_NEG (Elsum newr)) (\<lambda>e. rret (Some e))
                             else rret None) s = Inr (newe, s1)"
      and 2: "(if c1 - c2 \<noteq> 0
                          then (case newe of
                                  Some e \<Rightarrow> rbind (expr_binop EXPR_PLUS e (Const (c1 - c2))) (\<lambda>e'. rret (New e'))
                                | None \<Rightarrow> rret (New (Const (c1 - c2))))
                          else rret (case newe of Some e \<Rightarrow> New e | None \<Rightarrow> Gone)) s1 = Inr (r, s')"
      by (simp only: rbind_Inr) blast
    have "pred_option (leaves_all Q) newe"
      using 1 l by (auto simp: outcome_iff split: if_splits dest: expr_binop_leaves expr_unop_leaves simp del: leaves_all.simps)
    with 2 show ?thesis
      by (auto simp: outcome_iff split: if_splits option.splits dest: expr_binop_leaves)
  qed
qed


lemma scan2_leaf_leaves:
  assumes run: "scan2_leaf e op item s = Inr (r, s')" and "leaves_all Q e" "leaves_all Q item"
  shows "leaves_scan Q r"
proof (cases "is_const e \<and> is_const item")
  case True
  with run show ?thesis by (auto simp: scan2_leaf_def is_const_iff outcome_iff)
next
  case False
  then have "scan2_leaf e op item s =
      rbind (if op = EXPR_MINUS \<or> op = EXPR_XOR then expr_equal e item else rret False) (\<lambda>eq.
            if eq then rret Gone
            else case (op, e, item) of
                   (EXPR_MINUS, Elsum es1, Elsum es2) \<Rightarrow> substract_elsums es1 es2
                 | _ \<Rightarrow> rret Same) s"
    by (cases e; cases item) (auto simp: scan2_leaf_def)
  with run obtain eq s1 where "(if eq then rret Gone
            else case (op, e, item) of
                   (EXPR_MINUS, Elsum es1, Elsum es2) \<Rightarrow> substract_elsums es1 es2
                 | _ \<Rightarrow> rret Same) s1 = Inr (r, s')"
    by (simp only: rbind_Inr) blast
  then consider "r = Gone" | "r = Same" | es1 es2 where "e = Elsum es1" "item = Elsum es2"
      "substract_elsums es1 es2 s1 = Inr (r, s')"
    by (auto simp: outcome_iff split: if_splits expr_tag.splits expr.splits)
  then show ?thesis
    using assms(2,3) substract_elsums_leaves by cases (auto simp del: leaves_all.simps)
qed

lemma scan2_leaves:
  "scan2 e op item s = Inr (r, s') \<Longrightarrow> leaves_all Q e \<Longrightarrow> leaves_all Q item \<Longrightarrow> leaves_scan Q r"
proof (induction e op item arbitrary: s r s' rule: scan2.induct)
  case (1 t l r op item s res s')
  show ?case
  proof (cases "assoc_node t op")
    case False
    with 1 show ?thesis by (auto intro: scan2_leaf_leaves)
  next
    case True
    from 1(3) True obtain newl s1 where l: "scan2 l op item s = Inr (newl, s1)"
      and rest: "(case newl of
               Gone \<Rightarrow> if t = EXPR_MINUS then rbind (expr_unop EXPR_NEG r) (\<lambda>e. rret (New e))
                        else rret (New r)
             | New l' \<Rightarrow> rbind (expr_binop t l' r) (\<lambda>e. rret (New e))
             | Same \<Rightarrow> rbind (scan2 r (right_op t op) item) (\<lambda>newr.
                 case newr of
                   Gone \<Rightarrow> rret (New l)
                 | New r' \<Rightarrow> rbind (expr_binop t l r') (\<lambda>e. rret (New e))
                 | Same \<Rightarrow> rret Same)) s1 = Inr (res, s')"
      by (auto simp: outcome_iff)
    have lv: "leaves_all Q l" "leaves_all Q r" using 1(4) by simp_all
    have L: "leaves_scan Q newl" using 1(1) [OF True l lv(1) 1(5)] .
    show ?thesis
    proof (cases newl)
      case Same
      with rest obtain newr s2 where r: "scan2 r (right_op t op) item s1 = Inr (newr, s2)"
        and rest2: "(case newr of
                   Gone \<Rightarrow> rret (New l)
                 | New r' \<Rightarrow> rbind (expr_binop t l r') (\<lambda>e. rret (New e))
                 | Same \<Rightarrow> rret Same) s2 = Inr (res, s')"
        by (auto simp: outcome_iff)
      have "leaves_scan Q newr" using 1(2) [OF True r lv(2) 1(5)] .
      with rest2 lv show ?thesis
        by (cases newr) (auto simp: outcome_iff dest: expr_binop_leaves)
    next
      case Gone
      with rest lv show ?thesis by (auto simp: outcome_iff dest: expr_unop_leaves split: if_splits)
    next
      case (New l')
      with rest L lv show ?thesis by (auto simp: outcome_iff dest: expr_binop_leaves)
    qed
  qed
qed (auto intro: scan2_leaf_leaves)

definition leaves_scan1 :: "(expr \<Rightarrow> bool) \<Rightarrow> scan_result \<times> expr option \<Rightarrow> bool" where
  "leaves_scan1 Q r \<longleftrightarrow> leaves_scan Q (fst r) \<and> pred_option (leaves_all Q) (snd r)"

lemma scan1_leaf_leaves:
  assumes "scan1_leaf e op tp s = Inr (r, s')" "leaves_all Q e" "leaves_all Q tp"
  shows "leaves_scan1 Q r"
proof -
  from assms(1) obtain newtop s1 where 1: "scan2 tp op e s = Inr (newtop, s1)"
    and 2: "(case newtop of
         Same \<Rightarrow> rret (Same, Some tp)
       | Gone \<Rightarrow> rret (Gone, None)
       | New t \<Rightarrow> rret (Gone, Some t)) s1 = Inr (r, s')"
    unfolding scan1_leaf_def by (simp only: rbind_Inr) blast
  from scan2_leaves [OF 1 assms(3,2)] 2 assms(3) show ?thesis
    by (cases newtop) (auto simp: outcome_iff leaves_scan1_def)
qed

lemma scan1_join_leaves:
  assumes "scan1_join t l r newl newr s = Inr (res, s')" "leaves_all Q l" "leaves_all Q r"
    "leaves_scan Q newl" "leaves_scan Q newr"
  shows "leaves_scan Q res"
  using assms
  by (cases newl; cases newr) (auto simp: scan1_join_def outcome_iff dest: expr_binop_leaves split: if_splits)

lemma scan1_leaves:
  "scan1 e op tp s = Inr (r, s') \<Longrightarrow> leaves_all Q e \<Longrightarrow> pred_option (leaves_all Q) tp \<Longrightarrow> leaves_scan1 Q r"
proof (induction e op tp arbitrary: s r s' rule: scan1.induct)
  case (1 e op)
  then show ?case by (auto simp: outcome_iff leaves_scan1_def)
next
  case (2 t l r op tp s res s')
  show ?case
  proof (cases "assoc_node t op")
    case False
    with 2 show ?thesis by (auto intro: scan1_leaf_leaves)
  next
    case True
    with 2(3) obtain newl top1 s1 newr top2 s2 res' s3 where l: "scan1 l op (Some tp) s = Inr ((newl, top1), s1)"
      and r: "scan1 r (right_op t op) top1 s1 = Inr ((newr, top2), s2)"
      and j: "scan1_join t l r newl newr s2 = Inr (res', s3)" and res: "res = (res', top2)"
      by (auto simp: outcome_iff)
    have lv: "leaves_all Q l" "leaves_all Q r" using 2(4) by simp_all
    have 1: "leaves_scan1 Q (newl, top1)" using 2(1) [OF True l lv(1) 2(5)] .
    then have "leaves_scan1 Q (newr, top2)"
      using 2(2) [OF True r lv(2)] by (simp add: leaves_scan1_def)
    with 1 scan1_join_leaves [OF j lv] res show ?thesis by (simp add: leaves_scan1_def)
  qed
qed (auto intro: scan1_leaf_leaves)

section \<open>The reducer\<close>

lemma reduce_assoc_leaves:
  assumes "reduce_assoc t l r s = Inr (e, s')" "leaves_all Q l" "leaves_all Q r"
  shows "leaves_all Q e"
proof -
  from assms(1) obtain res newl s1 where 1: "scan1 r t (Some l) s = Inr ((res, newl), s1)"
    and 2: "(case (newl, case res of Same \<Rightarrow> Some r | Gone \<Rightarrow> None | New r' \<Rightarrow> Some r') of
         (None, None) \<Rightarrow> rret (Const 0)
       | (None, Some r') \<Rightarrow> rret (if t = EXPR_MINUS then Binop t (Const 0) r' else r')
       | (Some l', None) \<Rightarrow> rret l'
       | (Some l', Some r') \<Rightarrow> rret (Binop t l' r')) s1 = Inr (e, s')"
    by (auto simp: reduce_assoc_def outcome_iff Let_def)
  from scan1_leaves [OF 1] assms(2,3) have "leaves_scan Q res" "pred_option (leaves_all Q) newl"
    by (simp_all add: leaves_scan1_def)
  with 2 assms(3) show ?thesis
    by (cases newl; cases res) (auto simp: outcome_iff)
qed

lemma trivia_align_leaves:
  assumes "trivia_align fuel e s = Inr (r, s')" "leaves_all Q e"
  shows "leaves_all Q (case r of Inl x \<Rightarrow> x | Inr x \<Rightarrow> x)"
proof (cases "\<exists>l c. e = Binop EXPR_AND l (Const c)")
  case True
  with assms show ?thesis
    by (auto simp: trivia_align_def outcome_iff Let_def split: if_splits)
next
  case False
  then have "trivia_align fuel e s = Inr (Inr e, s)"
    by (auto simp: trivia_align_def rret_def split: expr.split expr_tag.split)
  with assms show ?thesis by auto
qed

lemma trivia_binary_leaves:
  assumes "trivia_binary fuel t l r s = Inr (x, s')" "leaves_all Q l" "leaves_all Q r"
  shows "leaves_all Q (case x of Inl x \<Rightarrow> x | Inr x \<Rightarrow> x)"
proof -
  consider "x = Inl l" | "x = Inl (Const 0)" | a b where "r = Binop EXPR_COLON a b" "x = Inl a \<or> x = Inl b"
    | "trivia_align fuel (Binop t l r) s = Inr (x, s')"
    using assms(1)
    by (auto simp: trivia_binary_def outcome_iff split: if_splits expr.splits expr_tag.splits)
  then show ?thesis
  proof cases
    case 4
    then show ?thesis by (rule trivia_align_leaves) (use assms in simp)
  qed (use assms in auto)
qed

lemma expr_reduce_trivia_leaves:
  assumes "expr_reduce_trivia fuel e s = Inr (x, s')" "leaves_all Q e"
  shows "leaves_all Q (case x of Inl x \<Rightarrow> x | Inr x \<Rightarrow> x)"
proof -
  consider c where "x = Inl (Const c)" | "x = Inr e"
    | t l r where "e = Binop t l r" "trivia_binary fuel t l r s = Inr (x, s') \<or> trivia_binary fuel t r l s = Inr (x, s')"
    using assms(1)
    by (auto simp: expr_reduce_trivia_def outcome_iff split: expr.splits if_splits)
  then show ?thesis
    using assms(2) by cases (auto dest: trivia_binary_leaves)
qed

lemma reduce_node_leaves:
  assumes "reduce_node fuel e s = Inr ((n, e'), s')" "leaves_all Q e"
  shows "leaves_all Q e'"
proof -
  from assms(1) obtain x s1 where 1: "expr_reduce_trivia fuel e s = Inr (x, s1)"
    and 2: "(case (case x of Inl x \<Rightarrow> x | Inr x \<Rightarrow> x) of
            Binop t l r \<Rightarrow>
              if t \<in> set assoc_tags then rbind (reduce_assoc t l r)
                (\<lambda>e''. rret (case x of Inl _ \<Rightarrow> 1 | Inr _ \<Rightarrow> 0, e''))
              else rret (case x of Inl _ \<Rightarrow> 1 | Inr _ \<Rightarrow> 0, case x of Inl x \<Rightarrow> x | Inr x \<Rightarrow> x)
          | _ \<Rightarrow> rret (case x of Inl _ \<Rightarrow> 1 | Inr _ \<Rightarrow> 0, case x of Inl x \<Rightarrow> x | Inr x \<Rightarrow> x)) s1 = Inr ((n, e'), s')"
    unfolding reduce_node_def Let_def by (simp only: rbind_Inr) blast
  let ?e = "case x of Inl x \<Rightarrow> x | Inr x \<Rightarrow> x"
  have l: "leaves_all Q ?e" by (rule expr_reduce_trivia_leaves [OF 1 assms(2)])
  consider "e' = ?e" | t l r where "?e = Binop t l r" "reduce_assoc t l r s1 = Inr (e', s')"
    using 2 by (cases ?e) (auto simp: outcome_iff split: if_splits)
  then show ?thesis
    using l by cases (auto dest: reduce_assoc_leaves)
qed

definition leaves_tables :: "(expr \<Rightarrow> bool) \<Rightarrow> 'x est_scheme \<Rightarrow> bool" where
  "leaves_tables Q s \<longleftrightarrow>
     (\<forall>n v. name_val s n = Some v \<longrightarrow> leaves_all Q v) \<and> (\<forall>n. leaves_all Q (el_size s n))"

lemma leaves_tables_same: "same_tables s t \<Longrightarrow> leaves_tables Q t = leaves_tables Q s"
  by (simp add: leaves_tables_def same_tables_def)

lemma expr_reduce_leaves:
  "expr_reduce fuel e s = Inr ((n, e'), s') \<Longrightarrow> leaves_tables Q s \<Longrightarrow> leaves_all Q e \<Longrightarrow>
     leaves_all Q e' \<and> leaves_tables Q s'"
proof (induction fuel arbitrary: e s n e' s')
  case (Suc fuel)
  from Suc.prems(1) show ?case
  proof (cases rule: expr_reduce_cases)
    case (elsum e0 s0)
    have s0: "leaves_tables Q s0"
      using Suc.prems(2) leaves_tables_same [OF quietD [OF quiet_top_elsum elsum(1)]] by simp
    have e0: "leaves_all Q e0"
    proof (cases "\<exists>es. e = Elsum es")
      case True
      with elsum(1) Suc.prems(2,3) show ?thesis
        by (auto intro: expr_reduce_elsum_leaves simp: sizes_all_def leaves_tables_def)
    next
      case False
      then have "e0 = e" using elsum(1) by (cases e) (auto simp: outcome_iff)
      with Suc.prems(3) show ?thesis by simp
    qed
    show ?thesis
      using elsum(2)
    proof (elim disjE exE conjE)
      fix k v v' m s1
      assume "name_val s0 k = Some v" and run: "expr_reduce fuel v s0 = Inr ((m, v'), s1)"
        and res: "e' = v'" "s' = s1\<lparr>name_val := (name_val s1)(k := Some v')\<rparr>"
      then have "leaves_all Q v" using s0 by (simp add: leaves_tables_def)
      from Suc.IH [OF run s0 this] res show ?thesis by (simp add: leaves_tables_def)
    next
      fix k v' m s1
      assume run: "expr_reduce fuel (el_size s0 k) s0 = Inr ((m, v'), s1)"
        and res: "e' = v'" "s' = s1\<lparr>el_size := (el_size s1)(k := v')\<rparr>"
      have "leaves_all Q (el_size s0 k)" using s0 by (simp add: leaves_tables_def)
      from Suc.IH [OF run s0 this] res show ?thesis by (simp add: leaves_tables_def)
    next
      fix t r r' m m' s1
      assume e: "e0 = Unop t r" and run: "expr_reduce fuel r s0 = Inr ((m, r'), s1)"
        and node: "reduce_node fuel (Unop t r') s1 = Inr ((m', e'), s')"
      have "leaves_all Q r" using e0 e by simp
      from Suc.IH [OF run s0 this] reduce_node_leaves [OF node]
        leaves_tables_same [OF quietD [OF quiet_reduce_node node]] show ?thesis by simp
    next
      fix t l r l' r' m m' m'' s1 s2
      assume e: "e0 = Binop t l r" and l: "expr_reduce fuel l s0 = Inr ((m, l'), s1)"
        and r: "expr_reduce fuel r s1 = Inr ((m', r'), s2)"
        and node: "reduce_node fuel (Binop t l' r') s2 = Inr ((m'', e'), s')"
      have lv: "leaves_all Q l" "leaves_all Q r" using e0 e by simp_all
      note L = Suc.IH [OF l s0 lv(1)]
      from Suc.IH [OF r conjunct2 [OF L] lv(2)] L reduce_node_leaves [OF node]
        leaves_tables_same [OF quietD [OF quiet_reduce_node node]] show ?thesis by simp
    qed (use s0 e0 in simp)
  qed
qed (simp add: outcome_iff)

end
