(* ===== verification/Ments.thy ===== *)
theory Ments
  imports ExprLeaves ExprEstimate Names LitExpr Cmd
begin

text \<open>
  The program being assembled (\<open>shared/ments.h\<close>, \<open>shared/ments.c\<close>): segments, their fragments, and
  the chains of elements in them; the routines that emit data and commands, and the passes the
  assembler and the linker make over all elements.
\<close>

section \<open>Data\<close>

text \<open>
  The union of \<open>struct element\<close>.  A block is the bytes written to its buffer and the size of
  the buffer.
\<close>

datatype element_body =
    ELEMENT_BLOCK "byte list" nat
  | ELEMENT_DATA long expr expr
  | ELEMENT_CMD byte expr

text \<open>
  \<open>struct segment\<close>.  A chain is the list of its elements; \<open>prev\<close> pointers are never followed.
\<close>

record segment =
  seg_name :: nat
  seg_fragments :: "(nat \<times> nat list) list"
  seg_curel :: "nat option"
  seg_point :: "expr option"
  seg_slot :: long
  seg_threshold :: long
  pending_alignment :: long
  pending_filler :: "expr option"

text \<open>
  The tables of elements and segments.  The size of an element is \<open>el_size\<close> of the tables of
  expressions; until the caller of \<open>element_alloc\<close> sets it, it is 0 here and \<open>NULL\<close> in the
  source.  \<open>el_nrefs\<close> counts the expression nodes that refer to an element; \<open>next_range\<close> numbers the
  range nodes made.  \<open>name_segment\<close> is the value of a name in the table of segment names.
\<close>

record ments = names +
  next_el :: nat
  el_body :: "nat \<Rightarrow> element_body"
  el_idx :: "nat \<Rightarrow> long"
  el_nrefs :: "nat \<Rightarrow> nat"
  next_range :: nat
  nsegments :: nat
  seg_tab :: "nat \<Rightarrow> segment"
  name_segment :: "nat \<Rightarrow> nat option"

abbreviation DEFAULT_BLOCK_THRESHOLD :: long where "DEFAULT_BLOCK_THRESHOLD \<equiv> 32"

definition upd_seg :: "nat \<Rightarrow> (segment \<Rightarrow> segment) \<Rightarrow> ('x ments_scheme, unit) step" where
  "upd_seg sg f = rmodify (\<lambda>s. s\<lparr>seg_tab := (seg_tab s)(sg := f (seg_tab s sg))\<rparr>)"

definition set_size :: "nat \<Rightarrow> expr \<Rightarrow> ('x ments_scheme, unit) step" where
  "set_size el e = rmodify (\<lambda>s. s\<lparr>el_size := (el_size s)(el := e)\<rparr>)"

definition set_body :: "nat \<Rightarrow> element_body \<Rightarrow> ('x ments_scheme, unit) step" where
  "set_body el b = rmodify (\<lambda>s. s\<lparr>el_body := (el_body s)(el := b)\<rparr>)"

definition expr_range :: "long \<Rightarrow> long \<Rightarrow> ('x ments_scheme, expr) step" where
  "expr_range lo hi s = Inr (Range (next_range s) lo hi, s\<lparr>next_range := Suc (next_range s)\<rparr>)"

text \<open>The result of \<open>expr_estimate\<close> as an expression: a constant when the bounds meet.\<close>

definition estimate :: "nat \<Rightarrow> expr \<Rightarrow> ('x ments_scheme, long \<times> long) step" where
  "estimate fuel e s = obind (expr_estimate fuel s e) (\<lambda>b. Inr (b, s))"

definition range_expr :: "long \<times> long \<Rightarrow> ('x ments_scheme, expr) step" where
  "range_expr b = (if fst b = snd b then rret (Const (fst b)) else expr_range (fst b) (snd b))"

section \<open>Segments, fragments, elements\<close>

definition add_fragment :: "nat \<Rightarrow> nat \<Rightarrow> ('x ments_scheme, unit) step" where
  "add_fragment sg newfrag =
     upd_seg sg (\<lambda>g. g\<lparr>seg_fragments := seg_fragments g @ [(newfrag, [])],
                       seg_point := Some (Name newfrag), seg_curel := None\<rparr>)"

definition new_segment :: "nat \<Rightarrow> segment" where
  "new_segment np =
     \<lparr>seg_name = np, seg_fragments = [], seg_curel = None, seg_point = None, seg_slot = 0,
      seg_threshold = DEFAULT_BLOCK_THRESHOLD, pending_alignment = 1, pending_filler = None\<rparr>"

definition add_segment :: "nat \<Rightarrow> nat \<Rightarrow> ('x ments_scheme, nat) step" where
  "add_segment np deffrag =
     rbind (rget nsegments) (\<lambda>sg.
     rbind (rmodify (\<lambda>s. s\<lparr>nsegments := Suc sg, name_segment := (name_segment s)(np := Some sg),
                          seg_tab := (seg_tab s)(sg := new_segment np)\<rparr>)) (\<lambda>_.
     rbind (add_fragment sg deffrag) (\<lambda>_. rret sg)))"

text \<open>\<open>element_alloc\<close>; the members of the union other than a block's are set by the caller.\<close>

definition element_alloc :: "element_body \<Rightarrow> ('x ments_scheme, nat) step" where
  "element_alloc b s =
     (let el = next_el s in
      Inr (el, s\<lparr>next_el := Suc el, el_size := (el_size s)(el := Const 0),
                 el_body := (el_body s)(el := b), el_idx := (el_idx s)(el := -1),
                 el_nrefs := (el_nrefs s)(el := 0)\<rparr>))"

text \<open>\<open>element_free\<close>: the case of a command runs on into \<open>abort ()\<close>.\<close>

definition element_free :: "nat \<Rightarrow> ('x ments_scheme, unit) step" where
  "element_free el =
     rbind (rget (\<lambda>s. el_body s el)) (\<lambda>b. case b of ELEMENT_CMD _ _ \<Rightarrow> rstop Abort | _ \<Rightarrow> rret ())"

text \<open>The new element goes to the end of the chain of the last fragment.\<close>

fun append_el :: "nat \<Rightarrow> (nat \<times> nat list) list \<Rightarrow> (nat \<times> nat list) list" where
  "append_el el [] = []"
| "append_el el [(n, els)] = [(n, els @ [el])]"
| "append_el el (f # fs) = f # append_el el fs"

definition add_element :: "nat \<Rightarrow> element_body \<Rightarrow> ('x ments_scheme, nat) step" where
  "add_element sg b =
     rbind (element_alloc b) (\<lambda>el.
     rbind (rget (\<lambda>s. seg_fragments (seg_tab s sg))) (\<lambda>fs.
       if fs = [] then rstop Abort
       else rbind (upd_seg sg (\<lambda>g. g\<lparr>seg_fragments := append_el el fs, seg_curel := Some el\<rparr>))
              (\<lambda>_. rret el)))"

text \<open>The last assignment stores \<open>temp\<close> where it came from: nothing is swapped.\<close>

definition swap_last_fragments :: "nat \<Rightarrow> ('x ments_scheme, unit) step" where
  "swap_last_fragments sg =
     rbind (rget (\<lambda>s. seg_fragments (seg_tab s sg))) (\<lambda>fs.
       let n = length fs in
       if n < 2 then rstop Trap
       else let temp = fs ! (n - 2);
                fs1 = fs[n - 2 := fs ! (n - 1)]
            in upd_seg sg (\<lambda>g. g\<lparr>seg_fragments := fs1[n - 2 := temp]\<rparr>))"

section \<open>Emitting\<close>

text \<open>
  \<open>element_block_make_space\<close>: the offset of the first unoccupied byte.  The buffer doubles
  until \<open>len\<close> more bytes fit.
\<close>

function grow_alloc :: "nat \<Rightarrow> nat \<Rightarrow> nat" where
  "grow_alloc need alloc = (if alloc = 0 \<or> need \<le> alloc then alloc else grow_alloc need (2 * alloc))"
  by pat_completeness auto
termination
  by (relation "measure (\<lambda>(need, alloc). need - alloc)") auto

declare grow_alloc.simps [simp del]

definition make_space :: "nat \<Rightarrow> long \<Rightarrow> ('x ments_scheme, nat) step" where
  "make_space el len =
     rbind (rget (\<lambda>s. (el_body s el, el_size s el))) (\<lambda>(b, size).
       case (b, size) of
         (ELEMENT_BLOCK bs alloc, Const c) \<Rightarrow>
           let need = unat (c + len) in
           rbind (if alloc < need
                  then set_body el (ELEMENT_BLOCK bs (grow_alloc need (if alloc = 0 then 32 else alloc)))
                  else rret ()) (\<lambda>_. rret (unat c))
       | _ \<Rightarrow> rstop Abort)"

text \<open>
  Store bytes in the buffer of a block, from the offset given on.  Bytes below it that were never
  written would be left undefined: a \<open>Trap\<close> here, and so is what does not fit the buffer.
\<close>

definition put_bytes :: "nat \<Rightarrow> nat \<Rightarrow> byte list \<Rightarrow> ('x ments_scheme, unit) step" where
  "put_bytes el off new =
     rbind (rget (\<lambda>s. el_body s el)) (\<lambda>b.
       case b of
         ELEMENT_BLOCK bs alloc \<Rightarrow>
           if length bs < off \<or> alloc < off + length new then rstop Trap
           else set_body el (ELEMENT_BLOCK (take off bs @ new) alloc)
       | _ \<Rightarrow> rstop Abort)"

definition is_block :: "element_body \<Rightarrow> bool" where
  "is_block b = (case b of ELEMENT_BLOCK _ _ \<Rightarrow> True | _ \<Rightarrow> False)"

definition open_block :: "nat \<Rightarrow> ('x ments_scheme, nat) step" where
  "open_block sg =
     rbind (rget (\<lambda>s. (seg_curel (seg_tab s sg), el_body s))) (\<lambda>(cur, body).
       case cur of
         Some el \<Rightarrow> if is_block (body el) then rret el else add_element sg (ELEMENT_BLOCK [] 0)
       | None \<Rightarrow> add_element sg (ELEMENT_BLOCK [] 0))"

definition upd_point :: "nat \<Rightarrow> (expr \<Rightarrow> ('x ments_scheme, expr) step) \<Rightarrow> ('x ments_scheme, unit) step" where
  "upd_point sg f =
     rbind (rget (\<lambda>s. seg_point (seg_tab s sg))) (\<lambda>p.
       case p of
         None \<Rightarrow> rstop Trap
       | Some e \<Rightarrow> rbind (f e) (\<lambda>e'. upd_seg sg (\<lambda>g. g\<lparr>seg_point := Some e'\<rparr>)))"

text \<open>
  \<open>expr_plus_element\<close> on the point: an element of variable size is referred to from now on.  Only whether
  \<open>nrefs\<close> is zero is ever looked at.
\<close>

definition add_to_point :: "nat \<Rightarrow> nat \<Rightarrow> ('x ments_scheme, unit) step" where
  "add_to_point sg el =
     rbind (upd_point sg (\<lambda>p. expr_plus_element p el)) (\<lambda>_.
       rmodify (\<lambda>s. if is_const (el_size s el) then s
                    else s\<lparr>el_nrefs := (el_nrefs s)(el := Suc (el_nrefs s el))\<rparr>))"

text \<open>Add to the size of a block, a constant.\<close>

definition grow_size :: "nat \<Rightarrow> long \<Rightarrow> ('x ments_scheme, unit) step" where
  "grow_size el n =
     rbind (rget (\<lambda>s. el_size s el)) (\<lambda>size.
       case size of Const c \<Rightarrow> set_size el (Const (c + n)) | _ \<Rightarrow> rstop Abort)"

text \<open>The steps \<open>emit_block\<close>, \<open>emit_cmd\<close> and \<open>emit_align\<close> share once the bytes are known.\<close>

definition push_bytes :: "nat \<Rightarrow> byte list \<Rightarrow> ('x ments_scheme, unit) step" where
  "push_bytes sg bs =
     rbind (open_block sg) (\<lambda>el.
     rbind (make_space el (word_of_nat (length bs))) (\<lambda>off.
     rbind (put_bytes el off bs) (\<lambda>_.
     rbind (grow_size el (word_of_nat (length bs))) (\<lambda>_.
       upd_point sg (\<lambda>p. expr_plus_constant p (word_of_nat (length bs)))))))"

definition emit_block :: "nat \<Rightarrow> byte list \<Rightarrow> ('x ments_scheme, unit) step" where
  "emit_block sg bs = push_bytes sg bs"

text \<open>
  \<open>cmd_generate\<close> into a buffer with \<open>space\<close> bytes left.  The slot is written from its end: one longer
  than the buffer is stored outside it.  A negative slot is too narrow for everything.
\<close>

definition generate_into :: "nat \<Rightarrow> byte \<Rightarrow> long \<Rightarrow> long \<Rightarrow> byte list option outcome" where
  "generate_into space opcode arg slot =
     (if slot <s 0 then Inr None
      else if space < unat slot then Inl Trap
      else Inr (cmd_generate opcode arg (unat slot)))"

text \<open>
  The least and the greatest size of a command whose operand lies between the bounds; the size
  is not monotonous: if 0 is within the bounds then the least size is 1.
\<close>

definition cmd_sizes :: "long \<times> long \<Rightarrow> long \<times> long" where
  "cmd_sizes b =
     (let lo = fst b; hi = snd b; m = cmd_size lo; n = cmd_size hi in
      if lo = hi then (word_of_nat m, word_of_nat m)
      else (if lo \<le>s 0 \<and> 0 \<le>s hi then 1 else word_of_nat (min m n), word_of_nat (max m n)))"

definition emit_const_cmd :: "nat \<Rightarrow> byte \<Rightarrow> long \<Rightarrow> ('x ments_scheme, unit) step" where
  "emit_const_cmd sg opcode arg =
     rbind (open_block sg) (\<lambda>el.
     rbind (make_space el (word_of_nat cmd_maxlen)) (\<lambda>off.
     rbind (rget (\<lambda>s. (el_body s el, seg_slot (seg_tab s sg)))) (\<lambda>(b, slot).
     rbind (case b of
              ELEMENT_BLOCK _ alloc \<Rightarrow> (\<lambda>s. obind (generate_into (alloc - off) opcode arg slot) (\<lambda>r. Inr (r, s)))
            | _ \<Rightarrow> rstop Abort) (\<lambda>r.
     rbind (case r of
              None \<Rightarrow> rbind report_error (\<lambda>_. rret [])
            | Some bs \<Rightarrow> rbind (put_bytes el off bs) (\<lambda>_. rret bs)) (\<lambda>bs.
     rbind (grow_size el (word_of_nat (length bs))) (\<lambda>_.
       upd_point sg (\<lambda>p. expr_plus_constant p (word_of_nat (length bs)))))))))"

definition emit_loose_cmd :: "nat \<Rightarrow> nat \<Rightarrow> byte \<Rightarrow> expr \<Rightarrow> ('x ments_scheme, unit) step" where
  "emit_loose_cmd fuel sg opcode arg =
     rbind (add_element sg (ELEMENT_CMD opcode arg)) (\<lambda>el.
     rbind (estimate fuel arg) (\<lambda>b.
     rbind (rget (\<lambda>s. seg_slot (seg_tab s sg))) (\<lambda>slot.
     rbind (if slot \<noteq> 0 \<and> slot <s fst (cmd_sizes b) then report_error else rret ()) (\<lambda>_.
     rbind (range_expr (if slot \<noteq> 0 then (slot, slot) else cmd_sizes b)) (\<lambda>size.
     rbind (set_size el size) (\<lambda>_.
       add_to_point sg el))))))"

definition emit_cmd :: "nat \<Rightarrow> nat \<Rightarrow> byte \<Rightarrow> expr \<Rightarrow> ('x ments_scheme, unit) step" where
  "emit_cmd fuel sg opcode arg =
     rbind (case arg of
              Const c \<Rightarrow> emit_const_cmd sg opcode c
            | _ \<Rightarrow> emit_loose_cmd fuel sg opcode arg) (\<lambda>_.
       upd_seg sg (\<lambda>g. g\<lparr>seg_slot := 0\<rparr>))"

text \<open>\<open>emit_align\<close> returns whether anything was emitted.\<close>

definition emit_align :: "nat \<Rightarrow> nat \<Rightarrow> long \<Rightarrow> expr \<Rightarrow> ('x ments_scheme, bool) step" where
  "emit_align fuel sg align filler =
     rbind (rget (\<lambda>s. seg_point (seg_tab s sg))) (\<lambda>p.
       if align = 0 then rstop Abort
       else case p of
         None \<Rightarrow> rstop Abort
       | Some point \<Rightarrow>
           rbind (\<lambda>s. obind (expr_check_alignment fuel s point align) (\<lambda>x. Inr (x, s))) (\<lambda>shift.
             if shift = 0 then rret False
             else if shift <s align \<and> is_const filler
             then rbind (push_bytes sg (replicate (unat (align - shift)) (ucast (constval filler))))
                    (\<lambda>_. rret True)
             else
               rbind (expr_binop EXPR_MINUS (Const align) point) (\<lambda>d.
               rbind (expr_binop EXPR_AND d (Const (align - 1))) (\<lambda>count.
               rbind (add_element sg (ELEMENT_DATA 1 filler count)) (\<lambda>el.
               rbind (expr_range 0 (align - 1)) (\<lambda>size.
               rbind (set_size el size) (\<lambda>_.
               rbind (add_to_point sg el) (\<lambda>_. rret True))))))))"

text \<open>The size of a \<open>DATA\<close> element: \<open>expr_estimate\<close> of the product of count and width.\<close>

definition data_size :: "nat \<Rightarrow> expr \<Rightarrow> long \<Rightarrow> ('x ments_scheme, expr) step" where
  "data_size fuel count width =
     rbind (expr_binop EXPR_MUL count (Const width)) (\<lambda>e.
     rbind (estimate fuel e) range_expr)"

text \<open>Whether the current element is the same data, and nothing refers to it.\<close>

definition same_data :: "nat \<Rightarrow> long \<Rightarrow> expr \<Rightarrow> ('x ments_scheme, (nat \<times> expr) option) step" where
  "same_data sg width data =
     rbind (rget (\<lambda>s. (seg_curel (seg_tab s sg), el_nrefs s, el_body s))) (\<lambda>(cur, nrefs, body).
       case cur of
         None \<Rightarrow> rret None
       | Some el \<Rightarrow>
           (case body el of
              ELEMENT_DATA w v c \<Rightarrow>
                if nrefs el = 0 \<and> w = width
                then rbind (expr_equal v data) (\<lambda>b. rret (if b then Some (el, c) else None))
                else rret None
            | _ \<Rightarrow> rret None))"

definition extend_data :: "nat \<Rightarrow> nat \<Rightarrow> nat \<Rightarrow> long \<Rightarrow> expr \<Rightarrow> expr \<Rightarrow> expr \<Rightarrow> ('x ments_scheme, unit) step" where
  "extend_data fuel sg el width data old count =
     rbind (rget (\<lambda>s. el_size s el)) (\<lambda>size.
       case size of
         Const c \<Rightarrow>
           rbind (upd_point sg (\<lambda>p. expr_plus_constant p (- c))) (\<lambda>_.
           rbind (expr_asgop EXPR_PLUS old count) (\<lambda>count'.
           rbind (set_body el (ELEMENT_DATA width data count')) (\<lambda>_.
           rbind (data_size fuel count' width) (\<lambda>size'.
           rbind (set_size el size') (\<lambda>_.
             add_to_point sg el)))))
       | _ \<Rightarrow> rstop Abort)"

definition emit_data :: "nat \<Rightarrow> nat \<Rightarrow> long \<Rightarrow> expr \<Rightarrow> expr \<Rightarrow> ('x ments_scheme, unit) step" where
  "emit_data fuel sg width data count =
     rbind (same_data sg width data) (\<lambda>r.
       case r of
         Some (el, old) \<Rightarrow> extend_data fuel sg el width data old count
       | None \<Rightarrow>
           rbind (add_element sg (ELEMENT_DATA width data count)) (\<lambda>el.
           rbind (data_size fuel count width) (\<lambda>size.
           rbind (set_size el size) (\<lambda>_.
             add_to_point sg el))))"

section \<open>Programs of segments\<close>

text \<open>The segment everything in front of the first directive goes to, and the exit of the main programs after errors.\<close>

definition default_segment :: "byte list" where
  "default_segment = bytes_of ''head''"

definition check_errors :: "('x est_scheme, unit) step" where
  "check_errors = rbind (rget errors) (\<lambda>n. if n \<noteq> 0 then rstop Fatal else rret ())"

text \<open>How often an expression refers to an element, and the expressions in an element.\<close>

fun count_elements :: "expr \<Rightarrow> nat \<Rightarrow> nat" where
  "count_elements (Element m) el = (if m = el then 1 else 0)"
| "count_elements (Unop t r) el = count_elements r el"
| "count_elements (Binop t l r) el = count_elements l el + count_elements r el"
| "count_elements (Elsum xs) el = sum_list (map (\<lambda>x. count_elements x el) xs)"
| "count_elements e el = 0"

definition body_exprs :: "element_body \<Rightarrow> expr list" where
  "body_exprs b =
     (case b of ELEMENT_BLOCK _ _ \<Rightarrow> [] | ELEMENT_DATA _ v c \<Rightarrow> [v, c] | ELEMENT_CMD _ a \<Rightarrow> [a])"

section \<open>Passes\<close>

text \<open>The loops over segments, fragments and elements, in the order they run.\<close>

fun each :: "('a \<Rightarrow> ('s, unit) step) \<Rightarrow> 'a list \<Rightarrow> ('s, unit) step" where
  "each f [] = rret ()"
| "each f (x # xs) = rbind (f x) (\<lambda>_. each f xs)"

fun count_each :: "('a \<Rightarrow> ('s, nat) step) \<Rightarrow> 'a list \<Rightarrow> ('s, nat) step" where
  "count_each f [] = rret 0"
| "count_each f (x # xs) = rbind (f x) (\<lambda>m. rbind (count_each f xs) (\<lambda>n. rret (m + n)))"

definition elements_of :: "'x ments_scheme \<Rightarrow> nat list" where
  "elements_of s = concat (map (\<lambda>i. concat (map snd (seg_fragments (seg_tab s i)))) [0..<nsegments s])"

text \<open>\<open>pass_optimize_offsets\<close>: the new bounds on the size of an element, in C's \<open>long\<close>.\<close>

definition reduce_expr :: "nat \<Rightarrow> expr \<Rightarrow> ('x ments_scheme, expr) step" where
  "reduce_expr fuel e = rbind (expr_reduce fuel e) (\<lambda>(_, e'). rret e')"

definition new_bounds :: "nat \<Rightarrow> nat \<Rightarrow> ('x ments_scheme, long \<times> long) step" where
  "new_bounds fuel el =
     rbind (rget (\<lambda>s. el_body s el)) (\<lambda>b.
       case b of
         ELEMENT_BLOCK _ _ \<Rightarrow> rstop Abort
       | ELEMENT_CMD opcode arg \<Rightarrow>
           rbind (reduce_expr fuel arg) (\<lambda>arg'.
           rbind (set_body el (ELEMENT_CMD opcode arg')) (\<lambda>_.
           rbind (estimate fuel arg') (\<lambda>b. rret (cmd_sizes b))))
       | ELEMENT_DATA width data count \<Rightarrow>
           rbind (reduce_expr fuel count) (\<lambda>count'.
           rbind (set_body el (ELEMENT_DATA width data count')) (\<lambda>_.
           rbind (estimate fuel count') (\<lambda>(lo, hi).
           rbind (if lo = hi \<and> lo <s 0 then report_error else rret ()) (\<lambda>_.
             rret (lo * width, hi * width))))))"

text \<open>The range node of the size is changed in place: it keeps its identity.\<close>

definition optimize_element :: "nat \<Rightarrow> nat \<Rightarrow> ('x ments_scheme, nat) step" where
  "optimize_element fuel el =
     rbind (rget (\<lambda>s. el_size s el)) (\<lambda>size0.
       if is_const size0 then rret 0
       else
         rbind (new_bounds fuel el) (\<lambda>(minsz, maxsz).
         rbind (rget (\<lambda>s. el_size s el)) (\<lambda>size.
           case size of
             Range i lo hi \<Rightarrow>
               if lo = minsz \<and> hi = maxsz then rret 0
               else if minsz <s lo \<or> hi <s maxsz then rstop Abort
               else rbind (set_size el (if minsz = maxsz then Const minsz else Range i minsz maxsz)) (\<lambda>_. rret 1)
           | _ \<Rightarrow> rstop Abort)))"

definition pass_optimize_offsets :: "nat \<Rightarrow> ('x ments_scheme, nat) step" where
  "pass_optimize_offsets fuel = rbind (rget elements_of) (count_each (optimize_element fuel))"

text \<open>
  The loop of the linker and the assembler: at most \<open>maxpasses\<close> passes, an \<open>int\<close> whose value as a number is the argument
  here (none when it is negative), until one has no effect.
\<close>

fun optimize_loop :: "nat \<Rightarrow> nat \<Rightarrow> ('x ments_scheme, bool) step" where
  "optimize_loop fuel 0 = rret False"
| "optimize_loop fuel (Suc passes) =
     rbind (pass_optimize_offsets fuel) (\<lambda>effect.
       if effect = 0 then rret True else optimize_loop fuel passes)"

text \<open>\<open>pass_freeze\<close>\<close>

definition freeze_element :: "nat \<Rightarrow> ('x ments_scheme, unit) step" where
  "freeze_element el =
     rbind (rget (\<lambda>s. (el_size s el, el_body s el))) (\<lambda>(size, b).
       if is_const size then rret ()
       else case b of
         ELEMENT_BLOCK _ _ \<Rightarrow> rstop Abort
       | ELEMENT_DATA width data count \<Rightarrow> rbind (expr_binop EXPR_MUL count (Const width)) (set_size el)
       | ELEMENT_CMD opcode arg \<Rightarrow>
           (case size of Range i lo hi \<Rightarrow> set_size el (Const hi) | _ \<Rightarrow> rstop Abort))"

definition pass_freeze :: "('x ments_scheme, unit) step" where
  "pass_freeze = rbind (rget elements_of) (each freeze_element)"

text \<open>\<open>pass_reduce\<close>\<close>

definition reduce_element :: "nat \<Rightarrow> nat \<Rightarrow> ('x ments_scheme, unit) step" where
  "reduce_element fuel el =
     rbind (rget (\<lambda>s. el_size s el)) (\<lambda>size.
     rbind (reduce_expr fuel size) (\<lambda>size'.
     rbind (set_size el size') (\<lambda>_.
     rbind (rget (\<lambda>s. el_body s el)) (\<lambda>b.
       case b of
         ELEMENT_BLOCK _ _ \<Rightarrow> rret ()
       | ELEMENT_DATA width data count \<Rightarrow>
           rbind (reduce_expr fuel data) (\<lambda>data'.
           rbind (reduce_expr fuel count) (\<lambda>count'. set_body el (ELEMENT_DATA width data' count')))
       | ELEMENT_CMD opcode arg \<Rightarrow>
           rbind (reduce_expr fuel arg) (\<lambda>arg'. set_body el (ELEMENT_CMD opcode arg'))))))"

definition pass_reduce :: "nat \<Rightarrow> ('x ments_scheme, unit) step" where
  "pass_reduce fuel = rbind (rget elements_of) (each (reduce_element fuel))"

text \<open>
  \<open>byteable\<close>: the loop shifts before it compares, so the byte above the word is compared, too.
\<close>

definition byteable :: "long \<Rightarrow> long \<Rightarrow> bool" where
  "byteable word width \<longleftrightarrow>
     (\<forall>i \<in> set [1..<Suc (nat (sint width))]. (ucast (signed_drop_bit (8 * i) word) :: byte) = ucast word)"

definition canonicalize_element :: "nat \<Rightarrow> nat \<Rightarrow> ('x ments_scheme, unit) step" where
  "canonicalize_element fuel el =
     rbind (rget (\<lambda>s. el_body s el)) (\<lambda>b.
       case b of
         ELEMENT_DATA width data count \<Rightarrow>
           rbind (reduce_expr fuel data) (\<lambda>data'.
             if is_const data' \<and> 1 <s width \<and> byteable (constval data') width
             then rbind (expr_binop EXPR_MUL count (Const width)) (\<lambda>count'.
                    set_body el (ELEMENT_DATA 1 data' count'))
             else set_body el (ELEMENT_DATA width data' count))
       | _ \<Rightarrow> rret ())"

definition pass_canonicalize :: "nat \<Rightarrow> ('x ments_scheme, unit) step" where
  "pass_canonicalize fuel = rbind (rget elements_of) (each (canonicalize_element fuel))"

text \<open>
  \<open>pass_unroll\<close>.  Two neighbouring \<open>DATA\<close> elements nothing refers to become one if they repeat the same
  value; constant data below the threshold and commands with a constant operand become blocks.
\<close>

definition mergeable_data :: "nat \<Rightarrow> nat \<Rightarrow> ('x ments_scheme, bool) step" where
  "mergeable_data el nl =
     rbind (rget (\<lambda>s. (el_nrefs s, el_body s))) (\<lambda>(nrefs, body).
       case (body el, body nl) of
         (ELEMENT_DATA w v c, ELEMENT_DATA w' v' c') \<Rightarrow>
           if nrefs el = 0 \<and> nrefs nl = 0
           then rbind (expr_equal v v') (\<lambda>b. rret (b \<and> w = w'))
           else rret False
       | _ \<Rightarrow> rret False)"

definition merge_data :: "nat \<Rightarrow> nat \<Rightarrow> nat \<Rightarrow> ('x ments_scheme, unit) step" where
  "merge_data fuel el nl =
     rbind (rget (\<lambda>s. (el_body s, el_size s))) (\<lambda>(body, size).
       case (body el, body nl) of
         (ELEMENT_DATA w v c, ELEMENT_DATA w' v' c') \<Rightarrow>
           rbind (expr_binop EXPR_PLUS c c') (\<lambda>count.
           rbind (set_body el (ELEMENT_DATA w v count)) (\<lambda>_.
           rbind (expr_binop EXPR_PLUS (size el) (size nl)) (\<lambda>e.
           rbind (rbind (estimate fuel e) range_expr) (\<lambda>size'.
           rbind (set_size el size') (\<lambda>_. element_free nl)))))
       | _ \<Rightarrow> rstop Abort)"

definition data_bytes :: "long \<Rightarrow> long \<Rightarrow> long \<Rightarrow> byte list" where
  "data_bytes width data count =
     concat (replicate (nat (sint count))
       (map (\<lambda>j. ucast (signed_drop_bit (8 * j) data)) [0..<nat (sint width)]))"

definition unroll_data :: "long \<Rightarrow> nat \<Rightarrow> ('x ments_scheme, unit) step" where
  "unroll_data threshold el =
     rbind (rget (\<lambda>s. el_body s el)) (\<lambda>b.
       case b of
         ELEMENT_DATA width (Const v) (Const c) \<Rightarrow>
           if c * width <s threshold
           then rbind (set_body el (ELEMENT_BLOCK [] 0)) (\<lambda>_.
                rbind (make_space el 0) (\<lambda>_. put_bytes el 0 (data_bytes width v c)))
           else rret ()
       | _ \<Rightarrow> rret ())"

text \<open>A command that does not fit is reported; what is left in its buffer is not modelled.\<close>

definition unroll_cmd :: "nat \<Rightarrow> nat \<Rightarrow> byte \<Rightarrow> expr \<Rightarrow> ('x ments_scheme, unit) step" where
  "unroll_cmd fuel el opcode arg =
     rbind (reduce_expr fuel arg) (\<lambda>arg'.
       case arg' of
         Const c \<Rightarrow>
           rbind (set_body el (ELEMENT_BLOCK [] 0)) (\<lambda>_.
           rbind (make_space el (word_of_nat cmd_maxlen)) (\<lambda>_.
           rbind (rget (\<lambda>s. (el_body s el, el_size s el))) (\<lambda>(b, size).
             case b of
               ELEMENT_BLOCK _ alloc \<Rightarrow>
                 rbind (\<lambda>s. obind (generate_into alloc opcode c (constval size)) (\<lambda>r. Inr (r, s))) (\<lambda>r.
                   case r of None \<Rightarrow> report_error | Some bs \<Rightarrow> put_bytes el 0 bs)
             | _ \<Rightarrow> rstop Abort)))
       | _ \<Rightarrow> set_body el (ELEMENT_CMD opcode arg'))"

definition unroll_element :: "nat \<Rightarrow> long \<Rightarrow> nat \<Rightarrow> ('x ments_scheme, unit) step" where
  "unroll_element fuel threshold el =
     rbind (rget (\<lambda>s. el_body s el)) (\<lambda>b.
       case b of
         ELEMENT_BLOCK _ _ \<Rightarrow> rret ()
       | ELEMENT_DATA _ _ _ \<Rightarrow> unroll_data threshold el
       | ELEMENT_CMD opcode arg \<Rightarrow> unroll_cmd fuel el opcode arg)"

fun unroll_chain :: "nat \<Rightarrow> long \<Rightarrow> nat list \<Rightarrow> ('x ments_scheme, nat list) step" where
  "unroll_chain fuel threshold [] = rret []"
| "unroll_chain fuel threshold [el] = rbind (unroll_element fuel threshold el) (\<lambda>_. rret [el])"
| "unroll_chain fuel threshold (el # nl # els) =
     rbind (mergeable_data el nl) (\<lambda>b.
       if b then rbind (merge_data fuel el nl) (\<lambda>_. unroll_chain fuel threshold (el # els))
       else rbind (unroll_element fuel threshold el) (\<lambda>_.
            rbind (unroll_chain fuel threshold (nl # els)) (\<lambda>els'. rret (el # els'))))"

text \<open>Replace the chains of a segment, from the first fragment to the last.\<close>

fun map_chains ::
  "(nat list \<Rightarrow> ('x ments_scheme, nat list) step) \<Rightarrow> (nat \<times> nat list) list \<Rightarrow>
     ('x ments_scheme, (nat \<times> nat list) list) step"
where
  "map_chains f [] = rret []"
| "map_chains f ((n, els) # fs) =
     rbind (f els) (\<lambda>els'. rbind (map_chains f fs) (\<lambda>fs'. rret ((n, els') # fs')))"

definition map_segment ::
  "(segment \<Rightarrow> nat list \<Rightarrow> ('x ments_scheme, nat list) step) \<Rightarrow> nat \<Rightarrow> ('x ments_scheme, unit) step"
where
  "map_segment f sg =
     rbind (rget (\<lambda>s. seg_tab s sg)) (\<lambda>g.
     rbind (map_chains (f g) (seg_fragments g)) (\<lambda>fs.
       upd_seg sg (\<lambda>g. g\<lparr>seg_fragments := fs\<rparr>)))"

definition pass_unroll :: "nat \<Rightarrow> ('x ments_scheme, unit) step" where
  "pass_unroll fuel =
     rbind (rget nsegments) (\<lambda>n.
       each (map_segment (\<lambda>g. unroll_chain fuel (seg_threshold g))) [0..<n])"

text \<open>\<open>pass_merge\<close>; reading bytes that were never written is a \<open>Trap\<close>.\<close>

definition mergeable_blocks :: "nat \<Rightarrow> nat \<Rightarrow> ('x ments_scheme, bool) step" where
  "mergeable_blocks el nl =
     rget (\<lambda>s. is_block (el_body s el) \<and> el_nrefs s el = 0 \<and> el_nrefs s nl = 0 \<and> is_block (el_body s nl))"

definition block_contents :: "nat \<Rightarrow> ('x ments_scheme, byte list) step" where
  "block_contents el =
     rbind (rget (\<lambda>s. (el_body s el, el_size s el))) (\<lambda>(b, size).
       case b of
         ELEMENT_BLOCK bs _ \<Rightarrow>
           let n = unat (constval size) in
           if is_const size \<and> n \<le> length bs then rret (take n bs) else rstop Trap
       | _ \<Rightarrow> rstop Abort)"

definition merge_block :: "nat \<Rightarrow> nat \<Rightarrow> ('x ments_scheme, unit) step" where
  "merge_block el nl =
     rbind (block_contents nl) (\<lambda>bs.
     rbind (make_space el (word_of_nat (length bs))) (\<lambda>off.
     rbind (put_bytes el off bs) (\<lambda>_.
     rbind (grow_size el (word_of_nat (length bs))) (\<lambda>_. element_free nl))))"

fun merge_chain :: "nat list \<Rightarrow> ('x ments_scheme, nat list) step" where
  "merge_chain [] = rret []"
| "merge_chain [el] = rret [el]"
| "merge_chain (el # nl # els) =
     rbind (mergeable_blocks el nl) (\<lambda>b.
       if b then rbind (merge_block el nl) (\<lambda>_. merge_chain (el # els))
       else rbind (merge_chain (nl # els)) (\<lambda>els'. rret (el # els')))"

definition pass_merge :: "('x ments_scheme, unit) step" where
  "pass_merge = rbind (rget nsegments) (\<lambda>n. each (map_segment (\<lambda>_. merge_chain)) [0..<n])"

text \<open>\<open>pass_needs\<close>: the elements are numbered in the order they will be written.\<close>

definition needs_unless_const :: "nat \<Rightarrow> expr \<Rightarrow> ('x ments_scheme, unit) step" where
  "needs_unless_const frag e = (if is_const e then rret () else record_needs frag e)"

fun needs_chain :: "nat \<Rightarrow> nat list \<Rightarrow> long \<Rightarrow> ('x ments_scheme, long) step" where
  "needs_chain frag [] index = rret index"
| "needs_chain frag (el # els) index =
     rbind (rmodify (\<lambda>s. s\<lparr>el_idx := (el_idx s)(el := index)\<rparr>)) (\<lambda>_.
     rbind (rget (\<lambda>s. el_body s el)) (\<lambda>b.
     rbind (case b of
              ELEMENT_BLOCK _ _ \<Rightarrow> rret ()
            | ELEMENT_DATA _ data count \<Rightarrow>
                rbind (needs_unless_const frag data) (\<lambda>_. needs_unless_const frag count)
            | ELEMENT_CMD _ arg \<Rightarrow> record_needs frag arg) (\<lambda>_.
       needs_chain frag els (index + 1))))"

fun needs_fragments :: "(nat \<times> nat list) list \<Rightarrow> long \<Rightarrow> ('x ments_scheme, long) step" where
  "needs_fragments [] index = rret index"
| "needs_fragments ((frag, els) # fs) index =
     rbind (needs_chain frag els index) (needs_fragments fs)"

definition fragments_of :: "'x ments_scheme \<Rightarrow> (nat \<times> nat list) list" where
  "fragments_of s = concat (map (\<lambda>i. seg_fragments (seg_tab s i)) [0..<nsegments s])"

definition pass_needs :: "('x ments_scheme, unit) step" where
  "pass_needs = rbind (rget fragments_of) (\<lambda>fs. rbind (needs_fragments fs 0) (\<lambda>_. rret ()))"

text \<open>\<open>pass_output_segments\<close>, up to the marker of the area.\<close>

definition file_indices :: "'x ments_scheme \<Rightarrow> indices" where
  "file_indices s = \<lparr>name_index = name_idx s, el_index = el_idx s\<rparr>"

definition out_element :: "'x ments_scheme \<Rightarrow> nat \<Rightarrow> byte list outcome" where
  "out_element s el =
     (let ix = file_indices s; size = el_size s el in
      case el_body s el of
        ELEMENT_BLOCK bs _ \<Rightarrow> obind (block_contents el s) (\<lambda>(bs, _). Inr (lit_out_string bs))
      | ELEMENT_DATA width data count \<Rightarrow>
          obind (lit_out_expr ix data) (\<lambda>v.
          obind (lit_out_expr ix count) (\<lambda>c.
          obind (lit_out_expr ix size) (\<lambda>z.
            Inr (lit_out_number LIT_DATA @ lit_out_number width @ v @ c @ z))))
      | ELEMENT_CMD opcode arg \<Rightarrow>
          obind (lit_out_expr ix arg) (\<lambda>a.
          obind (lit_out_expr ix size) (\<lambda>z.
            Inr (lit_out_number LIT_CMD @ lit_out_number (ucast opcode :: long) @ a @ z))))"

fun out_each :: "('a \<Rightarrow> byte list outcome) \<Rightarrow> 'a list \<Rightarrow> byte list outcome" where
  "out_each f [] = Inr []"
| "out_each f (x # xs) = obind (f x) (\<lambda>b. obind (out_each f xs) (\<lambda>bs. Inr (b @ bs)))"

definition out_fragment :: "'x ments_scheme \<Rightarrow> bool \<times> nat \<times> nat list \<Rightarrow> byte list outcome" where
  "out_fragment s = (\<lambda>(first, frag, els).
     obind (out_each (out_element s) els) (\<lambda>bs.
       Inr ((if first then []
             else lit_out_number LIT_FRAGMENT @ lit_out_number (name_idx s frag)
                    @ lit_out_number (name_align s frag)) @ bs)))"

definition out_segment :: "'x ments_scheme \<Rightarrow> nat \<Rightarrow> byte list outcome" where
  "out_segment s i =
     (let g = seg_tab s i; fs = seg_fragments g in
      if i \<noteq> 0 \<and> fs = [] then Inl Trap
      else obind (out_each (out_fragment s) (zip (map (\<lambda>j. j = 0) [0..<length fs]) fs)) (\<lambda>bs.
        Inr ((if i = 0 then []
              else lit_out_number LIT_SEGMENT @ lit_out_string (c_string (name_ident s (seg_name g)))
                     @ lit_out_number (name_idx s (fst (hd fs)))) @ bs)))"

definition pass_output_segments :: "'x ments_scheme \<Rightarrow> byte list outcome" where
  "pass_output_segments s = out_each (out_segment s) [0..<nsegments s]"

end
