(* ===== verification/Emit.thy ===== *)
theory Emit
  imports Ments
begin

text \<open>
  What the emitting routines of \<open>shared/ments.c\<close> promise: the bounds on the sizes of commands, the
  meaning of the current point of a segment, and alignment.
\<close>

section \<open>Sizes of commands\<close>

lemma cmd_size_1_le: "1 \<le> cmd_size (v :: long)"
  using cmd_size_le_iff [of v 0] by simp

lemma cmd_size_between:
  fixes lo hi v :: long
  assumes "sint lo \<le> sint v" "sint v \<le> sint hi"
  shows "cmd_size v \<le> max (cmd_size lo) (cmd_size hi)"
    and "\<not> (sint lo \<le> 0 \<and> 0 \<le> sint hi) \<Longrightarrow> min (cmd_size lo) (cmd_size hi) \<le> cmd_size v"
proof -
  let ?m = "max (cmd_size lo) (cmd_size hi)"
  have "cmd_size lo \<le> ?m" "cmd_size hi \<le> ?m" by simp_all
  with assms show "cmd_size v \<le> ?m"
    unfolding cmd_size_le_iff [where 'l = 32, simplified] by linarith
next
  let ?m = "cmd_size v"
  assume out: "\<not> (sint lo \<le> 0 \<and> 0 \<le> sint hi)"
  have v: "1 \<le> ?m" "- (16 ^ ?m) \<le> sint v" "sint v < 16 ^ ?m" "?m = 1 \<longrightarrow> 0 \<le> sint v"
    using cmd_size_le_iff [of v ?m] by simp_all
  show "min (cmd_size lo) (cmd_size hi) \<le> ?m"
  proof (cases "0 < sint lo")
    case True
    with assms v have "cmd_size lo \<le> ?m"
      unfolding cmd_size_le_iff [where 'l = 32, simplified] by auto
    then show ?thesis by simp
  next
    case False
    with out assms v have "cmd_size hi \<le> ?m"
      unfolding cmd_size_le_iff [where 'l = 32, simplified]
      using zero_less_power [of "16::int" ?m] by auto
    then show ?thesis by simp
  qed
qed

lemma cmd_size_word: "sint (word_of_nat (cmd_size (v :: long)) :: long) = int (cmd_size v)"
  using cmd_size_long [of v] sint_word_of_int_eq [where 'l = 32, of "int (cmd_size v)"]
  by (simp add: cmd_maxlen_def)

lemma cmd_sizes_sound:
  assumes "within v b"
  shows "within (word_of_nat (cmd_size v)) (cmd_sizes b)"
proof (cases "fst b = snd b")
  case True
  with assms have "v = fst b"
    by (simp add: within_def word_sle_eq) (metis antisym signed_word_eqI)
  with True show ?thesis by (simp add: cmd_sizes_def within_def Let_def)
next
  case False
  let ?lo = "fst b" and ?hi = "snd b"
  have le: "sint ?lo \<le> sint v" "sint v \<le> sint ?hi"
    using assms by (simp_all add: within_def word_sle_eq)
  have w: "sint (word_of_nat (min (cmd_size ?lo) (cmd_size ?hi)) :: long) = int (min (cmd_size ?lo) (cmd_size ?hi))"
    "sint (word_of_nat (max (cmd_size ?lo) (cmd_size ?hi)) :: long) = int (max (cmd_size ?lo) (cmd_size ?hi))"
    by (simp_all add: min_def max_def cmd_size_word)
  have one: "1 \<le> int (cmd_size v)" using cmd_size_1_le [of v] by linarith
  show ?thesis
    using cmd_size_between [OF le] False w one
    by (auto simp: cmd_sizes_def within_def word_sle_eq cmd_size_word Let_def)
qed

section \<open>Adding to an expression\<close>

fun mentions :: "expr \<Rightarrow> nat set" where
  "mentions (Element n) = {n}"
| "mentions (Elsum es) = (\<Union>e\<in>set es. mentions e)"
| "mentions (Unop t e) = mentions e"
| "mentions (Binop t l r) = mentions l \<union> mentions r"
| "mentions _ = {}"

lemma expr_binop_mentions:
  "expr_binop t e1 e2 s = Inr (e, s') \<Longrightarrow> mentions e \<subseteq> mentions e1 \<union> mentions e2"
proof (cases "is_const e1 \<and> is_const e2")
  case True
  then show "expr_binop t e1 e2 s = Inr (e, s') \<Longrightarrow> mentions e \<subseteq> mentions e1 \<union> mentions e2"
    by (auto simp: expr_binop_def outcome_iff is_const_iff)
next
  case False
  then have "expr_binop t e1 e2 s =
      (if tag_iscomm t \<and> is_const e1 then expr_binop_general t e2 e1 s else expr_binop_general t e1 e2 s)"
    by (cases e1; cases e2) (auto simp: expr_binop_def)
  moreover have "mentions e \<subseteq> mentions x \<union> mentions y"
    if "expr_binop_general t x y s = Inr (e, s')" for x y
    using that
    by (auto simp: expr_binop_general_def outcome_iff split: expr.splits expr_tag.splits if_splits)
  ultimately show "expr_binop t e1 e2 s = Inr (e, s') \<Longrightarrow> mentions e \<subseteq> mentions e1 \<union> mentions e2"
    by (fastforce split: if_splits)
qed

text \<open>\<open>e'\<close> is \<open>e\<close> plus something that mentions \<open>M\<close> at most.\<close>

definition adds ::
  "expr \<Rightarrow> (env \<Rightarrow> long) \<Rightarrow> nat set \<Rightarrow> 'x est_scheme \<Rightarrow> expr \<Rightarrow> 'x est_scheme \<Rightarrow> bool"
where
  "adds e x M s e' s' \<longleftrightarrow>
     wf_expr False e' \<and> (\<forall>\<rho>. valof \<rho> e' = valof \<rho> e + x \<rho>) \<and> mentions e' \<subseteq> mentions e \<union> M \<and> calm s s'"

lemma expr_binop_adds:
  assumes "expr_binop EXPR_PLUS e1 e2 s = Inr (e, s')" "wf_expr False e1" "wf_expr False e2"
  shows "adds e1 (\<lambda>\<rho>. valof \<rho> e2) (mentions e2) s e s'"
  using expr_binop_sound [OF assms(1) _ assms(2,3)] expr_binop_mentions [OF assms(1)]
  by (auto simp: adds_def)

lemma expr_asgop_adds:
  assumes "expr_asgop EXPR_PLUS e1 e2 s = Inr (e, s')" "wf_expr False e1" "wf_expr False e2"
  shows "adds e1 (\<lambda>\<rho>. valof \<rho> e2) (mentions e2) s e s'"
proof -
  have "mentions e \<subseteq> mentions e1 \<union> mentions e2"
    using assms(1) expr_binop_mentions
    by (cases e1) (force simp: expr_asgop_def is_const_iff outcome_iff split: if_splits)+
  then show ?thesis
    using expr_asgop_sound [OF assms(1) _ assms(2,3)] by (auto simp: adds_def)
qed

lemma expr_plus_constant_adds:
  assumes "expr_plus_constant e n s = Inr (e', s')" "wf_expr False e"
  shows "adds e (\<lambda>_. n) {} s e' s'"
proof (cases "\<exists>x c. e = Binop EXPR_PLUS x (Const c)")
  case True
  with assms show ?thesis
    by (auto simp: expr_plus_constant_def outcome_iff adds_def valof_simps)
next
  case False
  then have "expr_plus_constant e n s = expr_binop EXPR_PLUS e (Const n) s"
    by (auto simp: expr_plus_constant_def split: expr.split expr_tag.split)
  with expr_binop_adds [of e "Const n" s e' s'] assms show ?thesis
    by (simp add: valof_simps)
qed

lemma expr_glue_element_None:
  "expr_glue_element e el s = Inr (None, s') \<Longrightarrow> s' = s"
  by (induction e el arbitrary: s s' rule: expr_glue_element.induct)
    (force simp: outcome_iff split: if_splits option.splits)+

lemma expr_glue_element_adds:
  assumes "expr_glue_element e el s = Inr (Some e', s')" "wf_expr False e" "wf_expr False el"
  shows "adds e (\<lambda>\<rho>. valof \<rho> el) (mentions el) s e' s'"
  using assms
proof (induction e el arbitrary: s e' s' rule: expr_glue_element.induct)
  case (3 t l r el)
  then have t: "t = EXPR_PLUS" and wf: "wf_expr False l" "wf_expr False r"
    by (auto simp: outcome_iff split: if_splits)
  from "3.prems"(1) t obtain l' s1 where l: "expr_glue_element l el s = Inr (l', s1)"
    by (auto simp: outcome_iff)
  show ?case
  proof (cases l')
    case (Some l'')
    with "3.prems"(1) t l have b: "expr_binop EXPR_PLUS l'' r s1 = Inr (e', s')"
      by (auto simp: outcome_iff)
    have 1: "adds l (\<lambda>\<rho>. valof \<rho> el) (mentions el) s l'' s1"
      using "3.IH"(1) [OF t l [unfolded Some] wf(1) "3.prems"(3)] .
    then have "wf_expr False l''" by (simp add: adds_def)
    from expr_binop_adds [OF b this wf(2)] 1 t show ?thesis
      by (auto simp: adds_def valof_simps algebra_simps intro: calm_trans)
  next
    case None
    have c: "calm s s1" using expr_glue_element_None l None by fastforce
    from "3.prems"(1) t l None obtain r'' s2 where r: "expr_glue_element r el s1 = Inr (Some r'', s2)"
      and b: "expr_binop EXPR_PLUS l r'' s2 = Inr (e', s')"
      by (auto simp: outcome_iff split: option.splits)
    have 1: "adds r (\<lambda>\<rho>. valof \<rho> el) (mentions el) s1 r'' s2"
      using "3.IH"(2) [OF t r wf(2) "3.prems"(3)] .
    then have "wf_expr False r''" by (simp add: adds_def)
    from expr_binop_adds [OF b wf(1) this] 1 c t show ?thesis
      by (auto simp: adds_def valof_simps algebra_simps intro: calm_trans)
  qed
qed (auto simp: outcome_iff adds_def valof_simps)

text \<open>An element of constant size is not mentioned, its size is added.\<close>

lemma expr_plus_element_adds:
  assumes "expr_plus_element e el s = Inr (e', s')" "wf_expr False e"
  shows "adds e (\<lambda>\<rho>. case el_size s el of Const c \<Rightarrow> c | _ \<Rightarrow> vel \<rho> el)
           (if is_const (el_size s el) then {} else {el}) s e' s'"
proof (cases "is_const (el_size s el)")
  case True
  with assms expr_plus_constant_adds [of e _ s e' s'] show ?thesis
    by (auto simp: expr_plus_element_def outcome_iff is_const_iff)
next
  case False
  with assms(1) obtain g s1 where g: "expr_glue_element e (Element el) s = Inr (g, s1)"
    and rest: "(case g of Some e' \<Rightarrow> rret e' | None \<Rightarrow> expr_asgop EXPR_PLUS e (Element el)) s1 = Inr (e', s')"
    by (cases "el_size s el") (auto simp: expr_plus_element_def outcome_iff)
  have sz: "(case el_size s el of Const c \<Rightarrow> c | _ \<Rightarrow> vel \<rho> el) = valof \<rho> (Element el)" for \<rho>
    using False by (cases "el_size s el") (simp_all add: valof_simps)
  show ?thesis
  proof (cases g)
    case None
    then have "s1 = s" using g by (simp add: expr_glue_element_None)
    with None rest False expr_asgop_adds [of e "Element el" s e' s'] assms(2) show ?thesis
      by (simp only: sz) simp
  next
    case (Some e1)
    with g rest False expr_glue_element_adds [of e "Element el" s e' s'] assms(2) show ?thesis
      by (simp only: sz) (simp add: outcome_iff)
  qed
qed

section \<open>The current point\<close>

definition simple_size :: "expr \<Rightarrow> bool" where
  "simple_size e \<longleftrightarrow> is_const e \<or> tag_of e = EXPR_RANGE"

text \<open>
  The point of a segment is the start of its last fragment plus the sizes of the elements in
  it, whatever values the sizes that are not known yet will have, in all environments of a set.
\<close>

definition point_ok :: "(env \<Rightarrow> bool) \<Rightarrow> (nat \<Rightarrow> expr) \<Rightarrow> segment \<Rightarrow> bool" where
  "point_ok C sz g \<longleftrightarrow>
     seg_fragments g \<noteq> [] \<and>
     (let (frag, els) = last (seg_fragments g) in
        seg_curel g = (if els = [] then None else Some (last els)) \<and>
        (\<exists>p. seg_point g = Some p \<and> wf_expr False p \<and> mentions p \<subseteq> {el \<in> set els. \<not> is_const (sz el)} \<and>
           (\<forall>\<rho>. C \<rho> \<longrightarrow> (\<forall>el\<in>set els. \<not> is_const (sz el) \<longrightarrow> vel \<rho> el = valof \<rho> (sz el)) \<longrightarrow>
              valof \<rho> p = vname \<rho> frag + sum_list (map (\<lambda>el. valof \<rho> (sz el)) els))))"

definition seg_elements :: "segment \<Rightarrow> nat list" where
  "seg_elements g = concat (map snd (seg_fragments g))"

text \<open>Well-formed programs: chains do not share elements, sizes are constants or ranges.\<close>

definition wf_program :: "(env \<Rightarrow> bool) \<Rightarrow> 'x ments_scheme \<Rightarrow> bool" where
  "wf_program C s \<longleftrightarrow>
     (\<forall>n. simple_size (el_size s n)) \<and>
     (\<forall>i < nsegments s. point_ok C (el_size s) (seg_tab s i) \<and> distinct (seg_elements (seg_tab s i)) \<and>
        (\<forall>el \<in> set (seg_elements (seg_tab s i)). el < next_el s)) \<and>
     (\<forall>i < nsegments s. \<forall>j < nsegments s. i \<noteq> j \<longrightarrow>
        set (seg_elements (seg_tab s i)) \<inter> set (seg_elements (seg_tab s j)) = {})"

lemma last_chain_elements:
  "seg_fragments g \<noteq> [] \<Longrightarrow> last (seg_fragments g) = (frag, els) \<Longrightarrow>
     set els \<subseteq> set (seg_elements g) \<and> (distinct (seg_elements g) \<longrightarrow> distinct els)"
  by (cases "seg_fragments g" rule: rev_cases) (auto simp: seg_elements_def)

lemma point_okI:
  assumes "seg_fragments g \<noteq> []" "last (seg_fragments g) = (frag, els)"
    "seg_curel g = (if els = [] then None else Some (last els))" "seg_point g = Some p" "wf_expr False p"
    "mentions p \<subseteq> {el \<in> set els. \<not> is_const (sz el)}"
    "\<And>\<rho>. C \<rho> \<Longrightarrow> (\<forall>el\<in>set els. \<not> is_const (sz el) \<longrightarrow> vel \<rho> el = valof \<rho> (sz el)) \<Longrightarrow>
       valof \<rho> p = vname \<rho> frag + sum_list (map (\<lambda>el. valof \<rho> (sz el)) els)"
  shows "point_ok C sz g"
  using assms by (simp add: point_ok_def)

lemma point_okE:
  assumes "point_ok C sz g"
  obtains frag els p where "seg_fragments g \<noteq> []" "last (seg_fragments g) = (frag, els)"
    "seg_curel g = (if els = [] then None else Some (last els))" "seg_point g = Some p" "wf_expr False p"
    "mentions p \<subseteq> {el \<in> set els. \<not> is_const (sz el)}"
    "\<And>\<rho>. C \<rho> \<Longrightarrow> (\<forall>el\<in>set els. \<not> is_const (sz el) \<longrightarrow> vel \<rho> el = valof \<rho> (sz el)) \<Longrightarrow>
       valof \<rho> p = vname \<rho> frag + sum_list (map (\<lambda>el. valof \<rho> (sz el)) els)"
  using assms by (cases "last (seg_fragments g)") (simp only: point_ok_def Let_def prod.case, blast)

lemma point_ok_cong:
  assumes ok: "point_ok C sz g" and eq: "\<And>el. el \<in> set (seg_elements g) \<Longrightarrow> sz' el = sz el"
  shows "point_ok C sz' g"
  using ok
proof (rule point_okE)
  fix frag els p
  assume g: "seg_fragments g \<noteq> []" "last (seg_fragments g) = (frag, els)"
    "seg_curel g = (if els = [] then None else Some (last els))" "seg_point g = Some p" "wf_expr False p"
    and m: "mentions p \<subseteq> {el \<in> set els. \<not> is_const (sz el)}"
    and v: "\<And>\<rho>. C \<rho> \<Longrightarrow> (\<forall>el\<in>set els. \<not> is_const (sz el) \<longrightarrow> vel \<rho> el = valof \<rho> (sz el)) \<Longrightarrow>
       valof \<rho> p = vname \<rho> frag + sum_list (map (\<lambda>el. valof \<rho> (sz el)) els)"
  have e: "sz' el = sz el" if "el \<in> set els" for el
    using eq that last_chain_elements [OF g(1,2)] by blast
  show "point_ok C sz' g"
  proof (rule point_okI [OF g])
    show "mentions p \<subseteq> {el \<in> set els. \<not> is_const (sz' el)}" using m e by auto
    fix \<rho> :: env
    assume C: "C \<rho>"
    assume "\<forall>el\<in>set els. \<not> is_const (sz' el) \<longrightarrow> vel \<rho> el = valof \<rho> (sz' el)"
    with e have "\<forall>el\<in>set els. \<not> is_const (sz el) \<longrightarrow> vel \<rho> el = valof \<rho> (sz el)" by simp
    moreover have "map (\<lambda>el. valof \<rho> (sz' el)) els = map (\<lambda>el. valof \<rho> (sz el)) els"
      using e by simp
    ultimately show "valof \<rho> p = vname \<rho> frag + sum_list (map (\<lambda>el. valof \<rho> (sz' el)) els)"
      by (simp only: v [OF C])
  qed
qed

lemma sum_list_fun_upd:
  fixes f :: "nat \<Rightarrow> long"
  assumes "distinct els" "el \<in> set els"
  shows "sum_list (map (f(el := y)) els) = sum_list (map f els) - f el + y"
  using assms
proof (induction els)
  case (Cons x els)
  have "map (f(el := y)) els = map f els" if "el \<notin> set els"
    by (rule map_cong) (use that in auto)
  with Cons show ?case
    by (cases "x = el") (simp_all del: fun_upd_apply, simp_all)
qed simp

lemma point_ok_resize:
  assumes ok: "point_ok C sz g" and l: "last (seg_fragments g) = (frag, els)" and el: "distinct els" "el \<in> set els"
    and c: "sz el = Const c" and p: "seg_point g = Some p"
    and p': "wf_expr False p'" "mentions p' \<subseteq> mentions p \<union> (if is_const size' then {} else {el})"
      "\<And>\<rho>. valof \<rho> p' = valof \<rho> p - c + (case size' of Const d \<Rightarrow> d | _ \<Rightarrow> vel \<rho> el)"
    and g': "seg_fragments g' = seg_fragments g" "seg_curel g' = seg_curel g" "seg_point g' = Some p'"
  shows "point_ok C (sz(el := size')) g'"
proof -
  let ?sz = "sz(el := size')"
  from ok l p have ne: "seg_fragments g \<noteq> []" and cur: "seg_curel g = (if els = [] then None else Some (last els))"
    and m: "mentions p \<subseteq> {el \<in> set els. \<not> is_const (sz el)}"
    and v: "\<And>\<rho>. C \<rho> \<Longrightarrow> (\<forall>el\<in>set els. \<not> is_const (sz el) \<longrightarrow> vel \<rho> el = valof \<rho> (sz el)) \<Longrightarrow>
              valof \<rho> p = vname \<rho> frag + sum_list (map (\<lambda>el. valof \<rho> (sz el)) els)"
    by (simp_all add: point_ok_def)
  show ?thesis
  proof (rule point_okI [OF _ _ _ g'(3) p'(1)])
    show "seg_fragments g' \<noteq> []" "last (seg_fragments g') = (frag, els)"
      "seg_curel g' = (if els = [] then None else Some (last els))"
      using g' ne l cur by simp_all
    have "el \<notin> mentions p" using m c by auto
    then show "mentions p' \<subseteq> {el \<in> set els. \<not> is_const (?sz el)}"
      using p'(2) m el(2) by (auto split: if_splits)
    fix \<rho> :: env
    assume C: "C \<rho>"
    assume all: "\<forall>el\<in>set els. \<not> is_const (?sz el) \<longrightarrow> vel \<rho> el = valof \<rho> (?sz el)"
    then have "\<forall>x\<in>set els. \<not> is_const (sz x) \<longrightarrow> vel \<rho> x = valof \<rho> (sz x)"
      using c by (metis fun_upd_other is_const.simps(1))
    then have 1: "valof \<rho> p = vname \<rho> frag + sum_list (map (\<lambda>el. valof \<rho> (sz el)) els)" by (rule v [OF C])
    have 2: "(\<lambda>e. valof \<rho> (?sz e)) = (\<lambda>e. valof \<rho> (sz e))(el := valof \<rho> size')" by auto
    have 3: "(case size' of Const d \<Rightarrow> d | _ \<Rightarrow> vel \<rho> el) = valof \<rho> size'"
      using all el(2) by (cases size') (auto simp: valof_simps)
    show "valof \<rho> p' = vname \<rho> frag + sum_list (map (\<lambda>el. valof \<rho> (?sz el)) els)"
      unfolding p'(3) 1 2 3 sum_list_fun_upd [OF el] by (simp add: c valof_simps)
  qed
qed

section \<open>Well-formed programs\<close>

text \<open>The constructors of expressions leave the program alone.\<close>

lemma more_program:
  fixes s t :: "'x ments_scheme"
  assumes "est.more t = est.more s"
  shows "seg_tab t = seg_tab s" "nsegments t = nsegments s" "next_el t = next_el s"
    "el_body t = el_body s" "el_nrefs t = el_nrefs s" "next_range t = next_range s"
proof -
  have "t = s\<lparr>name_val := name_val t, name_align := name_align t, name_global := name_global t,
      el_size := el_size t, errors := errors t, shared := shared t, asked := asked t, unsound := unsound t\<rparr>"
    by (rule est.equality) (use assms in simp_all)
  then obtain a b c d e f g h where t: "t = s\<lparr>name_val := a, name_align := b, name_global := c,
      el_size := d, errors := e, shared := f, asked := g, unsound := h\<rparr>" by blast
  show "seg_tab t = seg_tab s" "nsegments t = nsegments s" "next_el t = next_el s"
    "el_body t = el_body s" "el_nrefs t = el_nrefs s" "next_range t = next_range s"
    by (simp_all add: t)
qed

lemma calm_program:
  assumes "calm s (t :: 'x ments_scheme)"
  shows "el_size t = el_size s" "seg_tab t = seg_tab s" "nsegments t = nsegments s" "next_el t = next_el s"
    "el_body t = el_body s" "el_nrefs t = el_nrefs s"
  using assms more_program [of t s] by (simp_all add: calm_def same_tables_def)

lemma append_el_append: "append_el el (fs @ [(n, els)]) = fs @ [(n, els @ [el])]"
  by (induction fs rule: append_el.induct) simp_all

lemma add_element_run:
  assumes "add_element sg b s = Inr (el, s')"
  obtains fs n els where "seg_fragments (seg_tab s sg) = fs @ [(n, els)]" "el = next_el s"
    "el_size s' = (el_size s)(el := Const 0)" "next_el s' = Suc el" "nsegments s' = nsegments s"
    "el_body s' = (el_body s)(el := b)"
    "seg_tab s' = (seg_tab s)(sg := (seg_tab s sg)\<lparr>seg_fragments := fs @ [(n, els @ [el])], seg_curel := Some el\<rparr>)"
    "name_align s' = name_align s" "name_val s' = name_val s" "name_global s' = name_global s" "el_nrefs s' = (el_nrefs s)(el := 0)"
proof -
  have ne: "seg_fragments (seg_tab s sg) \<noteq> []"
    using assms by (auto simp: add_element_def element_alloc_def outcome_iff Let_def rbind_def rget_def rstop_def)
  then obtain fs n els where fs: "seg_fragments (seg_tab s sg) = fs @ [(n, els)]"
    by (cases "seg_fragments (seg_tab s sg)" rule: rev_cases) auto
  with assms show ?thesis
    by (intro that [OF fs])
      (auto simp: add_element_def element_alloc_def rret_def upd_seg_def rmodify_def append_el_append Let_def
        rbind_def rget_def)
qed

lemma point_ok_append:
  assumes ok: "point_ok C sz g" and fs: "seg_fragments g = fs @ [(n, els)]" and ne: "el \<notin> set els"
  shows "point_ok C (sz(el := Const 0)) (g\<lparr>seg_fragments := fs @ [(n, els @ [el])], seg_curel := Some el\<rparr>)"
  using ok
proof (rule point_okE)
  let ?sz = "sz(el := Const 0)"
  fix frag els' p
  assume "last (seg_fragments g) = (frag, els')" and p: "seg_point g = Some p" "wf_expr False p"
    and m': "mentions p \<subseteq> {el \<in> set els'. \<not> is_const (sz el)}"
    and v': "\<And>\<rho>. C \<rho> \<Longrightarrow> (\<forall>el\<in>set els'. \<not> is_const (sz el) \<longrightarrow> vel \<rho> el = valof \<rho> (sz el)) \<Longrightarrow>
       valof \<rho> p = vname \<rho> frag + sum_list (map (\<lambda>el. valof \<rho> (sz el)) els')"
  then have e: "frag = n" "els' = els" by (simp_all add: fs)
  show ?thesis
  proof (rule point_okI [where frag = n and els = "els @ [el]" and p = p])
    show "mentions p \<subseteq> {e \<in> set (els @ [el]). \<not> is_const (?sz e)}" using m' ne e by auto
    fix \<rho> :: env
    assume C: "C \<rho>"
    assume "\<forall>e\<in>set (els @ [el]). \<not> is_const (?sz e) \<longrightarrow> vel \<rho> e = valof \<rho> (?sz e)"
    then have "\<forall>e\<in>set els'. \<not> is_const (sz e) \<longrightarrow> vel \<rho> e = valof \<rho> (sz e)"
      using ne e by (metis UnI1 fun_upd_other set_append)
    note v = v' [OF C this, unfolded e]
    have m: "map (\<lambda>e. valof \<rho> (?sz e)) els = map (\<lambda>e. valof \<rho> (sz e)) els"
      by (rule map_cong [OF refl]) (use ne in auto)
    show "valof \<rho> p = vname \<rho> n + sum_list (map (\<lambda>e. valof \<rho> (?sz e)) (els @ [el]))"
      unfolding v map_append sum_list_append m by (simp add: valof_simps)
  qed (use p in simp_all)
qed

lemma wf_add_element:
  assumes wf: "wf_program C s" and sg: "sg < nsegments s" and run: "add_element sg b s = Inr (el, s')"
  shows "wf_program C s' \<and> nsegments s' = nsegments s \<and> el_size s' el = Const 0 \<and>
    seg_curel (seg_tab s' sg) = Some el \<and> el_body s' = (el_body s)(el := b)"
  using run
proof (rule add_element_run)
  fix fs n els
  assume fs: "seg_fragments (seg_tab s sg) = fs @ [(n, els)]" and el: "el = next_el s"
    and s': "el_size s' = (el_size s)(el := Const 0)" "next_el s' = Suc el" "nsegments s' = nsegments s"
    "el_body s' = (el_body s)(el := b)"
    "seg_tab s' = (seg_tab s)(sg := (seg_tab s sg)\<lparr>seg_fragments := fs @ [(n, els @ [el])], seg_curel := Some el\<rparr>)"
  let ?g' = "(seg_tab s sg)\<lparr>seg_fragments := fs @ [(n, els @ [el])], seg_curel := Some el\<rparr>"
  note W = wf [unfolded wf_program_def]
  have old: "el \<notin> set (seg_elements (seg_tab s i))" if "i < nsegments s" for i
    using W that el by blast
  have els: "set els \<subseteq> set (seg_elements (seg_tab s sg))" by (auto simp: seg_elements_def fs)
  have g': "seg_elements ?g' = seg_elements (seg_tab s sg) @ [el]"
    by (simp add: seg_elements_def fs)
  have ne: "el \<notin> set els" using old [OF sg] els by blast
  have "point_ok C (el_size s) (seg_tab s sg)" using W sg by blast
  from point_ok_append [OF this fs ne] have ok: "point_ok C (el_size s') ?g'" by (simp only: s')
  have other: "point_ok C (el_size s') (seg_tab s i)" if "i < nsegments s" for i
  proof (rule point_ok_cong)
    show "point_ok C (el_size s) (seg_tab s i)" using W that by blast
    show "el_size s' e = el_size s e" if "e \<in> set (seg_elements (seg_tab s i))" for e
      using that old [OF \<open>i < nsegments s\<close>] by (auto simp: s')
  qed
  have els': "seg_elements (seg_tab s' i) = seg_elements (seg_tab s i) @ (if i = sg then [el] else [])" for i
    by (simp add: s' g')
  have "wf_program C s'"
    unfolding wf_program_def
  proof (intro conjI allI impI ballI)
    show "simple_size (el_size s' n)" for n
      using W by (simp add: s' simple_size_def)
    show "point_ok C (el_size s') (seg_tab s' i)" if "i < nsegments s'" for i
      using ok other that by (simp add: s')
    show "distinct (seg_elements (seg_tab s' i))" if "i < nsegments s'" for i
      using W that old by (simp add: els' s'(3))
    show "e < next_el s'" if "i < nsegments s'" "e \<in> set (seg_elements (seg_tab s' i))" for i e
      using W that el by (auto simp: els' s'(2,3) less_Suc_eq split: if_splits)
    show "set (seg_elements (seg_tab s' i)) \<inter> set (seg_elements (seg_tab s' j)) = {}"
      if "i < nsegments s'" "j < nsegments s'" "i \<noteq> j" for i j
    proof -
      have "set (seg_elements (seg_tab s i)) \<inter> set (seg_elements (seg_tab s j)) = {}"
        using W that by (simp add: s'(3))
      with old [of i] old [of j] that show ?thesis by (auto simp: els' s'(3))
    qed
  qed
  then show ?thesis by (simp add: s')
qed

lemma wf_resize:
  assumes wf: "wf_program C s" and sg: "sg < nsegments s"
    and cur: "seg_curel (seg_tab s sg) = Some el" and c: "el_size s el = Const c"
    and p: "seg_point (seg_tab s sg) = Some p"
    and size': "simple_size size'"
    and p': "wf_expr False p'" "mentions p' \<subseteq> mentions p \<union> (if is_const size' then {} else {el})"
      "\<And>\<rho>. valof \<rho> p' = valof \<rho> p - c + (case size' of Const d \<Rightarrow> d | _ \<Rightarrow> vel \<rho> el)"
    and g': "seg_fragments g' = seg_fragments (seg_tab s sg)" "seg_curel g' = seg_curel (seg_tab s sg)"
      "seg_point g' = Some p'"
    and s': "el_size s' = (el_size s)(el := size')" "seg_tab s' = (seg_tab s)(sg := g')"
      "nsegments s' = nsegments s" "next_el s' = next_el s"
  shows "wf_program C s'"
proof -
  let ?g = "seg_tab s sg"
  have ok: "point_ok C (el_size s) ?g" and d: "distinct (seg_elements ?g)"
    using wf sg by (simp_all add: wf_program_def)
  obtain frag els where l: "last (seg_fragments ?g) = (frag, els)" by (cases "last (seg_fragments ?g)")
  with ok cur have ne: "seg_fragments ?g \<noteq> []" "els \<noteq> []" "el = last els"
    by (auto simp: point_ok_def split: if_splits)
  have els: "distinct els" "el \<in> set els" and el: "el \<in> set (seg_elements ?g)"
    using last_chain_elements [OF ne(1) l] d ne(2,3) by auto
  have same: "seg_elements (seg_tab s' i) = seg_elements (seg_tab s i)" for i
    by (simp add: s' seg_elements_def g')
  have "point_ok C (el_size s') (seg_tab s' i)" if i: "i < nsegments s" for i
  proof (cases "i = sg")
    case True
    with point_ok_resize [OF ok l els c p p' g'] show ?thesis by (simp add: s')
  next
    case False
    have "point_ok C (el_size s) (seg_tab s i)" using wf i by (simp add: wf_program_def)
    moreover have "el \<notin> set (seg_elements (seg_tab s i))"
      using wf i sg False el unfolding wf_program_def by blast
    ultimately show ?thesis
      using False by (auto simp: s' intro: point_ok_cong)
  qed
  with wf size' show ?thesis
    by (auto simp: wf_program_def same s'(3,4)) (simp_all add: s'(1))
qed

text \<open>The operations that touch neither chains, sizes nor points.\<close>

definition same_program :: "'x ments_scheme \<Rightarrow> 'x ments_scheme \<Rightarrow> bool" where
  "same_program s t \<longleftrightarrow>
     el_size t = el_size s \<and> seg_tab t = seg_tab s \<and> nsegments t = nsegments s \<and> next_el t = next_el s"

lemma same_program_refl [simp]: "same_program s s"
  by (simp add: same_program_def)

lemma same_program_trans [trans]: "same_program s t \<Longrightarrow> same_program t u \<Longrightarrow> same_program s u"
  by (simp add: same_program_def)

lemma same_program_wf: "same_program s t \<Longrightarrow> wf_program C t = wf_program C s"
  by (simp add: same_program_def wf_program_def)

lemma same_tables_program: "same_tables s (t :: 'x ments_scheme) \<Longrightarrow> same_program s t"
  using more_program [of t s] by (simp add: same_tables_def same_program_def)

definition still :: "('x ments_scheme, 'a) step \<Rightarrow> bool" where
  "still m \<longleftrightarrow> (\<forall>s r s'. m s = Inr (r, s') \<longrightarrow> same_program s s')"

named_theorems still_intros

lemma stillD: "still m \<Longrightarrow> m s = Inr (r, s') \<Longrightarrow> same_program s s'"
  by (auto simp: still_def)

lemma still_rbind [still_intros]: "still m \<Longrightarrow> (\<And>x. still (f x)) \<Longrightarrow> still (rbind m f)"
  by (fastforce simp: still_def outcome_iff intro: same_program_trans)

lemma still_basic [still_intros]:
  "still (rret x)" "still (rstop z)" "still (rget g)" "still report_error" "still (set_body el b)"
  "still (expr_range lo hi)" "still (estimate fuel e)" "still (\<lambda>s. obind c (\<lambda>r. Inr (r, s)))"
  by (auto simp: still_def outcome_iff set_body_def expr_range_def estimate_def same_program_def)

lemma still_if [still_intros]: "(b \<Longrightarrow> still f) \<Longrightarrow> (\<not> b \<Longrightarrow> still g) \<Longrightarrow> still (if b then f else g)"
  by simp

lemma still_cases [still_intros]:
  "(\<And>x y. still (f x y)) \<Longrightarrow> still (case p of (x, y) \<Rightarrow> f x y)"
  "still a \<Longrightarrow> (\<And>x. still (g x)) \<Longrightarrow> still (case r of None \<Rightarrow> a | Some x \<Rightarrow> g x)"
  "(\<And>bs k. still (h1 bs k)) \<Longrightarrow> (\<And>w v c. still (h2 w v c)) \<Longrightarrow> (\<And>c e. still (h3 c e)) \<Longrightarrow>
     still (case b of ELEMENT_BLOCK bs k \<Rightarrow> h1 bs k | ELEMENT_DATA w v c \<Rightarrow> h2 w v c | ELEMENT_CMD c e \<Rightarrow> h3 c e)"
  "(\<And>c. still (e1 c)) \<Longrightarrow> still e2 \<Longrightarrow>
     still (case e of Const c \<Rightarrow> e1 c | _ \<Rightarrow> e2)"
  by (simp_all split: prod.split option.split element_body.split expr.split)

lemma still_quiet: "quiet m \<Longrightarrow> still m"
  by (auto simp: still_def quiet_def intro: same_tables_program)

lemma still_constructors [still_intros]:
  "still (expr_binop t e1 e2)" "still (expr_asgop t e1 e2)" "still (expr_equal e f)"
  by (intro still_quiet quiet_intros)+

lemma still_make_space [still_intros]: "still (make_space el len)"
  unfolding make_space_def Let_def by (intro still_intros)

lemma still_put_bytes [still_intros]: "still (put_bytes el off bs)"
  unfolding put_bytes_def by (intro still_intros)

lemma still_range_expr [still_intros]: "still (range_expr b)"
  unfolding range_expr_def by (intro still_intros)

lemma wf_open_block:
  assumes wf: "wf_program C s" and sg: "sg < nsegments s" and run: "open_block sg s = Inr (el, s')"
  shows "wf_program C s' \<and> nsegments s' = nsegments s \<and> seg_curel (seg_tab s' sg) = Some el"
proof (cases "\<exists>el. seg_curel (seg_tab s sg) = Some el \<and> is_block (el_body s el)")
  case True
  with run wf show ?thesis by (auto simp: open_block_def outcome_iff)
next
  case False
  with run have "add_element sg (ELEMENT_BLOCK [] 0) s = Inr (el, s')"
    by (auto simp: open_block_def outcome_iff split: option.splits if_splits)
  from wf_add_element [OF wf sg this] show ?thesis by simp
qed

lemma upd_point_run:
  assumes "upd_point sg f s = Inr (u, s')"
  obtains p p' s1 where "seg_point (seg_tab s sg) = Some p" "f p s = Inr (p', s1)"
    "s' = s1\<lparr>seg_tab := (seg_tab s1)(sg := (seg_tab s1 sg)\<lparr>seg_point := Some p'\<rparr>)\<rparr>"
  using assms by (auto simp: upd_point_def upd_seg_def outcome_iff split: option.splits)

lemma point_of:
  assumes "wf_program C s" "sg < nsegments s"
  obtains p where "seg_point (seg_tab s sg) = Some p" "wf_expr False p"
proof -
  from assms have "point_ok C (el_size s) (seg_tab s sg)" by (simp add: wf_program_def)
  then show ?thesis by (rule point_okE) (rule that)
qed

text \<open>The end of all routines that add bytes to the current block.\<close>

lemma wf_grow_block:
  assumes wf: "wf_program C s" and sg: "sg < nsegments s" and cur: "seg_curel (seg_tab s sg) = Some el"
    and run: "rbind (grow_size el n) (\<lambda>_. upd_point sg (\<lambda>p. expr_plus_constant p n)) s = Inr (u, s')"
  shows "wf_program C s' \<and> nsegments s' = nsegments s"
proof -
  from run obtain c s1 where c: "el_size s el = Const c"
    and s1: "s1 = s\<lparr>el_size := (el_size s)(el := Const (c + n))\<rparr>"
    and run1: "upd_point sg (\<lambda>p. expr_plus_constant p n) s1 = Inr (u, s')"
    by (cases "el_size s el") (auto simp: outcome_iff grow_size_def set_size_def split: expr.splits)
  obtain p where p: "seg_point (seg_tab s sg) = Some p" "wf_expr False p"
    by (rule point_of [OF wf sg])
  from run1 obtain p' s2 where p': "expr_plus_constant p n s1 = Inr (p', s2)"
    and s': "s' = s2\<lparr>seg_tab := (seg_tab s2)(sg := (seg_tab s2 sg)\<lparr>seg_point := Some p'\<rparr>)\<rparr>"
    using p(1) by (auto elim!: upd_point_run simp: s1)
  have a: "adds p (\<lambda>_. n) {} s1 p' s2"
    by (rule expr_plus_constant_adds [OF p' p(2)])
  then have "calm s1 s2" by (simp add: adds_def)
  note same = calm_program [OF this]
  have "wf_program C s'"
  proof (rule wf_resize [OF wf sg cur c p(1), where size' = "Const (c + n)" and p' = p'
        and g' = "(seg_tab s sg)\<lparr>seg_point := Some p'\<rparr>"])
    show "valof \<rho> p' = valof \<rho> p - c + (case Const (c + n) of Const d \<Rightarrow> d | _ \<Rightarrow> vel \<rho> el)" for \<rho>
      using a by (simp add: adds_def)
  qed (use a in \<open>simp_all add: adds_def simple_size_def s' s1 same\<close>)
  moreover have "nsegments s' = nsegments s" by (simp add: s' same) (simp add: s1)
  ultimately show ?thesis by simp
qed

lemma wf_push_bytes:
  assumes "wf_program C s" "sg < nsegments s" "push_bytes sg bs s = Inr (u, s')"
  shows "wf_program C s' \<and> nsegments s' = nsegments s"
proof -
  let ?n = "word_of_nat (length bs) :: long"
  from assms(3) obtain el s1 off s2 x s3 where 1: "open_block sg s = Inr (el, s1)"
    and 2: "make_space el ?n s1 = Inr (off, s2)" and 3: "put_bytes el off bs s2 = Inr (x, s3)"
    and 4: "rbind (grow_size el ?n) (\<lambda>_. upd_point sg (\<lambda>p. expr_plus_constant p ?n)) s3 = Inr (u, s')"
    unfolding push_bytes_def by (simp only: rbind_Inr) blast
  from stillD [OF still_make_space 2] stillD [OF still_put_bytes 3] have "same_program s1 s3"
    by (rule same_program_trans)
  with wf_open_block [OF assms(1,2) 1] same_program_wf [OF this, of C] wf_grow_block [where C = C, OF _ _ _ 4] assms(2)
  show ?thesis by (simp add: same_program_def)
qed

text \<open>
  The end of all routines that settle the size of the current element, which counts for nothing in
  the point yet.
\<close>

definition unsized :: "nat \<Rightarrow> 'x ments_scheme \<Rightarrow> 'x ments_scheme" where
  "unsized el s = s\<lparr>el_size := (el_size s)(el := Const 0)\<rparr>"

lemma unsized_simps [simp]:
  "el_size (unsized el s) = (el_size s)(el := Const 0)" "seg_tab (unsized el s) = seg_tab s"
  "nsegments (unsized el s) = nsegments s" "next_el (unsized el s) = next_el s"
  by (simp_all add: unsized_def)

lemma same_program_unsized: "same_program s t \<Longrightarrow> same_program (unsized el s) (unsized el t)"
  by (simp add: same_program_def)

lemma unsized_idem: "el_size s el = Const 0 \<Longrightarrow> same_program (unsized el s) s"
  by (simp add: same_program_def fun_upd_idem)

lemma add_to_point_run:
  assumes "add_to_point sg el s = Inr (u, s')"
  obtains v t where "upd_point sg (\<lambda>p. expr_plus_element p el) s = Inr (v, t)" "same_program t s'"
    "el_body s' = el_body t"
proof -
  from assms obtain v t where 1: "upd_point sg (\<lambda>p. expr_plus_element p el) s = Inr (v, t)"
    and s': "s' = (if is_const (el_size t el) then t else t\<lparr>el_nrefs := (el_nrefs t)(el := Suc (el_nrefs t el))\<rparr>)"
    unfolding add_to_point_def rbind_Inr rmodify_Inr by blast
  show thesis by (rule that [OF 1]) (simp_all add: s' same_program_def)
qed

lemma wf_set_size:
  assumes wf: "wf_program C (unsized el s)" and sg: "sg < nsegments s" and cur: "seg_curel (seg_tab s sg) = Some el"
    and size: "simple_size size'"
    and run: "rbind (set_size el size') (\<lambda>_. add_to_point sg el) s = Inr (u, s')"
  shows "wf_program C s' \<and> nsegments s' = nsegments s"
proof -
  let ?s = "unsized el s" and ?s1 = "s\<lparr>el_size := (el_size s)(el := size')\<rparr>"
  have "add_to_point sg el ?s1 = Inr (u, s')"
    using run by (simp add: set_size_def rbind_def rmodify_def)
  then obtain v t where run1: "upd_point sg (\<lambda>p. expr_plus_element p el) ?s1 = Inr (v, t)" and t: "same_program t s'"
    by (rule add_to_point_run)
  obtain p where p: "seg_point (seg_tab s sg) = Some p" "wf_expr False p"
    by (rule point_of [OF wf, of sg]) (simp_all add: sg)
  from run1 obtain p' s2 where p': "expr_plus_element p el ?s1 = Inr (p', s2)"
    and s': "t = s2\<lparr>seg_tab := (seg_tab s2)(sg := (seg_tab s2 sg)\<lparr>seg_point := Some p'\<rparr>)\<rparr>"
    using p(1) by (auto elim!: upd_point_run)
  have a: "adds p (\<lambda>\<rho>. case size' of Const c \<Rightarrow> c | _ \<Rightarrow> vel \<rho> el) (if is_const size' then {} else {el}) ?s1 p' s2"
    using expr_plus_element_adds [OF p' p(2)] by simp
  then have "calm ?s1 s2" by (simp add: adds_def)
  note same = calm_program [OF this]
  have "wf_program C t"
  proof (rule wf_resize [OF wf _ _ _ _ size, where p' = p' and c = 0
        and g' = "(seg_tab s sg)\<lparr>seg_point := Some p'\<rparr>" and p = p])
    show "valof \<rho> p' = valof \<rho> p - 0 + (case size' of Const d \<Rightarrow> d | _ \<Rightarrow> vel \<rho> el)" for \<rho>
      using a by (simp add: adds_def)
  qed (use a in \<open>simp_all add: adds_def s' same p sg cur\<close>)
  moreover have "nsegments t = nsegments s" by (simp add: s' same)
  ultimately show ?thesis using same_program_wf [OF t] t by (simp add: same_program_def)
qed

lemma range_expr_simple: "range_expr b s = Inr (e, s') \<Longrightarrow> simple_size e"
  by (auto simp: range_expr_def outcome_iff expr_range_def simple_size_def split: if_splits)

lemma data_size_still: "still (data_size fuel count width)"
  unfolding data_size_def by (intro still_intros)

lemma data_size_simple:
  assumes "data_size fuel count width s = Inr (e, s')"
  shows "simple_size e"
  using assms by (auto simp: data_size_def outcome_iff dest!: range_expr_simple)

lemma wf_slot:
  assumes "wf_program C s" "upd_seg sg (\<lambda>g. g\<lparr>seg_slot := x\<rparr>) s = Inr (u, s')"
  shows "wf_program C s' \<and> nsegments s' = nsegments s"
proof -
  have p: "point_ok C sz (g\<lparr>seg_slot := x\<rparr>) = point_ok C sz g" "seg_elements (g\<lparr>seg_slot := x\<rparr>) = seg_elements g"
    for sz and g :: segment
    by (simp_all add: point_ok_def seg_elements_def)
  have s': "s' = s\<lparr>seg_tab := (seg_tab s)(sg := (seg_tab s sg)\<lparr>seg_slot := x\<rparr>)\<rparr>"
    using assms(2) by (simp add: upd_seg_def outcome_iff)
  have t: "point_ok C (el_size s) (seg_tab s' i) = point_ok C (el_size s) (seg_tab s i)"
    "seg_elements (seg_tab s' i) = seg_elements (seg_tab s i)" for i
    by (simp_all add: s' p)
  have q: "el_size s' = el_size s" "nsegments s' = nsegments s" "next_el s' = next_el s"
    by (simp_all add: s')
  show ?thesis
    using assms(1) unfolding wf_program_def q t by simp
qed

lemma wf_emit_const_cmd:
  assumes "wf_program C s" "sg < nsegments s" "emit_const_cmd sg opcode arg s = Inr (u, s')"
  shows "wf_program C s' \<and> nsegments s' = nsegments s"
proof -
  from assms(3) obtain el s1 off s2 s3 b slot r s4 bs s5 where 1: "open_block sg s = Inr (el, s1)"
    and 2: "make_space el (word_of_nat cmd_maxlen) s1 = Inr (off, s2)"
    and 3: "rget (\<lambda>s. (el_body s el, seg_slot (seg_tab s sg))) s2 = Inr ((b, slot), s3)"
    and 4: "(case b of ELEMENT_BLOCK _ alloc \<Rightarrow>
               (\<lambda>s. obind (generate_into (alloc - off) opcode arg slot) (\<lambda>r. Inr (r, s))) | _ \<Rightarrow> rstop Abort) s3
             = Inr (r, s4)"
    and 5: "(case r of None \<Rightarrow> rbind report_error (\<lambda>_. rret [])
             | Some bs \<Rightarrow> rbind (put_bytes el off bs) (\<lambda>_. rret bs)) s4 = Inr (bs, s5)"
    and 6: "rbind (grow_size el (word_of_nat (length bs)))
              (\<lambda>_. upd_point sg (\<lambda>p. expr_plus_constant p (word_of_nat (length bs)))) s5 = Inr (u, s')"
    unfolding emit_const_cmd_def by (simp only: rbind_Inr split_paired_Ex prod.case) blast
  have "still (case b of ELEMENT_BLOCK _ alloc \<Rightarrow>
          (\<lambda>s :: 'a ments_scheme. obind (generate_into (alloc - off) opcode arg slot) (\<lambda>r. Inr (r, s))) | _ \<Rightarrow> rstop Abort)"
    by (intro still_intros)
  note 4 = stillD [OF this 4]
  have "still (case r of None \<Rightarrow> rbind report_error (\<lambda>_. rret [])
             | Some bs \<Rightarrow> rbind (put_bytes el off bs) (\<lambda>_. rret bs :: ('a ments_scheme, byte list) step))"
    by (intro still_intros)
  note 5 = stillD [OF this 5]
  have "same_program s1 s5"
    using stillD [OF still_make_space 2] 3 4 5 by (auto simp: outcome_iff intro: same_program_trans)
  with wf_open_block [OF assms(1,2) 1] same_program_wf [OF this, of C] wf_grow_block [where C = C, OF _ _ _ 6] assms(2)
  show ?thesis by (simp add: same_program_def)
qed

lemma wf_emit_loose_cmd:
  assumes "wf_program C s" "sg < nsegments s" "emit_loose_cmd fuel sg opcode arg s = Inr (u, s')"
  shows "wf_program C s' \<and> nsegments s' = nsegments s"
proof -
  from assms(3) obtain el s1 b s2 slot s3 x s4 size s5 where 1: "add_element sg (ELEMENT_CMD opcode arg) s = Inr (el, s1)"
    and 2: "estimate fuel arg s1 = Inr (b, s2)"
    and 3: "rget (\<lambda>s. seg_slot (seg_tab s sg)) s2 = Inr (slot, s3)"
    and 4: "(if slot \<noteq> 0 \<and> slot <s fst (cmd_sizes b) then report_error else rret ()) s3 = Inr (x, s4)"
    and 5: "range_expr (if slot \<noteq> 0 then (slot, slot) else cmd_sizes b) s4 = Inr (size, s5)"
    and 6: "rbind (set_size el size) (\<lambda>_. add_to_point sg el) s5 = Inr (u, s')"
    unfolding emit_loose_cmd_def by (simp only: rbind_Inr) blast
  have "still (if slot \<noteq> 0 \<and> slot <s fst (cmd_sizes b) then report_error else (rret () :: ('a ments_scheme, unit) step))"
    by (intro still_intros)
  note 4 = stillD [OF this 4]
  have "same_program s1 s3" "same_program s3 s5"
    using stillD [OF still_basic(7) 2] 3 4 stillD [OF still_range_expr 5]
    by (auto simp: outcome_iff intro: same_program_trans)
  then have same: "same_program s1 s5" by (rule same_program_trans)
  note w = wf_add_element [OF assms(1,2) 1]
  then have "wf_program C (unsized el s5)"
    using same_program_wf [OF unsized_idem] same_program_wf [OF same_program_unsized [OF same]] by blast
  from wf_set_size [OF this _ _ range_expr_simple [OF 5] 6] w same assms(2)
  show ?thesis by (simp add: same_program_def)
qed

lemma wf_emit_cmd:
  assumes "wf_program C s" "sg < nsegments s" "emit_cmd fuel sg opcode arg s = Inr (u, s')"
  shows "wf_program C s' \<and> nsegments s' = nsegments s"
proof -
  from assms(3) obtain x s1 where 1: "(case arg of Const c \<Rightarrow> emit_const_cmd sg opcode c
      | _ \<Rightarrow> emit_loose_cmd fuel sg opcode arg) s = Inr (x, s1)"
    and 2: "upd_seg sg (\<lambda>g. g\<lparr>seg_slot := 0\<rparr>) s1 = Inr (u, s')"
    unfolding emit_cmd_def by (simp only: rbind_Inr) blast
  have "wf_program C s1 \<and> nsegments s1 = nsegments s"
    using 1 wf_emit_const_cmd [OF assms(1,2)] wf_emit_loose_cmd [OF assms(1,2)] by (cases arg) auto
  with wf_slot [where C = C, OF _ 2] show ?thesis by simp
qed

text \<open>The filler and the data must be well-formed expressions; so is every one a parser makes.\<close>

lemma bin_tags [simp]: "bin_tag EXPR_MUL" "bin_tag EXPR_AND"
  by (simp_all add: bin_tag_def tag_isleaf_def tag_isunary_def)

lemma wf_emit_align:
  assumes "wf_program C s" "sg < nsegments s" "emit_align fuel sg align filler s = Inr (u, s')"
  shows "wf_program C s' \<and> nsegments s' = nsegments s"
proof -
  obtain point where p: "seg_point (seg_tab s sg) = Some point" "wf_expr False point"
    by (rule point_of [OF assms(1,2)])
  from assms(3) p obtain shift where shift: "expr_check_alignment fuel s point align = Inr shift"
    by (cases "align = 0") (auto simp: emit_align_def outcome_iff)
  consider (none) "s' = s"
    | (bytes) x where "push_bytes sg (replicate (unat (align - shift)) (ucast (constval filler))) s = Inr (x, s')"
    | (data) d s1 count s2 el s3 size s4 x where
      "expr_binop EXPR_MINUS (Const align) point s = Inr (d, s1)"
      "expr_binop EXPR_AND d (Const (align - 1)) s1 = Inr (count, s2)"
      "add_element sg (ELEMENT_DATA 1 filler count) s2 = Inr (el, s3)"
      "expr_range 0 (align - 1) s3 = Inr (size, s4)"
      "rbind (set_size el size) (\<lambda>_. add_to_point sg el) s4 = Inr (x, s')"
    using assms(3) p shift by (auto simp: emit_align_def outcome_iff split: if_splits)
  then show ?thesis
  proof cases
    case bytes
    then show ?thesis by (rule wf_push_bytes [OF assms(1,2)])
  next
    case data
    have same: "same_program s s2"
      using stillD [OF still_constructors(1) data(1)] stillD [OF still_constructors(1) data(2)]
      by (rule same_program_trans)
    then have w2: "wf_program C s2" "sg < nsegments s2" "nsegments s2 = nsegments s"
      using assms(1,2) same_program_wf [OF same] by (simp_all add: same_program_def)
    note w = wf_add_element [OF w2(1,2) data(3)]
    have same4: "same_program s3 s4" using stillD [OF still_basic(6) data(4)] .
    then have "wf_program C (unsized el s4)"
      using w same_program_wf [OF unsized_idem] same_program_wf [OF same_program_unsized [OF same4]] by blast
    moreover have "simple_size size" using data(4) by (auto simp: expr_range_def simple_size_def)
    ultimately show ?thesis
      using wf_set_size [OF _ _ _ _ data(5)] w same4 w2 by (simp add: same_program_def)
  qed (use assms in simp)
qed

lemma same_data_run:
  assumes "same_data sg width data s = Inr (r, s')"
  shows "same_program s s' \<and> (\<forall>el old. r = Some (el, old) \<longrightarrow> seg_curel (seg_tab s sg) = Some el \<and>
    el_nrefs s el = 0 \<and> el_body s el = ELEMENT_DATA width data old)"
proof -
  have "still (same_data sg width data)"
    unfolding same_data_def
    by (rule still_rbind [OF still_basic(3)]) (auto split: option.split element_body.split intro!: still_intros)
  from stillD [OF this assms] show ?thesis
    using assms
    by (auto simp: same_data_def outcome_iff split: option.splits element_body.splits if_splits
        dest: expr_equal_sound)
qed

lemma wf_new_element:
  assumes wf: "wf_program C s" and sg: "sg < nsegments s"
    and run: "rbind (add_element sg b) (\<lambda>el. rbind (mk el) (\<lambda>size.
                rbind (set_size el size) (\<lambda>_. add_to_point sg el))) s = Inr (u, s')"
    and mk: "\<And>el. still (mk el)" "\<And>el size t t'. mk el t = Inr (size, t') \<Longrightarrow> simple_size size"
  shows "wf_program C s' \<and> nsegments s' = nsegments s"
proof -
  from run obtain el s1 size s2 where 1: "add_element sg b s = Inr (el, s1)" and 2: "mk el s1 = Inr (size, s2)"
    and 3: "rbind (set_size el size) (\<lambda>_. add_to_point sg el) s2 = Inr (u, s')"
    by (simp only: rbind_Inr) blast
  note w = wf_add_element [OF wf sg 1]
  have same: "same_program s1 s2" using stillD [OF mk(1) 2] .
  then have "wf_program C (unsized el s2)"
    using w same_program_wf [OF unsized_idem] same_program_wf [OF same_program_unsized [OF same]] by blast
  from wf_set_size [OF this _ _ mk(2) [OF 2] 3] w same sg show ?thesis
    by (simp add: same_program_def)
qed

lemma wf_extend_data:
  assumes wf: "wf_program C s" and sg: "sg < nsegments s" and cur: "seg_curel (seg_tab s sg) = Some el"
    and run: "extend_data fuel sg el width data old count s = Inr (u, s')"
  shows "wf_program C s' \<and> nsegments s' = nsegments s"
proof -
  from run obtain c where c: "el_size s el = Const c"
    by (cases "el_size s el") (auto simp: extend_data_def outcome_iff)
  moreover from run obtain z t where "rget (\<lambda>s. el_size s el) s = Inr (z, t)"
    "(case z of
         Const c \<Rightarrow>
           rbind (upd_point sg (\<lambda>p. expr_plus_constant p (- c))) (\<lambda>_.
           rbind (expr_asgop EXPR_PLUS old count) (\<lambda>count'.
           rbind (set_body el (ELEMENT_DATA width data count')) (\<lambda>_.
           rbind (data_size fuel count' width) (\<lambda>size'.
           rbind (set_size el size') (\<lambda>_.
             add_to_point sg el)))))
       | _ \<Rightarrow> rstop Abort) t = Inr (u, s')"
    unfolding extend_data_def by (simp only: rbind_Inr) blast
  ultimately obtain x s1 count' s2 y s3 size s4 where 1: "upd_point sg (\<lambda>p. expr_plus_constant p (- c)) s = Inr (x, s1)"
    and 2: "expr_asgop EXPR_PLUS old count s1 = Inr (count', s2)"
    and 3: "set_body el (ELEMENT_DATA width data count') s2 = Inr (y, s3)"
    and 4: "data_size fuel count' width s3 = Inr (size, s4)"
    and 5: "rbind (set_size el size) (\<lambda>_. add_to_point sg el) s4 = Inr (u, s')"
    by (simp only: rbind_Inr rget_Inr expr.case) blast
  obtain p where p: "seg_point (seg_tab s sg) = Some p" "wf_expr False p"
    by (rule point_of [OF wf sg])
  from 1 obtain p' t where p': "expr_plus_constant p (- c) s = Inr (p', t)"
    and s1: "s1 = t\<lparr>seg_tab := (seg_tab t)(sg := (seg_tab t sg)\<lparr>seg_point := Some p'\<rparr>)\<rparr>"
    using p(1) by (auto elim!: upd_point_run)
  have a: "adds p (\<lambda>_. - c) {} s p' t" by (rule expr_plus_constant_adds [OF p' p(2)])
  then have "calm s t" by (simp add: adds_def)
  note same = calm_program [OF this]
  have w1: "wf_program C (unsized el s1)"
  proof (rule wf_resize [OF wf sg cur c p(1), where size' = "Const 0" and p' = p'
        and g' = "(seg_tab s sg)\<lparr>seg_point := Some p'\<rparr>"])
    show "valof \<rho> p' = valof \<rho> p - c + (case Const 0 of Const d \<Rightarrow> d | _ \<Rightarrow> vel \<rho> el)" for \<rho>
      using a by (simp add: adds_def)
  qed (use a in \<open>simp_all add: adds_def simple_size_def s1 same\<close>)
  have same4: "same_program s1 s4"
    using stillD [OF still_constructors(2) 2] stillD [OF still_basic(5) 3] stillD [OF data_size_still 4]
    by (blast intro: same_program_trans)
  have "wf_program C (unsized el s4)"
    using w1 same_program_wf [OF same_program_unsized [OF same4]] by blast
  from wf_set_size [OF this _ _ data_size_simple [OF 4] 5] same4 sg cur show ?thesis
    by (simp add: same_program_def s1 same)
qed

lemma wf_emit_data:
  assumes "wf_program C s" "sg < nsegments s" "emit_data fuel sg width data count s = Inr (u, s')"
  shows "wf_program C s' \<and> nsegments s' = nsegments s"
proof -
  from assms(3) obtain r s1 where 1: "same_data sg width data s = Inr (r, s1)"
    and 2: "(case r of
         Some (el, old) \<Rightarrow> extend_data fuel sg el width data old count
       | None \<Rightarrow>
           rbind (add_element sg (ELEMENT_DATA width data count)) (\<lambda>el.
           rbind (data_size fuel count width) (\<lambda>size.
           rbind (set_size el size) (\<lambda>_.
             add_to_point sg el)))) s1 = Inr (u, s')"
    unfolding emit_data_def by (simp only: rbind_Inr) blast
  note r = same_data_run [OF 1]
  then have s1: "wf_program C s1" "sg < nsegments s1" "nsegments s1 = nsegments s" "seg_tab s1 = seg_tab s"
    using assms(1,2) same_program_wf [of s s1] by (simp_all add: same_program_def)
  show ?thesis
  proof (cases r)
    case None
    with 2 have "rbind (add_element sg (ELEMENT_DATA width data count)) (\<lambda>el.
           rbind (data_size fuel count width) (\<lambda>size.
           rbind (set_size el size) (\<lambda>_. add_to_point sg el))) s1 = Inr (u, s')"
      by simp
    from wf_new_element [OF s1(1,2) this data_size_still data_size_simple] s1(3) show ?thesis by simp
  next
    case (Some q)
    obtain el old where "q = (el, old)" by (cases q)
    with Some r 2 s1 have "seg_curel (seg_tab s1 sg) = Some el"
      "extend_data fuel sg el width data old count s1 = Inr (u, s')" by simp_all
    from wf_extend_data [OF s1(1,2) this] s1(3) show ?thesis by simp
  qed
qed

section \<open>Programs under construction\<close>

definition empty_program :: "'x ments_scheme \<Rightarrow> bool" where
  "empty_program s \<longleftrightarrow> nsegments s = 0 \<and> el_size s = (\<lambda>_. Const 0)"

text \<open>The states the emitting routines lead to, from an empty program.\<close>

inductive building :: "nat \<Rightarrow> 'x ments_scheme \<Rightarrow> bool" for fuel where
  start: "empty_program s \<Longrightarrow> building fuel s"
| segment: "building fuel s \<Longrightarrow> add_segment np frag s = Inr (sg, s') \<Longrightarrow> building fuel s'"
| fragment: "building fuel s \<Longrightarrow> sg < nsegments s \<Longrightarrow> add_fragment sg frag s = Inr (u, s') \<Longrightarrow> building fuel s'"
| slot: "building fuel s \<Longrightarrow> sg < nsegments s \<Longrightarrow> upd_seg sg (\<lambda>g. g\<lparr>seg_slot := x\<rparr>) s = Inr (u, s') \<Longrightarrow>
    building fuel s'"
| block: "building fuel s \<Longrightarrow> sg < nsegments s \<Longrightarrow> emit_block sg bs s = Inr (u, s') \<Longrightarrow> building fuel s'"
| cmd: "building fuel s \<Longrightarrow> sg < nsegments s \<Longrightarrow> emit_cmd fuel sg opcode arg s = Inr (u, s') \<Longrightarrow>
    building fuel s'"
| align: "building fuel s \<Longrightarrow> sg < nsegments s \<Longrightarrow> emit_align fuel sg al filler s = Inr (b, s') \<Longrightarrow>
    building fuel s'"
| data: "building fuel s \<Longrightarrow> sg < nsegments s \<Longrightarrow> emit_data fuel sg width d count s = Inr (u, s') \<Longrightarrow>
    building fuel s'"

lemma point_ok_fresh:
  "point_ok C sz (g\<lparr>seg_fragments := fs @ [(frag, [])], seg_point := Some (Name frag), seg_curel := None\<rparr>)"
  by (rule point_okI [where frag = frag and els = "[]" and p = "Name frag"]) (simp_all add: valof_simps)

lemma wf_add_fragment:
  assumes "wf_program C s" "sg < nsegments s" "add_fragment sg frag s = Inr (u, s')"
  shows "wf_program C s' \<and> nsegments s' = nsegments s"
proof -
  let ?g = "(seg_tab s sg)\<lparr>seg_fragments := seg_fragments (seg_tab s sg) @ [(frag, [])],
              seg_point := Some (Name frag), seg_curel := None\<rparr>"
  have q: "el_size s' = el_size s" "nsegments s' = nsegments s" "next_el s' = next_el s"
    "seg_tab s' = (seg_tab s)(sg := ?g)"
    using assms(3) by (simp_all add: add_fragment_def upd_seg_def outcome_iff)
  have t: "seg_elements (seg_tab s' i) = seg_elements (seg_tab s i)" for i
    by (simp add: q seg_elements_def)
  have "point_ok C (el_size s) (seg_tab s' i)" if "i < nsegments s" for i
    using assms(1) that point_ok_fresh by (simp add: q wf_program_def)
  with assms(1) show ?thesis
    unfolding wf_program_def q(1,2,3) t by blast
qed

lemma wf_add_segment:
  assumes "wf_program C s" "add_segment np frag s = Inr (sg, s')"
  shows "wf_program C s'"
proof -
  let ?g = "(new_segment np)\<lparr>seg_fragments := [(frag, [])], seg_point := Some (Name frag), seg_curel := None\<rparr>"
  have q: "el_size s' = el_size s" "nsegments s' = Suc (nsegments s)" "next_el s' = next_el s"
    "seg_tab s' = (seg_tab s)(nsegments s := ?g)"
    using assms(2) by (auto simp: add_segment_def add_fragment_def upd_seg_def outcome_iff new_segment_def)
  have new: "point_ok C (el_size s) ?g" "seg_elements ?g = []"
    using point_ok_fresh [where sz = "el_size s" and g = "new_segment np" and fs = "[]" and frag = frag] by (simp_all add: seg_elements_def)
  note W = assms(1) [unfolded wf_program_def]
  show ?thesis
    unfolding wf_program_def q(1,2,3)
  proof (intro conjI allI impI ballI)
    show "simple_size (el_size s n)" for n using W by blast
  next
    fix i assume "i < Suc (nsegments s)"
    then consider "i < nsegments s" | "i = nsegments s" by linarith
    then have "point_ok C (el_size s) (seg_tab s' i) \<and> distinct (seg_elements (seg_tab s' i))"
      using W new by cases (simp_all add: q(4))
    then show "point_ok C (el_size s) (seg_tab s' i)" "distinct (seg_elements (seg_tab s' i))"
      by simp_all
    fix e assume "e \<in> set (seg_elements (seg_tab s' i))"
    with \<open>i < Suc (nsegments s)\<close> W new show "e < next_el s" by (auto simp: q(4) less_Suc_eq)
  next
    fix i j assume "i < Suc (nsegments s)" "j < Suc (nsegments s)" "i \<noteq> j"
    then consider "i < nsegments s" "j < nsegments s" | "i = nsegments s" | "j = nsegments s" by linarith
    then show "set (seg_elements (seg_tab s' i)) \<inter> set (seg_elements (seg_tab s' j)) = {}"
      using W new \<open>i \<noteq> j\<close> by cases (simp_all add: q(4))
  qed
qed

lemma building_wf: "building fuel s \<Longrightarrow> wf_program C s"
proof (induction rule: building.induct)
  case (start s)
  then show ?case by (simp add: empty_program_def wf_program_def simple_size_def)
next
  case (block s sg bs u s')
  then show ?case using wf_push_bytes [where C = C] by (auto simp: emit_block_def)
next
  case (cmd s sg opcode arg u s')
  then show ?case using wf_emit_cmd [of C s sg fuel opcode arg u s'] by simp
next
  case (align s sg al filler b s')
  then show ?case using wf_emit_align [of C s sg fuel al filler b s'] by simp
next
  case (data s sg width d count u s')
  then show ?case using wf_emit_data [of C s sg fuel width d count u s'] by simp
qed (use wf_add_segment wf_add_fragment wf_slot in blast)+

section \<open>Alignment\<close>

lemma aligned_sum:
  fixes p align :: long
  assumes "pow2 align"
  shows "(p + ((align - p) AND (align - 1))) AND (align - 1) = 0"
proof -
  obtain k where "k < 31" "align = 2 ^ k" using assms by (auto simp: pow2_def)
  moreover have "take_bit k (2 ^ k :: long) = 0" by (rule bit_word_eqI) (simp add: bit_simps)
  ultimately have k: "align - 1 = mask k" and 0: "take_bit k align = 0"
    by (simp_all add: mask_eq_exp_minus_1)
  have "(p + ((align - p) AND mask k)) AND mask k = (p + (align - p)) AND mask k"
    using and_mask_add [of p k "(align - p) AND mask k"] and_mask_add [of p k "align - p"]
    by (simp add: and.assoc)
  with 0 show ?thesis by (simp add: k flip: take_bit_eq_mask)
qed

lemma aligned_diff:
  fixes p align :: long
  assumes "pow2 align"
  shows "(p + (align - (p AND (align - 1)))) AND (align - 1) = 0"
proof -
  obtain k where k: "align - 1 = mask k" using pow2_mask [OF assms] by blast
  have d: "(align - (p AND mask k)) AND mask k = (align - p) AND mask k"
    using and_mask_diff [of align k "p AND mask k"] and_mask_diff [of align k p] by (simp add: and.assoc)
  have "(p + (align - (p AND mask k))) AND mask k = (p + ((align - p) AND mask k)) AND mask k"
    using and_mask_add [of p k "align - (p AND mask k)"] and_mask_add [of p k "(align - p) AND mask k"]
    by (simp add: d and.assoc)
  with aligned_sum [OF assms, of p] show ?thesis by (simp add: k)
qed

text \<open>The elements that stand for data have the size of the data.\<close>

definition data_sized :: "env \<Rightarrow> 'x ments_scheme \<Rightarrow> bool" where
  "data_sized \<rho> s \<longleftrightarrow>
     (\<forall>el w v c. el_body s el = ELEMENT_DATA w v c \<longrightarrow> vel \<rho> el = valof \<rho> c * w)"

lemma point_after:
  assumes "upd_point sg f s = Inr (u, s')" "seg_point (seg_tab s sg) = Some p"
  obtains p' s1 where "f p s = Inr (p', s1)" "seg_point (seg_tab s' sg) = Some p'"
    "s' = s1\<lparr>seg_tab := (seg_tab s1)(sg := (seg_tab s1 sg)\<lparr>seg_point := Some p'\<rparr>)\<rparr>"
  using assms by (auto elim!: upd_point_run)

lemma push_bytes_point:
  assumes wf: "wf_program C s" "sg < nsegments s" and run: "push_bytes sg bs s = Inr (u, s')"
    and p: "seg_point (seg_tab s sg) = Some p"
  shows "\<exists>p'. seg_point (seg_tab s' sg) = Some p' \<and> (\<forall>\<rho>. valof \<rho> p' = valof \<rho> p + word_of_nat (length bs))"
proof -
  let ?n = "word_of_nat (length bs) :: long"
  from run obtain el s1 off s2 x s3 y s4 where 1: "open_block sg s = Inr (el, s1)"
    and 2: "make_space el ?n s1 = Inr (off, s2)" and 3: "put_bytes el off bs s2 = Inr (x, s3)"
    and 4: "grow_size el ?n s3 = Inr (y, s4)"
    and 5: "upd_point sg (\<lambda>p. expr_plus_constant p ?n) s4 = Inr (u, s')"
    unfolding push_bytes_def by (simp only: rbind_Inr) blast
  have "seg_point (seg_tab s1 sg) = Some p"
    using 1 p
    by (auto simp: open_block_def outcome_iff split: option.splits if_splits elim!: add_element_run)
  moreover have "seg_tab s4 = seg_tab s3"
    using 4 by (auto simp: grow_size_def set_size_def outcome_iff split: expr.splits)
  ultimately have p4: "seg_point (seg_tab s4 sg) = Some p"
    using stillD [OF still_make_space 2] stillD [OF still_put_bytes 3] by (simp add: same_program_def)
  have "wf_expr False p"
    using point_of [OF wf] p by (metis option.inject)
  with 5 p4 show ?thesis
    by (elim point_after) (auto dest: expr_plus_constant_adds simp: adds_def)
qed

lemma emit_align_point:
  assumes wf: "wf_program C s" "sg < nsegments s" and run: "emit_align fuel sg align filler s = Inr (b, s')"
    and al: "pow2 align" and ag: "names_agree \<rho> s" and d: "data_sized \<rho> s'"
  shows "\<exists>p'. seg_point (seg_tab s' sg) = Some p' \<and> valof \<rho> p' AND (align - 1) = 0"
proof -
  obtain p where p: "seg_point (seg_tab s sg) = Some p" "wf_expr False p" by (rule point_of [OF wf])
  have nz: "align \<noteq> 0" using run by (auto simp: emit_align_def outcome_iff)
  from run p nz obtain shift where shift: "expr_check_alignment fuel s p align = Inr shift"
    by (auto simp: emit_align_def outcome_iff)
  have sound: "valof \<rho> p AND (align - 1) = shift" if "shift \<noteq> align"
    using check_alignment_names [OF ag al shift that] .
  consider (none) "shift = 0" "s' = s"
    | (bytes) x where "shift <s align" "push_bytes sg (replicate (unat (align - shift)) (ucast (constval filler))) s = Inr (x, s')"
    | (data) d s1 count s2 el s3 size s4 x where
      "expr_binop EXPR_MINUS (Const align) p s = Inr (d, s1)"
      "expr_binop EXPR_AND d (Const (align - 1)) s1 = Inr (count, s2)"
      "add_element sg (ELEMENT_DATA 1 filler count) s2 = Inr (el, s3)"
      "expr_range 0 (align - 1) s3 = Inr (size, s4)"
      "rbind (set_size el size) (\<lambda>_. add_to_point sg el) s4 = Inr (x, s')"
    using run p nz shift by (auto simp: emit_align_def outcome_iff split: if_splits)
  then show ?thesis
  proof cases
    case none
    with sound nz p show ?thesis by simp
  next
    case bytes
    from push_bytes_point [OF wf bytes(2) p(1)] obtain p'
      where p': "seg_point (seg_tab s' sg) = Some p'" "valof \<rho> p' = valof \<rho> p + (align - shift)"
      by auto
    have "shift \<noteq> align" using bytes(1) by auto
    from sound [OF this] have "shift = valof \<rho> p AND (align - 1)" by simp
    with p' aligned_diff [OF al, of "valof \<rho> p"] show ?thesis by simp
  next
    case data
    have c: "valof \<rho> count = (align - valof \<rho> p) AND (align - 1)"
      using expr_binop_sound [OF data(1), of \<rho>] expr_binop_sound [OF data(2), of \<rho>] p(2)
      by (simp add: valof_simps eval_val_def)
    have same: "same_tables s s2"
      using quietD [OF quiet_binop data(1)] quietD [OF quiet_binop data(2)] by (rule same_tables_trans)
    then have p2: "seg_point (seg_tab s2 sg) = Some p"
      using p(1) same_tables_program [of s s2] by (simp add: same_program_def)
    from data(3) p2 have p3: "seg_point (seg_tab s3 sg) = Some p" and b3: "el_body s3 el = ELEMENT_DATA 1 filler count"
      by (auto elim!: add_element_run)
    from data(4) have s4: "s4 = s3\<lparr>next_range := Suc (next_range s3)\<rparr>" and size: "\<not> is_const size"
      by (auto simp: expr_range_def)
    from data(5) have "add_to_point sg el (s4\<lparr>el_size := (el_size s4)(el := size)\<rparr>) = Inr (x, s')"
      by (simp add: set_size_def rbind_def rmodify_def)
    then obtain v s5 where up: "upd_point sg (\<lambda>p. expr_plus_element p el) (s4\<lparr>el_size := (el_size s4)(el := size)\<rparr>) = Inr (v, s5)"
      and s5: "same_program s5 s'" "el_body s' = el_body s5" by (rule add_to_point_run)
    have "seg_point (seg_tab (s4\<lparr>el_size := (el_size s4)(el := size)\<rparr>) sg) = Some p"
      by (simp add: s4 p3)
    with up obtain p' t where pe: "expr_plus_element p el (s4\<lparr>el_size := (el_size s4)(el := size)\<rparr>) = Inr (p', t)"
      and p5: "seg_point (seg_tab s5 sg) = Some p'"
      and s': "s5 = t\<lparr>seg_tab := (seg_tab t)(sg := (seg_tab t sg)\<lparr>seg_point := Some p'\<rparr>)\<rparr>"
      by (rule point_after)
    have p': "seg_point (seg_tab s' sg) = Some p'" using p5 s5(1) by (simp add: same_program_def)
    note a = expr_plus_element_adds [OF pe p(2)]
    then have v: "valof \<rho> p' = valof \<rho> p + vel \<rho> el"
      using size by (cases size) (simp_all add: adds_def)
    have "el_body t = el_body s3"
      using a calm_program(5) [of "s4\<lparr>el_size := (el_size s4)(el := size)\<rparr>" t] by (simp add: adds_def s4)
    then have "el_body s' el = ELEMENT_DATA 1 filler count" by (simp add: s5(2) s' b3)
    then have "vel \<rho> el = valof \<rho> count" using d by (simp add: data_sized_def)
    with p' v c aligned_sum [OF al, of "valof \<rho> p"] show ?thesis by simp
  qed
qed

section \<open>Properties\<close>

definition sample_program :: ments where
  "sample_program =
     \<lparr>name_val = (\<lambda>_. None), name_align = (\<lambda>_. 1), name_global = (\<lambda>_. False), el_size = (\<lambda>_. Const 0),
      errors = 0, shared = (\<lambda>_. False), asked = 0, unsound = 0,
      next_name = 2, name_ident = (\<lambda>_. []), name_idx = (\<lambda>_. -1), name_needs = (\<lambda>_. []),
      name_defined = (\<lambda>_. False), name_fragment = (\<lambda>_. False), name_common = (\<lambda>_. False),
      name_wanted = (\<lambda>_. False), name_special = (\<lambda>_. 0), name_loadtime = (\<lambda>_. False),
      next_el = 0, el_body = (\<lambda>_. ELEMENT_BLOCK [] 0), el_idx = (\<lambda>_. -1), el_nrefs = (\<lambda>_. 0), next_range = 0,
      nsegments = 0, seg_tab = new_segment, name_segment = (\<lambda>_. None)\<rparr>"

text \<open>
  C28: In every program the emitting routines build, the point of a segment stands for the address
  where its next byte goes: the start of the last fragment plus the sizes of the elements emitted into it,
  whatever the sizes not known yet will turn out to be.
\<close>

theorem point_denotes:
  assumes "building fuel s" "sg < nsegments s" "last (seg_fragments (seg_tab s sg)) = (frag, els)"
    "\<forall>el\<in>set els. vel \<rho> el = valof \<rho> (el_size s el)"
  shows "\<exists>p. seg_point (seg_tab s sg) = Some p \<and>
    valof \<rho> p = vname \<rho> frag + sum_list (map (\<lambda>el. valof \<rho> (el_size s el)) els)"
proof -
  have "point_ok (\<lambda>_. True) (el_size s) (seg_tab s sg)"
    using building_wf [OF assms(1)] assms(2) by (auto simp: wf_program_def)
  then show ?thesis
    by (rule point_okE) (use assms(3,4) in auto)
qed


text \<open>Programs to try the properties on: an empty fragment, and two bytes in it.\<close>

definition sample_segment :: segment where
  "sample_segment = (new_segment 0)\<lparr>seg_fragments := [(1, [])], seg_point := Some (Name 1)\<rparr>"

definition sample_1 :: ments where
  "sample_1 = sample_program\<lparr>nsegments := 1, name_segment := [0 \<mapsto> 0], seg_tab := new_segment(0 := sample_segment)\<rparr>"

definition sample_2 :: ments where
  "sample_2 = sample_1\<lparr>next_el := 1, el_size := (\<lambda>_. Const 0)(0 := Const 2),
     el_body := (\<lambda>_. ELEMENT_BLOCK [] 0)(0 := ELEMENT_BLOCK [1, 2] 32),
     seg_tab := new_segment(0 := sample_segment\<lparr>seg_fragments := [(1, [0])], seg_curel := Some 0,
        seg_point := Some (Binop EXPR_PLUS (Name 1) (Const 2))\<rparr>)\<rparr>"

lemma sample_1_run: "add_segment 0 1 sample_program = Inr (0, sample_1)"
  by (simp add: add_segment_def add_fragment_def upd_seg_def reader_simps sample_program_def sample_1_def
      sample_segment_def new_segment_def)

lemma sample_2_run: "emit_block 0 [1, 2] sample_1 = Inr ((), sample_2)"
  by (simp add: emit_block_def push_bytes_def open_block_def add_element_def element_alloc_def upd_seg_def
      make_space_def set_body_def put_bytes_def grow_size_def set_size_def upd_point_def expr_plus_constant_def
      expr_binop_def expr_binop_general_def tag_iscomm_def grow_alloc.simps reader_simps sample_1_def sample_2_def
      sample_program_def sample_segment_def new_segment_def fun_eq_iff)

lemma sample_building: "building 3 sample_1" "building 3 sample_2"
proof -
  have "building 3 sample_program"
    by (rule building.start) (simp add: empty_program_def sample_program_def)
  from building.segment [OF this sample_1_run] show 1: "building 3 sample_1" .
  have "0 < nsegments sample_1" by (simp add: sample_1_def)
  from building.block [OF 1 this sample_2_run] show "building 3 sample_2" .
qed

theorem point_denotes_witness:
  "\<exists>p. seg_point (seg_tab sample_2 0) = Some p \<and>
     valof \<lparr>vname = (\<lambda>_. 100), vrange = (\<lambda>_. 3), vel = (\<lambda>_. 2)\<rparr> p = 102"
  (is "\<exists>p. _ \<and> valof ?\<rho> p = _")
proof -
  have "\<exists>p. seg_point (seg_tab sample_2 0) = Some p \<and>
    valof ?\<rho> p = vname ?\<rho> 1 + sum_list (map (\<lambda>el. valof ?\<rho> (el_size sample_2 el)) [0])"
    by (rule point_denotes [OF sample_building(2)]) (simp_all add: sample_2_def sample_1_def valof_simps)
  then show ?thesis by (simp add: sample_2_def sample_1_def valof_simps)
qed

text \<open>
  C29: After \<open>emit_align\<close> the point is a multiple of the alignment, whether it was aligned already,
  was padded with bytes at once, or an element was emitted whose size is only known later, provided
  that data elements will take the space their count and width say.
\<close>

theorem emit_align_aligned:
  assumes "building fuel s" "sg < nsegments s" "emit_align fuel' sg align filler s = Inr (b, s')"
    "pow2 align" "names_agree \<rho> s" "data_sized \<rho> s'"
  shows "\<exists>p. seg_point (seg_tab s' sg) = Some p \<and> valof \<rho> p AND (align - 1) = 0"
  by (rule emit_align_point [OF building_wf [OF assms(1)] assms(2-6)])

theorem emit_align_aligned_witness:
  "\<exists>s' p. emit_align 3 0 4 (Const 0) sample_1 = Inr (True, s') \<and> seg_point (seg_tab s' 0) = Some p \<and>
     valof \<lparr>vname = (\<lambda>_. 101), vrange = (\<lambda>_. 3), vel = (\<lambda>n. 3)\<rparr> p AND (4 - 1) = 0"
  (is "\<exists>s' p. _ \<and> _ \<and> valof ?\<rho> p AND _ = _")
proof -
  define s' where "s' = sample_1\<lparr>next_el := 1, next_range := 1, el_size := (\<lambda>_. Const 0)(0 := Range 0 0 3),
     el_body := (\<lambda>_. ELEMENT_BLOCK [] 0)(0 := ELEMENT_DATA 1 (Const 0)
        (Binop EXPR_AND (Binop EXPR_MINUS (Const 4) (Name 1)) (Const 3))),
     seg_tab := new_segment(0 := sample_segment\<lparr>seg_fragments := [(1, [0])], seg_curel := Some 0,
        seg_point := Some (Binop EXPR_PLUS (Name 1) (Element 0))\<rparr>),
     el_nrefs := (\<lambda>_. 0)(0 := 1)\<rparr>"
  have run: "emit_align 3 0 4 (Const 0) sample_1 = Inr (True, s')"
    by (simp add: emit_align_def add_element_def element_alloc_def upd_seg_def expr_range_def
      set_size_def add_to_point_def upd_point_def expr_plus_element_def expr_asgop_def word_sless_alt
      expr_binop_def expr_binop_general_def tag_iscomm_def reader_simps sample_1_def s'_def numeral_3_eq_3
      sample_program_def sample_segment_def new_segment_def word_sle_eq fun_eq_iff)
  have "\<exists>p. seg_point (seg_tab s' 0) = Some p \<and> valof ?\<rho> p AND (4 - 1) = 0"
  proof (rule emit_align_aligned [OF sample_building(1) _ run])
    show "pow2 4" by (auto simp: pow2_def intro!: exI [of _ 2])
    show "names_agree ?\<rho> sample_1"
      by (simp add: names_agree_def sample_1_def sample_program_def pow2_def exI [of _ 0])
    show "data_sized ?\<rho> s'"
      by (auto simp: data_sized_def s'_def valof_simps eval_val_def)
  qed (simp add: sample_1_def)
  with run show ?thesis by blast
qed

end
