(* ===== verification/Optimize.thy ===== *)
theory Optimize
  imports Emit
begin

text \<open>
  The passes of \<open>shared/ments.c\<close> that settle the sizes of elements: the optimisation of offsets
  ends, and never excludes the size an element turns out to need.
\<close>

section \<open>Optimisation\<close>

definition simple_sizes :: "'x est_scheme \<Rightarrow> bool" where
  "simple_sizes s \<longleftrightarrow> (\<forall>n. simple_size (el_size s n))"

lemma expr_reduce_Const: "expr_reduce fuel (Const c) s = Inr ((n, e'), s') \<Longrightarrow> e' = Const c \<and> s' = s"
  by (cases fuel) (auto simp: outcome_iff)

lemma expr_reduce_sizes:
  "expr_reduce fuel e s = Inr ((n, e'), s') \<Longrightarrow> simple_sizes s \<Longrightarrow> el_size s' = el_size s"
proof (induction fuel arbitrary: e s n e' s')
  case (Suc fuel)
  have t: "el_size t' = el_size t \<and> simple_sizes t'" if "same_tables t t'" "simple_sizes t" for t t' :: "'a est_scheme"
    using that by (simp add: same_tables_def simple_sizes_def)
  from Suc.prems(1) show ?case
  proof (cases rule: expr_reduce_cases)
    case (elsum e0 s0)
    have s0: "el_size s0 = el_size s" "simple_sizes s0"
      using t [OF quietD [OF quiet_top_elsum elsum(1)] Suc.prems(2)] by simp_all
    have simple: "el_size t' = el_size t \<Longrightarrow> simple_sizes t \<Longrightarrow> simple_sizes t'" for t t' :: "'a est_scheme"
      by (simp add: simple_sizes_def)
    have "el_size s' = el_size s0"
      using elsum(2)
    proof (elim disjE exE conjE)
      fix k v' m s1
      assume e: "e0 = Element k" and nr: "tag_of (el_size s0 k) \<noteq> EXPR_RANGE"
        and run: "expr_reduce fuel (el_size s0 k) s0 = Inr ((m, v'), s1)"
        and res: "e' = v'" "s' = s1\<lparr>el_size := (el_size s1)(k := v')\<rparr>"
      from s0(2) nr obtain c where "el_size s0 k = Const c"
        by (auto simp: simple_sizes_def simple_size_def is_const_iff)
      with expr_reduce_Const [of fuel c s0 m v' s1] run have "v' = el_size s0 k" "s1 = s0" by simp_all
      then show ?thesis by (simp add: res)
    next
      fix t r r' m m' s1
      assume run: "expr_reduce fuel r s0 = Inr ((m, r'), s1)"
        and node: "reduce_node fuel (Unop t r') s1 = Inr ((m', e'), s')"
      show ?thesis
        using Suc.IH [OF run s0(2)] quietD [OF quiet_reduce_node node] by (simp add: same_tables_def)
    next
      fix t l r l' r' m m' m'' s1 s2
      assume l: "expr_reduce fuel l s0 = Inr ((m, l'), s1)"
        and r: "expr_reduce fuel r s1 = Inr ((m', r'), s2)"
        and node: "reduce_node fuel (Binop t l' r') s2 = Inr ((m'', e'), s')"
      have 1: "el_size s1 = el_size s0" using Suc.IH [OF l s0(2)] .
      from Suc.IH [OF r simple [OF 1 s0(2)]] 1 quietD [OF quiet_reduce_node node] show ?thesis
        by (simp add: same_tables_def)
    qed (use s0 Suc.IH in auto)
    with s0(1) show ?thesis by simp
  qed
qed (simp add: outcome_iff)

lemma reduce_expr_program:
  assumes "reduce_expr fuel e s = Inr (e', s')" "simple_sizes s"
  shows "same_program s s' \<and> el_body s' = el_body s \<and> next_range s' = next_range s"
proof -
  from assms(1) obtain n where "expr_reduce fuel e s = Inr ((n, e'), s')"
    by (auto simp: reduce_expr_def outcome_iff)
  from expr_reduce_evolves [OF this] expr_reduce_sizes [OF this assms(2)] more_program [of s' s]
  show ?thesis by (simp add: evolves_def same_program_def)
qed

text \<open>
  How far the bounds of a size are apart; every effect of the pass on a command brings them closer.  What \<open>emit_cmd\<close>
  makes has a slack of at most 7.
\<close>

definition slack :: "expr \<Rightarrow> nat" where
  "slack e = (case e of Range i lo hi \<Rightarrow> nat (sint hi - sint lo) | _ \<Rightarrow> 0)"

text \<open>The elements whose size is not settled yet are commands: the counts of data are known.\<close>

definition is_cmd :: "element_body \<Rightarrow> bool" where
  "is_cmd b = (case b of ELEMENT_CMD _ _ \<Rightarrow> True | _ \<Rightarrow> False)"

definition open_commands :: "'x ments_scheme \<Rightarrow> bool" where
  "open_commands s \<longleftrightarrow> (\<forall>el \<in> set (elements_of s). is_const (el_size s el) \<or> is_cmd (el_body s el))"

lemma is_cmd_iff: "is_cmd b \<longleftrightarrow> (\<exists>opcode arg. b = ELEMENT_CMD opcode arg)"
  by (cases b) (simp_all add: is_cmd_def)

lemma cmd_sizes_ordered: "sint (fst (cmd_sizes b)) \<le> sint (snd (cmd_sizes b))"
  using cmd_size_1_le [of "fst b"] cmd_size_1_le [of "snd b"]
  by (auto simp: cmd_sizes_def Let_def cmd_size_word min_def max_def)

definition total_slack :: "'x ments_scheme \<Rightarrow> nat" where
  "total_slack s = (\<Sum>el \<in> set (elements_of s). slack (el_size s el))"

lemma new_bounds_program:
  assumes "new_bounds fuel el s = Inr (b, s')" "simple_sizes s"
  shows "same_program s s'"
proof -
  have *: "same_program s t'" if "same_program s t" "same_program t t'" for t t'
    using that by (rule same_program_trans)
  show ?thesis
    using assms
    by (auto simp: new_bounds_def outcome_iff set_body_def estimate_def same_program_def
        split: element_body.splits if_splits dest!: reduce_expr_program)
qed

lemma new_bounds_command:
  assumes "new_bounds fuel el s = Inr (b, s')" "simple_sizes s" "is_cmd (el_body s el)"
  shows "sint (fst b) \<le> sint (snd b) \<and> (\<forall>x. is_cmd (el_body s' x) = is_cmd (el_body s x))"
proof -
  from assms(3) obtain opcode arg where body: "el_body s el = ELEMENT_CMD opcode arg" by (auto simp: is_cmd_iff)
  with assms(1) obtain arg' s0 c where red: "reduce_expr fuel arg s = Inr (arg', s0)" and b: "b = cmd_sizes c"
    and s': "s' = s0\<lparr>el_body := (el_body s0)(el := ELEMENT_CMD opcode arg')\<rparr>"
    by (auto simp: new_bounds_def outcome_iff set_body_def estimate_def)
  from reduce_expr_program [OF red assms(2)] body b s' show ?thesis
    by (auto simp: cmd_sizes_ordered is_cmd_def)
qed

lemma optimize_element_slack:
  assumes run: "optimize_element fuel el s = Inr (n, s')" and sizes: "simple_sizes s"
    and cmd: "is_const (el_size s el) \<or> is_cmd (el_body s el)"
  shows "(\<forall>x. is_cmd (el_body s' x) = is_cmd (el_body s x)) \<and> ((n = 0 \<and> same_program s s') \<or>
    (n = 1 \<and> (\<exists>size'. slack size' < slack (el_size s el) \<and> simple_size size' \<and>
       same_program (s\<lparr>el_size := (el_size s)(el := size')\<rparr>) s')))"
proof (cases "is_const (el_size s el)")
  case True
  with run show ?thesis by (auto simp: optimize_element_def outcome_iff)
next
  case False
  with run obtain mn mx s1 where b: "new_bounds fuel el s = Inr ((mn, mx), s1)"
    and rest: "(case el_size s1 el of
             Range i lo hi \<Rightarrow>
               if lo = mn \<and> hi = mx then rret 0
               else if mn <s lo \<or> hi <s mx then rstop Abort
               else rbind (set_size el (if mn = mx then Const mn else Range i mn mx)) (\<lambda>_. rret 1)
           | _ \<Rightarrow> rstop Abort) s1 = Inr (n, s')"
    by (auto simp: optimize_element_def outcome_iff)
  have same: "same_program s s1" by (rule new_bounds_program [OF b sizes])
  then have sz: "el_size s1 el = el_size s el" by (simp add: same_program_def)
  from rest obtain i lo hi where r: "el_size s el = Range i lo hi"
    by (cases "el_size s el") (simp_all add: sz outcome_iff)
  have c: "sint mn \<le> sint mx" and kinds: "\<forall>x. is_cmd (el_body s1 x) = is_cmd (el_body s x)"
    using new_bounds_command [OF b sizes] cmd False by simp_all
  show ?thesis
  proof (cases "lo = mn \<and> hi = mx")
    case True
    with rest r sz same kinds show ?thesis by (simp add: outcome_iff)
  next
    case ne: False
    let ?size = "if mn = mx then Const mn else Range i mn mx"
    from ne rest r sz have le: "sint lo \<le> sint mn" "sint mx \<le> sint hi" and n: "n = 1"
      and s': "s' = s1\<lparr>el_size := (el_size s1)(el := ?size)\<rparr>"
      by (auto simp: outcome_iff set_size_def word_sless_alt not_less split: if_splits)
    have "sint lo < sint mn \<or> sint mx < sint hi"
      using ne le by (metis order_less_le signed_word_eqI)
    then have "slack ?size < slack (el_size s el)"
      using le c by (auto simp: slack_def r)
    moreover have "same_program (s\<lparr>el_size := (el_size s)(el := ?size)\<rparr>) s'"
      using same by (simp add: same_program_def s')
    moreover have "simple_size ?size" by (simp add: simple_size_def)
    moreover have "\<forall>x. is_cmd (el_body s' x) = is_cmd (el_body s x)" using kinds by (simp add: s')
    ultimately show ?thesis using n by blast
  qed
qed

lemma count_each_slack:
  assumes "count_each (optimize_element fuel) els s = Inr (n, s')" "simple_sizes s" "open_commands s"
    "set els \<subseteq> set (elements_of s)"
  shows "elements_of s' = elements_of s \<and> simple_sizes s' \<and> open_commands s' \<and> total_slack s' + n \<le> total_slack s"
  using assms
proof (induction els arbitrary: s n)
  case Nil
  then show ?case by (simp add: outcome_iff)
next
  case (Cons el els)
  from Cons.prems(1) obtain m s1 k where 1: "optimize_element fuel el s = Inr (m, s1)"
    and 2: "count_each (optimize_element fuel) els s1 = Inr (k, s')" and n: "n = m + k"
    by (auto simp: outcome_iff)
  have el: "el \<in> set (elements_of s)" using Cons.prems(4) by simp
  with Cons.prems(3) have "is_const (el_size s el) \<or> is_cmd (el_body s el)" by (simp add: open_commands_def)
  note slack = optimize_element_slack [OF 1 Cons.prems(2) this]
  then have kinds: "is_cmd (el_body s1 x) = is_cmd (el_body s x)" for x by blast
  have step: "elements_of s1 = elements_of s \<and> simple_sizes s1 \<and> open_commands s1 \<and> total_slack s1 + m \<le> total_slack s"
    using slack [THEN conjunct2]
  proof (elim disjE conjE exE)
    assume "m = 0" "same_program s s1"
    with Cons.prems(2,3) kinds show ?thesis
      by (simp add: same_program_def elements_of_def total_slack_def simple_sizes_def open_commands_def)
  next
    fix size'
    assume m: "m = 1" and less: "slack size' < slack (el_size s el)" and simple: "simple_size size'"
      and same: "same_program (s\<lparr>el_size := (el_size s)(el := size')\<rparr>) s1"
    have e: "elements_of s1 = elements_of s" and z: "el_size s1 = (el_size s)(el := size')"
      using same by (simp_all add: same_program_def elements_of_def)
    have "total_slack s1 < total_slack s"
      unfolding total_slack_def e
      by (rule sum_strict_mono_ex1) (use less el in \<open>auto simp: z\<close>)
    moreover have "\<not> is_const (el_size s el)"
      using less by (auto simp: slack_def is_const_iff)
    with el Cons.prems(3) have "is_cmd (el_body s el)" by (auto simp: open_commands_def)
    then have "open_commands s1" using Cons.prems(3) kinds by (simp add: open_commands_def e z)
    ultimately show ?thesis using e z simple Cons.prems(2) m by (simp add: simple_sizes_def)
  qed
  with Cons.IH [OF 2] Cons.prems(4) n show ?case by simp
qed

definition range_within :: "env \<Rightarrow> expr \<Rightarrow> bool" where
  "range_within \<rho> l = (case l of Range i lo hi \<Rightarrow> within (vrange \<rho> i) (lo, hi) | _ \<Rightarrow> True)"

lemma in_ranges_leaves: "in_ranges \<rho> e = leaves_all (range_within \<rho>) e"
  by (induction e) (simp_all add: range_within_def)

lemma expr_reduce_in_ranges:
  assumes "expr_reduce fuel e s = Inr ((n, e'), s')" "tables_in_ranges \<rho> s" "in_ranges \<rho> e"
  shows "in_ranges \<rho> e' \<and> tables_in_ranges \<rho> s'"
proof -
  have t: "tables_in_ranges \<rho> t = leaves_tables (range_within \<rho>) t" for t :: "'a est_scheme"
    by (simp only: tables_in_ranges_def leaves_tables_def in_ranges_leaves)
  show ?thesis
    using expr_reduce_leaves [OF assms(1)] assms(2,3) by (simp only: in_ranges_leaves t)
qed

lemma expr_estimate1_cong:
  assumes "el_size t = el_size s" "name_val t = name_val s" "name_global t = name_global s"
  shows "expr_estimate1 f t e = expr_estimate1 f s e"
  by (induction f arbitrary: e) (simp_all add: assms cong: if_cong split: expr.split option.split)

lemma optimize_loop_run:
  "optimize_loop fuel passes s = Inr (b, s') \<Longrightarrow> simple_sizes s \<Longrightarrow> open_commands s \<Longrightarrow> total_slack s < passes \<Longrightarrow>
     b \<and> simple_sizes s' \<and> (\<exists>s0. pass_optimize_offsets fuel s0 = Inr (0, s'))"
proof (induction passes arbitrary: s)
  case (Suc passes)
  from Suc.prems(1) obtain effect s1 where 1: "pass_optimize_offsets fuel s = Inr (effect, s1)"
    and 2: "(if effect = 0 then rret True else optimize_loop fuel passes) s1 = Inr (b, s')"
    by (auto simp: outcome_iff)
  from 1 have "count_each (optimize_element fuel) (elements_of s) s = Inr (effect, s1)"
    by (simp add: pass_optimize_offsets_def outcome_iff)
  from count_each_slack [OF this Suc.prems(2,3)] have c: "simple_sizes s1" "open_commands s1" "total_slack s1 + effect \<le> total_slack s"
    by simp_all
  show ?case
  proof (cases "effect = 0")
    case True
    with 1 2 c show ?thesis by (auto simp: outcome_iff)
  next
    case False
    with 2 Suc.IH [of s1] c Suc.prems(4) show ?thesis by auto
  qed
qed simp

text \<open>
  A layout: sizes of commands and data as their operands demand, in the environment given.
\<close>

definition cmd_sized :: "env \<Rightarrow> nat \<Rightarrow> expr \<Rightarrow> bool" where
  "cmd_sized \<rho> el arg \<longleftrightarrow> vel \<rho> el = word_of_nat (cmd_size (valof \<rho> arg))"

lemma new_bounds_cmd:
  assumes run: "new_bounds fuel el s = Inr (b, s1)" and body: "el_body s el = ELEMENT_CMD opcode arg"
    and ag: "agrees \<rho> s" "tables_in_ranges \<rho> s" "wf_tables s" "wf_expr False arg" "in_ranges \<rho> arg"
    and sound: "unsound s1 = unsound s"
    and checked: "\<And>arg' t. reduce_expr fuel arg s = Inr (arg', t) \<Longrightarrow> estimate_checked fuel t arg'"
  shows "agrees \<rho> s1 \<and> tables_in_ranges \<rho> s1 \<and> wf_tables s1 \<and>
    (\<exists>arg'. el_body s1 el = ELEMENT_CMD opcode arg' \<and> valof \<rho> arg' = valof \<rho> arg) \<and>
    within (word_of_nat (cmd_size (valof \<rho> arg))) b"
proof -
  from run body obtain arg' s0 c where red: "reduce_expr fuel arg s = Inr (arg', s0)"
    and s1: "s1 = s0\<lparr>el_body := (el_body s0)(el := ELEMENT_CMD opcode arg')\<rparr>"
    and est: "expr_estimate fuel s1 arg' = Inr c" and b: "b = cmd_sizes c"
    by (auto simp: new_bounds_def outcome_iff set_body_def estimate_def)
  from red obtain n where r: "expr_reduce fuel arg s = Inr ((n, arg'), s0)"
    by (auto simp: reduce_expr_def outcome_iff)
  have u: "unsound s0 = unsound s" using sound s1 by simp
  have v: "valof \<rho> arg' = valof \<rho> arg" "agrees \<rho> s0" "wf_tables s0" "wf_expr False arg'"
    using expr_reduce_sound [OF r u _ ag(4), of \<rho>] ag(1,3) by (simp_all add: sound_state_def reduced_to_def)
  have i: "in_ranges \<rho> arg'" "tables_in_ranges \<rho> s0"
    using expr_reduce_in_ranges [OF r ag(2,5)] by simp_all
  have est1: "expr_estimate1 f s1 e = expr_estimate1 f s0 e" for f e
    by (rule expr_estimate1_cong) (simp_all add: s1)
  have "within (valof \<rho> arg') c"
    using expr_estimate1_sound [OF v(2) i(2) _ checked [OF red] i(1), of c] est
    by (simp add: expr_estimate_def est1)
  from cmd_sizes_sound [OF this] v i show ?thesis
    by (auto simp: b s1 agrees_def tables_in_ranges_def wf_tables_def)
qed

lemma optimize_cmd_layout:
  assumes run: "optimize_element fuel el s = Inr (n, s')" and body: "el_body s el = ELEMENT_CMD opcode arg"
    and ag: "agrees \<rho> s" "tables_in_ranges \<rho> s" "wf_tables s" "wf_expr False arg" "in_ranges \<rho> arg"
    and sized: "cmd_sized \<rho> el arg" and sound: "unsound s' = unsound s"
    and checked: "\<And>arg' t. reduce_expr fuel arg s = Inr (arg', t) \<Longrightarrow> estimate_checked fuel t arg'"
  shows "agrees \<rho> s' \<and> tables_in_ranges \<rho> s' \<and> wf_tables s'"
proof (cases "is_const (el_size s el)")
  case True
  with run ag show ?thesis by (simp add: optimize_element_def outcome_iff)
next
  case False
  with run obtain mn mx s1 where b: "new_bounds fuel el s = Inr ((mn, mx), s1)"
    and rest: "(case el_size s1 el of
             Range i lo hi \<Rightarrow>
               if lo = mn \<and> hi = mx then rret 0
               else if mn <s lo \<or> hi <s mx then rstop Abort
               else rbind (set_size el (if mn = mx then Const mn else Range i mn mx)) (\<lambda>_. rret 1)
           | _ \<Rightarrow> rstop Abort) s1 = Inr (n, s')"
    by (auto simp: optimize_element_def outcome_iff)
  from rest obtain i lo hi where r: "el_size s1 el = Range i lo hi"
    by (cases "el_size s1 el") (simp_all add: outcome_iff)
  let ?size = "if mn = mx then Const mn else Range i mn mx"
  from rest r have s': "s' = s1 \<or> s' = s1\<lparr>el_size := (el_size s1)(el := ?size)\<rparr>"
    by (auto simp: outcome_iff set_size_def split: if_splits)
  then have "unsound s1 = unsound s" using sound by auto
  note B = new_bounds_cmd [OF b body ag this checked]
  then have w: "within (vel \<rho> el) (mn, mx)" using sized by (simp add: cmd_sized_def)
  have vi: "vel \<rho> el = vrange \<rho> i" using B r by (auto simp: agrees_def valof_simps)
  have vs: "valof \<rho> ?size = vel \<rho> el"
    using w vi by (auto simp: valof_simps within_def word_sle_eq intro: signed_word_eqI)
  have "wf_expr False ?size" "in_ranges \<rho> ?size" using w vi by simp_all
  with s' B vs show ?thesis
    by (auto simp: agrees_def tables_in_ranges_def wf_tables_def)
qed

lemma frozen_cmd_bounds:
  assumes run: "optimize_element fuel el s = Inr (0, s')" and body: "el_body s el = ELEMENT_CMD opcode arg"
    and size: "el_size s' el = Range i lo hi"
    and ag: "agrees \<rho> s" "tables_in_ranges \<rho> s" "wf_tables s" "wf_expr False arg" "in_ranges \<rho> arg"
    and sound: "unsound s' = unsound s"
    and checked: "\<And>arg' t. reduce_expr fuel arg s = Inr (arg', t) \<Longrightarrow> estimate_checked fuel t arg'"
  shows "\<exists>bs. cmd_generate opcode (valof \<rho> arg) (unat hi) = Some bs \<and> length bs = unat hi"
proof -
  have "\<not> is_const (el_size s el)"
  proof
    assume "is_const (el_size s el)"
    with run have "s' = s" by (simp add: optimize_element_def outcome_iff)
    with size \<open>is_const (el_size s el)\<close> show False by simp
  qed
  with run obtain mn mx s1 where b: "new_bounds fuel el s = Inr ((mn, mx), s1)"
    and rest: "(case el_size s1 el of
             Range i lo hi \<Rightarrow>
               if lo = mn \<and> hi = mx then rret 0
               else if mn <s lo \<or> hi <s mx then rstop Abort
               else rbind (set_size el (if mn = mx then Const mn else Range i mn mx)) (\<lambda>_. rret 1)
           | _ \<Rightarrow> rstop Abort) s1 = Inr (0 :: nat, s')"
    by (auto simp: optimize_element_def outcome_iff)
  from rest have s1: "s1 = s'"
    by (cases "el_size s1 el") (auto simp: outcome_iff split: if_splits)
  with rest size have hi: "hi = mx" by (auto simp: outcome_iff split: if_splits)
  have "within (word_of_nat (cmd_size (valof \<rho> arg))) (mn, mx)"
    using new_bounds_cmd [OF b body ag _ checked] sound s1 by simp
  then have le: "int (cmd_size (valof \<rho> arg)) \<le> sint hi"
    by (simp add: within_def word_sle_eq cmd_size_word hi)
  then have "int (unat hi) = sint hi" by (intro unat_sint) linarith
  with le cmd_size_1_le [of "valof \<rho> arg"] have "cmd_size (valof \<rho> arg) \<le> unat hi" "unat hi \<noteq> 0"
    by linarith+
  then obtain bs where "cmd_generate opcode (valof \<rho> arg) (unat hi) = Some bs"
    using cmd_generate_fits [of opcode "valof \<rho> arg" "unat hi"]
    by (cases "cmd_generate opcode (valof \<rho> arg) (unat hi)") auto
  with cmd_generate_length [of opcode "valof \<rho> arg" "unat hi" bs] \<open>unat hi \<noteq> 0\<close> show ?thesis by auto
qed

section \<open>Properties\<close>


text \<open>A fragment with one command, whose operand is the size of another element.\<close>

definition sample_loose :: ments where
  "sample_loose = sample_program\<lparr>nsegments := 1, next_el := 3,
     el_size := (\<lambda>_. Const 0)(2 := Range 7 0 20, 0 := Range 5 1 8),
     el_body := (\<lambda>_. ELEMENT_BLOCK [] 0)(0 := ELEMENT_CMD 0x40 (Element 2)),
     seg_tab := new_segment(0 := sample_segment\<lparr>seg_fragments := [(1, [0])]\<rparr>)\<rparr>"

definition sample_tight :: ments where
  "sample_tight = sample_loose\<lparr>el_size := (\<lambda>_. Const 0)(2 := Range 7 0 20, 0 := Range 5 1 2)\<rparr>"

lemma cmd_size_samples: "cmd_size (0 :: long) = 1" "cmd_size (20 :: long) = 2"
  by code_simp+

lemma reduce_sample: "el_size s 2 = Range 7 0 20 \<Longrightarrow> reduce_expr (Suc (Suc k)) (Element 2) s = Inr (Element 2, s)"
  by (simp add: reduce_expr_def reader_simps)

lemma sample_bounds:
  "el_size s 2 = Range 7 0 20 \<Longrightarrow> el_body s = el_body sample_loose \<Longrightarrow> new_bounds (Suc (Suc k)) 0 s = Inr ((1, 2), s)"
  by (simp add: new_bounds_def reader_simps reduce_sample sample_loose_def set_body_def estimate_def
      expr_estimate_def cmd_sizes_def cmd_size_samples Let_def word_sle_eq fun_upd_idem)

lemma sample_pass: "pass_optimize_offsets (Suc (Suc k)) sample_loose = Inr (1, sample_tight)"
  "pass_optimize_offsets (Suc (Suc k)) sample_tight = Inr (0, sample_tight)"
  by (simp_all add: pass_optimize_offsets_def elements_of_def optimize_element_def reader_simps
      sample_bounds sample_loose_def sample_tight_def set_size_def word_sless_alt)




text \<open>
  The bounds on the size of a \<open>DATA\<close> element are those of its count times the width, in
  a \<open>long\<close>: for words whose count is not known before linking they wrap around to the empty range
  \<open>0..-4\<close>, which the pass stores since it checks only that bounds do not grow.
\<close>

theorem optimize_data_wraps:
  "(case optimize_element 3 0 (sample_program\<lparr>el_size := (\<lambda>_. Range 1 long_min long_max),
        el_body := (\<lambda>_. ELEMENT_DATA 4 (Const 0) (Name 5))\<rparr>) of
      Inr (n, s') \<Rightarrow> n = 1 \<and> el_size s' 0 = Range 1 0 (-4) \<and> errors s' = 0
    | Inl _ \<Rightarrow> False)"
  by code_simp

end
