(* ===== verification/Image.thy ===== *)
theory Image
  imports Loader Optimize
begin

text \<open>
  What the linker writes is what the loader puts into memory: \<open>pass_output_segments\<close> of
  \<open>shared/ments.c\<close> against \<open>lit_load_segment\<close> of \<open>startups/shared/litload.c\<close>, record by record,
  segment by segment, and for the image the cross-loader makes of a whole program.
\<close>

section \<open>Images\<close>

text \<open>The bytes an element stands for once all names have values.\<close>

definition size_of :: "env \<Rightarrow> 'x ments_scheme \<Rightarrow> nat \<Rightarrow> long" where
  "size_of \<rho> s el = valof \<rho> (el_size s el)"

definition el_image :: "env \<Rightarrow> 'x ments_scheme \<Rightarrow> nat \<Rightarrow> byte list" where
  "el_image \<rho> s el =
     (case el_body s el of
        ELEMENT_BLOCK bs _ \<Rightarrow> take (unat (size_of \<rho> s el)) bs
      | ELEMENT_DATA w v c \<Rightarrow>
          concat (replicate (unat (valof \<rho> c)) (data_unit w (valof \<rho> v)))
            @ replicate (unat (size_of \<rho> s el - w * valof \<rho> c)) (ucast (valof \<rho> v))
      | ELEMENT_CMD op a \<Rightarrow>
          (case cmd_generate op (valof \<rho> a) (unat (size_of \<rho> s el)) of Some bs \<Rightarrow> bs | None \<Rightarrow> []))"

text \<open>The elements a loader can load: closed expressions, data that fits its size, commands that fit their slot.\<close>

definition closed_expr :: "long list \<Rightarrow> indices \<Rightarrow> env \<Rightarrow> expr \<Rightarrow> bool" where
  "closed_expr ntab ix \<rho> e \<longleftrightarrow> loadable ntab ix \<rho> e \<and> depth e \<le> max_expression_depth"

definition el_loadable :: "long list \<Rightarrow> env \<Rightarrow> 'x ments_scheme \<Rightarrow> nat \<Rightarrow> bool" where
  "el_loadable ntab \<rho> s el \<longleftrightarrow>
     (let ix = file_indices s; size = size_of \<rho> s el in
      0 \<le> sint size \<and>
      (case el_body s el of
         ELEMENT_BLOCK bs _ \<Rightarrow> True
       | ELEMENT_DATA w v c \<Rightarrow>
           (w = 4 \<or> w = 2 \<or> w = 1) \<and> closed_expr ntab ix \<rho> v \<and> closed_expr ntab ix \<rho> c \<and>
           closed_expr ntab ix \<rho> (el_size s el) \<and> 0 \<le> sint (valof \<rho> c) \<and>
           int (unat (valof \<rho> c) * unat w) \<le> sint size
       | ELEMENT_CMD op a \<Rightarrow>
           closed_expr ntab ix \<rho> a \<and> closed_expr ntab ix \<rho> (el_size s el) \<and>
           0 < sint size \<and> cmd_generate op (valof \<rho> a) (unat size) \<noteq> None))"

text \<open>What loading bytes does to the loader, up to the length of the last number read.\<close>

definition loaded :: "byte list \<Rightarrow> long \<Rightarrow> byte list \<Rightarrow> loader \<Rightarrow> loader \<Rightarrow> bool" where
  "loaded bs n rest t t' \<longleftrightarrow>
     linp t' = rest \<and> mem t' = mem t @ bs \<and> room t' = room t \<and> segsize t' = segsize t + n \<and>
     segname t' = segname t"

lemma loaded_trans:
  "loaded bs n r t t' \<Longrightarrow> loaded bs' n' r' t' t'' \<Longrightarrow> loaded (bs @ bs') (n + n') r' t t''"
  by (auto simp: loaded_def add.assoc)

lemma closed_expr_load:
  assumes "closed_expr ntab (file_indices s) \<rho> e" "lit_out_expr (file_indices s) e = Inr bs" "linp t = bs @ rest"
  shows "lit_load_in_expr ntab t = Inr (valof \<rho> e, t\<lparr>linp := rest, last_number_len := 1\<rparr>)"
  using assms lit_load_out_expr [of "file_indices s" e bs ntab \<rho> t rest] by (simp add: closed_expr_def)

lemma not_less_0: "\<not> (0 :: long) <s LIT_DATA" "\<not> (0 :: long) <s LIT_CMD" "\<not> (0 :: long) <s LIT_MARKER"
  "\<not> (0 :: long) <s LIT_SEGMENT"
  by (simp_all add: word_sless_alt)

lemma load_block_element:
  assumes out: "out_element s el = Inr bs" and body: "el_body s el = ELEMENT_BLOCK b k"
    and ok: "el_loadable ntab \<rho> s el" and inp: "linp t = bs @ rest"
    and room: "length (mem t) + unat (size_of \<rho> s el) \<le> room t" and area: "sint (size_of \<rho> s el) \<le> sint a"
  shows "\<exists>t'. load_records ntab (Suc f) a t = load_records ntab f (a - size_of \<rho> s el) t' \<and>
    loaded (el_image \<rho> s el) (size_of \<rho> s el) rest t t'"
proof -
  from out body obtain c where c: "el_size s el = Const c" and len: "unat c \<le> length b"
    and bs: "bs = lit_out_string (take (unat c) b)"
    by (auto simp: out_element_def block_contents_def outcome_iff is_const_iff Let_def split: if_splits)
  have size: "size_of \<rho> s el = c" by (simp add: size_of_def c valof_simps)
  have l: "length (take (unat c) b) = unat c" using len by simp
  have img: "el_image \<rho> s el = take (unat c) b" by (simp add: el_image_def body size)
  let ?t = "t\<lparr>linp := take (unat c) b @ rest, last_number_len := length (lit_out_number c)\<rparr>"
  have n: "lit_load_in_number t = Inr (c, ?t)"
    by (rule lit_load_out_number) (simp add: inp bs lit_out_string_def l del: length_take)
  show ?thesis
  proof (cases "c = 0")
    case True
    have "load_records ntab (Suc f) a t = load_records ntab f a ?t"
      by (simp add: rbind_def n True)
    with True show ?thesis by (auto simp: loaded_def size img intro!: exI [of _ ?t])
  next
    case False
    have "0 \<le> sint c" using ok by (simp add: el_loadable_def size Let_def)
    with False have pos: "0 <s c"
      by (metis order_less_le signed_word_eqI sint_0 word_sless_alt)
    let ?t' = "?t\<lparr>linp := rest, mem := mem t @ take (unat c) b, segsize := segsize t + c\<rparr>"
    have "load_block a c ?t = Inr (a - c, ?t')"
      using room area l
      by (simp add: load_block_def reader_simps lit_load_in_block_def store_def size word_sless_alt)
    then have "load_records ntab (Suc f) a t = load_records ntab f (a - c) ?t'"
      by (simp add: rbind_def n pos)
    then show ?thesis by (auto simp: loaded_def size img intro!: exI [of _ ?t'])
  qed
qed

lemma load_data_element:
  assumes out: "out_element s el = Inr bs" and body: "el_body s el = ELEMENT_DATA w v c"
    and ok: "el_loadable ntab \<rho> s el" and inp: "linp t = bs @ rest"
    and room: "length (mem t) + unat (size_of \<rho> s el) \<le> room t" and area: "sint (size_of \<rho> s el) \<le> sint a"
  shows "\<exists>t'. load_records ntab (Suc f) a t = load_records ntab f (a - size_of \<rho> s el) t' \<and>
    loaded (el_image \<rho> s el) (size_of \<rho> s el) rest t t' \<and> length (el_image \<rho> s el) = unat (size_of \<rho> s el)"
proof -
  let ?ix = "file_indices s" and ?sz = "size_of \<rho> s el"
  from out body obtain bv bc bz where b: "lit_out_expr ?ix v = Inr bv" "lit_out_expr ?ix c = Inr bc"
    "lit_out_expr ?ix (el_size s el) = Inr bz"
    and bs: "bs = lit_out_number LIT_DATA @ lit_out_number w @ bv @ bc @ bz"
    by (auto simp: out_element_def outcome_iff Let_def)
  from ok body have w: "w = 4 \<or> w = 2 \<or> w = 1" and cl: "closed_expr ntab ?ix \<rho> v" "closed_expr ntab ?ix \<rho> c"
      "closed_expr ntab ?ix \<rho> (el_size s el)"
    and c0: "0 \<le> sint (valof \<rho> c)" and fit: "int (unat (valof \<rho> c) * unat w) \<le> sint ?sz" and s0: "0 \<le> sint ?sz"
    by (simp_all add: el_loadable_def Let_def)
  have b31: "sint ?sz < 2 ^ 31" using sint_lt [of ?sz] by simp
  then have "int (unat (valof \<rho> c) * unat w) < int (2 ^ 31)" using fit by simp
  then have small: "unat (valof \<rho> c) * unat w < 2 ^ 31" by (simp only: of_nat_less_iff)
  then have prod: "unat (valof \<rho> c * w) = unat (valof \<rho> c) * unat w"
    by (subst unat_mult_lem [THEN iffD1]) simp_all
  have sp: "sint (valof \<rho> c * w) = int (unat (valof \<rho> c) * unat w)"
    using sint_small [of "valof \<rho> c * w"] small prod by simp
  have uz: "int (unat ?sz) = sint ?sz" by (rule unat_sint [OF s0])
  have le: "unat (valof \<rho> c) * unat w \<le> unat ?sz" using fit uz by linarith
  have diff: "unat (?sz - w * valof \<rho> c) = unat ?sz - unat (valof \<rho> c) * unat w"
    using prod le by (subst unat_sub) (simp_all add: word_le_nat_alt mult.commute)
  have img: "el_image \<rho> s el = concat (replicate (unat (valof \<rho> c)) (data_unit w (valof \<rho> v)))
            @ replicate (unat (?sz - w * valof \<rho> c)) (ucast (valof \<rho> v))"
    by (simp add: el_image_def body)
  have len: "length (el_image \<rho> s el) = unat ?sz"
    using le by (simp add: img diff length_concat sum_list_replicate data_unit_length [OF w])
  let ?t0 = "t\<lparr>linp := lit_out_number w @ bv @ bc @ bz @ rest, last_number_len := length (lit_out_number LIT_DATA)\<rparr>"
  let ?t1 = "t\<lparr>linp := bv @ bc @ bz @ rest, last_number_len := length (lit_out_number w)\<rparr>"
  let ?t2 = "t\<lparr>linp := bc @ bz @ rest, last_number_len := 1\<rparr>"
  let ?t3 = "t\<lparr>linp := bz @ rest, last_number_len := 1\<rparr>"
  let ?t4 = "t\<lparr>linp := rest, last_number_len := 1\<rparr>"
  let ?t5 = "?t4\<lparr>mem := mem t @ el_image \<rho> s el, segsize := segsize t + ?sz\<rparr>"
  have n: "lit_load_in_number t = Inr (LIT_DATA, ?t0)"
    by (rule lit_load_out_number) (simp add: inp bs)
  have 1: "lit_load_in_number ?t0 = Inr (w, ?t1)"
    using lit_load_out_number [of ?t0 w "bv @ bc @ bz @ rest"] by simp
  have 2: "lit_load_in_expr ntab ?t1 = Inr (valof \<rho> v, ?t2)"
    using closed_expr_load [OF cl(1) b(1), of ?t1 "bc @ bz @ rest"] by simp
  have 3: "lit_load_in_expr ntab ?t2 = Inr (valof \<rho> c, ?t3)"
    using closed_expr_load [OF cl(2) b(2), of ?t2 "bz @ rest"] by simp
  have 4: "lit_load_in_expr ntab ?t3 = Inr (?sz, ?t4)"
    using closed_expr_load [OF cl(3) b(3), of ?t3 rest] by (simp add: size_of_def)
  have st: "store (el_image \<rho> s el) ?t4 = Inr ((), ?t4\<lparr>mem := mem t @ el_image \<rho> s el\<rparr>)"
    using room by (simp add: store_def len)
  have chk: "\<not> valof \<rho> c <s 0" "\<not> ?sz <s valof \<rho> c * w" "\<not> a <s ?sz" "\<not> (w \<noteq> 4 \<and> w \<noteq> 2 \<and> w \<noteq> 1)"
    using c0 fit sp area w by (auto simp: word_sless_alt)
  have "load_data ntab a ?t0 = Inr (a - ?sz, ?t5)"
    using st unfolding img
    by (simp only: load_data_def rbind_apply 1 2 3 4 obind.simps prod.case chk if_False)
      (simp add: rbind_apply rmodify_apply rret_apply)
  then have "load_records ntab (Suc f) a t = load_records ntab f (a - ?sz) ?t5"
    by (simp add: rbind_def n not_less_0)
  then show ?thesis using len by (auto simp: loaded_def intro!: exI [of _ ?t5])
qed

lemma load_cmd_element:
  assumes out: "out_element s el = Inr bs" and body: "el_body s el = ELEMENT_CMD op arg"
    and ok: "el_loadable ntab \<rho> s el" and inp: "linp t = bs @ rest"
    and room: "length (mem t) + unat (size_of \<rho> s el) \<le> room t" and area: "sint (size_of \<rho> s el) \<le> sint a"
  shows "\<exists>t'. load_records ntab (Suc f) a t = load_records ntab f (a - size_of \<rho> s el) t' \<and>
    loaded (el_image \<rho> s el) (size_of \<rho> s el) rest t t' \<and> length (el_image \<rho> s el) = unat (size_of \<rho> s el)"
proof -
  let ?ix = "file_indices s" and ?sz = "size_of \<rho> s el"
  from out body obtain ba bz where b: "lit_out_expr ?ix arg = Inr ba" "lit_out_expr ?ix (el_size s el) = Inr bz"
    and bs: "bs = lit_out_number LIT_CMD @ lit_out_number (ucast op :: long) @ ba @ bz"
    by (auto simp: out_element_def outcome_iff Let_def)
  from ok body have cl: "closed_expr ntab ?ix \<rho> arg" "closed_expr ntab ?ix \<rho> (el_size s el)"
    and s0: "0 < sint ?sz" and gen: "cmd_generate op (valof \<rho> arg) (unat ?sz) \<noteq> None"
    by (auto simp: el_loadable_def Let_def)
  have uz: "unat ?sz = nat (sint ?sz)" using unat_sint [of ?sz] s0 by linarith
  from gen have g: "cmd_generate op (valof \<rho> arg) (unat ?sz) = Some (el_image \<rho> s el)"
    by (auto simp: el_image_def body)
  have len: "length (el_image \<rho> s el) = unat ?sz"
    using cmd_generate_length [OF _ g] s0 uz by simp
  have op: "(ucast (ucast op :: long) :: byte) = op" by (rule bit_word_eqI) (simp add: bit_simps)
  let ?t0 = "t\<lparr>linp := lit_out_number (ucast op :: long) @ ba @ bz @ rest, last_number_len := length (lit_out_number LIT_CMD)\<rparr>"
  let ?t1 = "t\<lparr>linp := ba @ bz @ rest, last_number_len := length (lit_out_number (ucast op :: long))\<rparr>"
  let ?t2 = "t\<lparr>linp := bz @ rest, last_number_len := 1\<rparr>"
  let ?t3 = "t\<lparr>linp := rest, last_number_len := 1\<rparr>"
  let ?t4 = "?t3\<lparr>mem := mem t @ el_image \<rho> s el, segsize := segsize t + ?sz\<rparr>"
  have n: "lit_load_in_number t = Inr (LIT_CMD, ?t0)"
    by (rule lit_load_out_number) (simp add: inp bs)
  have 1: "lit_load_in_number ?t0 = Inr (ucast op, ?t1)"
    using lit_load_out_number [of ?t0 "ucast op" "ba @ bz @ rest"] by simp
  have 2: "lit_load_in_expr ntab ?t1 = Inr (valof \<rho> arg, ?t2)"
    using closed_expr_load [OF cl(1) b(1), of ?t1 "bz @ rest"] by simp
  have 3: "lit_load_in_expr ntab ?t2 = Inr (?sz, ?t3)"
    using closed_expr_load [OF cl(2) b(2), of ?t2 rest] by (simp add: size_of_def)
  have lg: "lit_load_cmd_generate (ucast op) (valof \<rho> arg) ?sz = Inr (el_image \<rho> s el)"
    using s0 g by (simp add: lit_load_cmd_generate_eq op uz)
  have st: "store (el_image \<rho> s el) ?t3 = Inr ((), ?t3\<lparr>mem := mem t @ el_image \<rho> s el\<rparr>)"
    using room by (simp add: store_def len)
  have chk: "\<not> a <s ?sz" using area by (simp add: word_sless_alt)
  have "load_cmd ntab a ?t0 = Inr (a - ?sz, ?t4)"
    by (simp only: load_cmd_def rbind_apply 1 2 3 obind.simps prod.case chk if_False lg sum.case st)
      (simp add: rbind_apply rmodify_apply rret_apply)
  then have "load_records ntab (Suc f) a t = load_records ntab f (a - ?sz) ?t4"
    by (simp add: rbind_def n not_less_0)
  then show ?thesis using len by (auto simp: loaded_def intro!: exI [of _ ?t4])
qed

lemma image_length:
  assumes "out_element s el = Inr bs" "el_body s el = ELEMENT_BLOCK b k"
  shows "length (el_image \<rho> s el) = unat (size_of \<rho> s el)"
  using assms
  by (auto simp: out_element_def block_contents_def outcome_iff is_const_iff Let_def el_image_def size_of_def
      valof_simps split: if_splits)

text \<open>One record is read as the image of the element it was written for.\<close>

lemma load_element:
  assumes "out_element s el = Inr bs" "el_loadable ntab \<rho> s el" "linp t = bs @ rest"
    "length (mem t) + unat (size_of \<rho> s el) \<le> room t" "sint (size_of \<rho> s el) \<le> sint a"
  shows "\<exists>t'. load_records ntab (Suc f) a t = load_records ntab f (a - size_of \<rho> s el) t' \<and>
    loaded (el_image \<rho> s el) (size_of \<rho> s el) rest t t' \<and> length (el_image \<rho> s el) = unat (size_of \<rho> s el)"
proof (cases "el_body s el")
  case (ELEMENT_BLOCK b k)
  from load_block_element [OF assms(1) this assms(2-5)] image_length [OF assms(1) this]
  show ?thesis by blast
next
  case (ELEMENT_DATA w v c)
  from load_data_element [OF assms(1) this assms(2-5)] show ?thesis .
next
  case (ELEMENT_CMD op arg)
  from load_cmd_element [OF assms(1) this assms(2-5)] show ?thesis .
qed

lemma image_size:
  assumes out: "out_element s el = Inr bs" and ok: "el_loadable ntab \<rho> s el"
  shows "length (el_image \<rho> s el) = unat (size_of \<rho> s el)"
  using load_element [OF assms, of "\<lparr>linp = bs, last_number_len = 0, segsize = 0, segname = [], mem = [],
      room = unat (size_of \<rho> s el)\<rparr>" "[]" "size_of \<rho> s el" 0]
  by auto

section \<open>Segments\<close>

definition chain_image :: "env \<Rightarrow> 'x ments_scheme \<Rightarrow> nat list \<Rightarrow> byte list" where
  "chain_image \<rho> s els = concat (map (el_image \<rho> s) els)"

lemma load_chain:
  assumes "out_each (out_element s) els = Inr bs" "\<forall>el\<in>set els. el_loadable ntab \<rho> s el"
    "linp t = bs @ rest" "length (mem t) + length (chain_image \<rho> s els) \<le> room t"
    "int (length (chain_image \<rho> s els)) \<le> sint a"
  shows "\<exists>t' n. load_records ntab (length els + f) a t = load_records ntab f (a - n) t' \<and>
    loaded (chain_image \<rho> s els) n rest t t' \<and> unat n = length (chain_image \<rho> s els)"
  using assms
proof (induction els arbitrary: bs t a)
  case Nil
  then show ?case
    by (intro exI [of _ t] exI [of _ 0]) (simp add: chain_image_def loaded_def)
next
  case (Cons el els)
  from Cons.prems(1) obtain b bs' where b: "out_element s el = Inr b" "out_each (out_element s) els = Inr bs'"
    and bs: "bs = b @ bs'"
    by (auto simp: obind_Inr_iff)
  let ?sz = "size_of \<rho> s el"
  have ok: "el_loadable ntab \<rho> s el" using Cons.prems(2) by simp
  then have s0: "0 \<le> sint ?sz" by (simp add: el_loadable_def Let_def)
  have uz: "int (unat ?sz) = sint ?sz" by (rule unat_sint [OF s0])
  have len0: "length (el_image \<rho> s el) = unat ?sz"
    using image_size [OF b(1) ok] .
  have total: "length (chain_image \<rho> s (el # els)) = unat ?sz + length (chain_image \<rho> s els)"
    by (simp add: chain_image_def len0)
  have room: "length (mem t) + unat ?sz \<le> room t" using Cons.prems(4) total by linarith
  have area: "sint ?sz \<le> sint a" using Cons.prems(5) total uz by linarith
  have inp: "linp t = b @ (bs' @ rest)" using Cons.prems(3) bs by simp
  from load_element [OF b(1) ok inp room area, of "length els + f"] obtain t1
    where run1: "load_records ntab (Suc (length els + f)) a t = load_records ntab (length els + f) (a - ?sz) t1"
      and l1: "loaded (el_image \<rho> s el) ?sz (bs' @ rest) t t1"
    by blast
  have na: "\<not> a <s ?sz" using area by (simp add: word_sless_alt)
  have a0: "0 \<le> sint a" using area s0 by linarith
  have a': "sint (a - ?sz) = sint a - int (unat ?sz)" by (rule sint_areasz [OF a0 s0 na])
  have "\<exists>t' n. load_records ntab (length els + f) (a - ?sz) t1 = load_records ntab f (a - ?sz - n) t' \<and>
    loaded (chain_image \<rho> s els) n rest t1 t' \<and> unat n = length (chain_image \<rho> s els)"
    by (rule Cons.IH [OF b(2)]) (use Cons.prems(2,4,5) l1 total len0 a' in \<open>simp_all add: loaded_def\<close>)
  then obtain t' n where run2: "load_records ntab (length els + f) (a - ?sz) t1 = load_records ntab f (a - ?sz - n) t'"
    and l2: "loaded (chain_image \<rho> s els) n rest t1 t'" and n: "unat n = length (chain_image \<rho> s els)"
    by blast
  have "unat (?sz + n) = unat ?sz + unat n"
  proof -
    have "sint a < 2 ^ 31" using sint_lt [of a] by simp
    then have "int (unat ?sz + unat n) < int (2 ^ 32)" using Cons.prems(5) total n by simp
    then have "unat ?sz + unat n < 2 ^ LENGTH(32)" by (simp only: of_nat_less_iff) simp
    then show ?thesis by (simp only: unat_add_lem)
  qed
  moreover have "loaded (chain_image \<rho> s (el # els)) (?sz + n) rest t t'"
    using loaded_trans [OF l1 l2] by (simp add: chain_image_def)
  moreover have "load_records ntab (length (el # els) + f) a t = load_records ntab f (a - (?sz + n)) t'"
    using run1 run2 by (simp only: list.size add_Suc add_Suc_right plus_nat.add_0 diff_diff_add add_0_right)
  ultimately show ?case using n total by metis
qed

lemma dummy_byte: "lit_out_number (0 :: long) = [0]"
  by code_simp

lemma load_records_marker:
  assumes mk: "lit_out_marker oldpos curpos area = Inr (mk, q)" and inp: "linp t = mk @ rest"
  shows "\<exists>t'. load_records ntab (Suc f) a t = Inr (False, t') \<and> linp t' = rest \<and> mem t' = mem t \<and>
    room t' = room t \<and> segsize t' = segsize t"
proof -
  let ?n1 = "lit_out_number LIT_MARKER" and ?n2 = "lit_out_number area"
    and ?n3 = "lit_out_number (word_of_nat (curpos - oldpos) :: long)"
  let ?k = "lit_marker_length - (length ?n1 + length ?n2 + length ?n3)"
  let ?pad = "replicate ?k 0 :: byte list"
  from mk have m: "mk = ?n1 @ ?n2 @ ?n3 @ ?pad"
    by (auto simp: lit_out_marker_def Let_def dummy_byte concat_replicate_trivial add.assoc split: if_splits)
  let ?t1 = "t\<lparr>linp := ?n2 @ ?n3 @ ?pad @ rest, last_number_len := length ?n1\<rparr>"
  let ?t2 = "t\<lparr>linp := ?n3 @ ?pad @ rest, last_number_len := length ?n2\<rparr>"
  let ?t3 = "t\<lparr>linp := ?pad @ rest, last_number_len := length ?n3\<rparr>"
  let ?t4 = "t\<lparr>linp := rest, last_number_len := length ?n3\<rparr>"
  have 1: "lit_load_in_number t = Inr (LIT_MARKER, ?t1)"
    by (rule lit_load_out_number) (simp add: inp m)
  have 2: "lit_load_in_number ?t1 = Inr (area, ?t2)"
    using lit_load_out_number [of ?t1 area "?n3 @ ?pad @ rest"] by simp
  have 3: "lit_load_in_number ?t2 = Inr (word_of_nat (curpos - oldpos), ?t3)"
    using lit_load_out_number [of ?t2 _ "?pad @ rest"] by simp
  have 4: "in_bytes ?k ?t3 = Inr (?pad, ?t4)"
    by (simp add: in_bytes_run del: in_bytes.simps)
  have "load_marker ?t1 = Inr (False, ?t4\<lparr>segname := (segname t)[0 := 0]\<rparr>)"
    by (simp add: load_marker_def rbind_def rget_def rmodify_def rret_def 2 3 4 del: in_bytes.simps)
  then show ?thesis
    by (simp add: rbind_def 1 not_less_0)
qed

definition segment_header :: "'x ments_scheme \<Rightarrow> nat \<Rightarrow> byte list" where
  "segment_header s i =
     lit_out_number LIT_SEGMENT @ lit_out_string (c_string (name_ident s (seg_name (seg_tab s i))))
       @ lit_out_number (name_idx s (fst (hd (seg_fragments (seg_tab s i)))))"

lemma load_records_switch:
  assumes name: "length (c_string (name_ident s (seg_name (seg_tab s i)))) \<le> max_segment_name_length"
    and inp: "linp t = segment_header s i @ rest"
  shows "\<exists>t'. load_records ntab (Suc f) a t = Inr (True, t') \<and> linp t' = rest \<and> mem t' = mem t \<and>
    room t' = room t \<and> segsize t' = segsize t"
proof -
  let ?id = "c_string (name_ident s (seg_name (seg_tab s i)))"
  let ?ix = "name_idx s (fst (hd (seg_fragments (seg_tab s i))))"
  let ?len = "word_of_nat (length ?id) :: long"
  have l: "length ?id \<le> 32" using name by (simp add: max_segment_name_length_def)
  have u: "unat ?len = length ?id"
    using l by (simp add: unat_of_nat take_bit_nat_eq_self)
  have si: "sint ?len = int (length ?id)"
    using sint_small [of ?len] u l by simp
  let ?t1 = "t\<lparr>linp := lit_out_number ?len @ ?id @ lit_out_number ?ix @ rest,
      last_number_len := length (lit_out_number LIT_SEGMENT)\<rparr>"
  let ?t2 = "t\<lparr>linp := ?id @ lit_out_number ?ix @ rest, last_number_len := length (lit_out_number ?len)\<rparr>"
  let ?t3 = "?t2\<lparr>linp := lit_out_number ?ix @ rest\<rparr>"
  let ?t4 = "?t3\<lparr>segname := ?id @ drop (length ?id) (segname t)\<rparr>"
  have 1: "lit_load_in_number t = Inr (LIT_SEGMENT, ?t1)"
    by (rule lit_load_out_number) (simp add: inp segment_header_def lit_out_string_def)
  have 2: "lit_load_in_number ?t1 = Inr (?len, ?t2)"
    using lit_load_out_number [of ?t1 ?len "?id @ lit_out_number ?ix @ rest"] by simp
  have 3: "lit_load_in_block (Suc max_segment_name_length) ?len ?t2 = Inr (?id, ?t3)"
    using l by (simp add: lit_load_in_block_def u max_segment_name_length_def)
  have 4: "lit_load_in_number ?t4 = Inr (?ix, ?t4\<lparr>linp := rest, last_number_len := length (lit_out_number ?ix)\<rparr>)"
    using lit_load_out_number [of ?t4 ?ix rest] by simp
  have c: "\<not> int max_segment_name_length < sint ?len" using l by (simp add: si max_segment_name_length_def)
  have "load_segment_switch ?t1 = Inr (True, ?t4\<lparr>linp := rest, last_number_len := length (lit_out_number ?ix)\<rparr>)"
    using 4 by (simp add: load_segment_switch_def rbind_def rmodify_def rret_def 2 3 c)
  then show ?thesis
    by (simp add: rbind_def 1 not_less_0)
qed

lemma lit_out_number_nonempty: "1 \<le> length (lit_out_number (n :: long))"
  using out_number_length [of n] by simp

lemma out_element_length: "out_element s el = Inr bs \<Longrightarrow> 1 \<le> length bs"
  using lit_out_number_nonempty
  by (auto simp: out_element_def outcome_iff Let_def lit_out_string_def split: element_body.splits
      intro!: trans_le_add1)

lemma out_chain_length: "out_each (out_element s) els = Inr bs \<Longrightarrow> length els \<le> length bs"
  by (induction els arbitrary: bs) (auto simp: obind_Inr_iff dest!: out_element_length)

text \<open>A segment, followed by a switch to the next one or by the marker of the area.\<close>

lemma load_segment_chain:
  assumes out: "out_each (out_element s) els = Inr bs" and ok: "\<forall>el\<in>set els. el_loadable ntab \<rho> s el"
    and inp: "linp t = bs @ rest" and rest: "rest \<noteq> []"
    and room: "length (mem t) + length (chain_image \<rho> s els) \<le> room t"
    and area: "int (length (chain_image \<rho> s els)) \<le> sint a"
    and last: "\<And>f b u. linp u = rest \<Longrightarrow> \<exists>u'. load_records ntab (Suc f) b u = Inr (more_segments, u') \<and>
      linp u' = rest' \<and> mem u' = mem u \<and> room u' = room u \<and> segsize u' = segsize u"
  shows "\<exists>t'. lit_load_segment ntab a t = Inr (more_segments, t') \<and> linp t' = rest' \<and>
    mem t' = mem t @ chain_image \<rho> s els \<and> room t' = room t \<and>
    unat (segsize t') = length (chain_image \<rho> s els)"
proof -
  let ?t = "t\<lparr>segsize := 0\<rparr>"
  have "length els \<le> length (linp t)" using out_chain_length [OF out] inp by simp
  then have f: "Suc (length (linp ?t)) = length els + Suc (length (linp t) - length els)" (is "_ = _ + Suc ?f")
    by simp
  have "\<exists>t' n. load_records ntab (length els + Suc ?f) a ?t = load_records ntab (Suc ?f) (a - n) t' \<and>
    loaded (chain_image \<rho> s els) n rest ?t t' \<and> unat n = length (chain_image \<rho> s els)"
    by (rule load_chain [OF out ok]) (use inp room area in simp_all)
  then obtain t1 n where run: "load_records ntab (length els + Suc ?f) a ?t = load_records ntab (Suc ?f) (a - n) t1"
    and l: "loaded (chain_image \<rho> s els) n rest ?t t1" and n: "unat n = length (chain_image \<rho> s els)"
    by blast
  from last [of t1 ?f "a - n"] l obtain t2 where "load_records ntab (Suc ?f) (a - n) t1 = Inr (more_segments, t2)"
    "linp t2 = rest'" "mem t2 = mem t1" "room t2 = room t1" "segsize t2 = segsize t1"
    by (auto simp: loaded_def)
  moreover have "lit_load_segment ntab a t = load_records ntab (length els + Suc ?f) a ?t"
    unfolding f [symmetric] by (simp add: lit_load_segment_def rbind_def rmodify_def del: load_records.simps)
  ultimately show ?thesis using run l n by (auto simp: loaded_def)
qed

section \<open>Programs\<close>

text \<open>A linked program: one fragment per segment, everything loadable without a name table.\<close>

definition linked :: "env \<Rightarrow> 'x ments_scheme \<Rightarrow> bool" where
  "linked \<rho> s \<longleftrightarrow>
     (\<forall>i < nsegments s.
        length (seg_fragments (seg_tab s i)) = 1 \<and>
        length (c_string (name_ident s (seg_name (seg_tab s i)))) \<le> max_segment_name_length \<and>
        (\<forall>el \<in> set (seg_elements (seg_tab s i)). el_loadable [] \<rho> s el))"

definition program_image :: "env \<Rightarrow> 'x ments_scheme \<Rightarrow> nat list \<Rightarrow> byte list" where
  "program_image \<rho> s is = concat (map (\<lambda>i. chain_image \<rho> s (seg_elements (seg_tab s i))) is)"

lemma out_segment_single:
  assumes "out_segment s i = Inr bs" "length (seg_fragments (seg_tab s i)) = 1"
  obtains b where "out_each (out_element s) (seg_elements (seg_tab s i)) = Inr b"
    "bs = (if i = 0 then [] else segment_header s i) @ b"
proof -
  obtain frag els where f: "seg_fragments (seg_tab s i) = [(frag, els)]"
    using assms(2) by (metis length_0_conv length_Suc_conv One_nat_def surj_pair)
  have e: "seg_elements (seg_tab s i) = els" by (simp add: seg_elements_def f)
  have "out_segment s i = obind (out_each (out_element s) els)
      (\<lambda>b. Inr ((if i = 0 then [] else segment_header s i) @ b))"
    by (cases "out_each (out_element s) els")
      (simp_all add: out_segment_def f out_fragment_def Let_def segment_header_def)
  with assms(1) obtain b where "out_each (out_element s) els = Inr b"
    "bs = (if i = 0 then [] else segment_header s i) @ b"
    by (simp only: obind_Inr_iff sum.inject) blast
  then show ?thesis using that e by simp
qed

lemma max_image: "unat max_image_size = 524288" "sint max_image_size = 524288"
  by (simp_all add: max_image_size_def)

lemma crossload_one:
  assumes out: "out_each (out_element s) els = Inr b" and ok: "\<forall>el\<in>set els. el_loadable [] \<rho> s el"
    and inp: "linp t = b @ rest" and ne: "rest \<noteq> []"
    and size: "length img + length (chain_image \<rho> s els) \<le> 524288"
    and last: "\<And>f c u. linp u = rest \<Longrightarrow> \<exists>u'. load_records [] (Suc f) c u = Inr (more_segments, u') \<and>
      linp u' = rest' \<and> mem u' = mem u \<and> room u' = room u \<and> segsize u' = segsize u"
  shows "\<exists>t'. linp t' = rest' \<and> crossload (Suc f) img t =
    (if more_segments then crossload f (img @ chain_image \<rho> s els) t' else Inr (img @ chain_image \<rho> s els, t'))"
proof -
  let ?img = "chain_image \<rho> s els"
  let ?t = "t\<lparr>mem := [], room := unat max_image_size - length img\<rparr>"
  let ?a = "max_image_size - word_of_nat (length img)"
  have u: "unat (word_of_nat (length img) :: long) = length img"
    using size by (simp add: unat_of_nat take_bit_nat_eq_self)
  then have w: "sint (word_of_nat (length img) :: long) = int (length img)"
    using sint_small [of "word_of_nat (length img)"] size by simp
  have "sint ?a = sint max_image_size - sint (word_of_nat (length img) :: long)"
    by (rule sint_diff_eq) (use size in \<open>simp_all add: w max_image\<close>)
  then have a: "sint ?a = 524288 - int (length img)" by (simp add: w max_image)
  have "\<exists>t'. lit_load_segment [] ?a ?t = Inr (more_segments, t') \<and> linp t' = rest' \<and>
    mem t' = mem ?t @ ?img \<and> room t' = room ?t \<and> unat (segsize t') = length ?img"
  proof (rule load_segment_chain [OF out ok _ ne])
    show "linp ?t = b @ rest" by (simp add: inp)
    show "length (mem ?t) + length ?img \<le> room ?t" using size by (simp add: max_image)
    show "int (length ?img) \<le> sint ?a" using size unfolding a by linarith
  qed (rule last)
  then obtain t' where run: "lit_load_segment [] ?a ?t = Inr (more_segments, t')" and l: "linp t' = rest'"
    "mem t' = ?img" "unat (segsize t') = length ?img"
    by auto
  have "take (unat (segsize t')) (mem t') = ?img" using l by simp
  then have "crossload (Suc f) img t =
      (if more_segments then crossload f (img @ ?img) t' else Inr (img @ ?img, t'))"
    unfolding crossload.simps(2) rbind_apply rmodify_apply obind.simps prod.case run rget_apply Let_def
    by (cases more_segments) (simp_all add: rret_def)
  with l(1) show ?thesis by blast
qed

declare crossload.simps [simp del]

lemma marker_nonempty: "lit_out_marker oldpos curpos area = Inr (mk, q) \<Longrightarrow> mk \<noteq> []"
proof
  assume mk: "lit_out_marker oldpos curpos area = Inr (mk, q)" and "mk = []"
  then have "lit_out_number LIT_MARKER = []"
    unfolding lit_out_marker_def Let_def by (simp split: if_splits)
  with lit_out_number_nonempty [of LIT_MARKER] show False by simp
qed

lemma crossload_segments:
  assumes lk: "linked \<rho> s" and mk: "lit_out_marker oldpos curpos area = Inr (mk, q)"
  shows "out_each (out_element s) (seg_elements (seg_tab s i)) = Inr b \<Longrightarrow> i < nsegments s \<Longrightarrow>
    out_each (out_segment s) js = Inr bs \<Longrightarrow> set js \<subseteq> {0<..<nsegments s} \<Longrightarrow>
    linp t = b @ bs @ mk @ rest \<Longrightarrow> length js < fuel \<Longrightarrow>
    length img + length (program_image \<rho> s (i # js)) \<le> 524288 \<Longrightarrow>
    \<exists>t'. crossload fuel img t = Inr (img @ program_image \<rho> s (i # js), t')"
proof (induction js arbitrary: i b bs t fuel img)
  case Nil
  obtain f where f: "fuel = Suc f" using Nil.prems(6) by (cases fuel) auto
  have ok: "\<forall>el\<in>set (seg_elements (seg_tab s i)). el_loadable [] \<rho> s el"
    using lk Nil.prems(2) by (simp add: linked_def)
  have ne: "mk @ rest \<noteq> []"
    using marker_nonempty [OF mk] by simp
  have inp: "linp t = b @ mk @ rest" using Nil.prems(3,5) by simp
  have size: "length img + length (chain_image \<rho> s (seg_elements (seg_tab s i))) \<le> 524288"
    using Nil.prems(7) by (simp add: program_image_def)
  have "\<exists>t'. linp t' = rest \<and> crossload (Suc f) img t =
    (if False then crossload f (img @ chain_image \<rho> s (seg_elements (seg_tab s i))) t'
     else Inr (img @ chain_image \<rho> s (seg_elements (seg_tab s i)), t'))"
    by (rule crossload_one [OF Nil.prems(1) ok inp ne size]) (rule load_records_marker [OF mk])
  then show ?case by (auto simp: program_image_def f)
next
  case (Cons j js)
  obtain f where f: "fuel = Suc f" using Cons.prems(6) by (cases fuel) auto
  from Cons.prems(3) obtain bj bs' where bj: "out_segment s j = Inr bj" and bs': "out_each (out_segment s) js = Inr bs'"
    and bs: "bs = bj @ bs'"
    by (auto simp: obind_Inr_iff)
  have j: "0 < j" "j < nsegments s" using Cons.prems(4) by auto
  have single: "length (seg_fragments (seg_tab s j)) = 1" using lk j by (simp add: linked_def)
  obtain b' where b': "out_each (out_element s) (seg_elements (seg_tab s j)) = Inr b'"
    and bj': "bj = segment_header s j @ b'"
    by (rule out_segment_single [OF bj single]) (use j in simp)
  have ok: "\<forall>el\<in>set (seg_elements (seg_tab s i)). el_loadable [] \<rho> s el"
    using lk Cons.prems(2) by (simp add: linked_def)
  have name: "length (c_string (name_ident s (seg_name (seg_tab s j)))) \<le> max_segment_name_length"
    using lk j by (simp add: linked_def)
  have ne: "segment_header s j @ b' @ bs' @ mk @ rest \<noteq> []"
    using lit_out_number_nonempty [of LIT_SEGMENT] unfolding segment_header_def by (cases "lit_out_number LIT_SEGMENT") simp_all
  have inp: "linp t = b @ segment_header s j @ b' @ bs' @ mk @ rest"
    using Cons.prems(5) bs bj' by simp
  let ?img = "chain_image \<rho> s (seg_elements (seg_tab s i))"
  have size: "length img + length ?img \<le> 524288"
    using Cons.prems(7) by (simp add: program_image_def)
  have "\<exists>t'. linp t' = b' @ bs' @ mk @ rest \<and> crossload (Suc f) img t =
    (if True then crossload f (img @ ?img) t' else Inr (img @ ?img, t'))"
    by (rule crossload_one [OF Cons.prems(1) ok inp ne size]) (rule load_records_switch [OF name])
  then obtain t1 where t1: "linp t1 = b' @ bs' @ mk @ rest" and run: "crossload (Suc f) img t = crossload f (img @ ?img) t1"
    by auto
  have "\<exists>t'. crossload f (img @ ?img) t1 = Inr ((img @ ?img) @ program_image \<rho> s (j # js), t')"
    by (rule Cons.IH [OF b' j(2) bs' _ t1])
      (use Cons.prems(4,6,7) f in \<open>simp_all add: program_image_def\<close>)
  then show ?case using run f by (simp add: program_image_def)
qed

lemma crossload_program:
  assumes out: "pass_output_segments s = Inr bs" and mk: "lit_out_marker oldpos curpos area = Inr (mk, q)"
    and lk: "linked \<rho> s" and n: "0 < nsegments s" "nsegments s \<le> fuel"
    and size: "length (program_image \<rho> s [0..<nsegments s]) \<le> 524288"
    and inp: "linp t = bs @ mk @ rest"
  shows "\<exists>t'. crossload fuel [] t = Inr (program_image \<rho> s [0..<nsegments s], t')"
proof -
  have js: "[0..<nsegments s] = 0 # [1..<nsegments s]" using n(1) by (simp add: upt_conv_Cons)
  from out obtain b0 bs' where b0: "out_segment s 0 = Inr b0" and bs': "out_each (out_segment s) [1..<nsegments s] = Inr bs'"
    and bs: "bs = b0 @ bs'"
    unfolding pass_output_segments_def js by (auto simp: obind_Inr_iff)
  have "length (seg_fragments (seg_tab s 0)) = 1" using lk n(1) by (simp add: linked_def)
  then obtain b where b: "out_each (out_element s) (seg_elements (seg_tab s 0)) = Inr b" and "b0 = b"
    by (rule out_segment_single [OF b0]) simp
  have "\<exists>t'. crossload fuel [] t = Inr ([] @ program_image \<rho> s (0 # [1..<nsegments s]), t')"
    by (rule crossload_segments [OF lk mk b n(1) bs']) (use n size inp bs \<open>b0 = b\<close> js in auto)
  then show ?thesis by (simp only: js append_Nil)
qed

section \<open>Properties\<close>

text \<open>
  C32: The cross-loader makes of the file the linker wrote exactly the image of the program: the bytes
  of its blocks, its data repeated as often as counted, and its commands encoded in their slots, segment
  after segment, for every linked program of at most 512 KB.
\<close>

theorem crossload_output:
  assumes "pass_output_segments s = Inr bs" "lit_out_marker oldpos curpos area = Inr (mk, q)"
    "linked \<rho> s" "0 < nsegments s" "nsegments s \<le> fuel"
    "length (program_image \<rho> s [0..<nsegments s]) \<le> 524288" "linp t = bs @ mk @ rest"
  shows "\<exists>t'. crossload fuel [] t = Inr (program_image \<rho> s [0..<nsegments s], t')"
  by (rule crossload_program [OF assms])

text \<open>Two segments: a block and a half word, and a command that needs a prefix.\<close>

definition sample_linked :: ments where
  "sample_linked = sample_program\<lparr>nsegments := 2, next_el := 3,
     name_ident := (\<lambda>_. [116]), name_idx := (\<lambda>_. 1),
     el_size := (\<lambda>_. Const 2),
     el_body := (\<lambda>el. if el = 0 then ELEMENT_BLOCK [0x11, 0x22] 32
                      else if el = 1 then ELEMENT_DATA 2 (Const 0x0102) (Const 1)
                      else ELEMENT_CMD 0x40 (Const 20)),
     seg_tab := (\<lambda>i. if i = 0 then (new_segment 0)\<lparr>seg_fragments := [(1, [0, 1])]\<rparr>
                     else (new_segment 2)\<lparr>seg_fragments := [(3, [2])]\<rparr>)\<rparr>"

theorem crossload_output_witness:
  "\<exists>t'. crossload 2 [] (sample_loader ([2, 0x11, 0x22, 255, 0, 2, 0, 252, 2, 1, 250, 0, 1, 250, 0, 2, 250,
      255, 4, 1, 116, 1, 255, 1, 0x40, 0, 20, 250, 0, 2, 250] @ [255, 7, 3, 27, 0, 0, 0, 0] @ []) 0)
    = Inr ([0x11, 0x22, 0x02, 0x01, 0x21, 0x44], t')"
proof -
  have out: "pass_output_segments sample_linked = Inr [2, 0x11, 0x22, 255, 0, 2, 0, 252, 2, 1, 250, 0, 1, 250, 0, 2, 250,
      255, 4, 1, 116, 1, 255, 1, 0x40, 0, 20, 250, 0, 2, 250]"
    by code_simp
  have mk: "lit_out_marker 0 27 3 = Inr ([255, 7, 3, 27, 0, 0, 0, 0], 35)"
    by code_simp
  have gen: "cmd_generate 0x40 (20 :: long) 2 = Some [0x21, 0x44]" by code_simp
  have n: "nsegments sample_linked = 2" by (simp add: sample_linked_def)
  have e: "seg_elements (seg_tab sample_linked 0) = [0, 1]" "seg_elements (seg_tab sample_linked (Suc 0)) = [2]"
    by (simp_all add: sample_linked_def seg_elements_def)
  have depth: "1 \<le> max_expression_depth" by (simp add: max_expression_depth_def)
  have ok: "el_loadable [] sample_env sample_linked el" for el
    using gen depth by (simp add: el_loadable_def sample_linked_def size_of_def valof_simps closed_expr_def Let_def)
  have img: "chain_image sample_env sample_linked [0, 1] = [0x11, 0x22, 0x02, 0x01]"
    "chain_image sample_env sample_linked [2] = [0x21, 0x44]"
    using gen
    by (simp_all add: chain_image_def el_image_def sample_linked_def size_of_def valof_simps data_unit_def)
  then have image: "program_image sample_env sample_linked [0..<nsegments sample_linked]
      = [0x11, 0x22, 0x02, 0x01, 0x21, 0x44]"
    by (simp add: program_image_def n e numeral_2_eq_2 upt_rec)
  have "linked sample_env sample_linked"
    unfolding linked_def using ok
    by (auto simp: sample_linked_def max_segment_name_length_def new_segment_def c_string_def)
  note run = crossload_output [OF out mk this]
  show ?thesis
    unfolding image [symmetric]
    by (rule run) (simp_all add: image, simp_all add: n sample_loader_def)
qed

end
