(* ===== verification/Merge.thy ===== *)
theory Merge
  imports Image
begin

text \<open>
  The passes of the linker that rearrange elements once all sizes are settled (\<open>pass_unroll\<close> and
  \<open>pass_merge\<close> in \<open>shared/ments.c\<close>) keep the image of the program.
\<close>

section \<open>Settled elements\<close>

text \<open>
  After \<open>pass_reduce\<close> in a program without names left: sizes, counts, values and operands are constants,
  data takes the space its size says, and commands fit their slots.
\<close>

definition settled :: "expr \<Rightarrow> element_body \<Rightarrow> bool" where
  "settled sz b \<longleftrightarrow>
     is_const sz \<and>
     (case b of
        ELEMENT_BLOCK bs _ \<Rightarrow> unat (constval sz) \<le> length bs
      | ELEMENT_DATA w v c \<Rightarrow>
          (w = 4 \<or> w = 2 \<or> w = 1) \<and> is_const v \<and> is_const c \<and> 0 \<le> sint (constval c) \<and>
          unat (constval sz) = unat (constval c) * unat w
      | ELEMENT_CMD op a \<Rightarrow>
          is_const a \<and> 0 < sint (constval sz) \<and>
          cmd_generate op (constval a) (unat (constval sz)) \<noteq> None)"

abbreviation settled_in :: "'x ments_scheme \<Rightarrow> nat \<Rightarrow> bool" where
  "settled_in s el \<equiv> settled (el_size s el) (el_body s el)"

text \<open>What a pass over the chain \<open>els\<close> may change, and what it must keep.\<close>

definition same_outside :: "nat set \<Rightarrow> 'x ments_scheme \<Rightarrow> 'x ments_scheme \<Rightarrow> bool" where
  "same_outside F s t \<longleftrightarrow>
     (\<forall>x. x \<notin> F \<longrightarrow> el_size t x = el_size s x \<and> el_body t x = el_body s x) \<and>
     seg_tab t = seg_tab s \<and> nsegments t = nsegments s"

definition chain_kept :: "nat list \<Rightarrow> 'x ments_scheme \<Rightarrow> nat list \<Rightarrow> 'x ments_scheme \<Rightarrow> bool" where
  "chain_kept els s els' s' \<longleftrightarrow>
     (\<forall>\<rho>. chain_image \<rho> s' els' = chain_image \<rho> s els) \<and> set els' \<subseteq> set els \<and> distinct els' \<and>
     (\<forall>el\<in>set els'. settled_in s' el) \<and> same_outside (set els) s s'"

lemma same_outside_trans: "same_outside F s t \<Longrightarrow> same_outside G t u \<Longrightarrow> G \<subseteq> F \<Longrightarrow> same_outside F s u"
  by (auto simp: same_outside_def)

lemma same_outside_mono: "same_outside F s t \<Longrightarrow> F \<subseteq> G \<Longrightarrow> same_outside G s t"
  by (auto simp: same_outside_def)

lemma el_image_cong:
  "el_size t el = el_size s el \<Longrightarrow> el_body t el = el_body s el \<Longrightarrow> el_image \<rho> t el = el_image \<rho> s el"
  by (cases "el_body s el") (simp_all add: el_image_def size_of_def)

lemma chain_image_outside:
  "same_outside F s t \<Longrightarrow> set els \<inter> F = {} \<Longrightarrow> chain_image \<rho> t els = chain_image \<rho> s els"
  by (auto simp: chain_image_def same_outside_def intro!: arg_cong [of _ _ concat] map_cong el_image_cong)

lemma chain_image_simps [simp]:
  "chain_image \<rho> s [] = []" "chain_image \<rho> s (el # els) = el_image \<rho> s el @ chain_image \<rho> s els"
  by (simp_all add: chain_image_def)

section \<open>Merging blocks\<close>

lemma grow_alloc_ge: "0 < alloc \<Longrightarrow> need \<le> grow_alloc need alloc \<and> alloc \<le> grow_alloc need alloc"
  by (induction need alloc rule: grow_alloc.induct) (subst (1 2) grow_alloc.simps, auto)

lemma make_space_run:
  assumes "make_space el n s = Inr (off, s')"
  obtains bs k c k' where "el_body s el = ELEMENT_BLOCK bs k" "el_size s el = Const c" "off = unat c"
    "s' = s\<lparr>el_body := (el_body s)(el := ELEMENT_BLOCK bs k')\<rparr>" "unat (c + n) \<le> k'"
proof -
  from assms obtain bs k c where b: "el_body s el = ELEMENT_BLOCK bs k" "el_size s el = Const c"
    by (auto simp: make_space_def outcome_iff split: element_body.splits expr.splits)
  let ?need = "unat (c + n)"
  show ?thesis
  proof (cases "k < ?need")
    case True
    let ?k = "grow_alloc ?need (if k = 0 then 32 else k)"
    have "?need \<le> ?k" using grow_alloc_ge [of "if k = 0 then 32 else k" ?need] by auto
    with assms b True show ?thesis
      by (intro that [of bs k c ?k]) (auto simp: make_space_def outcome_iff set_body_def Let_def)
  next
    case False
    with assms b show ?thesis
      by (intro that [of bs k c k]) (auto simp: make_space_def outcome_iff Let_def fun_upd_idem)
  qed
qed

lemma put_bytes_run:
  assumes "put_bytes el off new s = Inr (u, s')"
  obtains bs k where "el_body s el = ELEMENT_BLOCK bs k" "off \<le> length bs" "off + length new \<le> k"
    "s' = s\<lparr>el_body := (el_body s)(el := ELEMENT_BLOCK (take off bs @ new) k)\<rparr>"
  using assms
  by (auto simp: put_bytes_def outcome_iff set_body_def not_less split: element_body.splits if_splits)

lemma block_contents_run:
  assumes "block_contents el s = Inr (bs, s')"
  shows "s' = s \<and> (\<exists>b k c. el_body s el = ELEMENT_BLOCK b k \<and> el_size s el = Const c \<and> unat c \<le> length b \<and>
    bs = take (unat c) b)"
  using assms
  by (auto simp: block_contents_def outcome_iff Let_def is_const_iff split: element_body.splits if_splits)

lemma merge_block_kept:
  assumes run: "merge_block el nl s = Inr (u, s')" and ne: "el \<noteq> nl"
    and len: "length (el_image \<rho> s el @ el_image \<rho> s nl) < 2 ^ 32"
  shows "el_image \<rho>' s' el = el_image \<rho>' s el @ el_image \<rho>' s nl \<and> settled_in s' el \<and> same_outside {el} s s'"
proof -
  from run obtain new s1 off s2 x s3 y s4 where 1: "block_contents nl s = Inr (new, s1)"
    and 2: "make_space el (word_of_nat (length new)) s1 = Inr (off, s2)"
    and 3: "put_bytes el off new s2 = Inr (x, s3)" and 4: "grow_size el (word_of_nat (length new)) s3 = Inr (y, s4)"
    and 5: "element_free nl s4 = Inr (u, s')"
    unfolding merge_block_def by (simp only: rbind_Inr) blast
  from block_contents_run [OF 1] obtain b' k' c' where nl: "s1 = s" "el_body s nl = ELEMENT_BLOCK b' k'"
    "el_size s nl = Const c'" "unat c' \<le> length b'" "new = take (unat c') b'" by blast
  obtain bs k c k2 where el: "el_body s el = ELEMENT_BLOCK bs k" "el_size s el = Const c" "off = unat c"
    and s2: "s2 = s\<lparr>el_body := (el_body s)(el := ELEMENT_BLOCK bs k2)\<rparr>"
    using make_space_run [OF 2] nl(1) by metis
  from put_bytes_run [OF 3] have off: "off \<le> length bs"
    and s3: "s3 = s\<lparr>el_body := (el_body s)(el := ELEMENT_BLOCK (take off bs @ new) k2)\<rparr>"
    by (auto simp: s2)
  from 4 5 have s': "s' = s3\<lparr>el_size := (el_size s)(el := Const (c + word_of_nat (length new)))\<rparr>"
    by (auto simp: s3 grow_size_def set_size_def outcome_iff el element_free_def split: element_body.splits)
  have ln: "length new = unat c'" using nl by simp
  have imgs: "el_image \<rho> s el = take off bs" "el_image \<rho> s nl = new" for \<rho>
    using el nl by (simp_all add: el_image_def size_of_def valof_simps)
  have "unat c + unat c' < 2 ^ LENGTH(32)" using len ln off el(3) by (simp add: imgs)
  then have "unat (c + c') = unat c + unat c'" by (simp only: unat_add_lem)
  then have sz: "unat (c + word_of_nat (length new)) = off + length new"
    by (simp add: ln el(3))
  have "el_image \<rho>' s' el = take off bs @ new"
    using sz off by (simp add: el_image_def size_of_def s' s3 valof_simps)
  moreover have "settled_in s' el" using sz off by (simp add: settled_def s' s3)
  moreover have "same_outside {el} s s'" by (simp add: same_outside_def s' s3)
  ultimately show ?thesis by (simp add: imgs)
qed

lemma chain_kept_Cons:
  assumes "chain_kept els s els' s'" "el \<notin> set els" "settled_in s el"
  shows "chain_kept (el # els) s (el # els') s'"
proof -
  from assms(1) have img: "\<And>\<rho>. chain_image \<rho> s' els' = chain_image \<rho> s els" and sub: "set els' \<subseteq> set els"
    and d: "distinct els'" and st: "\<forall>el\<in>set els'. settled_in s' el" and out: "same_outside (set els) s s'"
    by (simp_all add: chain_kept_def)
  have e: "el_size s' el = el_size s el" "el_body s' el = el_body s el"
    using out assms(2) by (simp_all add: same_outside_def)
  show ?thesis
    unfolding chain_kept_def
  proof (intro conjI allI)
    show "chain_image \<rho> s' (el # els') = chain_image \<rho> s (el # els)" for \<rho>
      by (simp add: img el_image_cong [OF e])
    show "\<forall>x\<in>set (el # els'). settled_in s' x" using st assms(3) e by simp
    show "same_outside (set (el # els)) s s'" by (rule same_outside_mono [OF out]) auto
  qed (use sub d assms(2) in auto)
qed

lemma merge_chain_kept:
  "merge_chain els s = Inr (els', s') \<Longrightarrow> distinct els \<Longrightarrow> (\<forall>el\<in>set els. settled_in s el) \<Longrightarrow>
     length (chain_image \<rho> s els) < 2 ^ 32 \<Longrightarrow> chain_kept els s els' s'"
proof (induction els arbitrary: s els' rule: merge_chain.induct)
  case 1
  then show ?case by (simp add: outcome_iff chain_kept_def same_outside_def)
next
  case (2 el)
  then show ?case by (simp add: outcome_iff chain_kept_def same_outside_def)
next
  case (3 el nl els)
  let ?b = "is_block (el_body s el) \<and> el_nrefs s el = 0 \<and> el_nrefs s nl = 0 \<and> is_block (el_body s nl)"
  have m: "mergeable_blocks el nl s = Inr (?b, s)" by (simp add: mergeable_blocks_def reader_simps)
  define B where "B = ?b"
  from "3.prems"(1) have run: "(if B then rbind (merge_block el nl) (\<lambda>_. merge_chain (el # els))
       else rbind (merge_chain (nl # els)) (\<lambda>els'. rret (el # els'))) s = Inr (els', s')"
    by (simp only: merge_chain.simps(3) rbind_apply m obind.simps prod.case B_def)
  show ?case
  proof (cases B)
    case True
    with run obtain u s1 where 1: "merge_block el nl s = Inr (u, s1)"
      and 2: "merge_chain (el # els) s1 = Inr (els', s')"
      by (simp only: if_True rbind_Inr) blast
    have k: "el_image \<rho>' s1 el = el_image \<rho>' s el @ el_image \<rho>' s nl" "settled_in s1 el" "same_outside {el} s s1" for \<rho>'
      using merge_block_kept [OF 1, of \<rho> \<rho>'] "3.prems"(2,4) by auto
    have c: "chain_image \<rho>' s1 els = chain_image \<rho>' s els" for \<rho>'
      by (rule chain_image_outside [OF k(3)]) (use "3.prems"(2) in auto)
    have st: "\<forall>x\<in>set (el # els). settled_in s1 x"
      using k(2,3) "3.prems"(2,3) by (auto simp: same_outside_def)
    have "chain_kept (el # els) s1 els' s'"
      using "3.IH"(1) [OF TrueI 2] "3.prems"(2,4) st by (simp add: k(1) c)
    then show ?thesis
      using k(1) c same_outside_trans [of "set (el # nl # els)" s s1 "set (el # els)" s']
        same_outside_mono [OF k(3), of "set (el # nl # els)"]
      by (auto simp: chain_kept_def)
  next
    case False
    with run obtain els1 where 2: "merge_chain (nl # els) s = Inr (els1, s')" and e: "els' = el # els1"
      by (simp only: if_False rbind_Inr rret_Inr) blast
    have "chain_kept (nl # els) s els1 s'"
      by (rule "3.IH"(2) [OF not_False_eq_True [THEN iffD2, OF TrueI] 2]) (use "3.prems" in auto)
    with chain_kept_Cons [of "nl # els" s els1 s' el] "3.prems"(2,3) e show ?thesis by simp
  qed
qed

section \<open>Unrolling\<close>

lemma data_bytes_eq:
  assumes "w = 4 \<or> w = 2 \<or> w = 1" "0 \<le> sint c"
  shows "data_bytes w v c = concat (replicate (unat c) (data_unit w v))"
proof -
  have "nat (sint c) = unat c" using unat_sint [of c] assms(2) by linarith
  moreover have "map (\<lambda>j. ucast (signed_drop_bit (8 * j) v) :: byte) [0..<nat (sint w)] = data_unit w v"
    using assms(1) by (auto simp: data_unit_def upt_rec numeral_2_eq_2 eval_nat_numeral)
  ultimately show ?thesis by (simp add: data_bytes_def)
qed

lemma settled_data_image:
  assumes "settled_in s el" "el_body s el = ELEMENT_DATA w (Const v) (Const c)"
  shows "el_image \<rho> s el = concat (replicate (unat c) (data_unit w v))"
    "length (el_image \<rho> s el) = unat (constval (el_size s el))"
proof -
  from assms obtain z where z: "el_size s el = Const z" and w: "w = 4 \<or> w = 2 \<or> w = 1"
    and u: "unat z = unat c * unat w"
    by (auto simp: settled_def is_const_iff)
  have "z = word_of_nat (unat z)" by simp
  also have "\<dots> = w * c" by (simp add: u mult.commute)
  finally have "z = w * c" .
  then show img: "el_image \<rho> s el = concat (replicate (unat c) (data_unit w v))"
    by (simp add: el_image_def assms(2) size_of_def z valof_simps)
  show "length (el_image \<rho> s el) = unat (constval (el_size s el))"
    by (simp add: img length_concat sum_list_replicate data_unit_length [OF w] z u)
qed

lemma merge_data_kept:
  assumes run: "merge_data fuel el nl s = Inr (u, s')" and ne: "el \<noteq> nl"
    and body: "el_body s el = ELEMENT_DATA w (Const v) (Const c)" "el_body s nl = ELEMENT_DATA w (Const v) (Const c')"
    and st: "settled_in s el" "settled_in s nl"
    and len: "length (el_image \<rho> s el @ el_image \<rho> s nl) < 2 ^ 31"
  shows "el_image \<rho>' s' el = el_image \<rho>' s el @ el_image \<rho>' s nl \<and> settled_in s' el \<and> same_outside {el} s s'"
proof -
  from st body obtain z z' where z: "el_size s el = Const z" "el_size s nl = Const z'"
    and w: "w = 4 \<or> w = 2 \<or> w = 1" and u: "unat z = unat c * unat w" "unat z' = unat c' * unat w"
    by (auto simp: settled_def is_const_iff)
  let ?b = "ELEMENT_DATA w (Const v) (Const (c + c'))"
  have s': "s' = s\<lparr>el_body := (el_body s)(el := ?b), el_size := (el_size s)(el := Const (z + z'))\<rparr>"
    using run body z
    by (cases fuel) (auto simp: merge_data_def outcome_iff expr_binop_def eval_def eval_val_def set_body_def set_size_def
        estimate_def expr_estimate_def obind_Inr_iff range_expr_def element_free_def split: if_splits)
  have "unat z + unat z' < 2 ^ 31"
    using len settled_data_image(2) [OF st(1) body(1)] settled_data_image(2) [OF st(2) body(2)] by (simp add: z)
  have w1: "1 \<le> unat w" using w by auto
  then have "unat c \<le> unat z" "unat c' \<le> unat z'" unfolding u by simp_all
  with \<open>unat z + unat z' < 2 ^ 31\<close> have "unat c + unat c' < 2 ^ LENGTH(32)" "unat z + unat z' < 2 ^ LENGTH(32)"
    by simp_all
  then have a: "unat (c + c') = unat c + unat c'" "unat (z + z') = unat z + unat z'"
    by (simp_all only: unat_add_lem)
  have "unat (c + c') < 2 ^ 31" using a(1) \<open>unat c \<le> unat z\<close> \<open>unat c' \<le> unat z'\<close> \<open>unat z + unat z' < 2 ^ 31\<close> by simp
  then have "0 \<le> sint (c + c')" by (simp add: sint_small)
  then have st': "settled_in s' el"
    using w by (simp add: settled_def s' a u add_mult_distrib)
  have "el_image \<rho>' s' el = el_image \<rho>' s el @ el_image \<rho>' s nl"
    using settled_data_image(1) [OF st', of w v "c + c'"] settled_data_image(1) [OF st(1) body(1)]
      settled_data_image(1) [OF st(2) body(2)]
    by (simp add: s' a replicate_add)
  with st' show ?thesis by (simp add: same_outside_def s')
qed

lemma unroll_data_kept:
  assumes run: "unroll_data th el s = Inr (u, s')" and st: "settled_in s el"
    and body: "el_body s el = ELEMENT_DATA w (Const v) (Const c)"
  shows "el_image \<rho> s' el = el_image \<rho> s el \<and> settled_in s' el \<and> same_outside {el} s s'"
proof (cases "c * w <s th")
  case True
  from st body obtain z where z: "el_size s el = Const z" and w: "w = 4 \<or> w = 2 \<or> w = 1"
    and u: "unat z = unat c * unat w" and c0: "0 \<le> sint c"
    by (auto simp: settled_def is_const_iff)
  let ?s1 = "s\<lparr>el_body := (el_body s)(el := ELEMENT_BLOCK [] 0)\<rparr>" and ?bs = "data_bytes w v c"
  from run body True obtain off s2 where 2: "make_space el 0 ?s1 = Inr (off, s2)"
    and 3: "put_bytes el 0 ?bs s2 = Inr (u, s')"
    by (auto simp: unroll_data_def outcome_iff set_body_def)
  from make_space_run [OF 2] obtain k' where s2: "s2 = s\<lparr>el_body := (el_body s)(el := ELEMENT_BLOCK [] k')\<rparr>"
    by (auto simp: fun_upd_upd)
  from put_bytes_run [OF 3] have s': "\<exists>k. s' = s\<lparr>el_body := (el_body s)(el := ELEMENT_BLOCK ?bs k)\<rparr>"
    by (auto simp: s2)
  have bs: "?bs = el_image \<rho> s el" "length ?bs = unat z"
    using settled_data_image [OF st body] data_bytes_eq [OF w c0, of v] by (simp_all add: z)
  from s' obtain k where s': "s' = s\<lparr>el_body := (el_body s)(el := ELEMENT_BLOCK ?bs k)\<rparr>" by blast
  have "el_image \<rho> s' el = ?bs" by (simp add: el_image_def size_of_def s' z valof_simps bs(2))
  then show ?thesis by (simp add: bs(1)) (simp add: settled_def same_outside_def s' z bs(2))
next
  case False
  with run body st show ?thesis by (auto simp: unroll_data_def outcome_iff same_outside_def)
qed

lemma unroll_cmd_kept:
  assumes run: "unroll_cmd fuel el opcode (Const c) s = Inr (u, s')" and st: "settled_in s el"
    and body: "el_body s el = ELEMENT_CMD opcode (Const c)"
  shows "el_image \<rho> s' el = el_image \<rho> s el \<and> settled_in s' el \<and> same_outside {el} s s'"
proof -
  from st body obtain z bs where z: "el_size s el = Const z" "0 < sint z"
    and g: "cmd_generate opcode c (unat z) = Some bs"
    by (auto simp: settled_def is_const_iff)
  have "z \<noteq> 0" using z(2) by auto
  then have len: "length bs = unat z" using cmd_generate_length [OF _ g] by (simp add: unat_eq_0)
  let ?s1 = "s\<lparr>el_body := (el_body s)(el := ELEMENT_BLOCK [] 0)\<rparr>"
  have red: "reduce_expr fuel (Const c) s = Inr (e, t) \<Longrightarrow> e = Const c \<and> t = s" for e t
    by (cases fuel) (auto simp: reduce_expr_def outcome_iff expr_reduce.simps(2))
  obtain off s2 b where 2: "make_space el (word_of_nat cmd_maxlen) ?s1 = Inr (off, s2)"
    and b: "b = el_body s2 el" and 3: "(case b of ELEMENT_BLOCK _ alloc \<Rightarrow>
                 rbind (\<lambda>s. obind (generate_into alloc opcode c (constval (el_size s2 el))) (\<lambda>r. Inr (r, s))) (\<lambda>r.
                   case r of None \<Rightarrow> report_error | Some bs \<Rightarrow> put_bytes el 0 bs)
             | _ \<Rightarrow> rstop Abort) s2 = Inr (u, s')"
    using run unfolding unroll_cmd_def rbind_Inr
    by (auto dest!: red simp: outcome_iff set_body_def)
  from make_space_run [OF 2] obtain k' where s2: "s2 = s\<lparr>el_body := (el_body s)(el := ELEMENT_BLOCK [] k')\<rparr>"
    by (auto simp: fun_upd_upd)
  have "\<not> z <s 0" using z(2) by (simp add: word_sless_alt)
  then have 4: "put_bytes el 0 bs s2 = Inr (u, s')"
    using 3 by (simp add: b s2 z g rbind_def generate_into_def split: if_splits)
  from put_bytes_run [OF 4] have s': "\<exists>k. s' = s\<lparr>el_body := (el_body s)(el := ELEMENT_BLOCK bs k)\<rparr>"
    by (auto simp: s2)
  then show ?thesis
    by (auto simp: el_image_def size_of_def z body g len valof_simps settled_def same_outside_def)
qed

lemma unroll_element_kept:
  assumes run: "unroll_element fuel th el s = Inr (u, s')" and st: "settled_in s el"
  shows "el_image \<rho> s' el = el_image \<rho> s el \<and> settled_in s' el \<and> same_outside {el} s s'"
proof (cases "el_body s el")
  case (ELEMENT_BLOCK bs k)
  with run st show ?thesis by (simp add: unroll_element_def outcome_iff same_outside_def)
next
  case (ELEMENT_DATA w v c)
  with st obtain v' c' where "v = Const v'" "c = Const c'" by (auto simp: settled_def is_const_iff)
  with ELEMENT_DATA show ?thesis
    by (intro unroll_data_kept [of th el s u s' w v' c'] st)
      (use run in \<open>simp_all add: unroll_element_def outcome_iff\<close>)
next
  case (ELEMENT_CMD opcode a)
  with st obtain c where "a = Const c" by (auto simp: settled_def is_const_iff)
  with ELEMENT_CMD show ?thesis
    by (intro unroll_cmd_kept [of fuel el opcode c s u s'] st)
      (use run in \<open>simp_all add: unroll_element_def outcome_iff\<close>)
qed

lemma chain_kept_refl: "distinct els \<Longrightarrow> \<forall>el\<in>set els. settled_in s el \<Longrightarrow> chain_kept els s els s"
  by (simp add: chain_kept_def same_outside_def)

lemma chain_kept_step:
  assumes img: "\<And>\<rho>. el_image \<rho> s1 el = el_image \<rho> s el @ el_image \<rho> s nl"
    and out: "same_outside {el} s s1" and d: "distinct (el # nl # els)"
    and k: "chain_kept (el # els) s1 els' s'"
  shows "chain_kept (el # nl # els) s els' s'"
proof -
  have c: "chain_image \<rho> s1 els = chain_image \<rho> s els" for \<rho>
    by (rule chain_image_outside [OF out]) (use d in auto)
  show ?thesis
    using k img c same_outside_trans [of "set (el # nl # els)" s s1 "set (el # els)" s']
      same_outside_mono [OF out, of "set (el # nl # els)"]
    by (auto simp: chain_kept_def)
qed

lemma settled_outside:
  "same_outside F s t \<Longrightarrow> set els \<inter> F = {} \<Longrightarrow> \<forall>el\<in>set els. settled_in s el \<Longrightarrow> \<forall>el\<in>set els. settled_in t el"
  by (auto simp: same_outside_def)

lemma chain_kept_update:
  assumes img: "\<And>\<rho>. el_image \<rho> s1 el = el_image \<rho> s el" and st: "settled_in s1 el"
    and out: "same_outside {el} s s1" and d: "el \<notin> set els"
    and k: "chain_kept els s1 els' s'"
  shows "chain_kept (el # els) s (el # els') s'"
proof -
  have "chain_kept (el # els) s1 (el # els') s'" by (rule chain_kept_Cons [OF k d st])
  moreover have "chain_image \<rho> s1 (el # els) = chain_image \<rho> s (el # els)" for \<rho>
    using chain_image_outside [OF out, of els \<rho>] d img by simp
  ultimately show ?thesis
    using same_outside_trans [of "set (el # els)" s s1 "set (el # els)" s']
      same_outside_mono [OF out, of "set (el # els)"]
    by (auto simp: chain_kept_def)
qed

lemma mergeable_data_run:
  assumes "mergeable_data el nl s = Inr (b, t)" "settled_in s el" "settled_in s nl"
  shows "t = s \<and> (b \<longrightarrow> (\<exists>w v c c'. el_body s el = ELEMENT_DATA w (Const v) (Const c) \<and>
    el_body s nl = ELEMENT_DATA w (Const v) (Const c')))"
  using assms
  by (cases "el_body s el"; cases "el_body s nl")
    (auto simp: mergeable_data_def outcome_iff settled_def is_const_iff split: if_splits)

lemma unroll_chain_kept:
  "unroll_chain fuel th els s = Inr (els', s') \<Longrightarrow> distinct els \<Longrightarrow> (\<forall>el\<in>set els. settled_in s el) \<Longrightarrow>
     length (chain_image \<rho> s els) < 2 ^ 31 \<Longrightarrow> chain_kept els s els' s'"
proof (induction fuel th els arbitrary: s els' rule: unroll_chain.induct)
  case (1 fuel th)
  then show ?case by (simp add: outcome_iff chain_kept_refl)
next
  case (2 fuel th el)
  then obtain u where "unroll_element fuel th el s = Inr (u, s')" "els' = [el]"
    by (auto simp: outcome_iff)
  with 2 unroll_element_kept [of fuel th el s u s'] show ?case
    by (auto intro!: chain_kept_update [of s' el s] chain_kept_refl)
next
  case (3 fuel th el nl els)
  from "3.prems"(1) obtain b t where b: "mergeable_data el nl s = Inr (b, t)"
    and run: "(if b then rbind (merge_data fuel el nl) (\<lambda>_. unroll_chain fuel th (el # els))
       else rbind (unroll_element fuel th el) (\<lambda>_.
            rbind (unroll_chain fuel th (nl # els)) (\<lambda>els'. rret (el # els')))) t = Inr (els', s')"
    by (simp only: unroll_chain.simps(3) rbind_Inr) blast
  have st: "settled_in s el" "settled_in s nl" using "3.prems"(3) by auto
  have t: "t = s" using mergeable_data_run [OF b st] by simp
  show ?case
  proof (cases b)
    case True
    with run obtain u s1 where 1: "merge_data fuel el nl s = Inr (u, s1)"
      and 2: "unroll_chain fuel th (el # els) s1 = Inr (els', s')"
      unfolding t by (simp only: if_True rbind_Inr) blast
    from mergeable_data_run [OF b st] True obtain w v c c' where
      body: "el_body s el = ELEMENT_DATA w (Const v) (Const c)" "el_body s nl = ELEMENT_DATA w (Const v) (Const c')"
      by blast
    have k: "el_image \<rho>' s1 el = el_image \<rho>' s el @ el_image \<rho>' s nl" "settled_in s1 el" "same_outside {el} s s1" for \<rho>'
      using merge_data_kept [OF 1 _ body st, of \<rho> \<rho>'] "3.prems"(2,4) by auto
    have out: "chain_image \<rho> s1 els = chain_image \<rho> s els"
      by (rule chain_image_outside [OF k(3)]) (use "3.prems"(2) in auto)
    have "\<forall>x\<in>set els. settled_in s1 x"
      by (rule settled_outside [OF k(3)]) (use "3.prems"(2,3) in auto)
    then have "chain_kept (el # els) s1 els' s'"
      using "3.IH"(1) [OF True 2] "3.prems"(2,4) k(1,2) out by simp
    then show ?thesis using chain_kept_step [OF k(1) k(3) "3.prems"(2)] by blast
  next
    case False
    with run obtain u s1 els1 where 1: "unroll_element fuel th el s = Inr (u, s1)"
      and 2: "unroll_chain fuel th (nl # els) s1 = Inr (els1, s')" and e: "els' = el # els1"
      unfolding t by (simp only: if_False rbind_Inr rret_Inr) blast
    have k: "el_image \<rho>' s1 el = el_image \<rho>' s el" "settled_in s1 el" "same_outside {el} s s1" for \<rho>'
      using unroll_element_kept [OF 1 st(1), of \<rho>'] by auto
    have out: "chain_image \<rho> s1 (nl # els) = chain_image \<rho> s (nl # els)"
      by (rule chain_image_outside [OF k(3)]) (use "3.prems"(2) in auto)
    have st1: "\<forall>x\<in>set (nl # els). settled_in s1 x"
      by (rule settled_outside [OF k(3)]) (use "3.prems"(2,3) in auto)
    have "length (chain_image \<rho> s1 (nl # els)) < 2 ^ 31" unfolding out using "3.prems"(4) by simp
    with st1 "3.prems"(2) have "chain_kept (nl # els) s1 els1 s'"
      by (intro "3.IH"(2) [OF False 2]) simp_all
    then show ?thesis using chain_kept_update [OF k] "3.prems"(2) e by simp
  qed
qed


section \<open>Programs\<close>

text \<open>The contract of a pass over chains, whatever the segment.\<close>

locale chain_pass =
  fixes f :: "segment \<Rightarrow> nat list \<Rightarrow> ('x ments_scheme, nat list) step"
  assumes chain_pass_kept: "f g els s = Inr (els', s') \<Longrightarrow> distinct els \<Longrightarrow> (\<forall>el\<in>set els. settled_in s el) \<Longrightarrow>
     length (chain_image \<rho> s els) < 2 ^ 31 \<Longrightarrow> chain_kept els s els' s'"

interpretation unrolling: chain_pass "\<lambda>g. unroll_chain fuel (seg_threshold g)"
  by unfold_locales (rule unroll_chain_kept)

interpretation merging: chain_pass "\<lambda>_. merge_chain"
proof unfold_locales
  fix els els' s s' \<rho>
  assume "merge_chain els s = Inr (els', s')" "distinct els" "\<forall>el\<in>set els. settled_in s el"
    "length (chain_image \<rho> s els) < 2 ^ 31"
  then show "chain_kept els s els' s'" by (intro merge_chain_kept [where \<rho> = \<rho>]) simp_all
qed

lemma chain_image_append [simp]: "chain_image \<rho> s (xs @ ys) = chain_image \<rho> s xs @ chain_image \<rho> s ys"
  by (simp add: chain_image_def)

lemma chain_kept_append:
  assumes x: "chain_kept xs s xs' s1" and y: "chain_kept ys s1 ys' s'" and d: "set xs \<inter> set ys = {}"
  shows "chain_kept (xs @ ys) s (xs' @ ys') s'"
proof -
  from x have sub: "set xs' \<subseteq> set xs" and ox: "same_outside (set xs) s s1" and stx: "\<forall>el\<in>set xs'. settled_in s1 el"
    by (simp_all add: chain_kept_def)
  from y have suby: "set ys' \<subseteq> set ys" and oy: "same_outside (set ys) s1 s'" by (simp_all add: chain_kept_def)
  have "chain_image \<rho> s' xs' = chain_image \<rho> s1 xs'" "chain_image \<rho> s1 ys = chain_image \<rho> s ys" for \<rho>
    using chain_image_outside [OF oy] chain_image_outside [OF ox] sub d by blast+
  moreover have "\<forall>el\<in>set xs'. settled_in s' el"
    by (rule settled_outside [OF oy _ stx]) (use sub d in auto)
  moreover have "same_outside (set (xs @ ys)) s s'"
    by (rule same_outside_trans [OF same_outside_mono [OF ox] oy]) auto
  ultimately show ?thesis using x y sub suby d unfolding chain_kept_def by auto
qed

text \<open>What a pass over the segments of a program needs and keeps.\<close>

definition separate :: "'x ments_scheme \<Rightarrow> bool" where
  "separate s \<longleftrightarrow>
     (\<forall>i < nsegments s. distinct (seg_elements (seg_tab s i)) \<and>
        (\<forall>el \<in> set (seg_elements (seg_tab s i)). settled_in s el)) \<and>
     (\<forall>i < nsegments s. \<forall>j < nsegments s. i \<noteq> j \<longrightarrow>
        set (seg_elements (seg_tab s i)) \<inter> set (seg_elements (seg_tab s j)) = {})"

abbreviation segment_image :: "env \<Rightarrow> 'x ments_scheme \<Rightarrow> nat \<Rightarrow> byte list" where
  "segment_image \<rho> s i \<equiv> chain_image \<rho> s (seg_elements (seg_tab s i))"

definition images_kept :: "'x ments_scheme \<Rightarrow> 'x ments_scheme \<Rightarrow> bool" where
  "images_kept s s' \<longleftrightarrow>
     separate s' \<and> nsegments s' = nsegments s \<and>
     (\<forall>i < nsegments s. map fst (seg_fragments (seg_tab s' i)) = map fst (seg_fragments (seg_tab s i)) \<and>
        (\<forall>\<rho>. segment_image \<rho> s' i = segment_image \<rho> s i))"

lemma images_kept_trans: "images_kept s t \<Longrightarrow> images_kept t u \<Longrightarrow> images_kept s u"
  by (simp add: images_kept_def)

context chain_pass
begin

lemma map_chains_kept:
  "map_chains (f g) fs s = Inr (fs', s') \<Longrightarrow> distinct (concat (map snd fs)) \<Longrightarrow>
     (\<forall>el\<in>set (concat (map snd fs)). settled_in s el) \<Longrightarrow>
     length (chain_image \<rho> s (concat (map snd fs))) < 2 ^ 31 \<Longrightarrow>
     map fst fs' = map fst fs \<and> chain_kept (concat (map snd fs)) s (concat (map snd fs')) s'"
proof (induction fs arbitrary: s fs')
  case Nil
  then show ?case by (simp add: outcome_iff chain_kept_refl)
next
  case (Cons p fs)
  obtain n els where p: "p = (n, els)" by force
  from Cons.prems(1) obtain els' s1 gs where 1: "f g els s = Inr (els', s1)"
    and 2: "map_chains (f g) fs s1 = Inr (gs, s')" and fs': "fs' = (n, els') # gs"
    by (auto simp: p outcome_iff)
  have k: "chain_kept els s els' s1"
    by (rule chain_pass_kept [OF 1, of \<rho>]) (use Cons.prems(2-4) in \<open>auto simp: p\<close>)
  then have out: "same_outside (set els) s s1" by (simp add: chain_kept_def)
  let ?r = "concat (map snd fs)"
  have d: "set els \<inter> set ?r = {}" "distinct ?r" using Cons.prems(2) by (simp_all add: p)
  have "chain_image \<rho> s1 ?r = chain_image \<rho> s ?r" by (rule chain_image_outside [OF out]) (use d in blast)
  moreover have "\<forall>el\<in>set ?r. settled_in s1 el"
    by (rule settled_outside [OF out]) (use d(1) Cons.prems(3) p in auto)
  ultimately have "map fst gs = map fst fs \<and> chain_kept ?r s1 (concat (map snd gs)) s'"
    using Cons.prems(4) by (intro Cons.IH [OF 2 d(2)]) (simp_all add: p)
  with chain_kept_append [OF k _ d(1)] show ?case by (simp add: fs' p)
qed

lemma map_segment_kept:
  assumes run: "map_segment f sg s = Inr (u, s')" and sep: "separate s" and sg: "sg < nsegments s"
    and len: "length (segment_image \<rho> s sg) < 2 ^ 31"
  shows "images_kept s s'"
proof -
  let ?g = "seg_tab s sg"
  from run obtain fs s1 where 1: "map_chains (f ?g) (seg_fragments ?g) s = Inr (fs, s1)"
    and s': "s' = s1\<lparr>seg_tab := (seg_tab s1)(sg := (seg_tab s1 sg)\<lparr>seg_fragments := fs\<rparr>)\<rparr>"
    unfolding map_segment_def rbind_Inr by (auto simp: outcome_iff upd_seg_def)
  let ?els = "seg_elements ?g" and ?els' = "concat (map snd fs)"
  have k: "map fst fs = map fst (seg_fragments ?g) \<and> chain_kept ?els s ?els' s1"
    using map_chains_kept [OF 1, of \<rho>] sep sg len by (simp add: separate_def seg_elements_def)
  then have out: "same_outside (set ?els) s s1" and sub: "set ?els' \<subseteq> set ?els" and d: "distinct ?els'"
    and st: "\<forall>el\<in>set ?els'. settled_in s1 el" and img: "\<And>\<rho>. chain_image \<rho> s1 ?els' = chain_image \<rho> s ?els"
    by (simp_all add: chain_kept_def)
  have n: "nsegments s' = nsegments s" and tab: "seg_tab s1 = seg_tab s"
    using out by (simp_all add: s' same_outside_def)
  have e: "el_size s' = el_size s1" "el_body s' = el_body s1" by (simp_all add: s')
  have els: "seg_elements (seg_tab s' i) = (if i = sg then ?els' else seg_elements (seg_tab s i))" for i
    by (simp add: s' tab seg_elements_def)
  have disj: "set (seg_elements (seg_tab s i)) \<inter> set ?els = {}" if "i < nsegments s" "i \<noteq> sg" for i
    using sep sg that by (simp add: separate_def)
  have cong: "chain_image \<rho>' s' xs = chain_image \<rho>' s1 xs" for \<rho>' xs
    by (auto simp: chain_image_def e intro!: arg_cong [of _ _ concat] map_cong el_image_cong)
  have "segment_image \<rho>' s' i = segment_image \<rho>' s i" if "i < nsegments s" for \<rho>' i
    unfolding els cong using img chain_image_outside [OF out disj] that by simp
  moreover have "\<forall>el\<in>set (seg_elements (seg_tab s' i)). settled_in s' el" if "i < nsegments s" for i
    unfolding els e using st settled_outside [OF out disj [OF that]] sep that by (simp add: separate_def)
  moreover have "set (seg_elements (seg_tab s' i)) \<inter> set (seg_elements (seg_tab s' j)) = {}"
    if ij: "i < nsegments s" "j < nsegments s" "i \<noteq> j" for i j
  proof (cases "i = sg \<or> j = sg")
    case True
    then show ?thesis using sub disj [OF ij(1)] disj [OF ij(2)] ij(3) unfolding els by auto
  next
    case False
    then show ?thesis using sep ij by (simp add: els separate_def)
  qed
  moreover have "map fst (seg_fragments (seg_tab s' i)) = map fst (seg_fragments (seg_tab s i))" for i
    using k by (simp add: s' tab)
  moreover have "distinct (seg_elements (seg_tab s' i))" if "i < nsegments s" for i
    using sep that d by (simp add: els separate_def)
  ultimately show ?thesis by (simp add: images_kept_def separate_def n)
qed

lemma each_segment_kept:
  "each (map_segment f) is s = Inr (u, s') \<Longrightarrow> separate s \<Longrightarrow> set is \<subseteq> {..<nsegments s} \<Longrightarrow>
     (\<forall>i<nsegments s. length (segment_image \<rho> s i) < 2 ^ 31) \<Longrightarrow> images_kept s s'"
proof (induction "is" arbitrary: s)
  case Nil
  then show ?case by (simp add: outcome_iff images_kept_def)
next
  case (Cons i "is")
  from Cons.prems(1) obtain v s1 where 1: "map_segment f i s = Inr (v, s1)" and 2: "each (map_segment f) is s1 = Inr (u, s')"
    by (auto simp: outcome_iff)
  have k: "images_kept s s1" by (rule map_segment_kept [OF 1, of \<rho>]) (use Cons.prems(2-4) in auto)
  moreover have "images_kept s1 s'"
    by (rule Cons.IH [OF 2]) (use k Cons.prems(3,4) in \<open>auto simp: images_kept_def\<close>)
  ultimately show ?case by (rule images_kept_trans)
qed

end

lemma program_image_kept: "images_kept s s' \<Longrightarrow> program_image \<rho> s' [0..<nsegments s'] = program_image \<rho> s [0..<nsegments s]"
  by (auto simp: images_kept_def program_image_def intro!: arg_cong [of _ _ concat])

lemma pass_unroll_kept:
  assumes "pass_unroll fuel s = Inr (u, s')" "separate s" "\<forall>i<nsegments s. length (segment_image \<rho> s i) < 2 ^ 31"
  shows "images_kept s s'"
  by (rule unrolling.each_segment_kept [of fuel "[0..<nsegments s]" s u s' \<rho>])
    (use assms in \<open>auto simp: pass_unroll_def outcome_iff\<close>)

lemma pass_merge_kept:
  assumes "pass_merge s = Inr (u, s')" "separate s" "\<forall>i<nsegments s. length (segment_image \<rho> s i) < 2 ^ 31"
  shows "images_kept s s'"
  by (rule merging.each_segment_kept [of "[0..<nsegments s]" s u s' \<rho>])
    (use assms in \<open>auto simp: pass_merge_def outcome_iff\<close>)


section \<open>Properties\<close>

text \<open>
  C33: Unrolling and merging keep the program: after \<open>pass_unroll\<close> and \<open>pass_merge\<close> every segment of a
  program whose sizes are settled has the bytes it had before, although neighbouring data and blocks have
  become one and short data and commands are blocks, as long as no segment reaches two gigabytes.
\<close>

theorem rearranged_image:
  assumes "pass_unroll fuel s = Inr (u, s1)" "pass_merge s1 = Inr (v, s')" "separate s"
    "\<forall>i<nsegments s. length (segment_image \<rho> s i) < 2 ^ 31"
  shows "program_image \<rho>' s' [0..<nsegments s'] = program_image \<rho>' s [0..<nsegments s]"
proof -
  have k: "images_kept s s1" by (rule pass_unroll_kept [OF assms(1,3,4)])
  then have "images_kept s1 s'"
    by (intro pass_merge_kept [OF assms(2), of \<rho>]) (use assms(4) in \<open>auto simp: images_kept_def\<close>)
  with k show ?thesis by (metis images_kept_trans program_image_kept)
qed

text \<open>A segment of two bytes, twice a half word that merge, and a command, all of which end in one block.\<close>

definition sample_settled :: ments where
  "sample_settled = sample_program\<lparr>nsegments := 1, next_el := 4,
     el_size := (\<lambda>el. Const 2),
     el_body := (\<lambda>el. if el = 0 then ELEMENT_BLOCK [0x11, 0x22] 32
                      else if el = 3 then ELEMENT_CMD 0x40 (Const 20)
                      else ELEMENT_DATA 2 (Const 0x0102) (Const 1)),
     seg_tab := (\<lambda>i. (new_segment 0)\<lparr>seg_fragments := [(1, [0, 1, 2, 3])], seg_threshold := 32\<rparr>)\<rparr>"

theorem rearranged_image_witness:
  "\<exists>u s1 v s'. pass_unroll 5 sample_settled = Inr (u, s1) \<and> pass_merge s1 = Inr (v, s') \<and>
     seg_elements (seg_tab s' 0) = [0] \<and>
     program_image sample_env s' [0..<nsegments s'] = [0x11, 0x22, 2, 1, 2, 1, 0x21, 0x44]"
proof -
  have c: "case pass_unroll 5 sample_settled of Inl e \<Rightarrow> False | Inr (u, s1) \<Rightarrow>
      (case pass_merge s1 of Inl e \<Rightarrow> False | Inr (v, s') \<Rightarrow> seg_elements (seg_tab s' 0) = [0])"
    by code_simp
  then obtain u s1 where 1: "pass_unroll 5 sample_settled = Inr (u, s1)"
    by (cases "pass_unroll 5 sample_settled") auto
  with c obtain v s' where 2: "pass_merge s1 = Inr (v, s')" and one: "seg_elements (seg_tab s' 0) = [0]"
    by (cases "pass_merge s1") auto
  note run = 1 2
  have gen: "cmd_generate 0x40 (20 :: long) 2 = Some [0x21, 0x44]" by code_simp
  have n: "nsegments sample_settled = 1" by (simp add: sample_settled_def)
  have e: "seg_elements (seg_tab sample_settled i) = [0, 1, 2, 3]" for i
    by (simp add: sample_settled_def seg_elements_def)
  have img: "segment_image sample_env sample_settled i = [0x11, 0x22, 2, 1, 2, 1, 0x21, 0x44]" for i
    unfolding e using gen
    by (simp add: chain_image_def el_image_def sample_settled_def size_of_def valof_simps data_unit_def)
  have "settled_in sample_settled el" for el
    using gen by (simp add: settled_def sample_settled_def)
  then have "separate sample_settled"
    unfolding separate_def n e by simp
  then have "program_image sample_env s' [0..<nsegments s'] = program_image sample_env sample_settled [0..<nsegments sample_settled]"
    using rearranged_image [OF run, of sample_env sample_env] by (simp add: img)
  also have "\<dots> = [0x11, 0x22, 2, 1, 2, 1, 0x21, 0x44]" by (simp add: program_image_def n img)
  finally show ?thesis using run one by blast
qed

end
