(* ===== verification/Archive.thy ===== *)
theory Archive
  imports Names
begin

text \<open>
  Archives (\<open>ifile_isarchive\<close> and \<open>ifile_open_archive\<close> in \<open>lit/lit.c\<close>): the linker looks through an
  \<open>ar\<close> file and makes an input file of every member.
\<close>

section \<open>Numbers in headers\<close>

text \<open>
  \<open>strtol\<close> and \<open>strtoul\<close> to the base 10: white space, a sign, digits; values out of range become the
  nearest bound.  The result is the value and what follows the number; without digits it is 0 and the
  whole string.
\<close>

definition is_space :: "byte \<Rightarrow> bool" where
  "is_space b \<longleftrightarrow> b = 32 \<or> (9 \<le> b \<and> b \<le> 13)"

definition is_digit :: "byte \<Rightarrow> bool" where
  "is_digit b \<longleftrightarrow> 48 \<le> b \<and> b \<le> 57"

definition digits_value :: "byte list \<Rightarrow> int" where
  "digits_value ds = foldl (\<lambda>n b. 10 * n + (uint b - 48)) 0 ds"

definition strtol :: "byte list \<Rightarrow> int \<times> byte list" where
  "strtol str =
     (let r = dropWhile is_space str;
          negative = (r \<noteq> [] \<and> hd r = 45);
          r' = (if r \<noteq> [] \<and> (hd r = 45 \<or> hd r = 43) then drop 1 r else r);
          ds = takeWhile is_digit r';
          v = (if negative then - digits_value ds else digits_value ds)
      in if ds = [] then (0, str)
         else (max (- (2 ^ 31)) (min (2 ^ 31 - 1) v), dropWhile is_digit r'))"

text \<open>Only called with a digit in front.\<close>

definition strtoul :: "byte list \<Rightarrow> nat \<times> byte list" where
  "strtoul str =
     (nat (min (2 ^ 32 - 1) (digits_value (takeWhile is_digit str))), dropWhile is_digit str)"

section \<open>Headers\<close>

text \<open>\<open>struct ar_hdr\<close>: 60 bytes, of which name, size and magic are looked at.\<close>

abbreviation sarmag :: nat where "sarmag \<equiv> 8"
abbreviation ar_hdr_size :: nat where "ar_hdr_size \<equiv> 60"

definition armag :: "byte list" where
  "armag = bytes_of ''!<arch>'' @ [10]"

definition arfmag :: "byte list" where
  "arfmag = [96, 10]"

definition ar_name :: "byte list \<Rightarrow> byte list" where
  "ar_name header = take 16 header"

definition ar_size :: "byte list \<Rightarrow> byte list" where
  "ar_size header = take 10 (drop 48 header)"

definition ar_fmag :: "byte list \<Rightarrow> byte list" where
  "ar_fmag header = take 2 (drop 58 header)"

text \<open>
  The size of a member: the scan for digits may run up to the magic behind the field.  A number must be
  followed by a blank or fill the field.
\<close>

definition member_size :: "byte list \<Rightarrow> int option" where
  "member_size header =
     (let field = ar_size header @ ar_fmag header; (sz, rest) = strtol field
      in if rest \<noteq> [] \<and> hd rest \<noteq> 32 \<and> length rest \<noteq> length (ar_fmag header) then None else Some sz)"

text \<open>The name without the blanks at its end.\<close>

definition trimmed_name :: "byte list \<Rightarrow> byte list" where
  "trimmed_name header = c_string (rev (dropWhile (\<lambda>b. b = 32) (rev (ar_name header))))"

definition slash :: byte where "slash = 47"

text \<open>\<open>strrchr\<close>: the name up to its last slash, if it has one.\<close>

definition strip_slash :: "byte list \<Rightarrow> byte list" where
  "strip_slash fname =
     (if slash \<in> set fname
      then rev (drop 1 (dropWhile (\<lambda>b. b \<noteq> slash) (rev fname)))
      else fname)"

text \<open>The table of long names: newlines become nulls, up to the first null there is.\<close>

definition split_table :: "byte list \<Rightarrow> byte list" where
  "split_table tab = map (\<lambda>b. if b = 10 then 0 else b) (c_string tab) @ drop (length (c_string tab)) tab @ [0]"

text \<open>The name of a member; \<open>None\<close> for a reference to the table that is not well formed.\<close>

definition member_name :: "(byte list \<times> int) option \<Rightarrow> byte list \<Rightarrow> byte list option" where
  "member_name table fname =
     (if fname \<noteq> [] \<and> hd fname = slash \<and> drop 1 fname \<noteq> [] \<and> is_digit (fname ! 1)
      then let (offset, rest) = strtoul (drop 1 fname) in
        if rest \<noteq> [] then None
        else case table of
               None \<Rightarrow> None
             | Some (names, sz) \<Rightarrow> if sz \<le> int offset then None else Some (strip_slash (c_string (drop offset names)))
      else Some (strip_slash fname))"

section \<open>Scanning\<close>

record member =
  mem_lo :: nat
  mem_hi :: int
  mem_name :: "byte list"

text \<open>
  One round of the loop over the headers, at position \<open>pos\<close>: the scan ends, with or without an error
  reported; or it goes on elsewhere with the table of long names, or with a member.  The size is signed,
  so the next position may be in front of this one; seeking before the start of the file is fatal.
\<close>

datatype round =
  Finished bool
| Names nat "byte list \<times> int"
| Member nat member

definition scan_table :: "byte list \<Rightarrow> nat \<Rightarrow> int \<Rightarrow> round outcome" where
  "scan_table file startpos sz =
     (if sz < 0 then Inl Trap
      else if sz = 0 \<or> length file < startpos + nat sz then Inl Fatal
      else Inr (Names (startpos + nat sz + nat sz mod 2)
                  (split_table (take (nat sz) (drop startpos file)), sz)))"

definition scan_member :: "nat \<Rightarrow> int \<Rightarrow> byte list \<Rightarrow> round outcome" where
  "scan_member startpos sz memb =
     (let next = int startpos + (sz + 1) div 2 * 2 in
      if next < 0 then Inl Fatal
      else Inr (Member (nat next) \<lparr>mem_lo = startpos, mem_hi = int startpos + sz, mem_name = memb\<rparr>))"

definition scan_header :: "byte list \<Rightarrow> nat \<Rightarrow> (byte list \<times> int) option \<Rightarrow> round outcome" where
  "scan_header file pos table =
     (let header = take ar_hdr_size (drop pos file) in
      if length header < ar_hdr_size then Inr (Finished True)
      else if ar_fmag header \<noteq> arfmag then Inr (Finished False)
      else (case member_size header of
              None \<Rightarrow> Inr (Finished False)
            | Some sz \<Rightarrow>
                if trimmed_name header = [slash, slash]
                then if table \<noteq> None then Inr (Finished False) else scan_table file (pos + ar_hdr_size) sz
                else (case member_name table (trimmed_name header) of
                        None \<Rightarrow> Inr (Finished False)
                      | Some memb \<Rightarrow> scan_member (pos + ar_hdr_size) sz memb)))"

text \<open>The loop; the result is the list of members and whether no error was reported.\<close>

fun scan_archive ::
  "nat \<Rightarrow> byte list \<Rightarrow> nat \<Rightarrow> (byte list \<times> int) option \<Rightarrow> member list \<Rightarrow> (member list \<times> bool) outcome"
where
  "scan_archive 0 file pos table ms = Inl Trap"
| "scan_archive (Suc fuel) file pos table ms =
     obind (scan_header file pos table) (\<lambda>r.
       case r of
         Finished b \<Rightarrow> Inr (ms, b)
       | Names pos' tab \<Rightarrow> scan_archive fuel file pos' (Some tab) ms
       | Member pos' m \<Rightarrow> scan_archive fuel file pos' table (ms @ [m]))"

definition is_archive :: "byte list \<Rightarrow> bool" where
  "is_archive file \<longleftrightarrow> take sarmag file = armag"

definition open_archive :: "nat \<Rightarrow> byte list \<Rightarrow> (member list \<times> bool) outcome" where
  "open_archive fuel file = scan_archive fuel file sarmag None []"

section \<open>Writing archives\<close>

text \<open>The format, as GNU \<open>ar\<close> writes it: long names go to a table that comes first.\<close>

function decimal :: "nat \<Rightarrow> byte list" where
  "decimal n = (if n < 10 then [word_of_nat (48 + n)] else decimal (n div 10) @ [word_of_nat (48 + n mod 10)])"
  by pat_completeness auto
termination by (relation "measure id") auto

declare decimal.simps [simp del]

definition pad :: "nat \<Rightarrow> byte list \<Rightarrow> byte list" where
  "pad n bs = bs @ replicate (n - length bs) 32"

definition ar_header :: "byte list \<Rightarrow> nat \<Rightarrow> byte list" where
  "ar_header fname sz = pad 16 fname @ replicate 32 48 @ pad 10 (decimal sz) @ arfmag"

definition ar_member :: "byte list \<Rightarrow> byte list \<Rightarrow> byte list" where
  "ar_member fname bs = ar_header fname (length bs) @ bs @ (if odd (length bs) then [10] else [])"

definition long_name :: "byte list \<Rightarrow> bool" where
  "long_name n \<longleftrightarrow> 15 < length n"

definition name_table :: "byte list list \<Rightarrow> byte list" where
  "name_table ns = concat (map (\<lambda>n. if long_name n then n @ [slash, 10] else []) ns)"

fun ar_members :: "nat \<Rightarrow> (byte list \<times> byte list) list \<Rightarrow> byte list" where
  "ar_members off [] = []"
| "ar_members off ((n, bs) # ms) =
     (if long_name n
      then ar_member (slash # decimal off) bs @ ar_members (off + length n + 2) ms
      else ar_member (n @ [slash]) bs @ ar_members off ms)"

definition ar_file :: "(byte list \<times> byte list) list \<Rightarrow> byte list" where
  "ar_file ms =
     armag @ (let t = name_table (map fst ms) in if t = [] then [] else ar_member [slash, slash] t)
       @ ar_members 0 ms"

lemma digit_byte:
  "k < 10 \<Longrightarrow> unat (word_of_nat (48 + k) :: byte) = 48 + k"
  by (simp add: unat_of_nat take_bit_nat_eq_self del: of_nat_add)

lemma is_digit_byte: "k < 10 \<Longrightarrow> is_digit (word_of_nat (48 + k))"
  using digit_byte [of k] by (simp add: is_digit_def word_le_nat_alt del: of_nat_add)

lemma decimal_nonempty: "decimal n \<noteq> []"
  by (subst decimal.simps) simp

lemma decimal_digits: "\<forall>b\<in>set (decimal n). is_digit b"
proof (induction n rule: decimal.induct)
  case (1 n)
  show ?case
  proof (cases "n < 10")
    case True
    then show ?thesis using is_digit_byte [of n] by (subst decimal.simps) (simp del: of_nat_add)
  next
    case False
    then show ?thesis using 1 is_digit_byte [of "n mod 10"] by (subst decimal.simps) (simp del: of_nat_add)
  qed
qed

lemma digits_value_append: "digits_value (ds @ [b]) = 10 * digits_value ds + (uint b - 48)"
  by (simp add: digits_value_def)

lemma digits_value_decimal: "digits_value (decimal n) = int n"
proof (induction n rule: decimal.induct)
  case (1 n)
  have d: "uint (word_of_nat (48 + k) :: byte) = 48 + int k" if "k < 10" for k
    using digit_byte [OF that] unfolding uint_nat by simp
  show ?case
  proof (cases "n < 10")
    case True
    then have "decimal n = [word_of_nat (48 + n)]" by (subst decimal.simps) simp
    then show ?thesis using d [OF True] by (simp add: digits_value_def del: of_nat_add)
  next
    case False
    then have e: "decimal n = decimal (n div 10) @ [word_of_nat (48 + n mod 10)]" by (subst decimal.simps) simp
    have "digits_value (decimal n) = 10 * int (n div 10) + int (n mod 10)"
      unfolding e digits_value_append 1 [OF False] using d [of "n mod 10"] by simp
    also have "\<dots> = int n" by presburger
    finally show ?thesis .
  qed
qed

lemma decimal_length: "n < 10 ^ Suc k \<Longrightarrow> length (decimal n) \<le> Suc k"
proof (induction k arbitrary: n)
  case 0
  then show ?case by (subst decimal.simps) simp
next
  case (Suc k)
  then have "n div 10 < 10 ^ Suc k" by (simp add: less_mult_imp_div_less)
  then show ?case using Suc.IH [of "n div 10"] by (subst decimal.simps) simp
qed

lemma digits_takeWhile: "\<forall>b\<in>set ds. is_digit b \<Longrightarrow> rest = [] \<or> \<not> is_digit (hd rest) \<Longrightarrow>
  takeWhile is_digit (ds @ rest) = ds \<and> dropWhile is_digit (ds @ rest) = rest"
  by (cases rest) (simp_all add: takeWhile_append dropWhile_append takeWhile_eq_all_conv)

lemma strtol_decimal:
  assumes "n < 2 ^ 31" "rest = [] \<or> \<not> is_digit (hd rest)"
  shows "strtol (decimal n @ rest) = (int n, rest)"
proof -
  obtain b bs where d: "decimal n = b # bs" using decimal_nonempty [of n] by (cases "decimal n") auto
  then have "is_digit b" using decimal_digits [of n] by simp
  then have "\<not> is_space b" "b \<noteq> 45" "b \<noteq> 43" by (auto simp: is_digit_def is_space_def word_le_nat_alt)
  then have r: "dropWhile is_space (decimal n @ rest) = decimal n @ rest"
    and h: "hd (decimal n @ rest) = b" "decimal n @ rest \<noteq> []" by (simp_all add: d)
  have "takeWhile is_digit (decimal n @ rest) = decimal n" "dropWhile is_digit (decimal n @ rest) = rest"
    using digits_takeWhile [OF decimal_digits assms(2)] by simp_all
  with \<open>b \<noteq> 45\<close> \<open>b \<noteq> 43\<close> r h assms(1) decimal_nonempty [of n] show ?thesis
    unfolding strtol_def by (simp add: Let_def digits_value_decimal)
qed

lemma strtoul_decimal: "n < 2 ^ 32 \<Longrightarrow> strtoul (decimal n) = (n, [])"
  using decimal_digits [of n]
  by (simp add: strtoul_def takeWhile_eq_all_conv [THEN iffD2, OF decimal_digits] digits_value_decimal)

lemma header_fields:
  assumes "length fname \<le> 16" "sz < 10 ^ 9"
  shows "length (ar_header fname sz) = 60" "ar_name (ar_header fname sz) = pad 16 fname"
    "ar_size (ar_header fname sz) = pad 10 (decimal sz)" "ar_fmag (ar_header fname sz) = arfmag"
  using assms decimal_length [of sz 8]
  by (simp_all add: ar_header_def ar_name_def ar_size_def ar_fmag_def pad_def arfmag_def)

lemma member_size_header:
  assumes "length fname \<le> 16" "sz < 10 ^ 9"
  shows "member_size (ar_header fname sz) = Some (int sz)"
proof -
  have l: "length (decimal sz) \<le> 9" using decimal_length [of sz 8] assms(2) by simp
  let ?rest = "replicate (10 - length (decimal sz)) 32 @ arfmag"
  have "?rest = 32 # replicate (9 - length (decimal sz)) 32 @ arfmag"
    using l by (simp flip: replicate_Suc add: Suc_diff_le)
  then have "hd ?rest = 32" by simp
  then have "strtol (decimal sz @ ?rest) = (int sz, ?rest)"
    by (intro strtol_decimal) (use assms(2) in \<open>simp_all add: is_digit_def\<close>)
  with \<open>hd ?rest = 32\<close> show ?thesis
    using header_fields [OF assms] by (simp add: member_size_def pad_def Let_def)
qed

lemma trimmed_pad:
  assumes "length fname \<le> 16" "sz < 10 ^ 9" "fname \<noteq> []" "last fname \<noteq> 32" "0 \<notin> set fname"
  shows "trimmed_name (ar_header fname sz) = fname"
proof -
  have "rev (pad 16 fname) = replicate (16 - length fname) 32 @ rev fname" by (simp add: pad_def)
  moreover have "dropWhile (\<lambda>b. b = 32) (replicate k 32 @ rev fname) = rev fname" for k
    using assms(3,4) by (induction k) (simp_all add: dropWhile_eq_self_iff hd_rev)
  ultimately show ?thesis
    using header_fields [OF assms(1,2)] assms(5)
    by (auto simp: trimmed_name_def c_string_def takeWhile_eq_all_conv)
qed


section \<open>Reading them back\<close>

lemma scan_step:
  assumes f: "arc = pre @ ar_header fname sz @ rest" and pos: "pos = length pre"
    and h: "length fname \<le> 16" "sz < 10 ^ 9" "fname \<noteq> []" "last fname \<noteq> 32" "0 \<notin> set fname"
  shows "scan_header arc pos table =
    (if fname = [slash, slash]
     then if table \<noteq> None then Inr (Finished False) else scan_table arc (pos + 60) (int sz)
     else (case member_name table fname of
             None \<Rightarrow> Inr (Finished False)
           | Some memb \<Rightarrow> scan_member (pos + 60) (int sz) memb))"
proof -
  have "take 60 (drop pos arc) = ar_header fname sz"
    using header_fields(1) [OF h(1,2)] by (simp add: f pos)
  then show ?thesis
    using header_fields [OF h(1,2)] member_size_header [OF h(1,2)] trimmed_pad [OF h]
    by (simp add: scan_header_def Let_def)
qed

text \<open>What a name and a content may be: no nulls, slashes or newlines in the name, a size in nine digits.\<close>

definition archivable :: "byte list \<times> byte list \<Rightarrow> bool" where
  "archivable m \<longleftrightarrow> fst m \<noteq> [] \<and> set (fst m) \<inter> {0, slash, 10} = {} \<and> length (snd m) < 10 ^ 9"

lemma strip_slash_end: "slash \<notin> set n \<Longrightarrow> strip_slash (n @ [slash]) = n"
  by (simp add: strip_slash_def)

lemma split_table_clean:
  "0 \<notin> set tab \<Longrightarrow> split_table tab = map (\<lambda>b. if b = 10 then 0 else b) tab @ [0]"
proof -
  assume "0 \<notin> set tab"
  then have "c_string tab = tab" by (auto simp: c_string_def takeWhile_eq_all_conv)
  then show ?thesis by (simp add: split_table_def)
qed

lemma table_entry:
  assumes "tab = pre @ n @ [slash, 10] @ post" "0 \<notin> set tab" "10 \<notin> set n" "slash \<notin> set n"
  shows "strip_slash (c_string (drop (length pre) (split_table tab))) = n"
proof -
  have m: "map (\<lambda>b :: byte. if b = 10 then 0 else b) n = n"
    using assms(3) by (induction n) auto
  have s: "slash \<noteq> 10" "slash \<noteq> 0" by (simp_all add: slash_def)
  have "0 \<notin> set n" using assms(1,2) by simp
  then have "takeWhile (\<lambda>b. b \<noteq> 0) (n @ [slash, 0] @ x) = n @ [slash]" for x
    using s by (simp add: takeWhile_append)
  then have "c_string (drop (length pre) (split_table tab)) = n @ [slash]"
    using s unfolding split_table_clean [OF assms(2)] by (simp add: assms(1) m c_string_def)
  then show ?thesis by (simp add: strip_slash_end assms(4))
qed

lemma member_name_short:
  assumes "archivable (n, bs)"
  shows "member_name table (n @ [slash]) = Some n"
proof -
  have "hd (n @ [slash]) \<noteq> slash" using assms by (cases n) (auto simp: archivable_def)
  then show ?thesis using assms by (simp add: member_name_def strip_slash_end archivable_def)
qed

lemma member_name_long:
  assumes "tab = pre @ n @ [slash, 10] @ post" "0 \<notin> set tab" "archivable (n, bs)" "length tab < 10 ^ 9"
  shows "member_name (Some (split_table tab, int (length tab))) (slash # decimal (length pre)) = Some n"
proof -
  obtain b ds where d: "decimal (length pre) = b # ds" using decimal_nonempty by (meson neq_Nil_conv)
  then have b: "is_digit b" using decimal_digits [of "length pre"] by simp
  have "length pre < 2 ^ 32" using assms(1,4) by simp
  then have "strtoul (decimal (length pre)) = (length pre, [])" by (rule strtoul_decimal)
  moreover have "strip_slash (c_string (drop (length pre) (split_table tab))) = n"
    by (rule table_entry [OF assms(1,2)]) (use assms(3) in \<open>auto simp: archivable_def\<close>)
  ultimately show ?thesis using b assms(1) by (simp add: member_name_def d)
qed

definition slice :: "byte list \<Rightarrow> member \<Rightarrow> byte list \<times> byte list" where
  "slice arc m = (mem_name m, take (nat (mem_hi m) - mem_lo m) (drop (mem_lo m) arc))"

lemma name_table_append: "name_table (xs @ ys) = name_table xs @ name_table ys"
  by (simp add: name_table_def)

lemma scan_one:
  assumes f: "arc = pre @ ar_member fname bs @ rest" and ok: "length bs < 10 ^ 9"
    and h: "length fname \<le> 16" "fname \<noteq> []" "last fname \<noteq> 32" "0 \<notin> set fname" "fname \<noteq> [slash, slash]"
    and nm: "member_name table fname = Some n"
  obtains m where "slice arc m = (n, bs)"
    "scan_header arc (length pre) table = Inr (Member (length (pre @ ar_member fname bs)) m)"
proof -
  let ?m = "\<lparr>mem_lo = length pre + 60, mem_hi = int (length pre) + 60 + int (length bs), mem_name = n\<rparr>"
  have hl: "length (ar_header fname (length bs)) = 60" by (rule header_fields(1) [OF h(1) ok])
  have l: "length (ar_member fname bs) = 60 + (length bs + length bs mod 2)"
    by (simp add: ar_member_def hl odd_iff_mod_2_eq_one)
  have "slice arc ?m = (n, bs)"
    using hl by (simp add: slice_def f ar_member_def nat_add_distrib)
  moreover have "int (length pre + 60) + (int (length bs) + 1) div 2 * 2 = int (length (pre @ ar_member fname bs))"
    by (simp add: l zmod_int) presburger
  then have "scan_member (length pre + 60) (int (length bs)) n = Inr (Member (length (pre @ ar_member fname bs)) ?m)"
    by (simp only: scan_member_def Let_def nat_int) simp
  then have "scan_header arc (length pre) table = Inr (Member (length (pre @ ar_member fname bs)) ?m)"
    using scan_step [where arc = arc and pre = pre and sz = "length bs" and pos = "length pre"
        and rest = "bs @ (if odd (length bs) then [10] else []) @ rest" and fname = fname and table = table]
      f ok h nm
    by (simp add: ar_member_def [of fname bs])
  ultimately show ?thesis by (rule that)
qed


lemma ar_member_nonempty: "length fname \<le> 16 \<Longrightarrow> length bs < 10 ^ 9 \<Longrightarrow> 60 \<le> length (ar_member fname bs)"
  by (simp add: ar_member_def header_fields(1))

lemma name_table_clean: "\<forall>m\<in>set ms. archivable m \<Longrightarrow> 0 \<notin> set (name_table (map fst ms))"
  by (auto simp: name_table_def archivable_def slash_def split: if_splits)

lemma last_byte_digit: "last (slash # decimal k) \<noteq> 32"
proof -
  have "is_digit (last (decimal k))" using decimal_digits [of k] decimal_nonempty [of k] by simp
  then show ?thesis using decimal_nonempty [of k] by (auto simp: is_digit_def word_le_nat_alt)
qed

lemma zero_not_digit: "0 \<notin> set (slash # decimal k)"
  using decimal_digits [of k] by (auto simp: is_digit_def word_le_nat_alt slash_def)

lemma scan_end: "arc = pre \<Longrightarrow> scan_archive (Suc f) arc (length pre) table ms = Inr (ms, True)"
  by (simp add: scan_header_def)

lemma scan_members:
  assumes tab: "tab = name_table (map fst (dn @ ms))"
    and table: "table = (if tab = [] then None else Some (split_table tab, int (length tab)))"
  shows "(\<forall>m\<in>set (dn @ ms). archivable m) \<Longrightarrow> length tab < 10 ^ 9 \<Longrightarrow>
    arc = pre @ ar_members (length (name_table (map fst dn))) ms \<Longrightarrow> length ms < fuel \<Longrightarrow>
    \<exists>ps. scan_archive fuel arc (length pre) table acc = Inr (acc @ ps, True) \<and> map (slice arc) ps = ms"
  using tab
proof (induction ms arbitrary: dn pre fuel acc)
  case Nil
  then obtain f where "fuel = Suc f" by (cases fuel) auto
  with Nil show ?case by (simp add: scan_header_def)
next
  case (Cons m ms)
  obtain n bs where m: "m = (n, bs)" by force
  obtain f where f: "fuel = Suc f" "length ms < f" using Cons.prems(4) by (cases fuel) auto
  let ?off = "length (name_table (map fst dn))"
  let ?fname = "if long_name n then slash # decimal ?off else n @ [slash]"
  let ?off' = "length (name_table (map fst (dn @ [m])))"
  have ok: "archivable (n, bs)" using Cons.prems(1) by (simp add: m)
  have fl: "arc = pre @ ar_member ?fname bs @ ar_members ?off' ms"
    using Cons.prems(3) by (simp add: m name_table_append) (simp add: name_table_def)
  have tab': "tab = name_table (map fst dn) @ (if long_name n then n @ [slash, 10] else [])
      @ name_table (map fst ms)"
    using Cons.prems(5) by (simp add: m name_table_append) (simp add: name_table_def)
  have off: "?off < 10 ^ 9" using tab' Cons.prems(2) by simp
  have h: "length ?fname \<le> 16" "?fname \<noteq> []" "last ?fname \<noteq> 32" "0 \<notin> set ?fname" "?fname \<noteq> [slash, slash]"
    using decimal_length [of ?off 8] off ok last_byte_digit [of ?off] zero_not_digit [of ?off] decimal_digits [of ?off]
    by (auto simp: long_name_def archivable_def slash_def is_digit_def word_le_nat_alt)
  have clean: "0 \<notin> set tab" using name_table_clean [OF Cons.prems(1)] Cons.prems(5) by simp
  have "member_name table ?fname = Some n"
  proof (cases "long_name n")
    case True
    then have t: "tab = name_table (map fst dn) @ n @ [slash, 10] @ name_table (map fst ms)" using tab' by simp
    then show ?thesis
      using member_name_long [OF t clean ok Cons.prems(2)] True by (auto simp: table)
  qed (use member_name_short [OF ok] in simp)
  then obtain p where p: "slice arc p = (n, bs)"
    and step: "scan_header arc (length pre) table = Inr (Member (length (pre @ ar_member ?fname bs)) p)"
    using scan_one [OF fl _ h, of table n] ok by (auto simp: archivable_def)
  have "\<exists>ps. scan_archive f arc (length (pre @ ar_member ?fname bs)) table (acc @ [p]) = Inr ((acc @ [p]) @ ps, True)
      \<and> map (slice arc) ps = ms"
    by (rule Cons.IH [of "dn @ [m]"]) (use Cons.prems(1,2,5) f(2) fl in simp_all)
  then obtain ps where "scan_archive f arc (length (pre @ ar_member ?fname bs)) table (acc @ [p]) = Inr ((acc @ [p]) @ ps, True)"
    "map (slice arc) ps = ms" by blast
  with step p show ?case by (intro exI [of _ "p # ps"]) (simp add: f m)
qed

lemma scan_file:
  assumes "\<forall>m\<in>set ms. archivable m" "length (name_table (map fst ms)) < 10 ^ 9" "Suc (length ms) < fuel"
  shows "\<exists>ps. open_archive fuel (ar_file ms) = Inr (ps, True) \<and> map (slice (ar_file ms)) ps = ms"
proof -
  let ?tab = "name_table (map fst ms)" and ?arc = "ar_file ms"
  let ?table = "if ?tab = [] then None else Some (split_table ?tab, int (length ?tab))"
  have a: "length armag = 8" by (simp add: armag_def bytes_of_def)
  obtain f where f: "fuel = Suc f" "length ms < f" "length ms < fuel" using assms(3) by (cases fuel) auto
  show ?thesis
  proof (cases "?tab = []")
    case True
    then show ?thesis
      using scan_members [of ?tab "[]" ms ?table ?arc armag fuel "[]"] assms f a
      by (simp add: open_archive_def ar_file_def name_table_def)
  next
    case False
    let ?pre = "armag @ ar_member [slash, slash] ?tab"
    let ?n = "length ?tab"
    have s: "last [slash, slash] \<noteq> 32" "0 \<notin> set [slash, slash]" by (simp_all add: slash_def)
    have hl: "length (ar_header [slash, slash] ?n) = 60" by (rule header_fields(1)) (use assms(2) in simp_all)
    have fl: "?arc = armag @ ar_header [slash, slash] ?n
        @ (?tab @ (if odd ?n then [10] else []) @ ar_members 0 ms)"
      using False by (simp add: ar_file_def ar_member_def Let_def)
    have "scan_header ?arc 8 None = scan_table ?arc 68 (int ?n)"
      using scan_step [OF fl a [symmetric] _ assms(2) _ s, of None] by simp
    also have "\<dots> = Inr (Names (length ?pre) (split_table ?tab, int ?n))"
      using False a hl unfolding fl by (simp add: scan_table_def ar_member_def odd_iff_mod_2_eq_one)
    finally have "open_archive fuel ?arc = scan_archive f ?arc (length ?pre) ?table []"
      using False by (simp add: open_archive_def f(1))
    moreover have "\<exists>ps. scan_archive f ?arc (length ?pre) ?table [] = Inr ([] @ ps, True) \<and> map (slice ?arc) ps = ms"
    proof (rule scan_members [of ?tab "[]" ms])
      show "?arc = ?pre @ ar_members (length (name_table (map fst []))) ms"
        using False by (simp add: ar_file_def Let_def) (simp add: name_table_def)
    qed (use assms f False in simp_all)
    ultimately show ?thesis by simp
  qed
qed


section \<open>Properties\<close>

text \<open>
  C15: Reading an archive gives back what was put into it: for every list of members with names free of
  nulls, slashes and newlines and contents below a gigabyte, the scan of the archive finds exactly these
  members in their order, short names and long ones, each with its name and its bytes, whatever their
  number and whether or not their lengths are even.
\<close>

theorem open_archive_members:
  assumes "\<forall>m\<in>set ms. archivable m" "length (name_table (map fst ms)) < 10 ^ 9" "Suc (length ms) < fuel"
  shows "\<exists>ps. open_archive fuel (ar_file ms) = Inr (ps, True) \<and> map (slice (ar_file ms)) ps = ms"
  by (rule scan_file [OF assms])

definition sample_members :: "(byte list \<times> byte list) list" where
  "sample_members = [([97, 46, 111], [1, 2, 3]), (replicate 20 98 @ [46, 111], []), ([99, 46, 111], [4, 5])]"

theorem open_archive_members_witness:
  "\<exists>ps. open_archive 5 (ar_file sample_members) = Inr (ps, True) \<and>
     map (slice (ar_file sample_members)) ps = sample_members"
  by (rule open_archive_members)
    (simp_all add: sample_members_def archivable_def slash_def name_table_def long_name_def)

text \<open>
  C25: The size in a header may be negative.  A member of size -60 sends the scan back to its own header:
  the linker never gets past it, and adds the member again in every round.
\<close>

theorem scan_archive_loops:
  "open_archive fuel (armag @ [97, 47] @ replicate 46 32 @ [45, 54, 48] @ replicate 7 32 @ arfmag @ rest) = Inl Trap"
proof -
  let ?h = "[97, 47] @ replicate 46 32 @ [45, 54, 48] @ replicate 7 32 @ arfmag"
  have a: "length armag = 8" by (simp add: armag_def bytes_of_def)
  have len: "length ?h = 60" by (simp add: arfmag_def)
  have t: "take 60 (drop 8 (armag @ ?h @ rest)) = ?h"
    using a len by (metis append_eq_conv_conj)
  have m: "ar_fmag ?h = arfmag" "member_size ?h = Some (-60)" "trimmed_name ?h = [97, 47]"
    "member_name None [97, 47] = Some [97]"
    by code_simp+
  have h: "scan_header (armag @ ?h @ rest) 8 None =
      Inr (Member 8 \<lparr>mem_lo = 68, mem_hi = 8, mem_name = [97]\<rparr>)"
    unfolding scan_header_def t Let_def m(3) by (simp only: len m option.case) (simp add: scan_member_def slash_def)
  have "scan_archive fuel (armag @ ?h @ rest) 8 None ms = Inl Trap" for ms
    by (induction fuel arbitrary: ms) (simp_all only: scan_archive.simps h obind.simps round.case)
  then show ?thesis by (simp add: open_archive_def)
qed

end
