(* ===== verification/Linker.thy ===== *)
theory Linker
  imports LitExpr Ments Archive
begin

text \<open>
  The first file pass of the linker (\<open>lit/lit.c\<close>): input files, the nametables and needs of the object
  files, which names are wanted, and which files they come from.
\<close>

section \<open>State\<close>

text \<open>
  \<open>struct ifile\<close>: the bytes from the saved position on (the end of an archive member is never looked
  at), whether it is a member of an archive (\<open>lo\<close> is not 0), the names of its nametable, the elements expressions
  may refer to (\<open>None\<close> where the table holds \<open>NULL\<close>, and whether the element was read), and the allocated length of that table.
\<close>

record ifile =
  if_member :: bool
  if_data :: "byte list"
  if_names :: "nat list"
  if_elements :: "nat \<Rightarrow> (nat \<times> bool) option"
  if_nelements :: nat
  if_wanted :: bool

text \<open>
  The global variables.  The sources and references of a name are the indices of the files in \<open>ifiles\<close>, in the
  order they were added; \<open>multisrc\<close> and \<open>multiref\<close> say how the source stores such a list.
  \<open>name_elts\<close> is the first element of a fragment, \<open>dummy\<close> the node for elements of skipped fragments.
\<close>

record linker = ments +
  general_names :: table
  segment_names :: table
  ifiles :: "ifile list"
  undefined_wanted_count :: int
  name_source :: "nat \<Rightarrow> nat list"
  name_refs :: "nat \<Rightarrow> nat list"
  name_elts :: "nat \<Rightarrow> nat option"
  skipping :: bool
  current_ifile :: nat
  dummy :: "nat option"

definition new_ifile :: "bool \<Rightarrow> byte list \<Rightarrow> ifile" where
  "new_ifile member bytes =
     \<lparr>if_member = member, if_data = bytes, if_names = [], if_elements = (\<lambda>_. None), if_nelements = 0,
      if_wanted = False\<rparr>"

definition upd_ifile :: "nat \<Rightarrow> (ifile \<Rightarrow> ifile) \<Rightarrow> ('x linker_scheme, unit) step" where
  "upd_ifile i f = rmodify (\<lambda>s. s\<lparr>ifiles := (ifiles s)[i := f (ifiles s ! i)]\<rparr>)"

definition add_source :: "nat \<Rightarrow> nat \<Rightarrow> ('x linker_scheme, unit) step" where
  "add_source np i = rmodify (\<lambda>s. s\<lparr>name_source := (name_source s)(np := name_source s np @ [i])\<rparr>)"

definition add_ref :: "nat \<Rightarrow> nat \<Rightarrow> ('x linker_scheme, unit) step" where
  "add_ref np i = rmodify (\<lambda>s. s\<lparr>name_refs := (name_refs s)(np := name_refs s np @ [i])\<rparr>)"

text \<open>\<open>first_source\<close>; its result is used without a check for \<open>NULL\<close>.\<close>

definition first_source :: "nat \<Rightarrow> ('x linker_scheme, nat) step" where
  "first_source np =
     rbind (rget (\<lambda>s. name_source s np)) (\<lambda>src. if src = [] then rstop Trap else rret (hd src))"

section \<open>Wanted names\<close>

definition set_wanted :: "nat \<Rightarrow> ('x linker_scheme, unit) step" where
  "set_wanted np = rmodify (\<lambda>s. s\<lparr>name_wanted := (name_wanted s)(np := True)\<rparr>)"

definition count_undefined :: "int \<Rightarrow> ('x linker_scheme, unit) step" where
  "count_undefined d = rmodify (\<lambda>s. s\<lparr>undefined_wanted_count := undefined_wanted_count s + d\<rparr>)"

definition want_file :: "nat \<Rightarrow> ('x linker_scheme, unit) step" where
  "want_file i = upd_ifile i (\<lambda>f. f\<lparr>if_wanted := True\<rparr>)"

text \<open>\<open>mark_wanted\<close> follows the needs; the fuel bounds the depth of the recursion.\<close>

fun mark_wanted :: "nat \<Rightarrow> nat \<Rightarrow> ('x linker_scheme, unit) step" where
  "mark_wanted 0 np = rstop Trap"
| "mark_wanted (Suc fuel) np =
     rbind (rget (\<lambda>s. (name_wanted s np, name_defined s np, name_special s np, name_needs s np)))
       (\<lambda>(w, d, special, needs).
         if w then rret ()
         else rbind (set_wanted np) (\<lambda>_.
              rbind (if d then rbind (first_source np) want_file
                     else if special = 0 then count_undefined 1 else rret ()) (\<lambda>_.
                each (mark_wanted fuel) needs)))"

section \<open>Nametables\<close>

abbreviation LIT_NAME_DEFINED :: long where "LIT_NAME_DEFINED \<equiv> 1"
abbreviation LIT_NAME_COMMON :: long where "LIT_NAME_COMMON \<equiv> 4"

definition lookup_general :: "byte list \<Rightarrow> ('x linker_scheme, nat) step" where
  "lookup_general key =
     rbind (rget general_names) (\<lambda>t. rbind (table_lookup t key) (\<lambda>(np, t').
     rbind (rmodify (\<lambda>s. s\<lparr>general_names := t'\<rparr>)) (\<lambda>_. rret np)))"

text \<open>A name the file defines; the warning about a redefinition changes nothing.\<close>

definition define_in :: "nat \<Rightarrow> nat \<Rightarrow> ('x linker_scheme, unit) step" where
  "define_in i np =
     rbind (add_source np i) (\<lambda>_.
     rbind (rget (\<lambda>s. (name_wanted s np, name_defined s np, name_special s np))) (\<lambda>(w, d, special).
     rbind (if w \<and> \<not> d
            then rbind (want_file i) (\<lambda>_. if special = 0 then count_undefined (-1) else rret ())
            else rret ()) (\<lambda>_.
       rmodify (\<lambda>s. s\<lparr>name_defined := (name_defined s)(np := True)\<rparr>))))"

definition enter_name :: "nat \<Rightarrow> byte list \<Rightarrow> ('x linker_scheme, nat) step" where
  "enter_name i key =
     rbind (lookup_general key) (\<lambda>np.
     rbind (upd_ifile i (\<lambda>f. f\<lparr>if_names := if_names f @ [np]\<rparr>)) (\<lambda>_. rret np))"

definition flag_name :: "nat \<Rightarrow> nat \<Rightarrow> long \<Rightarrow> ('x linker_scheme, unit) step" where
  "flag_name i np n =
     rbind (if n AND LIT_NAME_COMMON \<noteq> 0
            then rmodify (\<lambda>s. s\<lparr>name_common := (name_common s)(np := True)\<rparr>) else rret ()) (\<lambda>_.
       if n AND LIT_NAME_DEFINED \<noteq> 0 then define_in i np else add_ref np i)"

definition read_name :: "nat \<Rightarrow> (rstate \<times> 'x linker_scheme, unit) step" where
  "read_name i =
     rbind (on_file lit_in_string) (\<lambda>key.
     rbind (on_tables (enter_name i key)) (\<lambda>np.
     rbind in_long (\<lambda>n. on_tables (flag_name i np n))))"

text \<open>The name with an index in the nametable of a file; \<open>None\<close> outside the table.\<close>

definition nth_name :: "nat \<Rightarrow> long \<Rightarrow> 'x linker_scheme \<Rightarrow> nat option" where
  "nth_name i n s =
     (let ns = if_names (ifiles s ! i) in
      if n <s 0 \<or> length ns \<le> unat n then None else Some (ns ! unat n))"

definition need_name :: "nat \<Rightarrow> nat \<Rightarrow> nat \<Rightarrow> ('x linker_scheme, unit) step" where
  "need_name fuel np need =
     rbind (add_need np need) (\<lambda>_.
     rbind (rget (\<lambda>s. name_wanted s np)) (\<lambda>w. if w then mark_wanted fuel need else rret ()))"

text \<open>
  The loops run as long as there is input, with its length as fuel.  \<open>mark_wanted\<close> gets as much as there
  are names.
\<close>

fun read_needs :: "nat \<Rightarrow> nat \<Rightarrow> nat \<Rightarrow> (rstate \<times> 'x linker_scheme, unit) step" where
  "read_needs 0 i np = rstop Trap"
| "read_needs (Suc fuel) i np =
     rbind in_long (\<lambda>n.
       if n = -1 then rret ()
       else rbind (on_tables (rbind (rget (\<lambda>s. (nth_name i n s, Suc (next_name s)))) (\<lambda>(r, depth).
              case r of None \<Rightarrow> report_error | Some need \<Rightarrow> need_name depth np need)))
            (\<lambda>_. read_needs fuel i np))"

text \<open>
  What a record of a list of needs starts with.  An index outside the table is reported, and what follows is
  taken for records.
\<close>

definition read_need_list :: "nat \<Rightarrow> nat \<Rightarrow> (rstate \<times> 'x linker_scheme, unit) step" where
  "read_need_list fuel i =
     rbind in_long (\<lambda>n.
     rbind (on_tables (rget (nth_name i n))) (\<lambda>r.
       case r of None \<Rightarrow> on_tables report_error | Some np \<Rightarrow> read_needs fuel i np))"

definition save_position :: "nat \<Rightarrow> (rstate \<times> 'x linker_scheme, unit) step" where
  "save_position i =
     rbind (rget (\<lambda>(f, s). inp f)) (\<lambda>rest. on_tables (upd_ifile i (\<lambda>f. f\<lparr>if_data := rest\<rparr>)))"

text \<open>
  \<open>ifile_read_nametable\<close>, the records up to the marker of the needs area (area 1).  An unknown tag ends it.
\<close>

fun read_records :: "nat \<Rightarrow> nat \<Rightarrow> long \<Rightarrow> (rstate \<times> 'x linker_scheme, unit) step" where
  "read_records 0 i area = rstop Trap"
| "read_records (Suc fuel) i area =
     rbind in_long (\<lambda>tag.
       if tag = LIT_DUMMY then read_records fuel i area
       else if tag = LIT_NAME then rbind (read_name i) (\<lambda>_. read_records fuel i area)
       else if tag = LIT_NEEDS then rbind (read_need_list fuel i) (\<lambda>_. read_records fuel i area)
       else if tag = LIT_MARKER then
         rbind in_long (\<lambda>n.
         rbind (on_tables (if n \<noteq> area then report_error else rret ())) (\<lambda>_.
         rbind in_long (\<lambda>_.
           if 1 \<le>s area then save_position i else read_records fuel i (area + 1))))
       else if tag = LIT_COMMENT then rbind (on_file lit_in_string) (\<lambda>_. read_records fuel i area)
       else on_tables report_error)"

text \<open>A pass over a file starts at its saved position; the diagnostics of the reader are counted in.\<close>

definition with_file :: "nat \<Rightarrow> (rstate \<times> 'x linker_scheme, unit) step \<Rightarrow> ('x linker_scheme, unit) step" where
  "with_file i m s =
     obind (m (\<lparr>inp = if_data (ifiles s ! i), nerr = 0\<rparr>, s)) (\<lambda>(_, (f, s')).
       Inr ((), s'\<lparr>errors := errors s' + nerr f\<rparr>))"

definition read_nametable :: "nat \<Rightarrow> ('x linker_scheme, unit) step" where
  "read_nametable i =
     rbind (rget (\<lambda>s. length (if_data (ifiles s ! i)))) (\<lambda>n. with_file i (read_records (Suc n) i 0))"

section \<open>The first pass\<close>

text \<open>
  \<open>ifile_add\<close>, and \<open>ifile_add_member\<close> for every member of an archive; the archive itself is an input file,
  too, that nothing is read from.  The result is the number of the first file to be read.
\<close>

definition add_ifiles :: "byte list \<Rightarrow> ('x linker_scheme, nat) step" where
  "add_ifiles bytes =
     rbind (rget (\<lambda>s. length (ifiles s))) (\<lambda>n.
     rbind (rmodify (\<lambda>s. s\<lparr>ifiles := ifiles s @ [new_ifile False bytes]\<rparr>)) (\<lambda>_.
       if is_archive bytes
       then rbind (\<lambda>s. obind (open_archive (2 * length bytes + 4) bytes) (\<lambda>r. Inr (r, s))) (\<lambda>(ms, good).
            rbind (rmodify (\<lambda>s. s\<lparr>ifiles := ifiles s @ map (\<lambda>m. new_ifile True (drop (mem_lo m) bytes)) ms\<rparr>)) (\<lambda>_.
            rbind (if good then rret () else report_error) (\<lambda>_. rret (Suc n))))
       else rret n))"

definition read_input :: "byte list \<Rightarrow> ('x linker_scheme, unit) step" where
  "read_input bytes =
     rbind (add_ifiles bytes) (\<lambda>first.
     rbind (rget (\<lambda>s. length (ifiles s))) (\<lambda>n. each read_nametable [first..<n]))"

text \<open>
  Libraries are read as long as there are names to be resolved.  \<open>None\<close> is a library not found on the search
  path, which is a warning.
\<close>

fun read_libraries :: "byte list option list \<Rightarrow> ('x linker_scheme, unit) step" where
  "read_libraries [] = rret ()"
| "read_libraries (lib # libs) =
     rbind (rget undefined_wanted_count) (\<lambda>n.
       if n = 0 then rret ()
       else if n < 0 then rstop Abort
       else rbind (case lib of None \<Rightarrow> rret () | Some bytes \<Rightarrow> read_input bytes) (\<lambda>_. read_libraries libs))"

text \<open>The names wanted from the start: those of the options \<open>-h\<close>, else \<open>@@hook\<close>.\<close>

definition want_hook :: "byte list \<Rightarrow> ('x linker_scheme, unit) step" where
  "want_hook key =
     rbind (lookup_general key) (\<lambda>np. rbind (rget next_name) (\<lambda>n. mark_wanted (Suc n) np))"

definition want_hooks :: "byte list list \<Rightarrow> ('x linker_scheme, unit) step" where
  "want_hooks hooks = each want_hook (if hooks = [] then [bytes_of ''@@hook''] else hooks)"

definition report_undefined :: "nat \<Rightarrow> ('x linker_scheme, unit option) step" where
  "report_undefined np =
     rbind (rget (\<lambda>s. name_wanted s np \<and> \<not> name_defined s np \<and> name_special s np = 0)) (\<lambda>b.
     rbind (if b then report_error else rret ()) (\<lambda>_. rret None))"

definition first_pass :: "byte list list \<Rightarrow> byte list option list \<Rightarrow> ('x linker_scheme, unit) step" where
  "first_pass files libs =
     rbind (each read_input files) (\<lambda>_.
     rbind check_errors (\<lambda>_.
     rbind (read_libraries libs) (\<lambda>_.
     rbind check_errors (\<lambda>_.
     rbind (rget (\<lambda>s. (undefined_wanted_count s, general_names s))) (\<lambda>(n, t).
       if n \<noteq> 0 then rbind (table_walk t report_undefined) (\<lambda>_. rstop Fatal) else rret ())))))"

end
