(* ===== verification/Books.thy ===== *)
theory Books
  imports Linker
begin

text \<open>
  The bookkeeping of the linker's first pass: what \<open>mark_wanted\<close> marks, the counter of names not defined yet, and the
  files they come from, kept through every record of every object file, archive and library.
\<close>

section \<open>What marking keeps\<close>

definition undefined_names :: "'x linker_scheme \<Rightarrow> nat set" where
  "undefined_names s = {n. name_wanted s n \<and> \<not> name_defined s n \<and> name_special s n = 0}"

text \<open>
  The bookkeeping of the first pass: the counter counts the wanted names that are neither defined nor special,
  defined names are those with a source, and the first source of a wanted name is a wanted file.
\<close>

definition counted :: "'x linker_scheme \<Rightarrow> bool" where
  "counted s \<longleftrightarrow>
     {n. name_wanted s n} \<subseteq> {..<next_name s} \<and>
     undefined_wanted_count s = int (card (undefined_names s)) \<and>
     (\<forall>n. name_defined s n \<longleftrightarrow> name_source s n \<noteq> []) \<and>
     (\<forall>n. set (name_source s n) \<subseteq> {..<length (ifiles s)}) \<and>
     (\<forall>n. name_wanted s n \<and> name_defined s n \<longrightarrow> if_wanted (ifiles s ! hd (name_source s n)))"

definition needs_in :: "'x linker_scheme \<Rightarrow> bool" where
  "needs_in s \<longleftrightarrow> (\<forall>n. set (name_needs s n) \<subseteq> {..<next_name s})"

definition needs_rel :: "'x linker_scheme \<Rightarrow> (nat \<times> nat) set" where
  "needs_rel s = {(m, n). n \<in> set (name_needs s m)}"

text \<open>Everything but the marks, the counter and the wanted files.\<close>

definition marks :: "'x linker_scheme \<Rightarrow> 'x linker_scheme \<Rightarrow> bool" where
  "marks s t \<longleftrightarrow>
     name_needs t = name_needs s \<and> name_defined t = name_defined s \<and> name_special t = name_special s \<and>
     name_source t = name_source s \<and> next_name t = next_name s \<and> general_names t = general_names s \<and>
     map if_names (ifiles t) = map if_names (ifiles s) \<and> errors t = errors s"

lemma marks_refl [simp]: "marks s s" by (simp add: marks_def)

lemma marks_trans [trans]: "marks s t \<Longrightarrow> marks t u \<Longrightarrow> marks s u" by (simp add: marks_def)

lemma marks_needs: "marks s t \<Longrightarrow> needs_in t = needs_in s \<and> needs_rel t = needs_rel s"
  by (simp add: marks_def needs_in_def needs_rel_def)

lemma counted_finite: "counted s \<Longrightarrow> finite {n. name_wanted s n}"
  by (auto simp: counted_def intro: finite_subset)

lemma undefined_finite: "counted s \<Longrightarrow> finite (undefined_names s)"
  using counted_finite [of s] by (auto simp: undefined_names_def elim: finite_subset [rotated])

lemma map_if_names_update: "if_names (f (fs ! i)) = if_names (fs ! i) \<Longrightarrow> map if_names (fs[i := f (fs ! i)]) = map if_names fs"
  by (metis list_update_id map_update not_le_imp_less list_update_beyond)

text \<open>One name is marked: wanted, counted or its file wanted.\<close>

lemma mark_one:
  assumes c: "counted s" and np: "np < next_name s" and nw: "\<not> name_wanted s np"
    and run: "rbind (set_wanted np) (\<lambda>_. if name_defined s np then rbind (first_source np) want_file
                else if name_special s np = 0 then count_undefined 1 else rret ()) s = Inr (u, s')"
  shows "marks s s' \<and> counted s' \<and> name_wanted s' = (name_wanted s)(np := True)"
proof -
  let ?s1 = "s\<lparr>name_wanted := (name_wanted s)(np := True)\<rparr>"
  have fin: "finite (undefined_names s)" by (rule undefined_finite [OF c])
  show ?thesis
  proof (cases "name_defined s np")
    case True
    then have src: "name_source s np \<noteq> []" using c by (simp add: counted_def)
    moreover have "set (name_source s np) \<subseteq> {..<length (ifiles s)}" using c by (simp add: counted_def)
    ultimately have "hd (name_source s np) < length (ifiles s)" by (meson hd_in_set lessThan_iff subsetD)
    note src = src this
    let ?i = "hd (name_source s np)"
    have s': "s' = ?s1\<lparr>ifiles := (ifiles s)[?i := (ifiles s ! ?i)\<lparr>if_wanted := True\<rparr>]\<rparr>"
      using run True src(1)
      by (auto simp: set_wanted_def first_source_def want_file_def upd_ifile_def outcome_iff)
    have "undefined_names s' = undefined_names s" using True by (auto simp: undefined_names_def s')
    then show ?thesis
      using c np src map_if_names_update [of "\<lambda>f. f\<lparr>if_wanted := True\<rparr>" "ifiles s" ?i]
      by (auto simp: counted_def marks_def s' nth_list_update)
  next
    case False
    have s': "s' = (if name_special s np = 0 then ?s1\<lparr>undefined_wanted_count := undefined_wanted_count s + 1\<rparr> else ?s1)"
      using run False by (auto simp: set_wanted_def count_undefined_def outcome_iff split: if_splits)
    have u: "undefined_names s' = (if name_special s np = 0 then insert np (undefined_names s) else undefined_names s)"
      using False by (auto simp: undefined_names_def s')
    have "np \<notin> undefined_names s" using nw by (simp add: undefined_names_def)
    then have "int (card (undefined_names s')) = int (card (undefined_names s)) + (if name_special s np = 0 then 1 else 0)"
      using fin by (simp add: u)
    then show ?thesis
      using c np False by (auto simp: counted_def marks_def s')
  qed
qed

text \<open>What a run of \<open>mark_wanted\<close> on the names \<open>N\<close> does.\<close>

definition marked :: "nat set \<Rightarrow> 'x linker_scheme \<Rightarrow> 'x linker_scheme \<Rightarrow> bool" where
  "marked N s s' \<longleftrightarrow>
     marks s s' \<and> counted s' \<and>
     {n. name_wanted s n} \<subseteq> {n. name_wanted s' n} \<and> N \<subseteq> {n. name_wanted s' n} \<and>
     {n. name_wanted s' n} \<subseteq> {n. name_wanted s n} \<union> (needs_rel s)\<^sup>* `` N \<and>
     (\<forall>n. name_wanted s' n \<and> \<not> name_wanted s n \<longrightarrow> set (name_needs s n) \<subseteq> {m. name_wanted s' m})"

lemma marked_refl: "counted s \<Longrightarrow> N \<subseteq> {n. name_wanted s n} \<Longrightarrow> marked N s s"
  by (auto simp: marked_def)

lemma marked_trans:
  assumes "marked M s t" "marked N t u"
  shows "marked (M \<union> N) s u"
proof -
  have m: "marks s t" using assms(1) by (simp add: marked_def)
  then have r: "needs_rel t = needs_rel s" "name_needs t = name_needs s" using marks_needs by (auto simp: marks_def)
  show ?thesis
    using assms unfolding marked_def r Image_Un by (auto intro: marks_trans) blast+
qed

lemma each_mark_wanted:
  fixes s :: "'x linker_scheme"
  assumes one: "\<And>n v (t :: 'x linker_scheme) t'. n \<in> set ns \<Longrightarrow> mark_wanted fuel n t = Inr (v, t') \<Longrightarrow> counted t \<Longrightarrow> needs_in t \<Longrightarrow>
      n < next_name t \<Longrightarrow> marked {n} t t'"
  shows "each (mark_wanted fuel) ns s = Inr (u, s') \<Longrightarrow> counted s \<Longrightarrow> needs_in s \<Longrightarrow> set ns \<subseteq> {..<next_name s} \<Longrightarrow>
    marked (set ns) s s'"
  using one
proof (induction ns arbitrary: s)
  case Nil
  then show ?case by (simp add: outcome_iff marked_refl)
next
  case (Cons n ns)
  from Cons.prems(1) obtain v t where 1: "mark_wanted fuel n s = Inr (v, t)" and 2: "each (mark_wanted fuel) ns t = Inr (u, s')"
    by (auto simp: outcome_iff)
  have m: "marked {n} s t" by (rule Cons.prems(5) [OF list.set_intros(1) 1 Cons.prems(2,3)]) (use Cons.prems(4) in auto)
  then have "counted t" "needs_in t" "next_name t = next_name s"
    using Cons.prems(3) marks_needs [of s t] by (auto simp: marked_def marks_def)
  then have "marked (set ns) t s'"
    using Cons.prems(4,5) by (intro Cons.IH [OF 2]) auto
  from marked_trans [OF m this] show ?case by simp
qed

lemma mark_wanted_marked:
  "mark_wanted fuel np s = Inr (u, s') \<Longrightarrow> counted s \<Longrightarrow> needs_in s \<Longrightarrow> np < next_name s \<Longrightarrow> marked {np} s s'"
proof (induction fuel arbitrary: np s u s')
  case 0
  then show ?case by (simp add: outcome_iff)
next
  case (Suc fuel)
  show ?case
  proof (cases "name_wanted s np")
    case True
    with Suc.prems show ?thesis by (auto simp: outcome_iff intro: marked_refl)
  next
    case False
    with Suc.prems(1) obtain v s1 where
      1: "rbind (set_wanted np) (\<lambda>_. if name_defined s np then rbind (first_source np) want_file
                else if name_special s np = 0 then count_undefined 1 else rret ()) s = Inr (v, s1)"
      and 2: "each (mark_wanted fuel) (name_needs s np) s1 = Inr (u, s')"
      by (simp add: outcome_iff) blast
    have m1: "marks s s1" "counted s1" and w: "name_wanted s1 = (name_wanted s)(np := True)"
      using mark_one [OF Suc.prems(2,4) False 1] by simp_all
    then have n1: "needs_in s1" "needs_rel s1 = needs_rel s" "next_name s1 = next_name s" "name_needs s1 = name_needs s"
      using Suc.prems(3) marks_needs by (auto simp: marks_def)
    have "marked (set (name_needs s np)) s1 s'"
      by (rule each_mark_wanted [OF Suc.IH 2 m1(2) n1(1)]) (use Suc.prems(3) n1 in \<open>auto simp: needs_in_def\<close>)
    then have k: "marks s1 s'" "counted s'" "{n. name_wanted s1 n} \<subseteq> {n. name_wanted s' n}"
      "set (name_needs s np) \<subseteq> {n. name_wanted s' n}"
      "{n. name_wanted s' n} \<subseteq> {n. name_wanted s1 n} \<union> (needs_rel s)\<^sup>* `` set (name_needs s np)"
      "\<forall>n. name_wanted s' n \<and> \<not> name_wanted s1 n \<longrightarrow> set (name_needs s n) \<subseteq> {m. name_wanted s' m}"
      by (simp_all add: marked_def n1)
    have "(needs_rel s)\<^sup>* `` set (name_needs s np) \<subseteq> (needs_rel s)\<^sup>* `` {np}"
      by (auto simp: needs_rel_def intro: converse_rtrancl_into_rtrancl)
    moreover have np: "np \<in> (needs_rel s)\<^sup>* `` {np}" by auto
    ultimately have "{n. name_wanted s' n} \<subseteq> {n. name_wanted s n} \<union> (needs_rel s)\<^sup>* `` {np}"
      using k(5) unfolding w by (auto split: if_splits)
    moreover have "\<forall>n. name_wanted s' n \<and> \<not> name_wanted s n \<longrightarrow> set (name_needs s n) \<subseteq> {m. name_wanted s' m}"
      using k(4,6) unfolding w by (metis fun_upd_other)
    moreover have "name_wanted s' np" "{n. name_wanted s n} \<subseteq> {n. name_wanted s' n}"
      using k(3) unfolding w by auto
    ultimately show ?thesis
      unfolding marked_def using marks_trans [OF m1(1) k(1)] k(2) by simp
  qed
qed

text \<open>As much fuel as there are names not wanted yet is enough.\<close>

definition unwanted :: "'x linker_scheme \<Rightarrow> nat set" where
  "unwanted s = {n. n < next_name s \<and> \<not> name_wanted s n}"

lemma unwanted_mono: "marked N s t \<Longrightarrow> card (unwanted t) \<le> card (unwanted s)"
  by (rule card_mono) (auto simp: unwanted_def marked_def marks_def)

lemma each_mark_returns:
  fixes s :: "'x linker_scheme"
  assumes one: "\<And>n (t :: 'x linker_scheme). n \<in> set ns \<Longrightarrow> counted t \<Longrightarrow> needs_in t \<Longrightarrow> n < next_name t \<Longrightarrow> card (unwanted t) < fuel \<Longrightarrow>
      \<exists>t'. mark_wanted fuel n t = Inr ((), t')"
  shows "counted s \<Longrightarrow> needs_in s \<Longrightarrow> set ns \<subseteq> {..<next_name s} \<Longrightarrow> card (unwanted s) < fuel \<Longrightarrow>
    \<exists>s'. each (mark_wanted fuel) ns s = Inr ((), s')"
  using one
proof (induction ns arbitrary: s)
  case Nil
  then show ?case by (simp add: rret_def)
next
  case (Cons n ns)
  from Cons.prems obtain t where t: "mark_wanted fuel n s = Inr ((), t)" by fastforce
  have m: "marked {n} s t" by (rule mark_wanted_marked [OF t Cons.prems(1,2)]) (use Cons.prems(3) in auto)
  then have k: "counted t" "needs_in t" "next_name t = next_name s"
    using Cons.prems(2) marks_needs [of s t] by (auto simp: marked_def marks_def)
  have "card (unwanted t) < fuel" using unwanted_mono [OF m] Cons.prems(4) by simp
  then obtain s' where "each (mark_wanted fuel) ns t = Inr ((), s')"
    using Cons.IH [OF k(1,2)] Cons.prems(3,5) k(3) by auto
  with t show ?case by (simp add: rbind_def)
qed

lemma mark_wanted_returns:
  "counted s \<Longrightarrow> needs_in s \<Longrightarrow> np < next_name s \<Longrightarrow> card (unwanted s) < fuel \<Longrightarrow>
     \<exists>s'. mark_wanted fuel np s = Inr ((), s')"
proof (induction fuel arbitrary: np s)
  case 0
  then show ?case by simp
next
  case (Suc fuel)
  let ?mk = "if name_defined s np then rbind (first_source np) want_file
               else if name_special s np = 0 then count_undefined 1 else rret ()"
  show ?case
  proof (cases "name_wanted s np")
    case True
    then show ?thesis by (simp add: reader_simps)
  next
    case False
    have "\<exists>s1. rbind (set_wanted np) (\<lambda>_. ?mk) s = Inr ((), s1)"
      using Suc.prems(1)
      by (auto simp: reader_simps set_wanted_def first_source_def want_file_def upd_ifile_def count_undefined_def counted_def)
    then obtain s1 where 1: "rbind (set_wanted np) (\<lambda>_. ?mk) s = Inr ((), s1)" ..
    note m1 = mark_one [OF Suc.prems(1,3) False 1]
    have "unwanted s1 = unwanted s - {np}" using m1 by (auto simp: unwanted_def marks_def)
    moreover have "np \<in> unwanted s" "finite (unwanted s)" using Suc.prems(3) False by (simp_all add: unwanted_def)
    ultimately have "card (unwanted s1) < card (unwanted s)" by (metis card_Diff1_less)
    then have "card (unwanted s1) < fuel" using Suc.prems(4) by simp
    moreover have "counted s1" "needs_in s1" "next_name s1 = next_name s"
      using m1 Suc.prems(2) marks_needs [of s s1] by (auto simp: marks_def)
    moreover have "set (name_needs s np) \<subseteq> {..<next_name s}" using Suc.prems(2) by (simp add: needs_in_def)
    ultimately obtain s' where s': "each (mark_wanted fuel) (name_needs s np) s1 = Inr ((), s')"
      using each_mark_returns [OF Suc.IH, of "name_needs s np" s1] by auto
    have e: "mark_wanted (Suc fuel) np s = rbind (rbind (set_wanted np) (\<lambda>_. ?mk)) (\<lambda>_. each (mark_wanted fuel) (name_needs s np)) s"
      using False by (simp add: reader_simps obind_assoc split_def)
    show ?thesis unfolding e by (simp only: rbind_apply [of "rbind _ _"] 1 obind.simps prod.case s') blast
  qed
qed

section \<open>The first pass keeps the books\<close>

text \<open>
  \<open>H\<close> are the names wanted from the start: wanted is what they need, directly or through others, as far as the
  needs are known.
\<close>

definition resolved :: "nat set \<Rightarrow> 'x linker_scheme \<Rightarrow> bool" where
  "resolved H s \<longleftrightarrow>
     counted s \<and> needs_in s \<and> H \<subseteq> {..<next_name s} \<and> {n. name_wanted s n} = (needs_rel s)\<^sup>* `` H \<and>
     (\<forall>n. next_name s \<le> n \<longrightarrow> \<not> name_defined s n \<and> name_needs s n = []) \<and>
     table_names (general_names s) \<subseteq> {..<next_name s} \<and>
     (\<forall>f\<in>set (ifiles s). set (if_names f) \<subseteq> {..<next_name s})"

lemma resolvedD:
  assumes "resolved H s"
  shows "counted s" "needs_in s" "H \<subseteq> {..<next_name s}" "{n. name_wanted s n} = (needs_rel s)\<^sup>* `` H"
    "\<forall>n. next_name s \<le> n \<longrightarrow> \<not> name_defined s n \<and> name_needs s n = []"
    "table_names (general_names s) \<subseteq> {..<next_name s}"
    "\<forall>f\<in>set (ifiles s). set (if_names f) \<subseteq> {..<next_name s}"
  using assms unfolding resolved_def by blast+

lemma rtrancl_closed: "R `` A \<subseteq> A \<Longrightarrow> R\<^sup>* `` A = A"
proof -
  assume c: "R `` A \<subseteq> A"
  have "y \<in> A" if "(x, y) \<in> R\<^sup>*" "x \<in> A" for x y
    using that by (induction rule: rtrancl_induct) (use c in auto)
  then show ?thesis by auto
qed

lemma resolved_mark:
  assumes r: "resolved H s" and m: "marked {np} s s'" and np: "np < next_name s"
  shows "resolved (insert np H) s'"
proof -
  from m have k: "marks s s'" "counted s'" "{n. name_wanted s n} \<subseteq> {n. name_wanted s' n}" "name_wanted s' np"
    "{n. name_wanted s' n} \<subseteq> {n. name_wanted s n} \<union> (needs_rel s)\<^sup>* `` {np}"
    "\<forall>n. name_wanted s' n \<and> \<not> name_wanted s n \<longrightarrow> set (name_needs s n) \<subseteq> {m. name_wanted s' m}"
    by (simp_all add: marked_def)
  have w: "{n. name_wanted s n} = (needs_rel s)\<^sup>* `` H" using r by (simp add: resolved_def)
  have same: "needs_rel s' = needs_rel s" "needs_in s' = needs_in s" using marks_needs [OF k(1)] by simp_all
  have "needs_rel s `` {n. name_wanted s' n} \<subseteq> {n. name_wanted s' n}"
  proof -
    have "name_wanted s' n" if "name_wanted s' m" "(m, n) \<in> needs_rel s" for m n
    proof (cases "name_wanted s m")
      case True
      then have "m \<in> (needs_rel s)\<^sup>* `` H" using w by auto
      then have "n \<in> (needs_rel s)\<^sup>* `` H" using that(2) by (auto intro: rtrancl_into_rtrancl)
      then show ?thesis using w k(3) by auto
    next
      case False
      then show ?thesis using that k(6) by (auto simp: needs_rel_def)
    qed
    then show ?thesis by auto
  qed
  from rtrancl_closed [OF this] have c: "(needs_rel s)\<^sup>* `` {n. name_wanted s' n} = {n. name_wanted s' n}" .
  have "insert np H \<subseteq> {n. name_wanted s' n}" using k(3,4) w by auto
  then have "(needs_rel s)\<^sup>* `` insert np H \<subseteq> {n. name_wanted s' n}" using c by blast
  moreover have "{n. name_wanted s' n} \<subseteq> (needs_rel s)\<^sup>* `` insert np H" using k(5) w by auto
  ultimately have "{n. name_wanted s' n} = (needs_rel s)\<^sup>* `` insert np H" by blast
  moreover have "\<forall>f\<in>set (ifiles s'). set (if_names f) \<subseteq> {..<next_name s}"
  proof -
    have "if_names ` set (ifiles s') = if_names ` set (ifiles s)"
      using k(1) by (metis marks_def set_map)
    then show ?thesis using r unfolding resolved_def by (metis imageE imageI)
  qed
  ultimately show ?thesis
    using r k(1,2) np unfolding resolved_def same by (simp add: marks_def)
qed


text \<open>Looking up a name, whatever the key: one of the table or a new one.\<close>

lemma table_lookup_cases:
  assumes "table_lookup t key s = Inr ((n, t'), s')"
  shows "(n \<in> table_names t \<and> t' = t \<and> s' = s) \<or>
    (n = next_name s \<and> name_alloc key s = Inr (n, s') \<and> table_names t' \<subseteq> insert n (table_names t))"
proof (cases "key = []")
  case True
  with assms have "name_alloc key s = Inr (n, s')" "t' = t\<lparr>nonames := nonames t @ [n]\<rparr>"
    by (auto simp: table_lookup_def table_add_noname_def outcome_iff)
  then show ?thesis using name_alloc_Inr by (auto simp: table_names_def)
next
  case False
  let ?c = "nat (column_of t key)"
  from False assms have nz: "ncolumns t \<noteq> 0" "0 \<le> column_of t key"
    by (auto simp: table_lookup_def column_of_def rstop_def Let_def not_less split: if_splits)
  then have c: "?c < ncolumns t" using column_less by blast
  let ?find = "find (\<lambda>n. key_matches key (name_ident s n)) (column_names (columns t ?c))"
  have run: "(case ?find of
      Some n \<Rightarrow> rret (n, t)
    | None \<Rightarrow> rbind (name_alloc key) (\<lambda>n.
        rret (n, t\<lparr>columns := (columns t)(?c := column_add n (columns t ?c))\<rparr>))) s = Inr ((n, t'), s')"
    using assms False nz unfolding column_of_def
    by (simp add: table_lookup_def Let_def rbind_def [of "rget _"] rget_def)
  show ?thesis
  proof (cases ?find)
    case (Some m)
    then have "m \<in> set (column_names (columns t ?c))" by (auto simp: find_Some_iff)
    then show ?thesis using run Some c by (auto simp: rret_def table_names_def)
  next
    case None
    with run table_names_update [OF c] show ?thesis
      by (auto simp: rret_def rbind_Inr name_alloc_def Let_def)
  qed
qed

lemma resolved_cong:
  assumes r: "resolved H s"
    and same: "name_wanted t = name_wanted s" "name_defined t = name_defined s" "name_needs t = name_needs s"
      "name_source t = name_source s" "undefined_wanted_count t = undefined_wanted_count s" "ifiles t = ifiles s"
      "undefined_names t = undefined_names s"
    and le: "next_name s \<le> next_name t" and tab: "table_names (general_names t) \<subseteq> {..<next_name t}"
  shows "resolved H t"
proof -
  have n: "{..<next_name s} \<subseteq> {..<next_name t}" using le by auto
  note c = resolvedD(1,2) [OF r] and H = resolvedD(3,4) [OF r] and f = resolvedD(5,7) [OF r]
  have rel: "needs_rel t = needs_rel s" by (simp add: needs_rel_def same)
  have "counted t"
    using c(1) order_trans [OF _ n, of "{n. name_wanted s n}"] by (simp add: counted_def same)
  moreover have "needs_in t"
    using c(2) order_trans [OF _ n] by (simp add: needs_in_def same)
  moreover have "H \<subseteq> {..<next_name t}" using H(1) n by (rule order_trans)
  moreover have "\<forall>f\<in>set (ifiles t). set (if_names f) \<subseteq> {..<next_name t}"
    using f(2) order_trans [OF _ n] by (simp add: same)
  moreover have "\<forall>n. next_name t \<le> n \<longrightarrow> \<not> name_defined t n \<and> name_needs t n = []"
    using f(1) order_trans [OF le] by (simp add: same)
  moreover have "{n. name_wanted t n} = (needs_rel t)\<^sup>* `` H"
    unfolding same rel by (rule H(2))
  ultimately show ?thesis using tab by (simp only: resolved_def simp_thms)
qed

text \<open>A new name is neither defined nor wanted and needs nothing.\<close>

lemma resolved_alloc:
  assumes r: "resolved H s" and run: "name_alloc key s = Inr (n, s')"
  shows "resolved H s' \<and> n = next_name s \<and> next_name s' = Suc n"
proof -
  have n: "n = next_name s" and s': "next_name s' = Suc n" "name_needs s' = (name_needs s)(n := [])"
    "name_defined s' = (name_defined s)(n := False)" "name_wanted s' = (name_wanted s)(n := False)"
    "name_special s' = (name_special s)(n := special_kind key)" "general_names s' = general_names s"
    "ifiles s' = ifiles s" "name_source s' = name_source s" "undefined_wanted_count s' = undefined_wanted_count s"
    using run by (auto simp: name_alloc_def Let_def)
  have fresh: "\<not> name_defined s n" "name_needs s n = []" "\<not> name_wanted s n"
    using resolvedD(1,5) [OF r] n unfolding counted_def by auto
  then have same: "name_needs s' = name_needs s" "name_defined s' = name_defined s" "name_wanted s' = name_wanted s"
    by (simp_all add: s' fun_upd_idem)
  have u: "undefined_names s' = undefined_names s"
    using fresh by (auto simp: undefined_names_def same s'(5))
  have "table_names (general_names s) \<subseteq> {..<next_name s}" by (rule resolvedD(6) [OF r])
  then have "table_names (general_names s') \<subseteq> {..<next_name s'}" by (auto simp: s' n)
  then have "resolved H s'"
    by (intro resolved_cong [OF r same(3,2,1)]) (simp_all add: s' u n)
  with n s'(1) show ?thesis by simp
qed

lemma lookup_general_run:
  assumes "lookup_general key s = Inr (np, s')"
  obtains t' s1 where "table_lookup (general_names s) key s = Inr ((np, t'), s1)" "s' = s1\<lparr>general_names := t'\<rparr>"
proof (cases "table_lookup (general_names s) key s")
  case (Inl e)
  with assms show ?thesis by (simp add: lookup_general_def reader_simps)
next
  case (Inr q)
  obtain m t' s1 where q: "q = ((m, t'), s1)" by (metis surj_pair)
  show ?thesis
    using assms by (intro that [of t' s1]) (simp_all add: lookup_general_def reader_simps Inr q)
qed

lemma resolved_table:
  fixes x :: "'x linker_scheme"
  assumes "resolved H x" "table_names y \<subseteq> {..<next_name x}"
  shows "resolved H (x\<lparr>general_names := y\<rparr>)"
  by (rule resolved_cong [OF assms(1)]) (simp_all add: undefined_names_def assms(2))

lemma resolved_lookup:
  assumes r: "resolved H s" and run: "lookup_general key s = Inr (np, s')"
  shows "resolved H s' \<and> np < next_name s' \<and> ifiles s' = ifiles s \<and> next_name s \<le> next_name s'"
proof -
  note T = resolvedD(6) [OF r]
  obtain t' s1 where 1: "table_lookup (general_names s) key s = Inr ((np, t'), s1)"
    and s': "s' = s1\<lparr>general_names := t'\<rparr>" by (rule lookup_general_run [OF run])
  from table_lookup_cases [OF 1] show ?thesis
  proof
    assume a: "np \<in> table_names (general_names s) \<and> t' = general_names s \<and> s1 = s"
    then have "s' = s\<lparr>general_names := general_names s\<rparr>" by (simp add: s')
    moreover have "np < next_name s" using a T by auto
    ultimately show ?thesis using resolved_table [OF r T] by simp
  next
    assume a: "np = next_name s \<and> name_alloc key s = Inr (np, s1) \<and> table_names t' \<subseteq> insert np (table_names (general_names s))"
    then have al: "name_alloc key s = Inr (np, s1)" by simp
    have k: "resolved H s1" "next_name s1 = Suc np" "np = next_name s" using resolved_alloc [OF r al] by simp_all
    have f: "ifiles s1 = ifiles s" using al by (auto simp: name_alloc_def Let_def)
    have "table_names t' \<subseteq> insert np {..<next_name s}" using a T by blast
    then have "table_names t' \<subseteq> {..<next_name s1}" using k(2,3) by (simp add: lessThan_Suc)
    from resolved_table [OF k(1) this] show ?thesis using k(2,3) f unfolding s' by simp
  qed
qed

text \<open>Changes of the input files that leave the books alone.\<close>

definition file_change :: "nat \<Rightarrow> 'x linker_scheme \<Rightarrow> 'x linker_scheme \<Rightarrow> bool" where
  "file_change n s t \<longleftrightarrow>
     name_wanted t = name_wanted s \<and> name_defined t = name_defined s \<and> name_needs t = name_needs s \<and>
     name_source t = name_source s \<and> undefined_wanted_count t = undefined_wanted_count s \<and>
     name_special t = name_special s \<and> next_name t = next_name s \<and> general_names t = general_names s \<and>
     length (ifiles s) \<le> length (ifiles t) \<and> (\<forall>i<length (ifiles s). if_wanted (ifiles s ! i) \<longrightarrow> if_wanted (ifiles t ! i)) \<and>
     (\<forall>f\<in>set (ifiles t). set (if_names f) \<subseteq> {..<n})"

lemma resolved_files:
  assumes r: "resolved H s" and f: "file_change (next_name s) s t"
  shows "resolved H t"
proof -
  have same: "name_wanted t = name_wanted s" "name_defined t = name_defined s" "name_needs t = name_needs s"
    "name_source t = name_source s" "undefined_wanted_count t = undefined_wanted_count s"
    "name_special t = name_special s" "next_name t = next_name s" "general_names t = general_names s"
    and len: "length (ifiles s) \<le> length (ifiles t)"
    and w: "\<And>i. i < length (ifiles s) \<Longrightarrow> if_wanted (ifiles s ! i) \<Longrightarrow> if_wanted (ifiles t ! i)"
    and names: "\<forall>f\<in>set (ifiles t). set (if_names f) \<subseteq> {..<next_name s}"
    using f by (simp_all add: file_change_def)
  note R = resolvedD [OF r]
  have src: "set (name_source s n) \<subseteq> {..<length (ifiles s)}" for n using R(1) by (simp add: counted_def)
  have "if_wanted (ifiles t ! hd (name_source s n))" if "name_wanted s n" "name_defined s n" for n
  proof (rule w)
    have "name_source s n \<noteq> []" using R(1) that(2) by (simp add: counted_def)
    then show "hd (name_source s n) < length (ifiles s)" using src [of n] by (meson hd_in_set lessThan_iff subsetD)
    show "if_wanted (ifiles s ! hd (name_source s n))" using R(1) that by (simp add: counted_def)
  qed
  moreover have "set (name_source s n) \<subseteq> {..<length (ifiles t)}" for n
    using src [of n] len by auto
  ultimately have "counted t"
    using R(1) by (simp add: counted_def same undefined_names_def)
  moreover have "needs_rel t = needs_rel s" "needs_in t = needs_in s"
    by (simp_all add: needs_rel_def needs_in_def same)
  ultimately show ?thesis using R names by (simp add: resolved_def same)
qed

lemma resolved_upd_ifile:
  assumes r: "resolved H s" and run: "upd_ifile i f s = Inr (u, s')"
    and w: "\<And>x. if_wanted x \<Longrightarrow> if_wanted (f x)"
    and n: "\<And>x. set (if_names x) \<subseteq> {..<next_name s} \<Longrightarrow> set (if_names (f x)) \<subseteq> {..<next_name s}"
  shows "resolved H s' \<and> next_name s' = next_name s"
proof -
  have s': "s' = s\<lparr>ifiles := (ifiles s)[i := f (ifiles s ! i)]\<rparr>" using run by (simp add: upd_ifile_def outcome_iff)
  have "\<forall>x\<in>set ((ifiles s)[i := f (ifiles s ! i)]). set (if_names x) \<subseteq> {..<next_name s}"
  proof (cases "i < length (ifiles s)")
    case True
    have "set (if_names (f (ifiles s ! i))) \<subseteq> {..<next_name s}"
      by (rule n) (use resolvedD(7) [OF r] nth_mem [OF True] in blast)
    then show ?thesis using resolvedD(7) [OF r] set_update_subset_insert [of "ifiles s" i] by blast
  qed (use resolvedD(7) [OF r] in \<open>simp add: list_update_beyond\<close>)
  moreover have "if_wanted ((ifiles s)[i := f (ifiles s ! i)] ! j)" if "j < length (ifiles s)" "if_wanted (ifiles s ! j)" for j
    using that w by (cases "i = j") simp_all
  ultimately have "file_change (next_name s) s s'"
    by (simp add: file_change_def s')
  then show ?thesis using resolved_files [OF r] by (simp add: s')
qed

lemma define_in_run:
  assumes "define_in i np s = Inr (u, s')"
  shows "s' = s\<lparr>name_source := (name_source s)(np := name_source s np @ [i]),
      ifiles := (if name_wanted s np \<and> \<not> name_defined s np
                 then (ifiles s)[i := (ifiles s ! i)\<lparr>if_wanted := True\<rparr>] else ifiles s),
      undefined_wanted_count := undefined_wanted_count s
        - (if (name_wanted s np \<and> \<not> name_defined s np) \<and> name_special s np = 0 then 1 else 0),
      name_defined := (name_defined s)(np := True)\<rparr>"
  using assms
  by (cases "name_wanted s np \<and> \<not> name_defined s np"; cases "name_special s np = 0")
    (auto simp: define_in_def reader_simps add_source_def want_file_def upd_ifile_def count_undefined_def)

text \<open>A definition: the file is wanted if the name was, and the name is resolved.\<close>

lemma resolved_define:
  assumes r: "resolved H s" and np: "np < next_name s" and i: "i < length (ifiles s)"
    and run: "define_in i np s = Inr (u, s')"
  shows "resolved H s' \<and> next_name s' = next_name s"
proof -
  note R = resolvedD [OF r]
  let ?new = "name_wanted s np \<and> \<not> name_defined s np"
  let ?fs = "if ?new then (ifiles s)[i := (ifiles s ! i)\<lparr>if_wanted := True\<rparr>] else ifiles s"
  let ?c = "undefined_wanted_count s - (if ?new \<and> name_special s np = 0 then 1 else 0)"
  note s' = define_in_run [OF run]
  have same: "name_wanted s' = name_wanted s" "name_needs s' = name_needs s" "next_name s' = next_name s"
    "name_special s' = name_special s" "general_names s' = general_names s" by (simp_all add: s')
  have u: "undefined_names s' = undefined_names s - {np}" by (auto simp: undefined_names_def s')
  have count: "?c = int (card (undefined_names s'))"
  proof (cases "?new \<and> name_special s np = 0")
    case True
    then have "np \<in> undefined_names s" by (simp add: undefined_names_def)
    then have "0 < card (undefined_names s)" using undefined_finite [OF R(1)] by (auto simp: card_gt_0_iff)
    then show ?thesis using R(1) True \<open>np \<in> undefined_names s\<close> by (simp add: u counted_def card_Diff_singleton)
  next
    case False
    then have "undefined_names s - {np} = undefined_names s" by (auto simp: undefined_names_def)
    then show ?thesis using R(1) False by (simp add: u counted_def)
  qed
  have nm: "if_names x \<in> if_names ` set (ifiles s)" if "x \<in> set ?fs" for x
    using that i nth_mem [OF i] by (auto dest!: set_update_subset_insert [THEN subsetD] split: if_splits)
  have w: "if_wanted (?fs ! hd (name_source s' n))" if n: "name_wanted s n" "name_defined s' n" for n
  proof (cases "n = np \<and> \<not> name_defined s np")
    case True
    then have "name_source s np = []" using R(1) by (simp add: counted_def)
    then show ?thesis using True n i by (simp add: s')
  next
    case False
    then have d: "name_defined s n" using n(2) by (auto simp: s' split: if_splits)
    then have src: "name_source s n \<noteq> []" using R(1) by (simp add: counted_def)
    moreover have "if_wanted (ifiles s ! hd (name_source s n))" using R(1) n(1) d by (simp add: counted_def)
    moreover have "hd (name_source s' n) = hd (name_source s n)"
      using src by (cases "n = np") (simp_all add: s' hd_append)
    ultimately show ?thesis using i by (simp add: nth_list_update)
  qed
  have "counted s'"
    unfolding counted_def
  proof (intro conjI allI impI)
    show "{n. name_wanted s' n} \<subseteq> {..<next_name s'}" unfolding same using R(1) by (simp add: counted_def)
    show "undefined_wanted_count s' = int (card (undefined_names s'))" using count by (simp add: s')
    show "name_defined s' n \<longleftrightarrow> name_source s' n \<noteq> []" for n using R(1) by (simp add: s' counted_def)
    show "set (name_source s' n) \<subseteq> {..<length (ifiles s')}" for n using R(1) i by (simp add: s' counted_def)
    show "if_wanted (ifiles s' ! hd (name_source s' n))" if "name_wanted s' n \<and> name_defined s' n" for n
      using w [of n] that by (simp add: s')
  qed
  moreover have "needs_rel s' = needs_rel s" "needs_in s' = needs_in s" by (simp_all add: needs_rel_def needs_in_def same)
  moreover have "\<forall>f\<in>set (ifiles s'). set (if_names f) \<subseteq> {..<next_name s}"
    using nm R(7) by (fastforce simp: s')
  moreover have "\<forall>n. next_name s \<le> n \<longrightarrow> \<not> name_defined s' n \<and> name_needs s n = []"
    using R(5) np by (simp add: s')
  ultimately show ?thesis using R by (simp add: resolved_def same)
qed

text \<open>A need of a wanted name is wanted.\<close>

lemma resolved_need:
  assumes r: "resolved H s" and np: "np < next_name s" "need < next_name s"
    and run: "need_name fuel np need s = Inr (u, s')"
  shows "resolved H s' \<and> next_name s' = next_name s \<and> map if_names (ifiles s') = map if_names (ifiles s)"
proof -
  note R = resolvedD [OF r]
  from run obtain x s1 where 1: "add_need np need s = Inr (x, s1)"
    and 2: "(if name_wanted s1 np then mark_wanted fuel need else rret ()) s1 = Inr (u, s')"
    unfolding need_name_def rbind_Inr rget_Inr by auto
  from 1 have s1: "s1 = (if np = need \<or> need \<in> set (name_needs s np) then s
      else s\<lparr>name_needs := (name_needs s)(np := name_needs s np @ [need])\<rparr>)"
    by (simp add: add_need_def outcome_iff)
  have same: "name_wanted s1 = name_wanted s" "next_name s1 = next_name s" "ifiles s1 = ifiles s"
    "name_defined s1 = name_defined s" "general_names s1 = general_names s"
    "name_source s1 = name_source s" "undefined_wanted_count s1 = undefined_wanted_count s" "name_special s1 = name_special s"
    by (simp_all add: s1)
  have c: "counted s1" using R(1) by (simp add: counted_def same undefined_names_def)
  have n: "needs_in s1" using R(2) np by (auto simp: needs_in_def s1)
  have rel: "needs_rel s \<subseteq> needs_rel s1" "needs_rel s1 \<subseteq> insert (np, need) (needs_rel s)"
    "np \<noteq> need \<longrightarrow> (np, need) \<in> needs_rel s1"
    by (auto simp: needs_rel_def s1 split: if_splits)
  have fresh: "\<forall>n. next_name s \<le> n \<longrightarrow> \<not> name_defined s n \<and> name_needs s1 n = []"
    using R(5) np by (simp add: s1)
  have close: "resolved H t" if t: "counted t" "needs_in t" "next_name t = next_name s" "name_defined t = name_defined s"
      "name_needs t = name_needs s1" "general_names t = general_names s" "map if_names (ifiles t) = map if_names (ifiles s)"
      and w: "{n. name_wanted t n} = (needs_rel s1)\<^sup>* `` H" for t
  proof -
    have "if_names ` set (ifiles t) = if_names ` set (ifiles s)" using t(7) by (metis set_map)
    then have "\<forall>f\<in>set (ifiles t). set (if_names f) \<subseteq> {..<next_name s}" using R(7) by (metis imageE imageI)
    moreover have "needs_rel t = needs_rel s1" by (simp add: needs_rel_def t(5))
    ultimately show ?thesis using R(3,6) t fresh w by (simp add: resolved_def)
  qed
  have WS: "{n. name_wanted s n} \<subseteq> (needs_rel s1)\<^sup>* `` H"
    using R(4) rtrancl_mono [OF rel(1)] by auto
  show ?thesis
  proof (cases "name_wanted s np")
    case False
    then have s': "s' = s1" using 2 by (simp add: same outcome_iff)
    have "name_wanted s y" if "name_wanted s x" "(x, y) \<in> needs_rel s1" for x y
    proof -
      have "(x, y) \<in> needs_rel s" using that rel(2) False by auto
      moreover have "x \<in> (needs_rel s)\<^sup>* `` H" using that(1) R(4) by blast
      ultimately have "y \<in> (needs_rel s)\<^sup>* `` H" by (auto intro: rtrancl_into_rtrancl)
      then show ?thesis using R(4) by blast
    qed
    then have "needs_rel s1 `` {n. name_wanted s n} \<subseteq> {n. name_wanted s n}" by auto
    then have "(needs_rel s1)\<^sup>* `` {n. name_wanted s n} = {n. name_wanted s n}" by (rule rtrancl_closed)
    moreover have "H \<subseteq> {n. name_wanted s n}" using R(4) by auto
    ultimately have "(needs_rel s1)\<^sup>* `` H \<subseteq> {n. name_wanted s n}" by blast
    with WS have "{n. name_wanted s1 n} = (needs_rel s1)\<^sup>* `` H" unfolding same by blast
    then show ?thesis using close [of s1] c n by (simp add: s' same)
  next
    case True
    then have "mark_wanted fuel need s1 = Inr (u, s')" using 2 by (simp add: same)
    then have m: "marked {need} s1 s'" by (rule mark_wanted_marked [OF _ c n]) (use np in \<open>simp add: same\<close>)
    then have k: "marks s1 s'" "counted s'" "{n. name_wanted s n} \<subseteq> {n. name_wanted s' n}" "name_wanted s' need"
      "{n. name_wanted s' n} \<subseteq> {n. name_wanted s n} \<union> (needs_rel s1)\<^sup>* `` {need}"
      "\<forall>n. name_wanted s' n \<and> \<not> name_wanted s n \<longrightarrow> set (name_needs s1 n) \<subseteq> {m. name_wanted s' m}"
      by (simp_all add: marked_def same)
    have "name_wanted s' y" if "name_wanted s' x" "(x, y) \<in> needs_rel s1" for x y
    proof (cases "name_wanted s x")
      case w: True
      show ?thesis
      proof (cases "(x, y) \<in> needs_rel s")
        case True
        moreover have "x \<in> (needs_rel s)\<^sup>* `` H" using w R(4) by blast
        ultimately have "y \<in> (needs_rel s)\<^sup>* `` H" by (auto intro: rtrancl_into_rtrancl)
        then show ?thesis using R(4) k(3) by blast
      next
        case False
        then have "y = need" using that(2) rel(2) by auto
        then show ?thesis using k(4) by simp
      qed
    next
      case False
      then show ?thesis using that k(6) by (auto simp: needs_rel_def)
    qed
    then have "needs_rel s1 `` {n. name_wanted s' n} \<subseteq> {n. name_wanted s' n}" by auto
    then have "(needs_rel s1)\<^sup>* `` {n. name_wanted s' n} = {n. name_wanted s' n}" by (rule rtrancl_closed)
    moreover have "H \<subseteq> {n. name_wanted s' n}" using R(4) k(3) by auto
    ultimately have "(needs_rel s1)\<^sup>* `` H \<subseteq> {n. name_wanted s' n}" by blast
    moreover have "need \<in> (needs_rel s1)\<^sup>* `` H"
    proof -
      have "np \<in> (needs_rel s1)\<^sup>* `` H" using True WS by auto
      then show ?thesis using rel(3) by (cases "np = need") (auto intro: rtrancl_into_rtrancl)
    qed
    then have "(needs_rel s1)\<^sup>* `` {need} \<subseteq> (needs_rel s1)\<^sup>* `` H" by (auto intro: rtrancl_trans)
    ultimately have "{n. name_wanted s' n} = (needs_rel s1)\<^sup>* `` H" using k(5) WS by blast
    moreover have "needs_in s'" using marks_needs [OF k(1)] n by simp
    ultimately show ?thesis using close [of s'] k(1,2) by (simp add: marks_def same)
  qed
qed


section \<open>The passes over the files\<close>

text \<open>What every step of a pass over a file keeps.\<close>

definition books :: "nat set \<Rightarrow> 'x linker_scheme \<Rightarrow> 'x linker_scheme \<Rightarrow> bool" where
  "books H s t \<longleftrightarrow> resolved H t \<and> next_name s \<le> next_name t \<and> length (ifiles t) = length (ifiles s)"

lemma books_refl: "resolved H s \<Longrightarrow> books H s s" by (simp add: books_def)

lemma books_trans [trans]: "books H s t \<Longrightarrow> books H t u \<Longrightarrow> books H s u" by (simp add: books_def)

lemma booksD: "books H s t \<Longrightarrow> resolved H t" "books H s t \<Longrightarrow> length (ifiles t) = length (ifiles s)"
  "books H s t \<Longrightarrow> np < next_name s \<Longrightarrow> np < next_name t"
  by (simp_all add: books_def)

lemma books_upd_ifile:
  assumes "resolved H s" "upd_ifile i f s = Inr (u, s')" "\<And>x. if_wanted x \<Longrightarrow> if_wanted (f x)"
    "\<And>x. set (if_names x) \<subseteq> {..<next_name s} \<Longrightarrow> set (if_names (f x)) \<subseteq> {..<next_name s}"
  shows "books H s s'"
  using resolved_upd_ifile [OF assms] assms(2) by (auto simp: books_def upd_ifile_def outcome_iff)

lemma books_errors: "resolved H s \<Longrightarrow> books H s (s\<lparr>errors := k\<rparr>)"
proof -
  assume r: "resolved H s"
  have "resolved H (s\<lparr>errors := k\<rparr>)"
    by (rule resolved_cong [OF r]) (simp_all add: undefined_names_def resolvedD(6) [OF r])
  then show ?thesis by (simp add: books_def)
qed

lemma books_report: "resolved H s \<Longrightarrow> report_error s = Inr (u, s') \<Longrightarrow> books H s s'"
  using books_errors by (auto simp: report_error_def rmodify_def)

lemma length_define: "define_in i np s = Inr (u, s') \<Longrightarrow> length (ifiles s') = length (ifiles s)"
  by (drule define_in_run) (auto split: if_splits)

lemma books_flag:
  assumes r: "resolved H s" and np: "np < next_name s" and i: "i < length (ifiles s)"
    and run: "flag_name i np n s = Inr (u, s')"
  shows "books H s s'"
proof -
  define s1 where "s1 = (if n AND LIT_NAME_COMMON \<noteq> 0 then s\<lparr>name_common := (name_common s)(np := True)\<rparr> else s)"
  have r1: "resolved H s1"
    unfolding s1_def
    by (cases "n AND LIT_NAME_COMMON \<noteq> 0")
      (simp_all add: r resolved_cong [OF r] undefined_names_def resolvedD(6) [OF r])
  have e: "next_name s1 = next_name s" "ifiles s1 = ifiles s" by (simp_all add: s1_def)
  have run1: "(if n AND LIT_NAME_DEFINED \<noteq> 0 then define_in i np else add_ref np i) s1 = Inr (u, s')"
    using run by (cases "n AND LIT_NAME_COMMON = 0") (simp_all add: flag_name_def s1_def reader_simps)
  show ?thesis
  proof (cases "n AND LIT_NAME_DEFINED \<noteq> 0")
    case True
    then have d: "define_in i np s1 = Inr (u, s')" using run1 by simp
    then show ?thesis
      using resolved_define [OF r1 _ _ d] length_define [OF d] np i by (simp add: books_def e)
  next
    case False
    then have s': "s' = s1\<lparr>name_refs := (name_refs s1)(np := name_refs s1 np @ [i])\<rparr>"
      using run1 by (simp add: add_ref_def outcome_iff)
    then have "resolved H s'"
      by (simp add: resolved_cong [OF r1] undefined_names_def resolvedD(6) [OF r1])
    then show ?thesis by (simp add: books_def s' e)
  qed
qed

lemma books_enter:
  assumes r: "resolved H s" and run: "enter_name i key s = Inr (np, s')"
  shows "books H s s' \<and> np < next_name s'"
proof -
  from run obtain s1 where 1: "lookup_general key s = Inr (np, s1)"
    and 2: "upd_ifile i (\<lambda>f. f\<lparr>if_names := if_names f @ [np]\<rparr>) s1 = Inr ((), s')"
    by (auto simp: enter_name_def rbind_Inr rret_Inr)
  have k: "resolved H s1" "np < next_name s1" "ifiles s1 = ifiles s" "next_name s \<le> next_name s1"
    using resolved_lookup [OF r 1] by simp_all
  have b: "books H s1 s'" by (rule books_upd_ifile [OF k(1) 2]) (use k(2) in auto)
  moreover have "books H s s1" using k by (simp add: books_def)
  ultimately show ?thesis using booksD(3) [OF b k(2)] by (blast intro: books_trans)
qed

lemma on_file_run: "on_file m (f, s) = Inr (x, (f', s')) \<Longrightarrow> m f = Inr (x, f') \<and> s' = s"
  by (cases "m f") (auto simp: on_file_def)

lemma on_tables_run: "on_tables m (f, s) = Inr (x, (f', s')) \<Longrightarrow> m s = Inr (x, s') \<and> f' = f"
  by (cases "m s") (auto simp: on_tables_def)

lemma rbind_file_run:
  "rbind (on_file m) g (f, s) = Inr (y, t) \<Longrightarrow> \<exists>x f1. m f = Inr (x, f1) \<and> g x (f1, s) = Inr (y, t)"
  by (cases "m f") (auto simp: on_file_def rbind_def)

lemma rbind_tables_run:
  "rbind (on_tables m) g (f, s) = Inr (y, t) \<Longrightarrow> \<exists>x s1. m s = Inr (x, s1) \<and> g x (f, s1) = Inr (y, t)"
  by (cases "m s") (auto simp: on_tables_def rbind_def)

lemma books_read_name:
  assumes r: "resolved H s" and i: "i < length (ifiles s)" and run: "read_name i (f, s) = Inr (u, (f', s'))"
  shows "books H s s'"
proof -
  from rbind_file_run [OF run [unfolded read_name_def]] obtain key f1 where
    "rbind (on_tables (enter_name i key)) (\<lambda>np. rbind in_long (\<lambda>n. on_tables (flag_name i np n))) (f1, s) = Inr (u, (f', s'))"
    by blast
  from rbind_tables_run [OF this] obtain np s1 where 1: "enter_name i key s = Inr (np, s1)"
    and "rbind in_long (\<lambda>n. on_tables (flag_name i np n)) (f1, s1) = Inr (u, (f', s'))" by blast
  from rbind_file_run [OF this(2)] obtain n f2 where "on_tables (flag_name i np n) (f2, s1) = Inr (u, (f', s'))" by blast
  from on_tables_run [OF this] have 2: "flag_name i np n s1 = Inr (u, s')" by simp
  have b: "books H s s1" and np: "np < next_name s1" using books_enter [OF r 1] by simp_all
  have "books H s1 s'" by (rule books_flag [OF booksD(1) [OF b] np _ 2]) (use i booksD(2) [OF b] in simp)
  with b show ?thesis by (rule books_trans)
qed

lemma nth_name_in:
  assumes r: "resolved H s" and i: "i < length (ifiles s)" and n: "nth_name i n s = Some np"
  shows "np < next_name s"
proof -
  have "np \<in> set (if_names (ifiles s ! i))" using n by (auto simp: nth_name_def Let_def split: if_splits)
  then show ?thesis using resolvedD(7) [OF r] nth_mem [OF i] by auto
qed

lemma books_read_needs:
  "read_needs fuel i np (f, s) = Inr (u, (f', s')) \<Longrightarrow> resolved H s \<Longrightarrow> i < length (ifiles s) \<Longrightarrow>
     np < next_name s \<Longrightarrow> books H s s'"
proof (induction fuel arbitrary: f s)
  case 0
  then show ?case by (simp add: rstop_def)
next
  case (Suc fuel)
  from rbind_file_run [OF Suc.prems(1) [unfolded read_needs.simps]] obtain n f1 where
    "(if n = -1 then rret ()
      else rbind (on_tables (rbind (rget (\<lambda>s. (nth_name i n s, Suc (next_name s)))) (\<lambda>(r, depth).
             case r of None \<Rightarrow> report_error | Some need \<Rightarrow> need_name depth np need)))
           (\<lambda>_. read_needs fuel i np)) (f1, s) = Inr (u, (f', s'))" by blast
  then consider "s' = s" | "rbind (on_tables (rbind (rget (\<lambda>s. (nth_name i n s, Suc (next_name s)))) (\<lambda>(r, depth).
             case r of None \<Rightarrow> report_error | Some need \<Rightarrow> need_name depth np need)))
           (\<lambda>_. read_needs fuel i np) (f1, s) = Inr (u, (f', s'))"
    by (auto simp: rret_def split: if_splits)
  then show ?case
  proof cases
    case 1
    then show ?thesis using Suc.prems(2) by (simp add: books_refl)
  next
    case 2
    from rbind_tables_run [OF this] obtain x s1 where
      a: "(case nth_name i n s of None \<Rightarrow> report_error | Some need \<Rightarrow> need_name (Suc (next_name s)) np need) s = Inr (x, s1)"
      and b: "read_needs fuel i np (f1, s1) = Inr (u, (f', s'))"
      by (auto simp: rbind_apply rget_apply)
    have k: "books H s s1"
    proof (cases "nth_name i n s")
      case None
      then show ?thesis using a books_report [OF Suc.prems(2)] by simp
    next
      case (Some need)
      then have "need_name (Suc (next_name s)) np need s = Inr (x, s1)" using a by simp
      from resolved_need [OF Suc.prems(2,4) nth_name_in [OF Suc.prems(2,3) Some] this]
      show ?thesis by (auto simp: books_def dest: map_eq_imp_length_eq)
    qed
    have "books H s1 s'"
      by (rule Suc.IH [OF b booksD(1) [OF k]]) (use Suc.prems(3,4) booksD(2,3) [OF k] in simp_all)
    with k show ?thesis by (rule books_trans)
  qed
qed

lemma books_read_need_list:
  assumes r: "resolved H s" and i: "i < length (ifiles s)" and run: "read_need_list fuel i (f, s) = Inr (u, (f', s'))"
  shows "books H s s'"
proof -
  from rbind_file_run [OF run [unfolded read_need_list_def]] obtain n f1 where
    "rbind (on_tables (rget (nth_name i n))) (\<lambda>r.
       case r of None \<Rightarrow> on_tables report_error | Some np \<Rightarrow> read_needs fuel i np) (f1, s) = Inr (u, (f', s'))" by blast
  from rbind_tables_run [OF this] have
    "(case nth_name i n s of None \<Rightarrow> on_tables report_error | Some np \<Rightarrow> read_needs fuel i np) (f1, s) = Inr (u, (f', s'))"
    by (auto simp: rget_Inr)
  then show ?thesis
    using on_tables_run [of report_error f1 s u f' s'] books_report [OF r]
      books_read_needs [OF _ r i nth_name_in [OF r i]]
    by (cases "nth_name i n s") auto
qed

lemma books_save:
  assumes r: "resolved H s" and run: "save_position i (f, s) = Inr (u, (f', s'))"
  shows "books H s s'"
proof -
  from run have "upd_ifile i (\<lambda>x. x\<lparr>if_data := inp f\<rparr>) s = Inr (u, s')"
    by (auto simp: save_position_def rbind_apply rget_apply dest: on_tables_run)
  then show ?thesis by (rule books_upd_ifile [OF r]) simp_all
qed

lemma books_read_records:
  "read_records fuel i area (f, s) = Inr (u, (f', s')) \<Longrightarrow> resolved H s \<Longrightarrow> i < length (ifiles s) \<Longrightarrow> books H s s'"
proof (induction fuel arbitrary: area f s)
  case 0
  then show ?case by (simp add: rstop_def)
next
  case (Suc fuel)
  note r = Suc.prems(2) and i = Suc.prems(3)
  have again: "books H s s'" if "books H s t" "read_records fuel i b (g, t) = Inr (u, (f', s'))" for t b g
    using that Suc.IH [OF that(2) booksD(1) [OF that(1)]] i booksD(2) [OF that(1)] by (auto intro: books_trans)
  from rbind_file_run [OF Suc.prems(1) [unfolded read_records.simps]] obtain tag f1 where run:
    "(if tag = LIT_DUMMY then read_records fuel i area
       else if tag = LIT_NAME then rbind (read_name i) (\<lambda>_. read_records fuel i area)
       else if tag = LIT_NEEDS then rbind (read_need_list fuel i) (\<lambda>_. read_records fuel i area)
       else if tag = LIT_MARKER then
         rbind in_long (\<lambda>n.
         rbind (on_tables (if n \<noteq> area then report_error else rret ())) (\<lambda>_.
         rbind in_long (\<lambda>_.
           if 1 \<le>s area then save_position i else read_records fuel i (area + 1))))
       else if tag = LIT_COMMENT then rbind (on_file lit_in_string) (\<lambda>_. read_records fuel i area)
       else on_tables report_error) (f1, s) = Inr (u, (f', s'))" by blast
  consider (dummy) "tag = LIT_DUMMY" | (nm) "tag = LIT_NAME" | (needs) "tag = LIT_NEEDS" | (marker) "tag = LIT_MARKER"
    | (comment) "tag = LIT_COMMENT" | (other) "tag \<notin> {LIT_DUMMY, LIT_NAME, LIT_NEEDS, LIT_MARKER, LIT_COMMENT}"
    by blast
  then show ?case
  proof cases
    case dummy
    then show ?thesis using run again [OF books_refl [OF r]] by simp
  next
    case nm
    then have "rbind (read_name i) (\<lambda>_. read_records fuel i area) (f1, s) = Inr (u, (f', s'))" using run by simp
    then obtain x f2 t where 1: "read_name i (f1, s) = Inr (x, (f2, t))" and 2: "read_records fuel i area (f2, t) = Inr (u, (f', s'))"
      by (auto simp: rbind_Inr)
    from again [OF books_read_name [OF r i 1] 2] show ?thesis .
  next
    case needs
    then have "rbind (read_need_list fuel i) (\<lambda>_. read_records fuel i area) (f1, s) = Inr (u, (f', s'))" using run by simp
    then obtain x f2 t where 1: "read_need_list fuel i (f1, s) = Inr (x, (f2, t))"
      and 2: "read_records fuel i area (f2, t) = Inr (u, (f', s'))"
      by (auto simp: rbind_Inr)
    from again [OF books_read_need_list [OF r i 1] 2] show ?thesis .
  next
    case marker
    then have "rbind in_long (\<lambda>n.
         rbind (on_tables (if n \<noteq> area then report_error else rret ())) (\<lambda>_.
         rbind in_long (\<lambda>_.
           if 1 \<le>s area then save_position i else read_records fuel i (area + 1)))) (f1, s) = Inr (u, (f', s'))"
      using run by simp
    from rbind_file_run [OF this] obtain n f2 where
      "rbind (on_tables (if n \<noteq> area then report_error else rret ())) (\<lambda>_.
         rbind in_long (\<lambda>_. if 1 \<le>s area then save_position i else read_records fuel i (area + 1))) (f2, s)
       = Inr (u, (f', s'))" by blast
    from rbind_tables_run [OF this] obtain x t where 1: "(if n \<noteq> area then report_error else rret ()) s = Inr (x, t)"
      and "rbind in_long (\<lambda>_. if 1 \<le>s area then save_position i else read_records fuel i (area + 1)) (f2, t)
       = Inr (u, (f', s'))" by blast
    from rbind_file_run [OF this(2)] obtain f3 where
      2: "(if 1 \<le>s area then save_position i else read_records fuel i (area + 1)) (f3, t) = Inr (u, (f', s'))" by blast
    have b: "books H s t"
      using 1 books_report [OF r] books_refl [OF r] by (cases "n = area") (auto simp: rret_def)
    show ?thesis
    proof (cases "1 \<le>s area")
      case True
      then have "save_position i (f3, t) = Inr (u, (f', s'))" using 2 by simp
      from books_save [OF booksD(1) [OF b] this] b show ?thesis by (blast intro: books_trans)
    next
      case False
      then show ?thesis using 2 again [OF b] by simp
    qed
  next
    case comment
    then have "rbind (on_file lit_in_string) (\<lambda>_. read_records fuel i area) (f1, s) = Inr (u, (f', s'))" using run by simp
    from rbind_file_run [OF this] show ?thesis using again [OF books_refl [OF r]] by blast
  next
    case other
    then have "on_tables report_error (f1, s) = Inr (u, (f', s'))" using run by simp
    from on_tables_run [OF this] show ?thesis using books_report [OF r] by blast
  qed
qed

lemma books_read_nametable:
  assumes r: "resolved H s" and i: "i < length (ifiles s)" and run: "read_nametable i s = Inr (u, s')"
  shows "books H s s'"
proof -
  let ?n = "Suc (length (if_data (ifiles s ! i)))"
  have run': "with_file i (read_records ?n i 0) s = Inr (u, s')"
    using run by (simp add: read_nametable_def rbind_apply rget_apply)
  obtain x f t where 1: "read_records ?n i 0 (\<lparr>inp = if_data (ifiles s ! i), nerr = 0\<rparr>, s) = Inr (x, (f, t))"
    and s': "s' = t\<lparr>errors := errors t + nerr f\<rparr>"
    using run' unfolding with_file_def
    by (cases "read_records ?n i 0 (\<lparr>inp = if_data (ifiles s ! i), nerr = 0\<rparr>, s)") auto
  have b: "books H s t" by (rule books_read_records [OF 1 r i])
  from books_trans [OF b books_errors [OF booksD(1) [OF b]]] show ?thesis by (simp add: s')
qed

lemma each_nametable:
  "each read_nametable is s = Inr (u, s') \<Longrightarrow> resolved H s \<Longrightarrow> set is \<subseteq> {..<length (ifiles s)} \<Longrightarrow> books H s s'"
proof (induction "is" arbitrary: s)
  case Nil
  then show ?case by (simp add: rret_def books_refl)
next
  case (Cons i "is")
  from Cons.prems(1) obtain x t where 1: "read_nametable i s = Inr (x, t)" and 2: "each read_nametable is t = Inr (u, s')"
    by (auto simp: rbind_Inr)
  have b: "books H s t" by (rule books_read_nametable [OF Cons.prems(2) _ 1]) (use Cons.prems(3) in simp)
  have "books H t s'" by (rule Cons.IH [OF 2 booksD(1) [OF b]]) (use Cons.prems(3) booksD(2) [OF b] in auto)
  with b show ?case by (rule books_trans)
qed

text \<open>New input files have no names yet.\<close>

lemma resolved_append:
  assumes r: "resolved H s" and new: "\<forall>f\<in>set fs. if_names f = []"
  shows "resolved H (s\<lparr>ifiles := ifiles s @ fs\<rparr>)"
proof -
  have "\<forall>f\<in>set (ifiles s @ fs). set (if_names f) \<subseteq> {..<next_name s}"
    using resolvedD(7) [OF r] new by auto
  then have "file_change (next_name s) s (s\<lparr>ifiles := ifiles s @ fs\<rparr>)"
    by (simp add: file_change_def nth_append)
  then show ?thesis by (rule resolved_files [OF r])
qed

lemma resolved_add_ifiles:
  assumes r: "resolved H s" and run: "add_ifiles bytes s = Inr (n, s')"
  shows "resolved H s'"
proof -
  let ?s1 = "s\<lparr>ifiles := ifiles s @ [new_ifile False bytes]\<rparr>"
  have r1: "resolved H ?s1" by (rule resolved_append [OF r]) (simp add: new_ifile_def)
  show ?thesis
  proof (cases "is_archive bytes")
    case False
    then have "s' = ?s1" using run by (simp add: add_ifiles_def reader_simps)
    with r1 show ?thesis by simp
  next
    case True
    obtain ms good where a: "open_archive (2 * length bytes + 4) bytes = Inr (ms, good)"
      using run True by (cases "open_archive (2 * length bytes + 4) bytes") (auto simp: add_ifiles_def reader_simps)
    let ?s2 = "?s1\<lparr>ifiles := ifiles ?s1 @ map (\<lambda>m. new_ifile True (drop (mem_lo m) bytes)) ms\<rparr>"
    have r2: "resolved H ?s2" by (rule resolved_append [OF r1]) (auto simp: new_ifile_def)
    have "s' = (if good then ?s2 else ?s2\<lparr>errors := Suc (errors ?s2)\<rparr>)"
      using run True a by (auto simp: add_ifiles_def reader_simps report_error_def split: if_splits)
    with r2 booksD(1) [OF books_errors [OF r2]] show ?thesis by auto
  qed
qed

lemma resolved_read_input:
  assumes r: "resolved H s" and run: "read_input bytes s = Inr (u, s')"
  shows "resolved H s'"
proof -
  from run obtain first s1 where 1: "add_ifiles bytes s = Inr (first, s1)"
    and 2: "each read_nametable [first..<length (ifiles s1)] s1 = Inr (u, s')"
    by (auto simp: read_input_def rbind_Inr rget_Inr)
  have "resolved H s1" by (rule resolved_add_ifiles [OF r 1])
  show ?thesis by (rule booksD(1) [OF each_nametable [OF 2 \<open>resolved H s1\<close>]]) auto
qed

lemma resolved_inputs: "each read_input files s = Inr (u, s') \<Longrightarrow> resolved H s \<Longrightarrow> resolved H s'"
  by (induction files arbitrary: s) (auto simp: rret_def rbind_Inr dest: resolved_read_input)

lemma resolved_libraries: "read_libraries libs s = Inr (u, s') \<Longrightarrow> resolved H s \<Longrightarrow> resolved H s'"
proof (induction libs arbitrary: s)
  case Nil
  then show ?case by (simp add: rret_def)
next
  case (Cons lib libs)
  then have run: "(if undefined_wanted_count s = 0 then rret ()
       else if undefined_wanted_count s < 0 then rstop Abort
       else rbind (case lib of None \<Rightarrow> rret () | Some bytes \<Rightarrow> read_input bytes) (\<lambda>_. read_libraries libs)) s = Inr (u, s')"
    by (simp add: rbind_apply rget_apply)
  show ?case
  proof (cases "undefined_wanted_count s = 0 \<or> undefined_wanted_count s < 0")
    case True
    then show ?thesis using run Cons.prems(2) by (auto simp: rret_def rstop_def)
  next
    case False
    then have "rbind (case lib of None \<Rightarrow> rret () | Some bytes \<Rightarrow> read_input bytes) (\<lambda>_. read_libraries libs) s = Inr (u, s')"
      using run by simp
    then obtain x t where 1: "(case lib of None \<Rightarrow> rret () | Some bytes \<Rightarrow> read_input bytes) s = Inr (x, t)"
      and 2: "read_libraries libs t = Inr (u, s')" by (auto simp: rbind_Inr)
    have "resolved H t"
      using 1 Cons.prems(2) resolved_read_input by (cases lib) (auto simp: rret_def)
    from Cons.IH [OF 2 this] show ?thesis .
  qed
qed

lemma resolved_hook:
  assumes r: "resolved H s" and run: "want_hook key s = Inr (u, s')"
  shows "\<exists>np. resolved (insert np H) s'"
proof -
  from run obtain np s1 where 1: "lookup_general key s = Inr (np, s1)" and 2: "mark_wanted (Suc (next_name s1)) np s1 = Inr (u, s')"
    by (auto simp: want_hook_def rbind_Inr rget_Inr)
  have k: "resolved H s1" "np < next_name s1" using resolved_lookup [OF r 1] by simp_all
  from resolved_mark [OF k(1) mark_wanted_marked [OF 2 resolvedD(1,2) [OF k(1)] k(2)] k(2)] show ?thesis by blast
qed

lemma resolved_hooks: "each want_hook hooks s = Inr (u, s') \<Longrightarrow> resolved H s \<Longrightarrow> \<exists>H'. resolved H' s'"
proof (induction hooks arbitrary: s H)
  case Nil
  then show ?case by (auto simp: rret_def)
next
  case (Cons key hooks)
  then obtain x t where 1: "want_hook key s = Inr (x, t)" and 2: "each want_hook hooks t = Inr (u, s')"
    by (auto simp: rbind_Inr)
  from resolved_hook [OF Cons.prems(2) 1] obtain np where "resolved (insert np H) t" ..
  from Cons.IH [OF 2 this] show ?case .
qed

text \<open>The end of the first pass: the counter is 0.\<close>

lemma first_pass_end:
  assumes r: "resolved H s" and run: "first_pass files libs s = Inr (u, s')"
  shows "resolved H s' \<and> undefined_wanted_count s' = 0 \<and> errors s' = 0"
proof -
  from run obtain x1 s1 x2 s2 x3 s3 x4 s4 where 1: "each read_input files s = Inr (x1, s1)" and 2: "check_errors s1 = Inr (x2, s2)"
    and 3: "read_libraries libs s2 = Inr (x3, s3)" and 4: "check_errors s3 = Inr (x4, s4)"
    and 5: "rbind (rget (\<lambda>s. (undefined_wanted_count s, general_names s))) (\<lambda>(n, t).
       if n \<noteq> 0 then rbind (table_walk t report_undefined) (\<lambda>_. rstop Fatal) else rret ()) s4 = Inr (u, s')"
    unfolding first_pass_def rbind_Inr by blast
  have e: "t = s \<and> errors s = 0" if "check_errors s = Inr (x, t)" for s t :: "'a linker_scheme" and x
    using that by (cases "errors s") (auto simp: check_errors_def reader_simps)
  have "s' = s4 \<and> undefined_wanted_count s4 = 0"
    using 5 by (cases "undefined_wanted_count s4 = 0") (auto simp: rbind_apply rget_apply rret_def rstop_def obind_Inr_iff)
  then show ?thesis
    using resolved_libraries [OF 3] resolved_inputs [OF 1 r] e [OF 2] e [OF 4] by auto
qed


section \<open>The start\<close>

text \<open>The tables as \<open>main\<close> sets them up, for every oracle that says which nodes are shared.\<close>

definition linker_init :: "(nat \<Rightarrow> bool) \<Rightarrow> linker" where
  "linker_init sh =
     \<lparr>name_val = (\<lambda>_. None), name_align = (\<lambda>_. 1), name_global = (\<lambda>_. False), el_size = (\<lambda>_. Const 0),
      errors = 0, shared = sh, asked = 0, unsound = 0,
      next_name = 0, name_ident = (\<lambda>_. []), name_idx = (\<lambda>_. -1), name_needs = (\<lambda>_. []),
      name_defined = (\<lambda>_. False), name_fragment = (\<lambda>_. False), name_common = (\<lambda>_. False),
      name_wanted = (\<lambda>_. False), name_special = (\<lambda>_. 0), name_loadtime = (\<lambda>_. False),
      next_el = 0, el_body = (\<lambda>_. ELEMENT_BLOCK [] 0), el_idx = (\<lambda>_. -1), el_nrefs = (\<lambda>_. 0), next_range = 0,
      nsegments = 0, seg_tab = new_segment, name_segment = (\<lambda>_. None),
      general_names = table_init 4096, segment_names = table_init 16, ifiles = [], undefined_wanted_count = 0,
      name_source = (\<lambda>_. []), name_refs = (\<lambda>_. []), name_elts = (\<lambda>_. None), skipping = False,
      current_ifile = 0, dummy = None\<rparr>"

lemma table_init_names [simp]: "table_names (table_init n) = {}"
  by (simp add: table_names_def table_init_def)

lemma linker_init_fields [simp]:
  "name_wanted (linker_init sh) = (\<lambda>_. False)" "name_defined (linker_init sh) = (\<lambda>_. False)" "name_needs (linker_init sh) = (\<lambda>_. [])"
  "name_source (linker_init sh) = (\<lambda>_. [])" "undefined_wanted_count (linker_init sh) = 0" "ifiles (linker_init sh) = []"
  "general_names (linker_init sh) = table_init 4096"
  by (simp_all add: linker_init_def)

lemma linker_init_sets [simp]: "needs_rel (linker_init sh) = {}" "undefined_names (linker_init sh) = {}"
  by (simp_all add: needs_rel_def undefined_names_def)

lemma resolved_init: "resolved {} (linker_init sh)"
  unfolding resolved_def counted_def needs_in_def by (intro conjI) simp_all

lemma hook_needs:
  assumes "want_hook key s = Inr (u, s')" "resolved H s" "needs_rel s = {}"
  shows "needs_rel s' = {}"
proof -
  from assms(1) obtain np s1 where 1: "lookup_general key s = Inr (np, s1)"
    and 2: "mark_wanted (Suc (next_name s1)) np s1 = Inr (u, s')"
    by (auto simp: want_hook_def rbind_Inr rget_Inr)
  obtain t' s2 where lk: "table_lookup (general_names s) key s = Inr ((np, t'), s2)"
    and s1: "s1 = s2\<lparr>general_names := t'\<rparr>" by (rule lookup_general_run [OF 1])
  have "needs_rel s2 = {}"
    using table_lookup_cases [OF lk]
  proof
    assume "np = next_name s \<and> name_alloc key s = Inr (np, s2) \<and> table_names t' \<subseteq> insert np (table_names (general_names s))"
    then have "name_alloc key s = Inr (np, s2)" by simp
    then have "name_needs s2 = (name_needs s)(np := [])" by (auto simp: name_alloc_def Let_def)
    then have "needs_rel s2 \<subseteq> needs_rel s" by (auto simp: needs_rel_def split: if_splits)
    then show ?thesis using assms(3) by simp
  qed (use assms(3) in simp)
  then have n: "needs_rel s1 = {}" by (simp add: s1 needs_rel_def)
  have k: "resolved H s1" "np < next_name s1" using resolved_lookup [OF assms(2) 1] by simp_all
  have "marks s1 s'"
    using mark_wanted_marked [OF 2 resolvedD(1,2) [OF k(1)] k(2)] by (simp add: marked_def)
  from marks_needs [OF this] n show ?thesis by simp
qed

lemma hooks_needs:
  "each want_hook hooks s = Inr (u, s') \<Longrightarrow> resolved H s \<Longrightarrow> needs_rel s = {} \<Longrightarrow> needs_rel s' = {}"
proof (induction hooks arbitrary: s H)
  case Nil
  then show ?case by (simp add: rret_def)
next
  case (Cons key hooks)
  then obtain x t where 1: "want_hook key s = Inr (x, t)" and 2: "each want_hook hooks t = Inr (u, s')"
    by (auto simp: rbind_Inr)
  from resolved_hook [OF Cons.prems(2) 1] obtain np where "resolved (insert np H) t" ..
  from Cons.IH [OF 2 this hook_needs [OF 1 Cons.prems(2,3)]] show ?case .
qed

section \<open>Properties\<close>

text \<open>
  C10: \<open>mark_wanted\<close> ends and marks exactly the name and what it needs, directly or through other names,
  and afterwards the counter is again the number of wanted names that nothing defines.
\<close>

theorem mark_wanted_closure:
  assumes "resolved H s" "np < next_name s"
  shows "\<exists>s'. mark_wanted (Suc (next_name s)) np s = Inr ((), s') \<and>
    {n. name_wanted s' n} = {n. name_wanted s n} \<union> (needs_rel s)\<^sup>* `` {np} \<and>
    undefined_wanted_count s' = int (card (undefined_names s'))"
proof -
  note R = resolvedD [OF assms(1)]
  have "card (unwanted s) \<le> card {..<next_name s}" by (rule card_mono) (auto simp: unwanted_def)
  then obtain s' where run: "mark_wanted (Suc (next_name s)) np s = Inr ((), s')"
    using mark_wanted_returns [OF R(1,2) assms(2), of "Suc (next_name s)"] by auto
  note m = mark_wanted_marked [OF run R(1,2) assms(2)]
  note R' = resolvedD [OF resolved_mark [OF assms(1) m assms(2)]]
  have "needs_rel s' = needs_rel s" using m marks_needs by (auto simp: marked_def)
  then have "{n. name_wanted s' n} = {n. name_wanted s n} \<union> (needs_rel s)\<^sup>* `` {np}"
    using R(4) R'(4) by auto
  moreover have "undefined_wanted_count s' = int (card (undefined_names s'))" using R'(1) by (simp add: counted_def)
  ultimately show ?thesis using run by blast
qed

definition sample_needs :: linker where
  "sample_needs = (linker_init (\<lambda>_. False))\<lparr>next_name := 4, name_needs := (\<lambda>_. [])(0 := [1], 1 := [0, 2])\<rparr>"

theorem mark_wanted_closure_witness:
  "\<exists>s'. mark_wanted 5 0 sample_needs = Inr ((), s') \<and>
     {n. name_wanted s' n} = {n. name_wanted sample_needs n} \<union> (needs_rel sample_needs)\<^sup>* `` {0} \<and>
     undefined_wanted_count s' = int (card (undefined_names s'))"
proof -
  have n: "next_name sample_needs = 4" by (simp add: sample_needs_def)
  have "resolved {} sample_needs"
    unfolding resolved_def counted_def needs_in_def undefined_names_def
    by (intro conjI) (auto simp: sample_needs_def)
  from mark_wanted_closure [OF this, of 0] show ?thesis by (simp add: n)
qed

text \<open>
  C5: The first pass over any object files, archives and libraries that ends without an error has
  resolved the program: the wanted names are exactly the hooks and what they need, directly or through other names;
  each of them is defined by some file or is one the linker defines itself; and the first file that
  defines it is marked to be read.
\<close>

theorem first_pass_resolves:
  assumes "want_hooks hooks (linker_init sh) = Inr (u, s)" "first_pass files libs s = Inr (v, s')"
  shows "{n. name_wanted s' n} = (needs_rel s')\<^sup>* `` {n. name_wanted s n} \<and>
    (\<forall>n. name_wanted s' n \<longrightarrow> name_special s' n \<noteq> 0 \<or>
       name_defined s' n \<and> if_wanted (ifiles s' ! hd (name_source s' n)))"
proof -
  have run: "each want_hook (if hooks = [] then [bytes_of ''@@hook''] else hooks) (linker_init sh) = Inr (u, s)"
    using assms(1) by (simp add: want_hooks_def)
  from resolved_hooks [OF run resolved_init] obtain H where H: "resolved H s" ..
  have "needs_rel s = {}"
    by (rule hooks_needs [OF run resolved_init]) simp
  then have "{n. name_wanted s n} = H" using resolvedD(4) [OF H] by simp
  moreover have e: "resolved H s'" "undefined_wanted_count s' = 0" using first_pass_end [OF H assms(2)] by simp_all
  note R = resolvedD [OF e(1)]
  have "undefined_names s' = {}"
    using R(1) e(2) undefined_finite [OF R(1)] by (simp add: counted_def)
  then have "name_special s' n \<noteq> 0 \<or> name_defined s' n \<and> if_wanted (ifiles s' ! hd (name_source s' n))"
    if "name_wanted s' n" for n
    using R(1) that by (auto simp: undefined_names_def counted_def)
  ultimately show ?thesis using R(4) by simp
qed

text \<open>A file that defines the hook \<open>h\<close>, which needs \<open>f\<close>, and a library that defines \<open>f\<close>.\<close>

definition sample_object :: "byte list" where
  "sample_object = [255, 2, 1, 104, 1, 255, 2, 1, 102, 0, 255, 7, 0, 0, 255, 3, 0, 1, 255, 0, 255, 7, 1, 0]"

definition sample_library :: "byte list" where
  "sample_library = [255, 2, 1, 102, 1, 255, 7, 0, 0, 255, 7, 1, 0]"

definition sample_hooked :: linker where
  "sample_hooked = (linker_init (\<lambda>_. False))\<lparr>next_name := 1, name_ident := (\<lambda>_. [])(0 := [104]),
     name_wanted := (\<lambda>_. False)(0 := True),
     general_names := (table_init 4096)\<lparr>columns := (\<lambda>_. Empty)(104 := Single 0)\<rparr>, undefined_wanted_count := 1\<rparr>"

lemma lit_in_small:
  "b \<notin> {251, 252, 253, 254, 255} \<Longrightarrow>
     lit_in_number \<lparr>inp = b # bs, nerr = k\<rparr> = Inr (ucast b :: long, \<lparr>inp = bs, nerr = k\<rparr>)"
  "b \<notin> {251, 252, 253, 254, 255} \<Longrightarrow>
     lit_in_number \<lparr>inp = 255 # b # bs, nerr = k\<rparr> = Inr (NOT (ucast b) :: long, \<lparr>inp = bs, nerr = k\<rparr>)"
  by (simp_all add: lit_in_number_def lit_in_tagged_def reader_simps)

lemma special_kind_short: "length idn < 6 \<Longrightarrow> special_kind idn = 0"
  by (simp add: special_kind_def ends_with_def bytes_of_def)

lemma sample_columns: "sint (hash_key [104]) smod 4096 = 104" "sint (hash_key [102]) smod 4096 = 102"
  by code_simp+

lemmas lookup_evals = want_hooks_def want_hook_def lookup_general_def table_lookup_def table_init_def sample_columns
  name_alloc_def special_kind_short count_undefined_def set_wanted_def key_matches_def strlen_def reader_simps

lemma sample_hooks: "want_hooks [[104]] (linker_init (\<lambda>_. False)) = Inr ((), sample_hooked)"
  by (simp add: lookup_evals linker_init_def sample_hooked_def fun_upd_idem Let_def)

lemmas read_evals = on_file_def on_tables_def lit_in_string_def lit_in_block_def lit_in_small rblock_def

lemmas first_evals = first_pass_def read_input_def add_ifiles_def is_archive_def armag_def bytes_of_def new_ifile_def
  read_nametable_def with_file_def read_name_def read_need_list_def enter_name_def flag_name_def define_in_def
  add_source_def add_ref_def want_file_def upd_ifile_def check_errors_def need_name_def add_need_def nth_name_def
  save_position_def first_source_def

lemma sample_first_pass:
  "\<exists>s'. first_pass [sample_object] [Some sample_library] sample_hooked = Inr ((), s') \<and>
     name_wanted s' 0 \<and> name_wanted s' 1 \<and> if_wanted (ifiles s' ! 1)"
  by (simp add: first_evals lookup_evals read_evals Let_def sample_object_def sample_library_def sample_hooked_def
      linker_init_def word_sle_eq word_sless_alt)

theorem first_pass_resolves_witness:
  "\<exists>s'. first_pass [sample_object] [Some sample_library] sample_hooked = Inr ((), s') \<and>
     name_wanted s' 0 \<and> name_wanted s' 1 \<and> if_wanted (ifiles s' ! 1) \<and>
     {n. name_wanted s' n} = (needs_rel s')\<^sup>* `` {n. name_wanted sample_hooked n}"
  using sample_first_pass first_pass_resolves [OF sample_hooks, of "[sample_object]" "[Some sample_library]"] by blast

end
