(* ===== verification/LinkRead.thy ===== *)
theory LinkRead
  imports Books
begin

text \<open>
  The second file pass of the linker (\<open>lit/lit.c\<close>): the wanted fragments of the wanted files are read into
  segments (\<open>ifile_read_segments\<close>, \<open>setup_segment\<close>), then the definitions of names
  (\<open>ifile_read_definitions\<close>).
\<close>

section \<open>Names and elements by index\<close>

definition add_noname :: "('x linker_scheme, nat) step" where
  "add_noname =
     rbind (rget general_names) (\<lambda>t. rbind (table_add_noname t) (\<lambda>(np, t').
     rbind (rmodify (\<lambda>s. s\<lparr>general_names := t'\<rparr>)) (\<lambda>_. rret np)))"

definition link_name :: "long \<Rightarrow> ('x linker_scheme, nat) step" where
  "link_name n =
     rbind (rget (\<lambda>s. nth_name (current_ifile s) n s)) (\<lambda>r.
       case r of Some np \<Rightarrow> rret np | None \<Rightarrow> rbind report_error (\<lambda>_. add_noname))"

text \<open>
  An expression may refer to an element that is read later.  Its node holds \<open>NULL\<close> until then; here the
  identity of the element is set aside.  Nothing looks at its size before it is read, or an error has been reported.
\<close>

definition reserve_element :: "('x linker_scheme, nat) step" where
  "reserve_element = element_alloc (ELEMENT_BLOCK [] 0)"

text \<open>The one node for all elements of skipped fragments is the value of a nameless name.\<close>

definition dummy_element :: "('x linker_scheme, expr) step" where
  "dummy_element =
     rbind (rget dummy) (\<lambda>d.
       case d of
         Some el \<Rightarrow> rret (Element el)
       | None \<Rightarrow>
           rbind reserve_element (\<lambda>el.
           rbind add_noname (\<lambda>np.
           rbind (rmodify (\<lambda>s. s\<lparr>dummy := Some el, name_val := (name_val s)(np := Some (Element el))\<rparr>)) (\<lambda>_.
             rret (Element el)))))"

definition set_element :: "nat \<Rightarrow> nat \<Rightarrow> bool \<Rightarrow> ('x linker_scheme, unit) step" where
  "set_element n el done =
     rbind (rget current_ifile) (\<lambda>i.
       upd_ifile i (\<lambda>f. f\<lparr>if_elements := (if_elements f)(n := Some (el, done))\<rparr>))"

text \<open>A negative index is reported, and then looked up in front of the table.\<close>

definition link_element :: "long \<Rightarrow> ('x linker_scheme, expr) step" where
  "link_element n =
     rbind (if n <s 0 then report_error else rret ()) (\<lambda>_.
     rbind (rget (\<lambda>s. (skipping s, current_ifile s))) (\<lambda>(sk, i).
       if sk then dummy_element
       else if n <s 0 then rstop Trap
       else
         rbind (upd_ifile i (\<lambda>f. if if_nelements f \<le> unat n then f\<lparr>if_nelements := unat n + 20\<rparr> else f)) (\<lambda>_.
         rbind (rget (\<lambda>s. if_elements (ifiles s ! i) (unat n))) (\<lambda>r.
           case r of
             Some (el, _) \<Rightarrow> rret (Element el)
           | None \<Rightarrow>
               rbind reserve_element (\<lambda>el.
               rbind (set_element (unat n) el False) (\<lambda>_. rret (Element el)))))))"

definition link_client :: "'x linker_scheme expr_client" where
  "link_client = \<lparr>name_by_index = link_name, element_by_index = link_element, new_range = expr_range\<rparr>"

abbreviation in_expr :: "(rstate \<times> 'x linker_scheme, expr) step" where
  "in_expr \<equiv> lit_in_expr link_client"

section \<open>Segments\<close>

text \<open>\<open>segment_align\<close> is the argument of the option \<open>-a\<close>.\<close>

definition lookup_segment :: "byte list \<Rightarrow> ('x linker_scheme, nat) step" where
  "lookup_segment key =
     rbind (rget segment_names) (\<lambda>t. rbind (table_lookup t key) (\<lambda>(np, t').
     rbind (rmodify (\<lambda>s. s\<lparr>segment_names := t'\<rparr>)) (\<lambda>_. rret np)))"

definition setup_segment :: "nat \<Rightarrow> long \<Rightarrow> byte list \<Rightarrow> ('x linker_scheme, nat) step" where
  "setup_segment fuel segment_align ident =
     rbind (lookup_segment ident) (\<lambda>segname.
     rbind (rget (\<lambda>s. (name_segment s segname, name_ident s segname))) (\<lambda>(sg, idn).
       case sg of
         Some sg \<Rightarrow> rret sg
       | None \<Rightarrow>
           rbind (lookup_general (c_string idn @ bytes_of ''@@start'')) (\<lambda>np.
           rbind (rmodify (\<lambda>s. s\<lparr>name_fragment := (name_fragment s)(np := True),
                                name_loadtime := (name_loadtime s)(np := True)\<rparr>)) (\<lambda>_.
           rbind (name_set_align fuel np segment_align) (\<lambda>_.
           rbind (add_segment segname np) (\<lambda>sg.
           rbind (rget (\<lambda>s. name_elts s np)) (\<lambda>e.
             if e \<noteq> None then rstop Abort else rret sg)))))))"

text \<open>
  \<open>name_assign_value (np, curseg->point)\<close> for a fragment that starts here; it must not have a value yet.
\<close>

definition start_fragment :: "nat \<Rightarrow> nat \<Rightarrow> nat \<Rightarrow> ('x linker_scheme, unit) step" where
  "start_fragment fuel sg np =
     rbind (rget (\<lambda>s. (name_val s np, seg_point (seg_tab s sg)))) (\<lambda>(v, p).
       if v \<noteq> None then rstop Abort
       else case p of None \<Rightarrow> rstop Abort | Some e \<Rightarrow> name_assign_value fuel np e)"

text \<open>The element goes to the end of the segment; the node of its index in the file refers to it from now on.\<close>

definition append_element :: "nat \<Rightarrow> nat \<Rightarrow> element_body \<Rightarrow> ('x linker_scheme, unit) step" where
  "append_element sg el b =
     rbind (rget (\<lambda>s. seg_fragments (seg_tab s sg))) (\<lambda>fs.
       if fs = [] then rstop Abort
       else rbind (upd_seg sg (\<lambda>g. g\<lparr>seg_fragments := append_el el fs, seg_curel := Some el\<rparr>)) (\<lambda>_.
            rbind (set_body el b) (\<lambda>_.
            rbind (set_size el (Const 0)) (\<lambda>_.
              rmodify (\<lambda>s. s\<lparr>el_nrefs := (el_nrefs s)(el := Suc (el_nrefs s el))\<rparr>)))))"

text \<open>
  The element with index \<open>n\<close> in the file, under the identity set aside for it.  An index read twice would get a
  new element; the reader counts indices up.
\<close>

definition place_element :: "nat \<Rightarrow> nat \<Rightarrow> element_body \<Rightarrow> ('x linker_scheme, nat) step" where
  "place_element sg n b =
     rbind (link_element (word_of_nat n)) (\<lambda>_.
     rbind (rget (\<lambda>s. if_elements (ifiles s ! current_ifile s) n)) (\<lambda>r.
     rbind (case r of Some (el, False) \<Rightarrow> rret el | _ \<Rightarrow> reserve_element) (\<lambda>el.
     rbind (append_element sg el b) (\<lambda>_.
     rbind (set_element n el True) (\<lambda>_. rret el)))))"

text \<open>The size is known: it counts for the point, and the element may be the first of its fragment.\<close>

definition finish_element :: "nat \<Rightarrow> nat \<Rightarrow> nat \<Rightarrow> element_body \<Rightarrow> expr \<Rightarrow> ('x linker_scheme, unit) step" where
  "finish_element sg frag el b sz =
     rbind (set_body el b) (\<lambda>_.
     rbind (set_size el sz) (\<lambda>_.
     rbind (add_to_point sg el) (\<lambda>_.
       rmodify (\<lambda>s. if name_elts s frag = None then s\<lparr>name_elts := (name_elts s)(frag := Some el)\<rparr> else s))))"


section \<open>The segments area\<close>

text \<open>
  Where the reader is: the segment and the fragment it fills, the index of the next element, and a tag
  that has been read already.
\<close>

record cursor =
  cur_segment :: nat
  cur_fragment :: nat
  cur_element :: nat
  cur_tag :: "long option"

definition next_tag :: "cursor \<Rightarrow> (rstate \<times> 'x linker_scheme, long) step" where
  "next_tag c = (case cur_tag c of Some t \<Rightarrow> rret t | None \<Rightarrow> in_long)"

abbreviation next_element :: "cursor \<Rightarrow> cursor" where
  "next_element c \<equiv> c\<lparr>cur_element := Suc (cur_element c), cur_tag := None\<rparr>"

definition read_block :: "cursor \<Rightarrow> long \<Rightarrow> (rstate \<times> 'x linker_scheme, unit) step" where
  "read_block c len =
     rbind (on_tables (rget skipping)) (\<lambda>sk.
       if sk then rbind (on_file (lit_in_block (unat len))) (\<lambda>_. rret ())
       else
         rbind (on_tables (place_element (cur_segment c) (cur_element c) (ELEMENT_BLOCK [] 0))) (\<lambda>el.
         rbind (on_file (lit_in_block (unat len))) (\<lambda>bs.
           on_tables (finish_element (cur_segment c) (cur_fragment c) el (ELEMENT_BLOCK bs (unat len)) (Const len)))))"

definition read_data :: "cursor \<Rightarrow> (rstate \<times> 'x linker_scheme, unit) step" where
  "read_data c =
     rbind (on_tables (rget skipping)) (\<lambda>sk.
       if sk then rbind in_long (\<lambda>_. rbind in_expr (\<lambda>_. rbind in_expr (\<lambda>_. rbind in_expr (\<lambda>_. rret ()))))
       else
         rbind (on_tables (place_element (cur_segment c) (cur_element c) (ELEMENT_DATA 0 (Const 0) (Const 0)))) (\<lambda>el.
         rbind in_long (\<lambda>n.
         rbind (on_tables (if n \<noteq> 1 \<and> n \<noteq> 2 \<and> n \<noteq> 4 then report_error else rret ())) (\<lambda>_.
         rbind in_expr (\<lambda>v. rbind in_expr (\<lambda>count. rbind in_expr (\<lambda>size.
           on_tables (finish_element (cur_segment c) (cur_fragment c) el (ELEMENT_DATA n v count) size))))))))"

definition read_cmd :: "cursor \<Rightarrow> (rstate \<times> 'x linker_scheme, unit) step" where
  "read_cmd c =
     rbind (on_tables (rget skipping)) (\<lambda>sk.
       if sk then rbind in_long (\<lambda>_. rbind in_expr (\<lambda>_. rbind in_expr (\<lambda>_. rret ())))
       else
         rbind (on_tables (place_element (cur_segment c) (cur_element c) (ELEMENT_CMD 0 (Const 0)))) (\<lambda>el.
         rbind in_long (\<lambda>n.
         rbind (on_tables (if n <s 0 \<or> 0xf0 <s n \<or> n AND 0x0f \<noteq> 0 then report_error else rret ())) (\<lambda>_.
         rbind in_expr (\<lambda>a. rbind in_expr (\<lambda>size.
           on_tables (finish_element (cur_segment c) (cur_fragment c) el (ELEMENT_CMD (ucast n) a) size)))))))"

text \<open>
  A new segment starts with the default fragment of the file in it.  A name index outside the table is
  reported, and the name then read from behind the table.
\<close>

definition read_segment :: "nat \<Rightarrow> long \<Rightarrow> nat \<Rightarrow> cursor \<Rightarrow> (rstate \<times> 'x linker_scheme, cursor) step" where
  "read_segment fuel segment_align i c =
     rbind (on_file lit_in_string) (\<lambda>ident.
     rbind (on_tables (setup_segment fuel segment_align ident)) (\<lambda>sg.
     rbind in_long (\<lambda>n.
     rbind (on_tables (rget (nth_name i n))) (\<lambda>r.
       case r of
         None \<Rightarrow> rbind (on_tables report_error) (\<lambda>_. rstop Trap)
       | Some np \<Rightarrow>
           on_tables (rbind (rget (\<lambda>s. (name_elts s np, name_wanted s np, name_fragment s np))) (\<lambda>(elts, w, frag).
             if elts \<noteq> None then rstop Abort
             else rbind (if w then rbind (if frag then report_error else rret ()) (\<lambda>_. start_fragment fuel sg np)
                         else rret ()) (\<lambda>_.
                  rbind (rmodify (\<lambda>s. s\<lparr>skipping := \<not> w\<rparr>)) (\<lambda>_.
                    rret (c\<lparr>cur_segment := sg, cur_fragment := np, cur_tag := None\<rparr>)))))))))"

text \<open>The further instances of a common fragment must look like the first one and are dropped.\<close>

fun skip_dummies :: "nat \<Rightarrow> (rstate \<times> 'x linker_scheme, long) step" where
  "skip_dummies 0 = rstop Trap"
| "skip_dummies (Suc fuel) = rbind in_long (\<lambda>tag. if tag = LIT_DUMMY then skip_dummies fuel else rret tag)"

definition error_if :: "bool \<Rightarrow> ('x linker_scheme, unit) step" where
  "error_if b = (if b then report_error else rret ())"

text \<open>The result is the tag after it, or \<open>None\<close> when the file is not read any further.\<close>

definition read_common :: "nat \<Rightarrow> nat \<Rightarrow> long \<Rightarrow> (rstate \<times> 'x linker_scheme, long option) step" where
  "read_common fuel np align =
     rbind (on_tables (rbind (rget (\<lambda>s. name_align s np)) (\<lambda>a. error_if (a \<noteq> align)))) (\<lambda>_.
     rbind in_long (\<lambda>tag.
       if tag \<noteq> LIT_DATA then rbind (on_tables report_error) (\<lambda>_. rret None)
       else
         rbind in_long (\<lambda>n.
         rbind (on_tables (error_if (n \<noteq> 1))) (\<lambda>_.
         rbind in_expr (\<lambda>v.
         rbind (on_tables (error_if (v \<noteq> Const 0))) (\<lambda>_.
         rbind in_expr (\<lambda>count.
         rbind in_expr (\<lambda>size.
         rbind (on_tables (rget (\<lambda>s. (name_elts s np, el_size s)))) (\<lambda>(elts, sz).
           case elts of
             None \<Rightarrow> rstop Abort
           | Some el \<Rightarrow>
               rbind (on_tables (rbind (expr_equal (sz el) size) (\<lambda>eq. error_if (\<not> eq)))) (\<lambda>_.
               rbind (skip_dummies fuel) (\<lambda>tag.
                 if 0 <s tag \<or> tag = LIT_DATA \<or> tag = LIT_CMD
                 then rbind (on_tables report_error) (\<lambda>_. rret None)
                 else rret (Some tag))))))))))))"

text \<open>A wanted fragment starts, at the alignment it asks for.\<close>

definition open_fragment :: "nat \<Rightarrow> nat \<Rightarrow> nat \<Rightarrow> long \<Rightarrow> ('x linker_scheme, unit) step" where
  "open_fragment fuel sg np align =
     rbind (rget (\<lambda>s. name_elts s np)) (\<lambda>elts.
       if elts \<noteq> None then rstop Abort
       else
         rbind (rmodify (\<lambda>s. s\<lparr>name_fragment := (name_fragment s)(np := True)\<rparr>)) (\<lambda>_.
         rbind (if 1 <s align then rbind (emit_align fuel sg align (Const 0)) (\<lambda>_. rret ()) else rret ()) (\<lambda>_.
         rbind (start_fragment fuel sg np) (\<lambda>_.
           rmodify (\<lambda>s. s\<lparr>name_align := (name_align s)(np := align)\<rparr>)))))"

definition read_fragment :: "nat \<Rightarrow> nat \<Rightarrow> nat \<Rightarrow> cursor \<Rightarrow> (rstate \<times> 'x linker_scheme, cursor option) step" where
  "read_fragment fuel left i c =
     rbind in_long (\<lambda>n.
     rbind (on_tables (rget (nth_name i n))) (\<lambda>r.
       case r of
         None \<Rightarrow> rbind (on_tables report_error) (\<lambda>_. rbind in_long (\<lambda>_. rret (Some (c\<lparr>cur_tag := None\<rparr>))))
       | Some np \<Rightarrow>
           rbind (on_tables (rbind (rget (\<lambda>s. name_special s np)) (\<lambda>k. error_if (k \<noteq> 0)))) (\<lambda>_.
           rbind in_long (\<lambda>a.
           let align = (if a AND (a - 1) \<noteq> 0 then 4 else a) in
           rbind (on_tables (rget (\<lambda>s. (name_common s np, name_fragment s np, name_wanted s np)))) (\<lambda>(common, frag, w).
             if common \<and> frag then
               rbind (read_common left np align) (\<lambda>tag.
                 rret (case tag of None \<Rightarrow> None | Some t \<Rightarrow> Some ((next_element c)\<lparr>cur_tag := Some t\<rparr>)))
             else if w \<and> frag then
               rbind (on_tables (rmodify (\<lambda>s. s\<lparr>skipping := True\<rparr>))) (\<lambda>_. rret (Some (c\<lparr>cur_tag := None\<rparr>)))
             else
               rbind (on_tables (rbind (if w then open_fragment fuel (cur_segment c) np align else rret ())
                                   (\<lambda>_. rmodify (\<lambda>s. s\<lparr>skipping := \<not> w\<rparr>))))
                 (\<lambda>_. rret (Some (c\<lparr>cur_fragment := np, cur_tag := None\<rparr>))))))))"

text \<open>At the end of the area, every element referred to must have been read.\<close>

definition end_segments :: "nat \<Rightarrow> (rstate \<times> 'x linker_scheme, unit) step" where
  "end_segments i =
     rbind in_long (\<lambda>n.
     rbind (on_tables (error_if (n \<noteq> 2))) (\<lambda>_.
     rbind in_long (\<lambda>_.
     rbind (on_tables (rbind (rget (\<lambda>s. ifiles s ! i)) (\<lambda>f.
              each (\<lambda>j. error_if (case if_elements f j of Some (el, read) \<Rightarrow> \<not> read | None \<Rightarrow> False))
                [0..<if_nelements f]))) (\<lambda>_.
       save_position i))))"

fun read_seg_records :: "nat \<Rightarrow> nat \<Rightarrow> long \<Rightarrow> nat \<Rightarrow> cursor \<Rightarrow> (rstate \<times> 'x linker_scheme, unit) step" where
  "read_seg_records 0 fuel sal i c = rstop Trap"
| "read_seg_records (Suc left) fuel sal i c =
     rbind (next_tag c) (\<lambda>tag.
       if 0 <s tag then rbind (read_block c tag) (\<lambda>_. read_seg_records left fuel sal i (next_element c))
       else if tag = LIT_DUMMY then read_seg_records left fuel sal i (c\<lparr>cur_tag := None\<rparr>)
       else if tag = LIT_SEGMENT then rbind (read_segment fuel sal i c) (read_seg_records left fuel sal i)
       else if tag = LIT_FRAGMENT then
         rbind (read_fragment fuel left i c) (\<lambda>r.
           case r of None \<Rightarrow> rret () | Some c' \<Rightarrow> read_seg_records left fuel sal i c')
       else if tag = LIT_DATA then rbind (read_data c) (\<lambda>_. read_seg_records left fuel sal i (next_element c))
       else if tag = LIT_CMD then rbind (read_cmd c) (\<lambda>_. read_seg_records left fuel sal i (next_element c))
       else if tag = LIT_MARKER then end_segments i
       else if tag = LIT_COMMENT then
         rbind (on_file lit_in_string) (\<lambda>_. read_seg_records left fuel sal i (c\<lparr>cur_tag := None\<rparr>))
       else on_tables report_error)"

text \<open>
  \<open>ifile_read_segments\<close>: up to the first record of a segment everything goes to the default segment, and to the
  fragment named first in the file.
\<close>

definition start_segments :: "nat \<Rightarrow> long \<Rightarrow> nat \<Rightarrow> ('x linker_scheme, cursor option) step" where
  "start_segments fuel sal i =
     rbind (rmodify (\<lambda>s. s\<lparr>current_ifile := i\<rparr>)) (\<lambda>_.
     rbind (setup_segment fuel sal default_segment) (\<lambda>sg.
     rbind (rget (\<lambda>s. if_names (ifiles s ! i))) (\<lambda>names.
       if names = [] then rbind report_error (\<lambda>_. rret None)
       else let np = hd names in
         rbind (rget (\<lambda>s. (name_elts s np, name_wanted s np, name_fragment s np))) (\<lambda>(elts, w, frag).
           if elts \<noteq> None then rstop Abort
           else
             rbind (if w \<and> frag then rbind report_error (\<lambda>_. add_noname) else rret np) (\<lambda>np'.
             rbind (if w then rbind (rmodify (\<lambda>s. s\<lparr>name_fragment := (name_fragment s)(np' := True)\<rparr>))
                                (\<lambda>_. start_fragment fuel sg np')
                    else rret ()) (\<lambda>_.
             rbind (rmodify (\<lambda>s. s\<lparr>skipping := \<not> name_wanted s np'\<rparr>)) (\<lambda>_.
               rret (Some \<lparr>cur_segment = sg, cur_fragment = np', cur_element = 0, cur_tag = None\<rparr>))))))))"

definition read_segments :: "nat \<Rightarrow> long \<Rightarrow> nat \<Rightarrow> ('x linker_scheme, unit) step" where
  "read_segments fuel sal i =
     rbind (rget (\<lambda>s. length (if_data (ifiles s ! i)))) (\<lambda>n.
       with_file i (rbind (on_tables (start_segments fuel sal i)) (\<lambda>c.
         case c of None \<Rightarrow> rret () | Some c \<Rightarrow> read_seg_records (Suc n) fuel sal i c)))"

section \<open>The definitions area\<close>

text \<open>A definition of a wanted or special name; the warning about another value changes nothing.\<close>

definition define_name :: "nat \<Rightarrow> nat \<Rightarrow> expr \<Rightarrow> ('x linker_scheme, unit) step" where
  "define_name fuel np e =
     rbind (rget (\<lambda>s. (name_wanted s np, name_special s np, name_val s np))) (\<lambda>(w, special, v).
     rbind (if w \<or> special \<noteq> 0
            then (case v of
                    None \<Rightarrow> name_assign_value fuel np e
                  | Some old \<Rightarrow> rbind (expr_equal e old) (\<lambda>_. rret ()))
            else rret ()) (\<lambda>_.
       if special = NAME_SPECIAL_SIZE
       then rbind report_error (\<lambda>_. rmodify (\<lambda>s. s\<lparr>name_val := (name_val s)(np := None)\<rparr>))
       else rret ()))"

fun read_definitions :: "nat \<Rightarrow> nat \<Rightarrow> nat \<Rightarrow> (rstate \<times> 'x linker_scheme, unit) step" where
  "read_definitions 0 fuel i = rstop Trap"
| "read_definitions (Suc left) fuel i =
     rbind in_long (\<lambda>tag.
       if tag = LIT_DUMMY then read_definitions left fuel i
       else if tag = LIT_NAMEDEF then
         rbind in_long (\<lambda>n.
         rbind (on_tables (rget (nth_name i n))) (\<lambda>r.
           case r of
             None \<Rightarrow> rbind (on_tables report_error) (\<lambda>_. rbind in_expr (\<lambda>_. read_definitions left fuel i))
           | Some np \<Rightarrow>
               rbind in_expr (\<lambda>e. rbind (on_tables (define_name fuel np e)) (\<lambda>_. read_definitions left fuel i))))
       else if tag = LIT_MARKER then
         rbind in_long (\<lambda>n. rbind (on_tables (error_if (n \<noteq> 3))) (\<lambda>_. rbind in_long (\<lambda>_. rret ())))
       else if tag = LIT_COMMENT then rbind (on_file lit_in_string) (\<lambda>_. read_definitions left fuel i)
       else on_tables report_error)"

definition read_file_definitions :: "nat \<Rightarrow> nat \<Rightarrow> ('x linker_scheme, unit) step" where
  "read_file_definitions fuel i =
     rbind (rmodify (\<lambda>s. s\<lparr>current_ifile := i, skipping := False\<rparr>)) (\<lambda>_.
     rbind (rget (\<lambda>s. length (if_data (ifiles s ! i)))) (\<lambda>n.
       with_file i (read_definitions (Suc n) fuel i)))"

end
