(* ===== verification/Frames.thy ===== *)
theory Frames
  imports LinkRead
begin

text \<open>
  Facts every operation of the linker keeps, proved by composing its steps: the rules for a relation between
  the states before and after, as a locale.
\<close>

section \<open>Relations kept by steps\<close>

definition keeps :: "('s \<Rightarrow> 's \<Rightarrow> bool) \<Rightarrow> ('s, 'a) step \<Rightarrow> bool" where
  "keeps R m \<longleftrightarrow> (\<forall>s r s'. m s = Inr (r, s') \<longrightarrow> R s s')"

definition lifted :: "('s \<Rightarrow> 's \<Rightarrow> bool) \<Rightarrow> 'f \<times> 's \<Rightarrow> 'f \<times> 's \<Rightarrow> bool" where
  "lifted R p q \<longleftrightarrow> R (snd p) (snd q)"

lemma keepsD: "keeps R m \<Longrightarrow> m s = Inr (r, s') \<Longrightarrow> R s s'"
  by (auto simp: keeps_def)

lemma keepsI: "(\<And>s r s'. m s = Inr (r, s') \<Longrightarrow> R s s') \<Longrightarrow> keeps R m"
  by (auto simp: keeps_def)

lemma keeps_modify: "(\<And>s. R s (f s)) \<Longrightarrow> keeps R (rmodify f)"
  by (auto simp: keeps_def outcome_iff)

lemma keeps_on_tables: "keeps R m \<Longrightarrow> keeps (lifted R) (on_tables m)"
  by (auto simp: keeps_def lifted_def on_tables_def outcome_iff)

text \<open>A relation for which nothing and one thing after the other are allowed.\<close>

locale frame =
  fixes R :: "'s \<Rightarrow> 's \<Rightarrow> bool"
  assumes refl: "R s s" and trans: "R s t \<Longrightarrow> R t u \<Longrightarrow> R s u"
begin

lemma basic: "keeps R (rret x)" "keeps R (rstop z)" "keeps R (rget g)" "keeps R (\<lambda>s. obind (m s) (\<lambda>x. Inr (h x, s)))"
  by (auto simp: keeps_def outcome_iff refl)

lemma bind: "keeps R m \<Longrightarrow> (\<And>x. keeps R (f x)) \<Longrightarrow> keeps R (rbind m f)"
  unfolding keeps_def outcome_iff by (blast intro: trans)

lemma branch: "(b \<Longrightarrow> keeps R f) \<Longrightarrow> (\<not> b \<Longrightarrow> keeps R g) \<Longrightarrow> keeps R (if b then f else g)"
  by simp

lemma cases:
  "(\<And>x y. p = (x, y) \<Longrightarrow> keeps R (f x y)) \<Longrightarrow> keeps R (case p of (x, y) \<Rightarrow> f x y)"
  "keeps R a \<Longrightarrow> (\<And>x. q = Some x \<Longrightarrow> keeps R (g x)) \<Longrightarrow> keeps R (case q of None \<Rightarrow> a | Some x \<Rightarrow> g x)"
  "keeps R a \<Longrightarrow> (\<And>x xs. keeps R (h x xs)) \<Longrightarrow> keeps R (case l of [] \<Rightarrow> a | x # xs \<Rightarrow> h x xs)"
  "(\<And>bs k. keeps R (h1 bs k)) \<Longrightarrow> (\<And>w v c. keeps R (h2 w v c)) \<Longrightarrow> (\<And>c e. keeps R (h3 c e)) \<Longrightarrow>
     keeps R (case b of ELEMENT_BLOCK bs k \<Rightarrow> h1 bs k | ELEMENT_DATA w v c \<Rightarrow> h2 w v c | ELEMENT_CMD c e \<Rightarrow> h3 c e)"
  "(\<And>c. keeps R (f1 c)) \<Longrightarrow> (\<And>n. keeps R (f2 n)) \<Longrightarrow> (\<And>i l h. keeps R (f3 i l h)) \<Longrightarrow> (\<And>n. e = Element n \<Longrightarrow> keeps R (f4 n)) \<Longrightarrow>
     (\<And>es. keeps R (f5 es)) \<Longrightarrow> (\<And>t e. keeps R (f6 t e)) \<Longrightarrow> (\<And>t l r. keeps R (f7 t l r)) \<Longrightarrow>
     keeps R (case e of Const c \<Rightarrow> f1 c | Name n \<Rightarrow> f2 n | Range i l h \<Rightarrow> f3 i l h | Element n \<Rightarrow> f4 n
       | Elsum es \<Rightarrow> f5 es | Unop t e \<Rightarrow> f6 t e | Binop t l r \<Rightarrow> f7 t l r)"
  by (simp_all split: prod.split option.split list.split element_body.split expr.split)

lemma each_kept: "(\<And>x. x \<in> set xs \<Longrightarrow> keeps R (f x)) \<Longrightarrow> keeps R (each f xs)"
  by (induction xs) (simp_all add: basic bind)

lemma walked: "(\<And>n. n \<in> set ns \<Longrightarrow> keeps R (f n)) \<Longrightarrow> keeps R (walk_names f ns)"
  by (induction ns) (simp_all add: basic bind split: option.split)

lemma counted_kept: "(\<And>x. keeps R (f x)) \<Longrightarrow> keeps R (count_each f xs)"
  by (induction xs) (simp_all add: basic bind)

lemma lifted_frame: "frame (lifted R)"
  by unfold_locales (auto simp: lifted_def refl intro: trans)

lemmas rules = basic bind branch cases each_kept walked counted_kept

end

text \<open>Steps that read a file, too.\<close>

locale reading = frame R for R :: "'s \<Rightarrow> 's \<Rightarrow> bool"

sublocale reading \<subseteq> io: frame "lifted R :: rstate \<times> 's \<Rightarrow> rstate \<times> 's \<Rightarrow> bool"
  by (rule lifted_frame)

context reading
begin

lemma file_kept: "keeps (lifted R) (on_file m)"
  by (auto simp: keeps_def lifted_def on_file_def outcome_iff refl)

lemma elsum_kept:
  assumes "\<And>n. keeps R (element_by_index cl n)"
  shows "keeps (lifted R) (in_elsum cl fuel acc)"
proof (induction fuel arbitrary: acc)
  case (Suc fuel)
  show ?case
    unfolding in_elsum.simps by (intro io.rules file_kept keeps_on_tables assms Suc.IH)
qed (simp add: io.basic)

end

text \<open>Relations that allow whatever leaves the tables of expressions alone.\<close>

locale expr_frame = reading R for R :: "'x est_scheme \<Rightarrow> 'x est_scheme \<Rightarrow> bool" +
  assumes quiet_kept: "same_tables s t \<Longrightarrow> R s t"
begin

lemma quiet: "quiet m \<Longrightarrow> keeps R m"
  by (auto simp: keeps_def quiet_def quiet_kept)

lemma in_leaf_kept:
  assumes "\<And>n. keeps R (element_by_index cl n)" "\<And>n. keeps R (name_by_index cl n)" "\<And>l h. keeps R (new_range cl l h)"
  shows "keeps (lifted R) (in_leaf cl fuel t)"
  unfolding in_leaf_def using assms
  by (auto intro!: io.rules file_kept keeps_on_tables elsum_kept split: expr_tag.split)

lemma in_expr_kept:
  assumes "\<And>n. keeps R (element_by_index cl n)" "\<And>n. keeps R (name_by_index cl n)" "\<And>l h. keeps R (new_range cl l h)"
  shows "keeps (lifted R) (lit_in_expr cl)"
proof -
  have "keeps (lifted R) (in_expr_loop cl fuel es)" for fuel es
  proof (induction fuel arbitrary: es)
    case (Suc fuel)
    show ?case
      unfolding in_expr_loop.simps
      by (intro io.rules file_kept keeps_on_tables in_leaf_kept assms Suc.IH quiet quiet_intros)
  qed (simp add: io.basic)
  then show ?thesis by (auto simp: keeps_def lit_in_expr_def simp del: in_expr_loop.simps)
qed

end

end
