(* ===== verification/Link.thy ===== *)
theory Link
  imports LinkRead Merge
begin

text \<open>
  The linker (\<open>main\<close> of \<open>lit/lit.c\<close>): options, the two file passes, the passes over the elements, and the
  output file.
\<close>

section \<open>Options\<close>

text \<open>
  The options with an effect on the output; their arguments are C strings.  \<open>PLACE\<close> is \<open>-T\<close>, with the
  value of its second argument, which \<open>strtoul\<close> has read.
\<close>

datatype link_option =
    PASSES "byte list"
  | ALIGN "byte list"
  | HOOK "byte list"
  | LIBRARY "byte list"
  | MAPFILE
  | PLACE "byte list option" long

record session = linker +
  segment_align :: long
  maxpasses :: long
  hooks_defined :: nat
  libraries :: "byte list list"
  defsyms :: "(byte list \<times> long) list"
  mapfile :: bool

text \<open>A number that must be the whole argument; anything else ends the program.\<close>

definition option_number :: "byte list \<Rightarrow> ('x session_scheme, long) step" where
  "option_number arg = (case strtol arg of (n, rest) \<Rightarrow> if rest \<noteq> [] then rstop Fatal else rret (word_of_int n))"

definition define_hook :: "byte list \<Rightarrow> ('x session_scheme, unit) step" where
  "define_hook arg =
     rbind (want_hook arg) (\<lambda>_. rmodify (\<lambda>s. s\<lparr>hooks_defined := Suc (hooks_defined s)\<rparr>))"

text \<open>The case of \<open>-a\<close> runs on into the case of \<open>-h\<close>.\<close>

definition set_option :: "link_option \<Rightarrow> ('x session_scheme, unit) step" where
  "set_option opt =
     (case opt of
        PASSES arg \<Rightarrow> rbind (option_number arg) (\<lambda>n. rmodify (\<lambda>s. s\<lparr>maxpasses := n\<rparr>))
      | ALIGN arg \<Rightarrow>
          rbind (option_number arg) (\<lambda>n.
          rbind (rmodify (\<lambda>s. s\<lparr>segment_align := n\<rparr>)) (\<lambda>_. define_hook arg))
      | HOOK arg \<Rightarrow> define_hook arg
      | LIBRARY arg \<Rightarrow> rmodify (\<lambda>s. s\<lparr>libraries := libraries s @ [arg]\<rparr>)
      | MAPFILE \<Rightarrow> rmodify (\<lambda>s. s\<lparr>mapfile := True\<rparr>)
      | PLACE seg v \<Rightarrow>
          rmodify (\<lambda>s. s\<lparr>defsyms := defsyms s @
            [((case seg of None \<Rightarrow> bytes_of ''text'' | Some n \<Rightarrow> n) @ bytes_of ''@@start'', v)]\<rparr>))"

text \<open>The names defined by options.\<close>

definition define_symbol :: "nat \<Rightarrow> byte list \<times> long \<Rightarrow> ('x session_scheme, unit) step" where
  "define_symbol fuel = (\<lambda>(key, v).
     rbind (lookup_general key) (\<lambda>np.
     rbind (rmodify (\<lambda>s. if name_special s np = NAME_SPECIAL_START
                         then s\<lparr>name_align := (name_align s)(np := segment_align s)\<rparr> else s)) (\<lambda>_.
       name_assign_value fuel np (Const v))))"

text \<open>Everything before the first file is opened; no input file ends the program.\<close>

definition start_session :: "nat \<Rightarrow> link_option list \<Rightarrow> nat \<Rightarrow> ('x session_scheme, unit) step" where
  "start_session fuel opts nfiles =
     rbind (each set_option opts) (\<lambda>_.
     rbind (rbind (rget defsyms) (each (define_symbol fuel))) (\<lambda>_.
     rbind check_errors (\<lambda>_.
       if nfiles = 0 then rstop Fatal
       else rbind (rget hooks_defined) (\<lambda>n. if n = 0 then want_hook (bytes_of ''@@hook'') else rret ()))))"

section \<open>The second pass over the files\<close>

definition each_wanted :: "(nat \<Rightarrow> ('x linker_scheme, unit) step) \<Rightarrow> ('x linker_scheme, unit) step" where
  "each_wanted f =
     rbind (rget (\<lambda>s. length (ifiles s))) (\<lambda>n.
       each (\<lambda>i. rbind (rget (\<lambda>s. if_wanted (ifiles s ! i))) (\<lambda>w. if w then f i else rret ())) [0..<n])"

definition each_segment :: "(nat \<Rightarrow> ('x ments_scheme, unit) step) \<Rightarrow> ('x ments_scheme, unit) step" where
  "each_segment f = rbind (rget nsegments) (\<lambda>n. each f [0..<n])"

definition segment_ident :: "'x ments_scheme \<Rightarrow> nat \<Rightarrow> byte list" where
  "segment_ident s sg = c_string (name_ident s (seg_name (seg_tab s sg)))"

text \<open>The value of \<open>@@size\<close> of a segment, once it is padded to the segment alignment.\<close>

definition assign_size :: "nat \<Rightarrow> long \<Rightarrow> nat \<Rightarrow> ('x linker_scheme, unit) step" where
  "assign_size fuel align sg =
     rbind (rget (\<lambda>s. segment_ident s sg)) (\<lambda>idn.
     rbind (lookup_general (idn @ bytes_of ''@@size'')) (\<lambda>np.
     rbind (rget (\<lambda>s. name_val s np)) (\<lambda>v.
       if v \<noteq> None then rstop Abort
       else
         rbind (if 1 <s align then rbind (emit_align fuel sg align (Const 0)) (\<lambda>_. rret ()) else rret ()) (\<lambda>_.
         rbind (rget (\<lambda>s. (seg_point (seg_tab s sg), seg_fragments (seg_tab s sg)))) (\<lambda>(p, fs).
           case (p, fs) of
             (Some point, (frag, _) # _) \<Rightarrow>
               rbind (expr_binop EXPR_MINUS point (Name frag)) (\<lambda>e.
               rbind (name_assign_value fuel np e) (\<lambda>_.
                 rmodify (\<lambda>s. s\<lparr>name_align := (name_align s)(np := align)\<rparr>)))
           | _ \<Rightarrow> rstop Trap)))))"

definition check_defined :: "nat \<Rightarrow> ('x linker_scheme, unit option) step" where
  "check_defined np =
     rbind (rget (\<lambda>s. name_wanted s np \<and> name_val s np = None \<and> \<not> name_loadtime s np)) (\<lambda>b.
     rbind (if b then report_error else rret ()) (\<lambda>_. rret None))"

definition walk_general :: "(nat \<Rightarrow> ('x linker_scheme, unit option) step) \<Rightarrow> ('x linker_scheme, unit) step" where
  "walk_general f = rbind (rget general_names) (\<lambda>t. rbind (table_walk t f) (\<lambda>_. rret ()))"

definition second_pass :: "nat \<Rightarrow> ('x session_scheme, unit) step" where
  "second_pass fuel =
     rbind (rget segment_align) (\<lambda>align.
     rbind (each_wanted (read_segments fuel align)) (\<lambda>_.
     rbind check_errors (\<lambda>_.
     rbind (each_segment (assign_size fuel align)) (\<lambda>_.
     rbind check_errors (\<lambda>_.
     rbind (each_wanted (read_file_definitions fuel)) (\<lambda>_.
     rbind check_errors (\<lambda>_.
     rbind (walk_general check_defined) (\<lambda>_. check_errors))))))))"

section \<open>The passes over the elements\<close>

text \<open>Thresholds of segments with a \<open>@@blocksize\<close>.\<close>

definition set_threshold :: "nat \<Rightarrow> nat \<Rightarrow> ('x linker_scheme, unit) step" where
  "set_threshold fuel sg =
     rbind (rget (\<lambda>s. segment_ident s sg)) (\<lambda>idn.
     rbind (lookup_general (idn @ bytes_of ''@@blocksize'')) (\<lambda>np.
     rbind (rget (\<lambda>s. name_val s np)) (\<lambda>v.
       case v of
         None \<Rightarrow> rret ()
       | Some e \<Rightarrow>
           rbind (reduce_expr fuel e) (\<lambda>e'.
           rbind (rmodify (\<lambda>s. s\<lparr>name_val := (name_val s)(np := Some e')\<rparr>)) (\<lambda>_.
             case e' of
               Const c \<Rightarrow> upd_seg sg (\<lambda>g. g\<lparr>seg_threshold := c\<rparr>)
             | _ \<Rightarrow> report_error)))))"

text \<open>\<open>print_map\<close> reduces the values it prints.\<close>

definition print_map :: "nat \<Rightarrow> nat \<Rightarrow> ('x linker_scheme, unit option) step" where
  "print_map fuel np =
     rbind (rget (\<lambda>s. (name_wanted s np, name_val s np, c_string (name_ident s np)))) (\<lambda>(w, v, idn).
       case v of
         Some e \<Rightarrow>
           if w \<and> idn \<noteq> []
           then rbind (reduce_expr fuel e) (\<lambda>e'.
                rbind (rmodify (\<lambda>s. s\<lparr>name_val := (name_val s)(np := Some e')\<rparr>)) (\<lambda>_. rret None))
           else rret None
       | None \<Rightarrow> rret None)"

definition name_free_value :: "nat \<Rightarrow> ('x linker_scheme, unit option) step" where
  "name_free_value np = rbind (rmodify (\<lambda>s. s\<lparr>name_val := (name_val s)(np := None)\<rparr>)) (\<lambda>_. rret None)"

text \<open>
  The values of names, the points and the tables of elements are freed.  What still refers to an element is
  what the sizes and the contents of elements mention.
\<close>

definition count_refs :: "'x ments_scheme \<Rightarrow> nat \<Rightarrow> nat" where
  "count_refs s el =
     sum_list (map (\<lambda>x. sum_list (map (\<lambda>e. count_elements e el) (el_size s x # body_exprs (el_body s x)))) (elements_of s))"

definition free_values :: "('x linker_scheme, unit) step" where
  "free_values =
     rbind (walk_general name_free_value) (\<lambda>_.
     rbind (each_segment (\<lambda>sg. upd_seg sg (\<lambda>g. g\<lparr>seg_point := None\<rparr>))) (\<lambda>_.
       rmodify (\<lambda>s. s\<lparr>ifiles := map (\<lambda>f. f\<lparr>if_elements := (\<lambda>_. None), if_nelements := 0\<rparr>) (ifiles s),
                      el_nrefs := count_refs s\<rparr>)))"

definition settle_passes :: "nat \<Rightarrow> ('x session_scheme, unit) step" where
  "settle_passes fuel =
     rbind (rbind (rget maxpasses) (\<lambda>n. optimize_loop fuel (nat (sint n)))) (\<lambda>_.
     rbind check_errors (\<lambda>_.
     rbind pass_freeze (\<lambda>_.
     rbind check_errors (\<lambda>_.
     rbind (each_segment (set_threshold fuel)) (\<lambda>_.
     rbind (rbind (rget mapfile) (\<lambda>m. if m then walk_general (print_map fuel) else rret ())) (\<lambda>_.
       pass_reduce fuel))))))"

definition arrange_passes :: "nat \<Rightarrow> ('x linker_scheme, unit) step" where
  "arrange_passes fuel =
     rbind free_values (\<lambda>_.
     rbind check_errors (\<lambda>_.
     rbind (pass_unroll fuel) (\<lambda>_.
     rbind check_errors (\<lambda>_.
     rbind pass_merge (\<lambda>_. check_errors)))))"

text \<open>The output file: the segments and the marker of the area, which starts the file.\<close>

definition index_segment :: "nat \<Rightarrow> ('x ments_scheme, unit) step" where
  "index_segment i =
     rbind (rget (\<lambda>s. seg_fragments (seg_tab s i))) (\<lambda>fs.
       case fs of
         [] \<Rightarrow> rstop Trap
       | (frag, _) # _ \<Rightarrow> rmodify (\<lambda>s. s\<lparr>name_idx := (name_idx s)(frag := word_of_nat i)\<rparr>))"

definition write_output :: "('x linker_scheme, byte list) step" where
  "write_output =
     rbind (each_segment index_segment) (\<lambda>_.
     rbind (\<lambda>s. obind (pass_output_segments s) (\<lambda>bs. Inr (bs, s))) (\<lambda>bs.
     rbind (\<lambda>s. obind (lit_out_marker 0 (length bs) 2) (\<lambda>r. Inr (r, s))) (\<lambda>(mk, _).
       rret (bs @ mk))))"

section \<open>The linker\<close>

text \<open>
  The explicit files are given by their contents, and \<open>find_library\<close> is the search for a library on the
  path, with its contents.
\<close>

definition link_files ::
  "nat \<Rightarrow> (byte list \<Rightarrow> byte list option) \<Rightarrow> byte list list \<Rightarrow> ('x session_scheme, byte list) step"
where
  "link_files fuel find_library files =
     rbind (rget (\<lambda>s. map find_library (libraries s))) (\<lambda>libs.
     rbind (first_pass files libs) (\<lambda>_.
     rbind (second_pass fuel) (\<lambda>_.
     rbind (settle_passes fuel) (\<lambda>_.
     rbind (arrange_passes fuel) (\<lambda>_. write_output)))))"

definition link ::
  "nat \<Rightarrow> link_option list \<Rightarrow> (byte list \<Rightarrow> byte list option) \<Rightarrow> byte list list \<Rightarrow> ('x session_scheme, byte list) step"
where
  "link fuel opts find_library files =
     rbind (start_session fuel opts (length files)) (\<lambda>_. link_files fuel find_library files)"

end
