(* ===== verification/Chains.thy ===== *)
theory Chains
  imports Frames Link Books "HOL-Library.Multiset"
begin

text \<open>
  What the linker keeps from the first option to the last pass: names stay what they are, wanted names stay
  wanted, and no element is in two places.
\<close>

section \<open>Names\<close>

abbreviation listed :: "table \<Rightarrow> nat set" where
  "listed t \<equiv> set (table_order t)"

definition grows :: "'x linker_scheme \<Rightarrow> 'x linker_scheme \<Rightarrow> bool" where
  "grows s t \<longleftrightarrow>
     next_name s \<le> next_name t \<and>
     (\<forall>n < next_name s. name_ident t n = name_ident s n \<and> (name_wanted s n \<longrightarrow> name_wanted t n)) \<and>
     listed (general_names s) \<subseteq> listed (general_names t)"

definition all_listed :: "'x linker_scheme \<Rightarrow> bool" where
  "all_listed s \<longleftrightarrow> {..<next_name s} \<subseteq> listed (general_names s)"

lemma grows_refl: "grows s s" by (simp add: grows_def)

lemma grows_trans: "grows s t \<Longrightarrow> grows t u \<Longrightarrow> grows s u" unfolding grows_def by force

section \<open>Elements\<close>

text \<open>
  The elements expressions of a file refer to that have not been read yet are in no chain, and no two references
  share one.
\<close>

definition pending :: "'x linker_scheme \<Rightarrow> nat \<times> nat \<Rightarrow> nat option" where
  "pending s p =
     (if fst p < length (ifiles s)
      then case if_elements (ifiles s ! fst p) (snd p) of Some (el, False) \<Rightarrow> Some el | _ \<Rightarrow> None
      else None)"

definition chains_ok :: "'x linker_scheme \<Rightarrow> bool" where
  "chains_ok s \<longleftrightarrow>
     distinct (elements_of s) \<and> set (elements_of s) \<subseteq> {..<next_el s} \<and>
     (\<forall>i < nsegments s. length (seg_fragments (seg_tab s i)) = 1) \<and>
     ran (pending s) \<subseteq> {..<next_el s} - set (elements_of s) \<and>
     inj_on (pending s) (dom (pending s))"

lemma elements_of_eq: "elements_of s = concat (map (\<lambda>i. seg_elements (seg_tab s i)) [0..<nsegments s])"
  by (simp add: elements_of_def seg_elements_def)

lemma elements_of_cong:
  "nsegments t = nsegments s \<Longrightarrow> (\<And>i. seg_fragments (seg_tab t i) = seg_fragments (seg_tab s i)) \<Longrightarrow>
     elements_of t = elements_of s"
  by (simp add: elements_of_def)

lemma chains_cong:
  assumes "chains_ok s" "nsegments t = nsegments s" "\<And>i. seg_fragments (seg_tab t i) = seg_fragments (seg_tab s i)"
    "pending t = pending s" "next_el s \<le> next_el t"
  shows "chains_ok t"
proof -
  have "elements_of t = elements_of s" by (rule elements_of_cong [OF assms(2,3)])
  with assms show ?thesis by (auto simp: chains_ok_def)
qed

lemma pending_upd: "if_elements (f (ifiles s ! i)) = if_elements (ifiles s ! i) \<Longrightarrow>
    pending (s\<lparr>ifiles := (ifiles s)[i := f (ifiles s ! i)]\<rparr>) = pending s"
proof (intro ext)
  fix p assume "if_elements (f (ifiles s ! i)) = if_elements (ifiles s ! i)"
  then show "pending (s\<lparr>ifiles := (ifiles s)[i := f (ifiles s ! i)]\<rparr>) p = pending s p"
    by (cases "fst p = i") (simp_all add: pending_def)
qed

text \<open>An element that is in no chain goes to the end of a segment.\<close>

lemma append_el_elements: "fs \<noteq> [] \<Longrightarrow> concat (map snd (append_el el fs)) = concat (map snd fs) @ [el]"
  by (induction el fs rule: append_el.induct) auto

lemma length_append_el [simp]: "length (append_el el fs) = length fs"
  by (induction el fs rule: append_el.induct) auto

lemma elements_append:
  assumes "sg < nsegments s" "seg_fragments (seg_tab s sg) \<noteq> []"
    and t: "nsegments t = nsegments s" "\<And>i. i \<noteq> sg \<Longrightarrow> seg_fragments (seg_tab t i) = seg_fragments (seg_tab s i)"
      "seg_fragments (seg_tab t sg) = append_el el (seg_fragments (seg_tab s sg))"
  shows "mset (elements_of t) = add_mset el (mset (elements_of s))"
proof -
  have u: "[0..<nsegments s] = [0..<sg] @ sg # [Suc sg..<nsegments s]"
    using assms(1) by (metis less_imp_le_nat upt_add_eq_append upt_conv_Cons le_add_diff_inverse zero_le)
  have m: "map (\<lambda>i. seg_elements (seg_tab t i)) xs = map (\<lambda>i. seg_elements (seg_tab s i)) xs" if "sg \<notin> set xs" for xs
    using that t(2) by (intro map_cong refl) (metis seg_elements_def)
  have "map (\<lambda>i. seg_elements (seg_tab t i)) [0..<sg] = map (\<lambda>i. seg_elements (seg_tab s i)) [0..<sg]"
    "map (\<lambda>i. seg_elements (seg_tab t i)) [Suc sg..<nsegments s] = map (\<lambda>i. seg_elements (seg_tab s i)) [Suc sg..<nsegments s]"
    by (rule m, simp)+
  moreover have "seg_elements (seg_tab t sg) = seg_elements (seg_tab s sg) @ [el]"
    by (simp add: seg_elements_def t(3) append_el_elements assms(2))
  ultimately show ?thesis
    by (simp only: elements_of_eq t(1) u map_append list.map concat_append concat.simps) simp
qed

lemma elements_beyond:
  assumes "\<not> sg < nsegments s" "nsegments t = nsegments s" "\<And>i. i \<noteq> sg \<Longrightarrow> seg_fragments (seg_tab t i) = seg_fragments (seg_tab s i)"
  shows "elements_of t = elements_of s"
  unfolding elements_of_def by (rule arg_cong [of _ _ concat], rule map_cong) (use assms in auto)

lemma chains_append:
  assumes ok: "chains_ok s" and fs: "seg_fragments (seg_tab s sg) \<noteq> []"
    and t: "nsegments t = nsegments s" "\<And>i. i \<noteq> sg \<Longrightarrow> seg_fragments (seg_tab t i) = seg_fragments (seg_tab s i)"
      "seg_fragments (seg_tab t sg) = append_el el (seg_fragments (seg_tab s sg))"
    and el: "el \<notin> set (elements_of s)" "el < next_el t" "next_el s \<le> next_el t"
    and p: "ran (pending t) \<subseteq> ran (pending s) - {el}" "inj_on (pending t) (dom (pending t))"
  shows "chains_ok t"
proof (cases "sg < nsegments s")
  case True
  note m = elements_append [OF True fs t]
  then have "distinct (elements_of t) = distinct (el # elements_of s)"
    by (metis mset.simps(2) mset_eq_imp_distinct_iff)
  moreover have "set (elements_of t) = insert el (set (elements_of s))"
    using m by (metis list.simps(15) mset.simps(2) set_mset_mset)
  moreover have "length (seg_fragments (seg_tab t i)) = length (seg_fragments (seg_tab s i))" for i
    by (cases "i = sg") (simp_all add: t)
  ultimately show ?thesis using ok el p unfolding chains_ok_def t(1) by auto
next
  case False
  have e: "elements_of t = elements_of s" by (rule elements_beyond [OF False t(1,2)])
  have "length (seg_fragments (seg_tab t i)) = length (seg_fragments (seg_tab s i))" for i
    by (cases "i = sg") (simp_all add: t)
  then show ?thesis using ok el p unfolding chains_ok_def t(1) e by auto
qed

section \<open>Looking up names\<close>

lemma listed_eq: "listed t = set (nonames t) \<union> table_names t"
  by (auto simp: table_order_def table_names_def)

lemma lookup_listed:
  assumes "table_lookup t key s = Inr ((n, t'), s')"
  shows "(n \<in> listed t \<and> t' = t \<and> s' = s) \<or> (name_alloc key s = Inr (n, s') \<and> listed t' = insert n (listed t))"
proof (cases "key = []")
  case True
  with assms show ?thesis
    by (auto simp: table_lookup_def table_add_noname_def outcome_iff listed_eq table_names_def)
next
  case False
  let ?c = "nat (column_of t key)"
  from False assms have nz: "ncolumns t \<noteq> 0" "0 \<le> column_of t key"
    by (auto simp: table_lookup_def column_of_def rstop_def Let_def not_less split: if_splits)
  then have c: "?c < ncolumns t" using column_less by blast
  let ?find = "find (\<lambda>n. key_matches key (name_ident s n)) (column_names (columns t ?c))"
  have run: "(case ?find of
      Some n \<Rightarrow> rret (n, t)
    | None \<Rightarrow> rbind (name_alloc key) (\<lambda>n.
        rret (n, t\<lparr>columns := (columns t)(?c := column_add n (columns t ?c))\<rparr>))) s = Inr ((n, t'), s')"
    using assms False nz unfolding column_of_def
    by (simp add: table_lookup_def Let_def rbind_def [of "rget _"] rget_def)
  show ?thesis
  proof (cases ?find)
    case (Some m)
    then have "m \<in> set (column_names (columns t ?c))" by (auto simp: find_Some_iff)
    then show ?thesis using run Some c by (auto simp: rret_def listed_eq table_names_def)
  next
    case None
    with run obtain s1 where "name_alloc key s = Inr (n, s')"
      and "t' = t\<lparr>columns := (columns t)(?c := column_add n (columns t ?c))\<rparr>"
      by (auto simp: rret_def rbind_Inr)
    then show ?thesis using table_names_update [OF c] by (simp add: listed_eq)
  qed
qed

lemma alloc_fields:
  fixes s :: "'x linker_scheme"
  assumes "name_alloc key s = Inr (n, t)"
  shows "n = next_name s" "next_name t = Suc n" "name_ident t = (name_ident s)(n := key)"
    "name_wanted t = (name_wanted s)(n := False)" "general_names t = general_names s" "segment_names t = segment_names s"
    "ifiles t = ifiles s" "current_ifile t = current_ifile s" "nsegments t = nsegments s" "seg_tab t = seg_tab s"
    "next_el t = next_el s"
  using assms by (auto simp: name_alloc_def Let_def)

lemma pending_cong: "ifiles t = ifiles s \<Longrightarrow> pending t = pending s"
  by (simp add: pending_def fun_eq_iff)

lemma chains_same:
  assumes "chains_ok s" "nsegments t = nsegments s" "seg_tab t = seg_tab s" "ifiles t = ifiles s" "next_el t = next_el s"
  shows "chains_ok t"
  by (rule chains_cong [OF assms(1,2) _ pending_cong [OF assms(4)]]) (simp_all add: assms)

section \<open>What the passes over the files keep\<close>

text \<open>The first pass, and all of it after the first pass.\<close>

definition entered :: "'x linker_scheme \<Rightarrow> 'x linker_scheme \<Rightarrow> bool" where
  "entered s t \<longleftrightarrow>
     grows s t \<and> length (ifiles s) \<le> length (ifiles t) \<and> current_ifile t = current_ifile s \<and>
     (all_listed s \<longrightarrow> all_listed t) \<and> (chains_ok s \<longrightarrow> chains_ok t)"

definition steady :: "'x linker_scheme \<Rightarrow> 'x linker_scheme \<Rightarrow> bool" where
  "steady s t \<longleftrightarrow>
     grows s t \<and> length (ifiles t) = length (ifiles s) \<and> current_ifile t = current_ifile s \<and>
     (current_ifile s < length (ifiles s) \<and> chains_ok s \<longrightarrow> chains_ok t)"

interpretation entered: reading entered
proof unfold_locales
  show "entered s s" for s :: "'x linker_scheme" by (simp add: entered_def grows_refl)
  show "entered s u" if "entered s t" "entered t u" for s t u :: "'x linker_scheme"
    using that unfolding entered_def by (metis grows_trans le_trans)
qed

lemma more_linker:
  fixes s t :: "'x linker_scheme"
  assumes "est.more t = est.more s"
  shows "next_name t = next_name s" "name_ident t = name_ident s" "name_wanted t = name_wanted s"
    "general_names t = general_names s" "segment_names t = segment_names s" "ifiles t = ifiles s"
    "current_ifile t = current_ifile s" "nsegments t = nsegments s" "seg_tab t = seg_tab s" "next_el t = next_el s"
proof -
  have "t = s\<lparr>name_val := name_val t, name_align := name_align t, name_global := name_global t,
      el_size := el_size t, errors := errors t, shared := shared t, asked := asked t, unsound := unsound t\<rparr>"
    by (rule est.equality) (use assms in simp_all)
  then obtain a b c d e f g h where t: "t = s\<lparr>name_val := a, name_align := b, name_global := c,
      el_size := d, errors := e, shared := f, asked := g, unsound := h\<rparr>" by blast
  show "next_name t = next_name s" "name_ident t = name_ident s" "name_wanted t = name_wanted s"
    "general_names t = general_names s" "segment_names t = segment_names s" "ifiles t = ifiles s"
    "current_ifile t = current_ifile s" "nsegments t = nsegments s" "seg_tab t = seg_tab s" "next_el t = next_el s"
    by (simp_all add: t)
qed

lemma steady_more: "est.more t = est.more s \<Longrightarrow> steady s t"
  using more_linker [of t s] chains_same [of s t] by (simp add: steady_def grows_def)

interpretation steady: expr_frame steady
proof unfold_locales
  show "steady s s" for s :: "'x linker_scheme" by (simp add: steady_def grows_refl)
  show "steady s u" if "steady s t" "steady t u" for s t u :: "'x linker_scheme"
    using that unfolding steady_def by (metis grows_trans)
  show "steady s t" if "same_tables s t" for s t :: "'x linker_scheme"
    using that by (intro steady_more) (simp add: same_tables_def)
qed

named_theorems steady_kept

lemma steady_same:
  assumes "next_name t = next_name s" "name_ident t = name_ident s" "name_wanted t = name_wanted s"
    "general_names t = general_names s" "ifiles t = ifiles s" "current_ifile t = current_ifile s"
    "nsegments t = nsegments s" "\<And>i. seg_fragments (seg_tab t i) = seg_fragments (seg_tab s i)" "next_el s \<le> next_el t"
  shows "steady s t"
  using assms chains_cong [of s t] pending_cong [of t s] by (simp add: steady_def grows_def)

lemma steady_upd_ifile [steady_kept]: "(\<And>f. if_elements (g f) = if_elements f) \<Longrightarrow> keeps steady (upd_ifile i g)"
  unfolding upd_ifile_def
proof (rule keeps_modify)
  fix s :: "'x linker_scheme" assume "\<And>f. if_elements (g f) = if_elements f"
  then have "pending (s\<lparr>ifiles := (ifiles s)[i := g (ifiles s ! i)]\<rparr>) = pending s" by (intro pending_upd) simp
  then show "steady s (s\<lparr>ifiles := (ifiles s)[i := g (ifiles s ! i)]\<rparr>)"
    using chains_cong [of s "s\<lparr>ifiles := (ifiles s)[i := g (ifiles s ! i)]\<rparr>"] by (simp add: steady_def grows_def)
qed

lemma steady_alloc:
  fixes s :: "'x linker_scheme"
  assumes "name_alloc key s = Inr (n, t)"
  shows "steady s t"
  using alloc_fields [OF assms] chains_same [of s t] by (simp add: steady_def grows_def)

lemma steady_tables:
  fixes s :: "'x linker_scheme"
  assumes "listed (general_names s) \<subseteq> listed g"
  shows "steady s (s\<lparr>general_names := g\<rparr>)" "steady s (s\<lparr>segment_names := g'\<rparr>)"
  using assms chains_same [of s "s\<lparr>general_names := g\<rparr>"] chains_same [of s "s\<lparr>segment_names := g'\<rparr>"]
  by (simp_all add: steady_def grows_def)

lemma steady_lookup_table:
  fixes s :: "'x linker_scheme"
  assumes "table_lookup t key s = Inr ((n, t'), s')"
  shows "steady s s' \<and> listed t \<subseteq> listed t' \<and> general_names s' = general_names s"
  using lookup_listed [OF assms] steady_alloc [of key s n s'] alloc_fields(5) [of key s n s'] by (auto simp: steady.refl)

lemma steady_lookup_general [steady_kept]: "keeps steady (lookup_general key)"
proof (rule keepsI)
  fix s s' :: "'x linker_scheme" and np
  assume "lookup_general key s = Inr (np, s')"
  then obtain t' s1 where t: "table_lookup (general_names s) key s = Inr ((np, t'), s1)" and s': "s' = s1\<lparr>general_names := t'\<rparr>"
    by (rule lookup_general_run)
  from steady_lookup_table [OF t] steady_tables(1) [of s1 t'] show "steady s s'"
    unfolding s' by (auto intro: steady.trans)
qed

lemma steady_lookup_segment [steady_kept]: "keeps steady (lookup_segment key)"
proof (rule keepsI)
  fix s s' :: "'x linker_scheme" and np
  assume "lookup_segment key s = Inr (np, s')"
  then obtain t' s1 where t: "table_lookup (segment_names s) key s = Inr ((np, t'), s1)" and s': "s' = s1\<lparr>segment_names := t'\<rparr>"
    by (auto simp: lookup_segment_def outcome_iff)
  from steady_lookup_table [OF t] steady_tables(2) [of s1 "general_names s1" t'] show "steady s s'"
    unfolding s' by (auto intro: steady.trans)
qed

lemma steady_noname [steady_kept]: "keeps steady add_noname"
proof (rule keepsI)
  fix s s' :: "'x linker_scheme" and np
  assume "add_noname s = Inr (np, s')"
  then obtain s1 where a: "name_alloc [] s = Inr (np, s1)"
    and s': "s' = s1\<lparr>general_names := (general_names s)\<lparr>nonames := nonames (general_names s) @ [np]\<rparr>\<rparr>"
    by (auto simp: add_noname_def table_add_noname_def outcome_iff)
  have "listed (general_names s1) \<subseteq> listed ((general_names s)\<lparr>nonames := nonames (general_names s) @ [np]\<rparr>)"
    using alloc_fields(5) [OF a] by (auto simp: listed_eq table_names_def)
  from steady_tables(1) [OF this] steady_alloc [OF a] show "steady s s'"
    unfolding s' by (auto intro: steady.trans)
qed

lemma steady_assign [steady_kept]: "keeps steady (name_assign_value fuel np e)"
  by (rule keepsI) (auto dest!: assign_state intro!: steady_same)

lemma steady_set_align [steady_kept]: "keeps steady (name_set_align fuel np a)"
  unfolding name_set_align_def report_error_def
  by (intro steady.rules keeps_modify steady_same) (auto simp: keeps_def intro!: steady_same)

lemma steady_basic [steady_kept]:
  "keeps steady report_error" "keeps steady (set_body el b)" "keeps steady (set_size el e)"
  "keeps steady (expr_range lo hi)" "keeps steady (estimate fuel e)"
  by (auto simp: keeps_def report_error_def set_body_def set_size_def expr_range_def estimate_def outcome_iff intro!: steady_same)

lemma steady_upd_seg [steady_kept]: "(\<And>g. seg_fragments (f g) = seg_fragments g) \<Longrightarrow> keeps steady (upd_seg sg f)"
  unfolding upd_seg_def by (intro keeps_modify steady_same) simp_all

lemmas steady_quiet [steady_kept] = steady.quiet [OF quiet_binop] steady.quiet [OF quiet_equal]

section \<open>Emitting\<close>

lemma quiet_glue: "quiet (expr_glue_element e el)"
  by (induction e el rule: expr_glue_element.induct) (auto intro!: quiet_intros)

lemma quiet_plus: "quiet (expr_plus_constant e c)" "quiet (expr_plus_element e el)"
proof -
  show q: "quiet (expr_plus_constant e c)" for c
    by (auto simp: expr_plus_constant_def split: expr.split expr_tag.split intro!: quiet_intros)
  show "quiet (expr_plus_element e el)"
    unfolding expr_plus_element_def by (intro quiet_intros q quiet_glue)
qed

lemma steady_upd_point [steady_kept]: "(\<And>e. keeps steady (f e)) \<Longrightarrow> keeps steady (upd_point sg f)"
  unfolding upd_point_def by (intro steady.rules steady_kept) simp_all

lemma steady_add_to_point [steady_kept]: "keeps steady (add_to_point sg el)"
  unfolding add_to_point_def
  by (intro steady.rules steady_kept steady.quiet quiet_plus keeps_modify) (simp add: steady_same steady.refl)

lemma steady_element_alloc: "keeps steady (element_alloc b)"
  by (auto simp: keeps_def element_alloc_def Let_def intro!: steady_same)

text \<open>A new element, at the end of a segment.\<close>

lemma steady_add_element [steady_kept]: "keeps steady (add_element sg b)"
proof (rule keepsI)
  fix s s' :: "'x linker_scheme" and el
  assume "add_element sg b s = Inr (el, s')"
  then obtain t where t: "t = s\<lparr>next_el := Suc el, el_size := (el_size s)(el := Const 0),
                 el_body := (el_body s)(el := b), el_idx := (el_idx s)(el := -1),
                 el_nrefs := (el_nrefs s)(el := 0)\<rparr>" and el: "el = next_el s"
    and fs: "seg_fragments (seg_tab s sg) \<noteq> []"
    and s': "s' = t\<lparr>seg_tab := (seg_tab s)(sg := (seg_tab s sg)\<lparr>seg_fragments := append_el el (seg_fragments (seg_tab s sg)), seg_curel := Some el\<rparr>)\<rparr>"
    by (auto simp: add_element_def element_alloc_def Let_def outcome_iff upd_seg_def split: if_splits)
  have p: "pending s' = pending s" by (rule pending_cong) (simp add: s' t)
  have "chains_ok s'" if ok: "chains_ok s"
  proof (rule chains_append [OF ok fs])
    show "el \<notin> set (elements_of s)" "ran (pending s') \<subseteq> ran (pending s) - {el}" "inj_on (pending s') (dom (pending s'))"
      using ok by (auto simp: chains_ok_def el p)
  qed (simp_all add: s' t el)
  then show "steady s s'" by (simp add: steady_def s' t grows_def)
qed

lemma steady_blocks [steady_kept]:
  "keeps steady (open_block sg)" "keeps steady (make_space el len)" "keeps steady (put_bytes el off bs)"
  "keeps steady (grow_size el n)"
  unfolding open_block_def make_space_def put_bytes_def grow_size_def Let_def by (intro steady.rules steady_kept)+

lemma steady_push_bytes [steady_kept]: "keeps steady (push_bytes sg bs)"
  unfolding push_bytes_def by (intro steady.rules steady_kept steady.quiet quiet_plus)

lemma steady_emit_align [steady_kept]: "keeps steady (emit_align fuel sg align filler)"
  unfolding emit_align_def by (intro steady.rules steady_kept)

section \<open>Reading segments\<close>

lemma steady_reserve [steady_kept]: "keeps steady reserve_element"
  unfolding reserve_element_def by (rule steady_element_alloc)

lemma steady_link_name [steady_kept]: "keeps steady (link_name n)"
  unfolding link_name_def by (intro steady.rules steady_kept)

lemma steady_dummy [steady_kept]: "keeps steady dummy_element"
  unfolding dummy_element_def by (intro steady.rules steady_kept keeps_modify steady_same) simp_all

text \<open>A reference to an element not seen yet gets an identity of its own.\<close>

lemma pending_update:
  "i < length (ifiles s) \<Longrightarrow> pending (s\<lparr>ifiles := (ifiles s)[i := (ifiles s ! i)\<lparr>if_elements := (if_elements (ifiles s ! i))(n := x)\<rparr>]\<rparr>) =
     (pending s)((i, n) := (case x of Some (el, False) \<Rightarrow> Some el | _ \<Rightarrow> None))"
  by (rule ext) (auto simp: pending_def nth_list_update split: option.split)

lemma inj_map_upd:
  assumes "inj_on m (dom m)" "v \<notin> ran m"
  shows "inj_on (m(k \<mapsto> v)) (dom (m(k \<mapsto> v)))" "inj_on (m(k := None)) (dom (m(k := None)))"
proof -
  have v: "m x \<noteq> Some v" for x using assms(2) by (auto simp: ran_def)
  have m: "m x = m y \<Longrightarrow> m x \<noteq> None \<Longrightarrow> x = y" for x y using assms(1) by (metis domIff inj_onD)
  show "inj_on (m(k \<mapsto> v)) (dom (m(k \<mapsto> v)))"
  proof (rule inj_onI)
    fix x y assume "x \<in> dom (m(k \<mapsto> v))" "(m(k \<mapsto> v)) x = (m(k \<mapsto> v)) y"
    then show "x = y" using m [of x y] v [of x] v [of y] by (metis domIff fun_upd_apply)
  qed
  show "inj_on (m(k := None)) (dom (m(k := None)))"
  proof (rule inj_onI)
    fix x y assume "x \<in> dom (m(k := None))" "(m(k := None)) x = (m(k := None)) y"
    then show "x = y" using m [of x y] by (metis domIff fun_upd_apply)
  qed
qed

lemma reserve_run:
  "reserve_element s = Inr (el, t) \<Longrightarrow>
     el = next_el s \<and> next_el t = Suc el \<and> ifiles t = ifiles s \<and> current_ifile t = current_ifile s \<and>
     elements_of t = elements_of s \<and> nsegments t = nsegments s \<and> seg_tab t = seg_tab s"
  by (auto simp: reserve_element_def element_alloc_def Let_def elements_of_def)

lemma steady_set_fresh:
  fixes s :: "'x linker_scheme"
  assumes r: "reserve_element s = Inr (el, t)" and st: "set_element n el False t = Inr (u, s')"
    and new: "current_ifile s < length (ifiles s) \<Longrightarrow> if_elements (ifiles s ! current_ifile s) n = None"
  shows "steady s s'"
proof -
  note rr = reserve_run [OF r]
  let ?i = "current_ifile s"
  have s': "s' = t\<lparr>ifiles := (ifiles t)[?i := (ifiles t ! ?i)\<lparr>if_elements := (if_elements (ifiles t ! ?i))(n := Some (el, False))\<rparr>]\<rparr>"
    using st rr by (simp add: set_element_def upd_ifile_def outcome_iff)
  have "chains_ok s'" if i: "?i < length (ifiles s)" and ok: "chains_ok s"
  proof -
    have p: "pending s' = (pending s)((?i, n) := Some el)"
      using pending_update [of ?i t n "Some (el, False)"] i rr pending_cong [of t s] by (simp add: s')
    have none: "pending s (?i, n) = None" using new [OF i] by (simp add: pending_def)
    have e: "elements_of s' = elements_of s" using rr by (simp add: s' elements_of_def)
    have "ran (pending s') = insert el (ran (pending s))" unfolding p by (rule ran_map_upd [of "pending s", OF none])
    moreover have "inj_on (pending s') (dom (pending s'))"
      unfolding p by (rule inj_map_upd) (use ok rr in \<open>auto simp: chains_ok_def\<close>)
    moreover have "el \<notin> set (elements_of s)" using ok rr by (auto simp: chains_ok_def)
    moreover have "nsegments s' = nsegments s" "seg_tab s' = seg_tab s" "next_el s' = Suc (next_el s)" "el = next_el s"
      using rr by (simp_all add: s')
    ultimately show ?thesis using ok unfolding chains_ok_def e by (auto simp: less_Suc_eq)
  qed
  moreover have "steady s t" using keepsD [OF steady_reserve r] .
  ultimately show ?thesis using rr by (simp add: steady_def grows_def s')
qed

lemma link_element_cases:
  fixes s :: "'x linker_scheme"
  assumes "link_element n s = Inr (e, s')"
  shows "steady s s'"
proof -
  have k: "keeps steady (rbind (if n <s 0 then report_error else rret ()) (\<lambda>_. rget (\<lambda>s. (skipping s, current_ifile s))))"
    by (intro steady.rules steady_kept)
  from assms obtain s1 sk i where 1: "rbind (if n <s 0 then report_error else rret ()) (\<lambda>_. rget (\<lambda>s. (skipping s, current_ifile s))) s = Inr ((sk, i), s1)"
    and 2: "(if sk then dummy_element
       else if n <s 0 then rstop Trap
       else
         rbind (upd_ifile i (\<lambda>f. if if_nelements f \<le> unat n then f\<lparr>if_nelements := unat n + 20\<rparr> else f)) (\<lambda>_.
         rbind (rget (\<lambda>s. if_elements (ifiles s ! i) (unat n))) (\<lambda>r.
           case r of
             Some (el, _) \<Rightarrow> rret (Element el)
           | None \<Rightarrow>
               rbind reserve_element (\<lambda>el.
               rbind (set_element (unat n) el False) (\<lambda>_. rret (Element el)))))) s1 = Inr (e, s')"
    unfolding link_element_def by (auto simp: outcome_iff)
  have i: "i = current_ifile s1" using 1 by (auto simp: outcome_iff)
  have s1: "steady s s1" using keepsD [OF k 1] .
  moreover have "steady s1 s'"
  proof (cases "sk \<or> n <s 0")
    case True
    with 2 show ?thesis using keepsD [OF steady_dummy] by (auto simp: outcome_iff split: if_splits)
  next
    case False
    with 2 obtain u s2 where u: "upd_ifile i (\<lambda>f. if if_nelements f \<le> unat n then f\<lparr>if_nelements := unat n + 20\<rparr> else f) s1 = Inr (u, s2)"
      and 3: "(case if_elements (ifiles s2 ! i) (unat n) of
             Some (el, _) \<Rightarrow> rret (Element el)
           | None \<Rightarrow>
               rbind reserve_element (\<lambda>el.
               rbind (set_element (unat n) el False) (\<lambda>_. rret (Element el)))) s2 = Inr (e, s')"
      by (auto simp: outcome_iff)
    have s2: "steady s1 s2" by (rule keepsD [OF steady_upd_ifile u]) simp
    then have i2: "current_ifile s2 = i" by (simp add: i steady_def)
    have "steady s2 s'"
    proof (cases "if_elements (ifiles s2 ! i) (unat n)")
      case None
      with 3 obtain el t v where "reserve_element s2 = Inr (el, t)" "set_element (unat n) el False t = Inr (v, s')"
        by (auto simp: outcome_iff)
      then show ?thesis by (rule steady_set_fresh) (simp add: i2 None)
    next
      case (Some p)
      with 3 show ?thesis by (cases p) (auto simp: outcome_iff steady.refl)
    qed
    with s2 show ?thesis by (rule steady.trans)
  qed
  ultimately show ?thesis by (rule steady.trans)
qed

lemma steady_link_element [steady_kept]: "keeps steady (link_element n)"
  by (rule keepsI) (rule link_element_cases)

lemma steady_in_expr [steady_kept]: "keeps (lifted steady) in_expr"
  by (rule steady.in_expr_kept) (simp_all add: link_client_def steady_kept)

text \<open>The element itself is in no chain and nothing else refers to it when it is read.\<close>

definition loose :: "nat \<Rightarrow> nat \<Rightarrow> 'x linker_scheme \<Rightarrow> bool" where
  "loose el n s \<longleftrightarrow>
     el < next_el s \<and> el \<notin> set (elements_of s) \<and> el \<notin> ran ((pending s)((current_ifile s, n) := None))"

lemma steady_append:
  fixes s :: "'x linker_scheme"
  assumes a: "append_element sg el b s = Inr (u, t)" and st: "set_element n el True t = Inr (v, s')"
    and l: "Q \<Longrightarrow> current_ifile s < length (ifiles s) \<Longrightarrow> chains_ok s \<Longrightarrow> loose el n s"
  shows "grows s s' \<and> length (ifiles s') = length (ifiles s) \<and> current_ifile s' = current_ifile s \<and>
    (Q \<and> current_ifile s < length (ifiles s) \<and> chains_ok s \<longrightarrow> chains_ok s')"
proof -
  let ?i = "current_ifile s" and ?fs = "seg_fragments (seg_tab s sg)"
  from a have fs: "?fs \<noteq> []"
    and t: "t = s\<lparr>seg_tab := (seg_tab s)(sg := (seg_tab s sg)\<lparr>seg_fragments := append_el el ?fs, seg_curel := Some el\<rparr>),
      el_body := (el_body s)(el := b), el_size := (el_size s)(el := Const 0), el_nrefs := (el_nrefs s)(el := Suc (el_nrefs s el))\<rparr>"
    by (auto simp: append_element_def outcome_iff upd_seg_def set_body_def set_size_def split: if_splits)
  have s': "s' = t\<lparr>ifiles := (ifiles s)[?i := (ifiles s ! ?i)\<lparr>if_elements := (if_elements (ifiles s ! ?i))(n := Some (el, True))\<rparr>]\<rparr>"
    using st by (simp add: set_element_def upd_ifile_def outcome_iff t)
  have "chains_ok s'" if q: Q and i: "?i < length (ifiles s)" and ok: "chains_ok s"
  proof -
    have p: "pending s' = (pending s)((?i, n) := None)"
    proof -
      have "ifiles t = ifiles s" by (simp add: t)
      then show ?thesis using pending_update [of ?i t n "Some (el, True)"] i pending_cong [of t s] by (simp add: s')
    qed
    have el: "el \<notin> set (elements_of s)" "el < next_el s" "el \<notin> ran (pending s')"
      using l [OF q i ok] by (simp_all add: loose_def p)
    show ?thesis
    proof (rule chains_append [OF ok fs _ _ _ el(1)])
      show "ran (pending s') \<subseteq> ran (pending s) - {el}" 
      proof -
        have "ran ((pending s)((?i, n) := None)) \<subseteq> ran (pending s)" by (auto simp: ran_def)
        then show ?thesis using el(3) unfolding p by blast
      qed
      have "inj_on (pending s) (dom (pending s))" using ok by (simp add: chains_ok_def)
      then show "inj_on (pending s') (dom (pending s'))" unfolding p by (simp add: inj_on_def)
    qed (use el(2) in \<open>simp_all add: s' t\<close>)
  qed
  then show ?thesis by (simp add: grows_def s' t)
qed

lemma steady_place [steady_kept]: "keeps steady (place_element sg n b)"
proof (rule keepsI)
  fix s s' :: "'x linker_scheme" and el0
  assume "place_element sg n b s = Inr (el0, s')"
  then obtain e s1 el s2 u s3 v where 1: "link_element (word_of_nat n) s = Inr (e, s1)"
    and 2: "(case if_elements (ifiles s1 ! current_ifile s1) n of Some (el, False) \<Rightarrow> rret el | _ \<Rightarrow> reserve_element) s1 = Inr (el, s2)"
    and 3: "append_element sg el b s2 = Inr (u, s3)" "set_element n el True s3 = Inr (v, s')"
    unfolding place_element_def by (auto simp: outcome_iff)
  let ?sel = "case if_elements (ifiles s1 ! current_ifile s1) n of Some (el, False) \<Rightarrow> rret el | _ \<Rightarrow> reserve_element"
  have "keeps steady (?sel :: ('x linker_scheme, nat) step)"
    by (auto split: option.split prod.split bool.split intro: steady.basic steady_kept)
  from keepsD [OF this 2] have 12: "steady s1 s2" .
  have "loose el n s2" if ok1: "chains_ok s1" and i: "current_ifile s2 < length (ifiles s2)" and ok: "chains_ok s2"
  proof (cases "\<exists>x. if_elements (ifiles s1 ! current_ifile s1) n = Some (x, False)")
    case True
    with 2 have e: "s2 = s1" "if_elements (ifiles s1 ! current_ifile s1) n = Some (el, False)" by (auto simp: outcome_iff)
    then have p: "pending s2 (current_ifile s2, n) = Some el" using i by (simp add: pending_def)
    have inj: "inj_on (pending s2) (dom (pending s2))" and r: "ran (pending s2) \<subseteq> {..<next_el s2} - set (elements_of s2)"
      using ok by (simp_all add: chains_ok_def)
    have "pending s2 q \<noteq> Some el" if "q \<noteq> (current_ifile s2, n)" for q
      using inj p that by (metis domIff inj_onD option.distinct(1))
    moreover have "el \<in> {..<next_el s2} - set (elements_of s2)" using r ranI [of "pending s2", OF p] by (rule subsetD)
    ultimately show ?thesis by (auto simp: loose_def ran_def simp del: split_paired_All split_paired_Ex)
  next
    case False
    with 2 have "reserve_element s1 = Inr (el, s2)" by (auto split: option.splits prod.splits bool.splits)
    note r = reserve_run [OF this]
    have none: "(pending s2)((current_ifile s2, n) := None) = pending s2"
      using False r by (auto simp: pending_def fun_eq_iff split: option.splits)
    have "pending s2 = pending s1" using r by (intro pending_cong) simp
    then show ?thesis using ok1 r unfolding loose_def none chains_ok_def by auto
  qed
  note steady_append [OF 3 this]
  with 12 have "steady s1 s'" unfolding steady_def by (metis grows_trans)
  with link_element_cases [OF 1] show "steady s s'" by (rule steady.trans)
qed

text \<open>A new segment has one fragment, with nothing in it.\<close>

lemma elements_of_Suc:
  "nsegments t = Suc (nsegments s) \<Longrightarrow> (\<And>i. i < nsegments s \<Longrightarrow> seg_fragments (seg_tab t i) = seg_fragments (seg_tab s i)) \<Longrightarrow>
     elements_of t = elements_of s @ concat (map snd (seg_fragments (seg_tab t (nsegments s))))"
  by (auto simp: elements_of_def intro!: arg_cong [of _ _ concat] map_cong)

lemma steady_add_segment [steady_kept]: "keeps steady (add_segment np frag)"
proof (rule keepsI)
  fix s s' :: "'x linker_scheme" and sg
  assume "add_segment np frag s = Inr (sg, s')"
  then obtain g where s': "s' = s\<lparr>nsegments := Suc (nsegments s), name_segment := (name_segment s)(np := Some (nsegments s)),
      seg_tab := (seg_tab s)(nsegments s := g)\<rparr>" and g: "seg_fragments g = [(frag, [])]"
    by (auto simp: add_segment_def add_fragment_def new_segment_def outcome_iff upd_seg_def)
  have p: "pending s' = pending s" by (rule pending_cong) (simp add: s')
  have e: "elements_of s' = elements_of s"
    by (subst elements_of_Suc [of s' s]) (simp_all add: s' g)
  have "chains_ok s'" if ok: "chains_ok s"
    using ok unfolding chains_ok_def e p by (auto simp: s' g less_Suc_eq)
  then show "steady s s'" by (simp add: steady_def s' grows_def)
qed

lemma steady_setup [steady_kept]: "keeps steady (setup_segment fuel al idn)"
  unfolding setup_segment_def by (intro steady.rules steady_kept keeps_modify steady_same) simp_all

lemma steady_start_fragment [steady_kept]: "keeps steady (start_fragment fuel sg np)"
  unfolding start_fragment_def by (intro steady.rules steady_kept)

lemma steady_finish [steady_kept]: "keeps steady (finish_element sg frag el b sz)"
  unfolding finish_element_def by (intro steady.rules steady_kept keeps_modify) (auto intro: steady_same steady.refl)

lemma steady_error_if [steady_kept]: "keeps steady (error_if b)"
  unfolding error_if_def by (intro steady.rules steady_kept)

lemma steady_open_fragment [steady_kept]: "keeps steady (open_fragment fuel sg np al)"
  unfolding open_fragment_def by (intro steady.rules steady_kept keeps_modify steady_same) simp_all

lemmas read_rules = steady.io.rules steady.file_kept keeps_on_tables steady.rules

lemma steady_elements_read [steady_kept]:
  "keeps (lifted steady) (read_block c len)" "keeps (lifted steady) (read_data c)" "keeps (lifted steady) (read_cmd c)"
  "keeps (lifted steady) (skip_dummies fuel)" "keeps (lifted steady) (next_tag c)"
proof -
  show "keeps (lifted steady) (read_block c len)" unfolding read_block_def by (intro read_rules steady_kept)
  show "keeps (lifted steady) (read_data c)" unfolding read_data_def by (intro read_rules steady_kept)
  show "keeps (lifted steady) (read_cmd c)" unfolding read_cmd_def by (intro read_rules steady_kept)
  show "keeps (lifted steady) (next_tag c)" unfolding next_tag_def by (intro read_rules steady_kept)
  show "keeps (lifted steady) (skip_dummies fuel)" by (induction fuel) (simp, intro read_rules steady_kept, simp, intro read_rules steady_kept)
qed

lemma steady_read_segment [steady_kept]: "keeps (lifted steady) (read_segment fuel al i c)"
  unfolding read_segment_def by (intro read_rules steady_kept keeps_modify steady_same) simp_all

lemma steady_read_common [steady_kept]: "keeps (lifted steady) (read_common fuel np al)"
  unfolding read_common_def by (intro read_rules steady_kept)

lemma steady_read_fragment [steady_kept]: "keeps (lifted steady) (read_fragment fuel k i c)"
  unfolding read_fragment_def Let_def by (intro read_rules steady_kept keeps_modify steady_same) (simp_all add: steady_kept)

lemma steady_save [steady_kept]: "keeps (lifted steady) (save_position i)"
proof (rule keepsI)
  fix p q :: "rstate \<times> 'x linker_scheme" and u
  assume run: "save_position i p = Inr (u, q)"
  obtain f s g t where p: "p = (f, s)" and q: "q = (g, t)" by (metis surj_pair)
  from run have "upd_ifile i (\<lambda>x. x\<lparr>if_data := inp f\<rparr>) s = Inr (u, t)"
    by (auto simp: save_position_def p q outcome_iff on_tables_def)
  from keepsD [OF steady_upd_ifile this] show "lifted steady p q" by (simp add: lifted_def p q)
qed

lemma steady_end_segments [steady_kept]: "keeps (lifted steady) (end_segments i)"
  unfolding end_segments_def by (intro read_rules steady_kept)

lemma steady_seg_records [steady_kept]: "keeps (lifted steady) (read_seg_records k fuel al i c)"
proof (induction k arbitrary: c)
  case (Suc k)
  show ?case unfolding read_seg_records.simps by (intro read_rules steady_kept Suc.IH)
qed (simp add: steady.io.basic)

lemma steady_define [steady_kept]: "keeps steady (define_name fuel np e)"
  unfolding define_name_def by (intro steady.rules steady_kept keeps_modify steady_same) simp_all

lemma steady_read_definitions [steady_kept]: "keeps (lifted steady) (read_definitions k fuel i)"
proof (induction k)
  case (Suc k)
  show ?case unfolding read_definitions.simps by (intro read_rules steady_kept Suc.IH)
qed (simp add: steady.io.basic)

section \<open>Passes over files\<close>

definition kept :: "'x linker_scheme \<Rightarrow> 'x linker_scheme \<Rightarrow> bool" where
  "kept s t \<longleftrightarrow>
     grows s t \<and> length (ifiles t) = length (ifiles s) \<and>
     (current_ifile s < length (ifiles s) \<and> chains_ok s \<longrightarrow> current_ifile t < length (ifiles t) \<and> chains_ok t)"

interpretation kept: frame kept
proof unfold_locales
  show "kept s s" for s :: "'x linker_scheme" by (simp add: kept_def grows_refl)
  show "kept s u" if "kept s t" "kept t u" for s t u :: "'x linker_scheme"
    using that unfolding kept_def by (metis grows_trans)
qed

lemma steady_kept_rel: "steady s t \<Longrightarrow> kept s t"
  by (simp add: steady_def kept_def)

lemma kept_steady: "keeps steady m \<Longrightarrow> keeps kept m"
  by (auto simp: keeps_def intro: steady_kept_rel)

lemma steady_with_file:
  fixes m :: "(rstate \<times> 'x linker_scheme, unit) step"
  assumes k: "keeps (lifted steady) m"
  shows "keeps steady (with_file i m)"
proof (rule keepsI)
  fix s s' :: "'x linker_scheme" and u
  assume "with_file i m s = Inr (u, s')"
  then obtain v f t where m: "m (\<lparr>inp = if_data (ifiles s ! i), nerr = 0\<rparr>, s) = Inr (v, (f, t))"
    and s': "s' = t\<lparr>errors := errors t + nerr f\<rparr>"
    by (auto simp: with_file_def outcome_iff)
  have "steady s t" using keepsD [OF k m] by (simp add: lifted_def)
  moreover have "steady t s'" by (rule steady_same) (simp_all add: s')
  ultimately show "steady s s'" by (rule steady.trans)
qed

text \<open>The file being read is the current one from here on.\<close>

lemma kept_current:
  assumes "i < length (ifiles s)" "keeps steady m" "m (s\<lparr>current_ifile := i\<rparr>) = Inr (r, t)"
  shows "kept s t"
proof -
  let ?s = "s\<lparr>current_ifile := i\<rparr>"
  have "steady ?s t" using keepsD [OF assms(2,3)] .
  moreover have "chains_ok s \<Longrightarrow> chains_ok ?s" by (rule chains_same) simp_all
  ultimately show ?thesis using assms(1) by (simp add: kept_def steady_def grows_def)
qed

lemma kept_read_segments:
  assumes "read_segments fuel al i s = Inr (u, s')" "i < length (ifiles s)"
  shows "kept s s'"
proof -
  let ?start = "rbind (setup_segment fuel al default_segment) (\<lambda>sg.
     rbind (rget (\<lambda>s. if_names (ifiles s ! i))) (\<lambda>names.
       if names = [] then rbind report_error (\<lambda>_. rret None)
       else let np = hd names in
         rbind (rget (\<lambda>s. (name_elts s np, name_wanted s np, name_fragment s np))) (\<lambda>(elts, w, frag).
           if elts \<noteq> None then rstop Abort
           else
             rbind (if w \<and> frag then rbind report_error (\<lambda>_. add_noname) else rret np) (\<lambda>np'.
             rbind (if w then rbind (rmodify (\<lambda>s. s\<lparr>name_fragment := (name_fragment s)(np' := True)\<rparr>))
                                (\<lambda>_. start_fragment fuel sg np')
                    else rret ()) (\<lambda>_.
             rbind (rmodify (\<lambda>s. s\<lparr>skipping := \<not> name_wanted s np'\<rparr>)) (\<lambda>_.
               rret (Some \<lparr>cur_segment = sg, cur_fragment = np', cur_element = 0, cur_tag = None\<rparr>)))))))"
  have st: "keeps steady (?start :: ('a linker_scheme, cursor option) step)"
    unfolding Let_def by (intro steady.rules steady_kept keeps_modify steady_same) simp_all
  from assms(1) obtain v f t where
    m: "rbind (on_tables (start_segments fuel al i)) (\<lambda>c.
         case c of None \<Rightarrow> rret () | Some c \<Rightarrow> read_seg_records (Suc (length (if_data (ifiles s ! i)))) fuel al i c)
         (\<lparr>inp = if_data (ifiles s ! i), nerr = 0\<rparr>, s) = Inr (v, (f, t))"
    and s': "s' = t\<lparr>errors := errors t + nerr f\<rparr>"
    by (auto simp: read_segments_def with_file_def outcome_iff simp del: read_seg_records.simps)
  obtain c s1 where 1: "start_segments fuel al i s = Inr (c, s1)"
    and 2: "(case c of None \<Rightarrow> rret () | Some c \<Rightarrow> read_seg_records (Suc (length (if_data (ifiles s ! i)))) fuel al i c)
         (\<lparr>inp = if_data (ifiles s ! i), nerr = 0\<rparr>, s1) = Inr (v, (f, t))"
    using rbind_tables_run [OF m] by blast
  from 1 have "?start (s\<lparr>current_ifile := i\<rparr>) = Inr (c, s1)"
    by (simp add: start_segments_def rbind_apply [of "rmodify _"] rmodify_apply)
  from kept_current [OF assms(2) st this] have "kept s s1" .
  moreover have "keeps (lifted steady) (case c of None \<Rightarrow> rret () | Some c \<Rightarrow> read_seg_records (Suc (length (if_data (ifiles s ! i)))) fuel al i c)"
    by (intro read_rules steady_kept)
  from keepsD [OF this 2] have "steady s1 t" by (simp add: lifted_def)
  then have "kept s1 t" by (rule steady_kept_rel)
  moreover have "kept t s'" by (rule steady_kept_rel, rule steady_same) (simp_all add: s')
  ultimately show ?thesis by (metis kept.trans)
qed

lemma kept_file_definitions:
  assumes "read_file_definitions fuel i s = Inr (u, s')" "i < length (ifiles s)"
  shows "kept s s'"
proof -
  let ?s = "s\<lparr>current_ifile := i, skipping := False\<rparr>" and ?n = "length (if_data (ifiles s ! i))"
  have "with_file i (read_definitions (Suc ?n) fuel i) ?s = Inr (u, s')"
    using assms(1) unfolding read_file_definitions_def rbind_apply rmodify_apply rget_apply obind.simps prod.case by simp
  from keepsD [OF steady_with_file [OF steady_read_definitions] this] have "steady ?s s'" .
  moreover have "chains_ok s \<Longrightarrow> chains_ok ?s" by (rule chains_same) simp_all
  ultimately show ?thesis using assms(2) by (simp add: kept_def steady_def grows_def)
qed

lemma kept_each_wanted:
  assumes one: "\<And>i (s :: 'x linker_scheme) u s'. f i s = Inr (u, s') \<Longrightarrow> i < length (ifiles s) \<Longrightarrow> kept s s'"
  shows "keeps kept (each_wanted f :: ('x linker_scheme, unit) step)"
proof -
  have "each (\<lambda>i. rbind (rget (\<lambda>s. if_wanted (ifiles s ! i))) (\<lambda>w. if w then f i else rret ())) is s = Inr (u, s') \<Longrightarrow>
      set is \<subseteq> {..<length (ifiles s)} \<Longrightarrow> kept s s'" for "is" and s s' :: "'x linker_scheme" and u
  proof (induction "is" arbitrary: s)
    case Nil
    then show ?case by (simp add: outcome_iff kept.refl)
  next
    case (Cons i "is")
    from Cons.prems(1) obtain v t where 1: "(if if_wanted (ifiles s ! i) then f i else rret ()) s = Inr (v, t)"
      and 2: "each (\<lambda>i. rbind (rget (\<lambda>s. if_wanted (ifiles s ! i))) (\<lambda>w. if w then f i else rret ())) is t = Inr (u, s')"
      by (auto simp: outcome_iff)
    have k: "kept s t"
      using 1 one [of i s v t] Cons.prems(2) by (auto simp: outcome_iff kept.refl split: if_splits)
    moreover have "kept t s'" using k Cons.prems(2) by (intro Cons.IH [OF 2]) (simp add: kept_def)
    ultimately show ?case by (rule kept.trans)
  qed
  from this [of "[0..<length (ifiles s)]" s for s] show ?thesis
    unfolding keeps_def each_wanted_def by (simp add: rbind_apply rget_apply atLeast_upt subset_iff)
qed

section \<open>The other passes\<close>

lemma steady_check_errors [steady_kept]: "keeps steady check_errors"
  unfolding check_errors_def by (intro steady.rules)

lemma steady_each_segment: "(\<And>sg. keeps steady (f sg)) \<Longrightarrow> keeps steady (each_segment f)"
  unfolding each_segment_def by (intro steady.rules)

lemma steady_walk: "(\<And>np. keeps steady (f np)) \<Longrightarrow> keeps steady (walk_general f)"
  unfolding walk_general_def table_walk_def by (intro steady.rules)

lemma steady_assign_size [steady_kept]: "keeps steady (assign_size fuel al sg)"
  unfolding assign_size_def by (intro steady.rules steady_kept keeps_modify steady_same) simp_all

lemma steady_check_defined [steady_kept]: "keeps steady (check_defined np)"
  unfolding check_defined_def by (intro steady.rules steady_kept)

lemma steady_reduce [steady_kept]: "keeps steady (reduce_expr fuel e)"
  by (rule keepsI) (auto simp: reduce_expr_def outcome_iff evolves_def dest!: expr_reduce_evolves intro!: steady_more)

lemma steady_range_expr [steady_kept]: "keeps steady (range_expr b)"
  unfolding range_expr_def by (intro steady.rules steady_kept)

lemma steady_passes:
  "keeps steady (pass_optimize_offsets fuel)" "keeps steady pass_freeze" "keeps steady (pass_reduce fuel)"
  unfolding pass_optimize_offsets_def optimize_element_def new_bounds_def pass_freeze_def freeze_element_def
    pass_reduce_def reduce_element_def Let_def
  by (intro steady.rules steady_kept)+

lemma steady_optimize_loop [steady_kept]: "keeps steady (optimize_loop fuel n)"
  by (induction n) (simp add: steady.basic, simp, intro steady.rules steady_passes)

lemma steady_threshold [steady_kept]: "keeps steady (set_threshold fuel sg)"
  unfolding set_threshold_def by (intro steady.rules steady_kept keeps_modify steady_same) simp_all

lemma steady_print_map [steady_kept]: "keeps steady (print_map fuel np)"
  unfolding print_map_def by (intro steady.rules steady_kept keeps_modify steady_same) simp_all

lemma steady_settle: "keeps steady (settle_passes fuel)"
  unfolding settle_passes_def by (intro steady.rules steady_kept steady_passes steady_each_segment steady_walk)

lemma kept_second_pass: "keeps kept (second_pass fuel)"
  unfolding second_pass_def
  by (intro kept.rules kept_each_wanted kept_steady [OF steady_check_errors]
      kept_steady [OF steady_each_segment] kept_steady [OF steady_walk] steady_kept)
    (blast intro: kept_read_segments kept_file_definitions)+

section \<open>The first pass\<close>

named_theorems entered_kept

lemma enteredI:
  assumes "next_name t = next_name s" "name_ident t = name_ident s" "\<And>n. name_wanted s n \<Longrightarrow> name_wanted t n"
    "general_names t = general_names s" "pending t = pending s"
    "length (ifiles s) \<le> length (ifiles t)" "current_ifile t = current_ifile s" "nsegments t = nsegments s" "\<And>i. seg_fragments (seg_tab t i) = seg_fragments (seg_tab s i)" "next_el s \<le> next_el t"
  shows "entered s t"
  using assms chains_cong [of s t] by (simp add: entered_def grows_def all_listed_def)

lemma entered_same:
  assumes "next_name t = next_name s" "name_ident t = name_ident s" "\<And>n. name_wanted s n \<Longrightarrow> name_wanted t n"
    "general_names t = general_names s" "ifiles t = ifiles s" "current_ifile t = current_ifile s"
    "nsegments t = nsegments s" "\<And>i. seg_fragments (seg_tab t i) = seg_fragments (seg_tab s i)" "next_el s \<le> next_el t"
  shows "entered s t"
  by (rule enteredI) (simp_all add: assms pending_cong [OF assms(5)])

lemma entered_upd_ifile [entered_kept]: "(\<And>f. if_elements (g f) = if_elements f) \<Longrightarrow> keeps entered (upd_ifile i g)"
  unfolding upd_ifile_def by (intro keeps_modify enteredI pending_upd) simp_all

lemma entered_lookup [entered_kept]: "keeps entered (lookup_general key)"
proof (rule keepsI)
  fix s s' :: "'x linker_scheme" and np
  assume run: "lookup_general key s = Inr (np, s')"
  then obtain t' s1 where t: "table_lookup (general_names s) key s = Inr ((np, t'), s1)" and s': "s' = s1\<lparr>general_names := t'\<rparr>"
    by (rule lookup_general_run)
  have "steady s s'" by (rule keepsD [OF steady_lookup_general run])
  moreover have "all_listed s'" if "all_listed s"
    using lookup_listed [OF t] alloc_fields [of key s np s1] that by (auto simp: all_listed_def s' less_Suc_eq)
  moreover have "chains_ok s'" if "chains_ok s"
    by (rule chains_same [OF that]) (use lookup_listed [OF t] alloc_fields [of key s np s1] in \<open>auto simp: s'\<close>)
  ultimately show "entered s s'" by (simp add: entered_def steady_def)
qed

lemma entered_basic [entered_kept]:
  "keeps entered report_error" "keeps entered (set_wanted np)" "keeps entered (count_undefined d)"
  "keeps entered (add_source np i)" "keeps entered (add_ref np i)" "keeps entered (add_need np need)"
  by (auto simp: keeps_def report_error_def set_wanted_def count_undefined_def add_source_def add_ref_def add_need_def
      outcome_iff intro!: entered_same)

lemma entered_want [entered_kept]: "keeps entered (want_file i)" "keeps entered (first_source np)"
  unfolding want_file_def first_source_def by (intro entered.rules entered_kept, simp, intro entered.rules)

lemma entered_mark [entered_kept]: "keeps entered (mark_wanted fuel np)"
proof (induction fuel arbitrary: np)
  case (Suc fuel)
  show ?case unfolding mark_wanted.simps by (intro entered.rules entered_kept Suc.IH)
qed (simp add: entered.basic)

lemma entered_hook [entered_kept]: "keeps entered (want_hook key)"
  unfolding want_hook_def by (intro entered.rules entered_kept)

lemma entered_flag [entered_kept]: "keeps entered (flag_name i np n)"
  unfolding flag_name_def define_in_def
  by (intro entered.rules entered_kept keeps_modify entered_same) simp_all

lemma entered_enter [entered_kept]: "keeps entered (enter_name i key)"
  unfolding enter_name_def by (intro entered.rules entered_kept) simp

lemma entered_need [entered_kept]: "keeps entered (need_name fuel np need)"
  unfolding need_name_def by (intro entered.rules entered_kept)

lemmas nametable_rules = entered.io.rules entered.file_kept keeps_on_tables entered.rules

lemma entered_read_needs [entered_kept]: "keeps (lifted entered) (read_needs fuel i np)"
proof (induction fuel)
  case (Suc fuel)
  show ?case unfolding read_needs.simps by (intro nametable_rules entered_kept Suc.IH)
qed (simp add: entered.io.basic)

lemma entered_save [entered_kept]: "keeps (lifted entered) (save_position i)"
proof (rule keepsI)
  fix p q :: "rstate \<times> 'x linker_scheme" and u
  assume run: "save_position i p = Inr (u, q)"
  obtain f s g t where p: "p = (f, s)" and q: "q = (g, t)" by (metis surj_pair)
  from run have "upd_ifile i (\<lambda>x. x\<lparr>if_data := inp f\<rparr>) s = Inr (u, t)"
    by (auto simp: save_position_def p q outcome_iff on_tables_def)
  from keepsD [OF entered_upd_ifile this] show "lifted entered p q" by (simp add: lifted_def p q)
qed

lemma entered_records [entered_kept]: "keeps (lifted entered) (read_records fuel i area)"
proof (induction fuel arbitrary: area)
  case (Suc fuel)
  show ?case
    unfolding read_records.simps read_name_def read_need_list_def
    by (intro nametable_rules entered_kept Suc.IH)
qed (simp add: entered.io.basic)

lemma entered_nametable [entered_kept]: "keeps entered (read_nametable i)"
proof (rule keepsI)
  fix s s' :: "'x linker_scheme" and u
  assume "read_nametable i s = Inr (u, s')"
  then obtain v f t where m: "read_records (Suc (length (if_data (ifiles s ! i)))) i 0 (\<lparr>inp = if_data (ifiles s ! i), nerr = 0\<rparr>, s) = Inr (v, (f, t))"
    and s': "s' = t\<lparr>errors := errors t + nerr f\<rparr>"
    by (auto simp: read_nametable_def with_file_def outcome_iff simp del: read_records.simps)
  have "entered s t" using keepsD [OF entered_records m] by (simp add: lifted_def)
  moreover have "entered t s'" by (rule entered_same) (simp_all add: s')
  ultimately show "entered s s'" by (rule entered.trans)
qed

lemma pending_append: "(\<forall>f\<in>set fs. if_elements f = (\<lambda>_. None)) \<Longrightarrow> pending (s\<lparr>ifiles := ifiles s @ fs\<rparr>) = pending s"
proof (rule ext)
  fix p assume fs: "\<forall>f\<in>set fs. if_elements f = (\<lambda>_. None)"
  have "if_elements (fs ! k) = (\<lambda>_. None)" if "k < length fs" for k using fs that by auto
  then show "pending (s\<lparr>ifiles := ifiles s @ fs\<rparr>) p = pending s p"
    by (cases "fst p < length (ifiles s)") (auto simp: pending_def nth_append)
qed

lemma entered_add_ifiles [entered_kept]: "keeps entered (add_ifiles bytes)"
  unfolding add_ifiles_def
  by (intro entered.rules entered_kept keeps_modify enteredI pending_append) (auto simp: new_ifile_def)

lemma entered_input [entered_kept]: "keeps entered (read_input bytes)"
  unfolding read_input_def by (intro entered.rules entered_kept)

lemma entered_libraries [entered_kept]: "keeps entered (read_libraries libs)"
proof (induction libs)
  case (Cons lib libs)
  show ?case unfolding read_libraries.simps by (intro entered.rules entered_kept Cons.IH)
qed (simp add: entered.basic)

lemma entered_first_pass: "keeps entered (first_pass files libs)"
  unfolding first_pass_def check_errors_def report_undefined_def table_walk_def by (intro entered.rules entered_kept)

section \<open>Options\<close>

lemma entered_assign [entered_kept]: "keeps entered (name_assign_value fuel np e)"
  by (rule keepsI) (auto dest!: assign_state intro!: entered_same)

lemma entered_hook_option [entered_kept]: "keeps entered (define_hook key)"
  unfolding define_hook_def by (intro entered.rules entered_kept keeps_modify entered_same) simp_all

lemma entered_number [entered_kept]: "keeps entered (option_number arg)"
  unfolding option_number_def by (intro entered.rules)

lemma entered_option [entered_kept]: "keeps entered (set_option opt)"
  unfolding set_option_def
  by (cases opt) (simp_all only: link_option.case, (intro entered.rules entered_kept keeps_modify entered_same; simp)+)

lemma entered_start: "keeps entered (start_session fuel opts n)"
  unfolding start_session_def define_symbol_def check_errors_def
  by (intro entered.rules entered_kept keeps_modify entered_same) auto

end
