(* ===== verification/LinkSound.thy ===== *)
theory LinkSound
  imports Chains Merge
begin

text \<open>
  The linker as a whole: what a run that gets through its passes guarantees.
\<close>

section \<open>From the options to the end of the second pass\<close>

definition session_init :: "(nat \<Rightarrow> bool) \<Rightarrow> session" where
  "session_init sh = linker.extend (linker_init sh) (session.fields 4 8 0 [] [] False)"

text \<open>The bookkeeping of the first pass, for some set of names wanted from the start.\<close>

definition bookkept :: "'x linker_scheme \<Rightarrow> 'x linker_scheme \<Rightarrow> bool" where
  "bookkept s t \<longleftrightarrow> ((\<exists>H. resolved H s) \<longrightarrow> (\<exists>H. resolved H t))"

interpretation bookkept: frame bookkept
  by unfold_locales (auto simp: bookkept_def)

lemma bookkept_same:
  assumes "name_wanted t = name_wanted s" "name_defined t = name_defined s" "name_needs t = name_needs s"
    "name_source t = name_source s" "undefined_wanted_count t = undefined_wanted_count s" "ifiles t = ifiles s"
    "next_name t = next_name s" "name_special t = name_special s" "general_names t = general_names s"
  shows "bookkept s t"
proof -
  have "undefined_names t = undefined_names s" by (simp add: undefined_names_def assms)
  then have "resolved H t" if "resolved H s" for H
    by (intro resolved_cong [OF that assms(1-6)]) (use resolvedD(6) [OF that] in \<open>simp_all add: assms\<close>)
  then show ?thesis by (auto simp: bookkept_def)
qed

lemma bookkept_names:
  "keeps bookkept (lookup_general key)" "keeps bookkept (want_hook key)" "keeps bookkept (name_assign_value fuel np e)"
proof -
  show "keeps bookkept (lookup_general key)"
    by (rule keepsI) (use resolved_lookup in \<open>fastforce simp: bookkept_def\<close>)
  show "keeps bookkept (want_hook key)"
    by (rule keepsI) (use resolved_hook in \<open>fastforce simp: bookkept_def\<close>)
  show "keeps bookkept (name_assign_value fuel np e)"
    by (rule keepsI) (auto dest!: assign_state intro!: bookkept_same)
qed

lemma bookkept_option: "keeps bookkept (set_option opt)"
  unfolding set_option_def define_hook_def option_number_def
  by (cases opt) (simp_all only: link_option.case, (intro bookkept.rules bookkept_names keeps_modify bookkept_same; simp)+)

lemma bookkept_start: "keeps bookkept (start_session fuel opts n)"
  unfolding start_session_def define_symbol_def check_errors_def
  by (intro bookkept.rules bookkept_names bookkept_option keeps_modify bookkept_same) auto

lemma session_fields [simp]:
  "name_wanted (session_init sh) = (\<lambda>_. False)" "name_defined (session_init sh) = (\<lambda>_. False)" "name_needs (session_init sh) = (\<lambda>_. [])"
  "name_source (session_init sh) = (\<lambda>_. [])" "undefined_wanted_count (session_init sh) = 0" "ifiles (session_init sh) = []"
  "general_names (session_init sh) = table_init 4096" "current_ifile (session_init sh) = 0" "next_name (session_init sh) = 0" "nsegments (session_init sh) = 0"
  by (simp_all add: session_init_def linker.defs linker_init_def session.defs)

lemma session_resolved: "resolved {} (session_init sh)"
  unfolding resolved_def counted_def needs_in_def needs_rel_def undefined_names_def by simp

lemma session_chains: "chains_ok (session_init sh)" "all_listed (session_init sh)"
proof -
  have "pending (session_init sh) = (\<lambda>_. None)" "elements_of (session_init sh) = []"
    by (simp_all add: pending_def fun_eq_iff elements_of_def)
  then show "chains_ok (session_init sh)" "all_listed (session_init sh)" by (simp_all add: chains_ok_def all_listed_def)
qed

lemma start_resolved:
  assumes "start_session fuel opts n (session_init sh) = Inr (u, s)"
  obtains H where "resolved H s" "all_listed s" "chains_ok s"
proof -
  have "entered (session_init sh) s" by (rule keepsD [OF entered_start assms])
  then have "all_listed s" "chains_ok s" using session_chains by (simp_all add: entered_def)
  moreover have "\<exists>H. resolved H s"
    using keepsD [OF bookkept_start assms] session_resolved by (auto simp: bookkept_def)
  ultimately show ?thesis using that by blast
qed

section \<open>Values\<close>

lemma walk_check_defined:
  "walk_names check_defined ns s = Inr (r, s') \<Longrightarrow>
     errors s \<le> errors s' \<and> s' = s\<lparr>errors := errors s'\<rparr> \<and>
     (errors s' = errors s \<longrightarrow> (\<forall>n\<in>set ns. name_wanted s n \<longrightarrow> name_val s n \<noteq> None \<or> name_loadtime s n))"
proof (induction ns arbitrary: s)
  case Nil
  then show ?case by (simp add: outcome_iff)
next
  case (Cons n ns)
  let ?bad = "name_wanted s n \<and> name_val s n = None \<and> \<not> name_loadtime s n"
  let ?t = "if ?bad then s\<lparr>errors := Suc (errors s)\<rparr> else s"
  have "check_defined n s = Inr (None, ?t)"
    by (simp add: check_defined_def reader_simps report_error_def)
  with Cons.prems have "walk_names check_defined ns ?t = Inr (r, s')" by (simp only: walk_names.simps rbind_apply obind.simps prod.case option.case)
  from Cons.IH [OF this] show ?case by (cases ?bad) auto
qed

lemma second_pass_values:
  assumes "second_pass fuel s = Inr (u, s')"
  shows "errors s' = 0 \<and> (\<forall>n \<in> listed (general_names s'). name_wanted s' n \<longrightarrow> name_val s' n \<noteq> None \<or> name_loadtime s' n)"
proof -
  from assms obtain v t w where wk: "walk_general check_defined t = Inr (v, s')" and e: "errors s' = 0"
    unfolding second_pass_def by (auto simp: check_errors_def outcome_iff split: if_splits)
  from wk obtain r where "walk_names check_defined (table_order (general_names t)) t = Inr (r, s')"
    by (auto simp: walk_general_def table_walk_def outcome_iff)
  from walk_check_defined [OF this] e show ?thesis by (cases t, cases s') (auto split: if_splits)
qed

lemma check_errors_run: "check_errors s = Inr (u, t) \<longleftrightarrow> t = s \<and> errors s = 0"
  by (auto simp: check_errors_def outcome_iff)

lemma first_pass_files:
  assumes "first_pass files libs s = Inr (u, s')" "files \<noteq> []"
  shows "ifiles s' \<noteq> []"
proof -
  obtain bytes rest where f: "files = bytes # rest" using assms(2) by (cases files) auto
  from assms(1) obtain x t y t2 where 1: "each read_input (bytes # rest) s = Inr (x, t)"
    and 2: "read_libraries libs t = Inr (y, t2)" and 3: "ifiles s' = ifiles t2"
    unfolding first_pass_def f rbind_Inr by (auto simp: check_errors_run outcome_iff split: if_splits)
  from 1 obtain n s1 z s2 where a: "add_ifiles bytes s = Inr (n, s1)"
    and r: "each read_nametable [n..<length (ifiles s1)] s1 = Inr (z, s2)" and e: "each read_input rest s2 = Inr (x, t)"
    by (auto simp: read_input_def outcome_iff)
  have "length (ifiles s) < length (ifiles s1)"
    using a by (auto simp: add_ifiles_def outcome_iff report_error_def split: if_splits)
  moreover have "keeps entered (each read_nametable [n..<length (ifiles s1)] :: ('a linker_scheme, unit) step)"
    "keeps entered (each read_input rest :: ('a linker_scheme, unit) step)"
    by (intro entered.rules entered_kept)+
  note keepsD [OF this(1) r] keepsD [OF this(2) e] keepsD [OF entered_libraries 2]
  ultimately show ?thesis by (auto simp: entered_def 3)
qed

section \<open>Names of options\<close>

definition wanted_key :: "byte list \<Rightarrow> 'x linker_scheme \<Rightarrow> bool" where
  "wanted_key key s \<longleftrightarrow> (\<exists>np < next_name s. c_string (name_ident s np) = c_string key \<and> name_wanted s np)"

lemma wanted_key_grows: "wanted_key key s \<Longrightarrow> grows s t \<Longrightarrow> wanted_key key t"
  by (force simp: wanted_key_def grows_def)

lemma key_matches_string:
  assumes "key_matches key idn"
  shows "c_string idn = c_string key"
proof -
  have t: "take (length key) idn = key" and l: "length (takeWhile (\<lambda>b. b \<noteq> 0) idn) = length key"
    using assms by (simp_all add: key_matches_def strlen_def)
  have "takeWhile (\<lambda>b. b \<noteq> 0) idn = key"
    using t takeWhile_eq_take [of "\<lambda>b. b \<noteq> 0" idn] l by simp
  moreover have "takeWhile (\<lambda>b. b \<noteq> 0) (takeWhile (\<lambda>b. b \<noteq> 0) idn) = takeWhile (\<lambda>b. b \<noteq> 0) idn"
    by (auto simp: takeWhile_eq_all_conv dest: set_takeWhileD)
  ultimately show ?thesis unfolding c_string_def by metis
qed

lemma lookup_string:
  fixes s :: "'x linker_scheme"
  assumes "lookup_general key s = Inr (np, s')"
  shows "c_string (name_ident s' np) = c_string key"
proof -
  obtain t' s1 where t: "table_lookup (general_names s) key s = Inr ((np, t'), s1)" and s': "s' = s1\<lparr>general_names := t'\<rparr>"
    by (rule lookup_general_run [OF assms])
  show ?thesis
  proof (cases "name_alloc key s = Inr (np, s1)")
    case True
    then have "name_ident s1 = (name_ident s)(np := key)" by (rule alloc_fields)
    then show ?thesis by (simp add: s')
  next
    case False
    then have k: "key \<noteq> []" "s1 = s"
      using t lookup_listed [OF t] by (auto simp: table_lookup_def table_add_noname_def outcome_iff)
    let ?c = "columns (general_names s) (nat (sint (hash_key key) smod int (ncolumns (general_names s))))"
    have "find (\<lambda>n. key_matches key (name_ident s n)) (column_names ?c) = Some np"
      using t k(1) False
      by (auto simp: table_lookup_def Let_def outcome_iff split: if_splits option.splits)
    then have "key_matches key (name_ident s np)" by (auto simp: find_Some_iff)
    then show ?thesis by (simp add: s' k(2) key_matches_string)
  qed
qed

lemma hook_wanted:
  assumes run: "want_hook key s = Inr (u, s')" and r: "resolved H s"
  shows "wanted_key key s'"
proof -
  from run obtain np s1 where 1: "lookup_general key s = Inr (np, s1)" and 2: "mark_wanted (Suc (next_name s1)) np s1 = Inr (u, s')"
    by (auto simp: want_hook_def rbind_Inr rget_Inr)
  have k: "resolved H s1" "np < next_name s1" using resolved_lookup [OF r 1] by simp_all
  have "name_wanted s' np" using mark_wanted_marked [OF 2 resolvedD(1,2) [OF k(1)] k(2)] by (simp add: marked_def)
  moreover have "entered s1 s'" by (rule keepsD [OF entered_mark 2])
  ultimately show ?thesis
    using lookup_string [OF 1] k(2) unfolding wanted_key_def entered_def grows_def by (metis less_le_trans)
qed

lemma options_wanted:
  "each set_option opts s = Inr (u, s') \<Longrightarrow> resolved H s \<Longrightarrow> ALIGN arg \<in> set opts \<or> HOOK arg \<in> set opts \<Longrightarrow> wanted_key arg s'"
proof (induction opts arbitrary: s H)
  case (Cons opt opts)
  from Cons.prems(1) obtain v t where 1: "set_option opt s = Inr (v, t)" and 2: "each set_option opts t = Inr (u, s')"
    by (auto simp: outcome_iff)
  from keepsD [OF bookkept_option 1] Cons.prems(2) obtain H' where r: "resolved H' t" by (auto simp: bookkept_def)
  show ?case
  proof (cases "ALIGN arg \<in> set opts \<or> HOOK arg \<in> set opts")
    case True
    then show ?thesis by (rule Cons.IH [OF 2 r])
  next
    case False
    with Cons.prems(3) have "opt = ALIGN arg \<or> opt = HOOK arg" by auto
    then obtain s0 w where h: "define_hook arg s0 = Inr (w, t)" and s0: "bookkept s s0"
    proof
      assume "opt = ALIGN arg"
      with 1 obtain n where "define_hook arg (s\<lparr>segment_align := n\<rparr>) = Inr (v, t)"
        by (auto simp: set_option_def option_number_def outcome_iff split: prod.splits if_splits)
      then show thesis by (rule that) (rule bookkept_same, simp_all)
    next
      assume "opt = HOOK arg"
      with 1 show thesis by (intro that [of s v]) (simp_all add: set_option_def bookkept.refl)
    qed
    from h obtain y where y: "want_hook arg s0 = Inr ((), y)" and t: "t = y\<lparr>hooks_defined := Suc (hooks_defined y)\<rparr>"
      by (auto simp: define_hook_def outcome_iff)
    from s0 Cons.prems(2) obtain H0 where "resolved H0 s0" by (auto simp: bookkept_def)
    from hook_wanted [OF y this] have "wanted_key arg t" by (simp add: wanted_key_def t)
    moreover have "keeps entered (each set_option opts :: ('a session_scheme, unit) step)"
      by (intro entered.rules entered_kept)
    from keepsD [OF this 2] have "grows t s'" by (simp add: entered_def)
    ultimately show ?thesis by (rule wanted_key_grows)
  qed
qed simp

lemma start_wanted:
  assumes "start_session fuel opts n (session_init sh) = Inr (u, s)" "ALIGN arg \<in> set opts \<or> HOOK arg \<in> set opts"
  shows "wanted_key arg s"
proof -
  from assms(1) obtain v s1 s2 where 1: "each set_option opts (session_init sh) = Inr (v, s1)"
    and 2: "rbind (rbind (rget defsyms) (each (define_symbol fuel))) (\<lambda>_.
     rbind check_errors (\<lambda>_.
       if n = 0 then rstop Fatal
       else rbind (rget hooks_defined) (\<lambda>n. if n = 0 then want_hook (bytes_of ''@@hook'') else rret ()))) s1 = Inr (u, s)"
    unfolding start_session_def by (simp only: rbind_Inr [of "each set_option opts"]) blast
  have k: "keeps entered (rbind (rbind (rget defsyms) (each (define_symbol fuel))) (\<lambda>_.
     rbind check_errors (\<lambda>_.
       if n = 0 then rstop Fatal
       else rbind (rget hooks_defined) (\<lambda>n. if n = 0 then want_hook (bytes_of ''@@hook'') else rret ()))) :: (session, unit) step)"
    unfolding define_symbol_def check_errors_def
    by (intro entered.rules entered_kept keeps_modify entered_same) auto
  have "entered s1 s" by (rule keepsD [where m = "rbind _ _", OF k 2])
  then show ?thesis
    using wanted_key_grows [OF options_wanted [OF 1 session_resolved assms(2)]] by (simp add: entered_def)
qed

lemma second_state:
  assumes "start_session fuel opts (length files) (session_init sh) = Inr (u, s)" "first_pass files libs s = Inr (v, s1)"
    "second_pass fuel s1 = Inr (w, s2)"
  shows "kept s1 s2 \<and> chains_ok s2 \<and> current_ifile s2 < length (ifiles s2) \<and> all_listed s1 \<and> {n. name_wanted s1 n} \<subseteq> {..<next_name s1}"
proof -
  obtain H where r: "resolved H s" and l: "all_listed s" and c: "chains_ok s" by (rule start_resolved [OF assms(1)])
  have e: "entered s s1" by (rule keepsD [OF entered_first_pass assms(2)])
  have e0: "entered (session_init sh) s" by (rule keepsD [OF entered_start assms(1)])
  have "files \<noteq> []" using assms(1) by (auto simp: start_session_def outcome_iff)
  then have "ifiles s1 \<noteq> []" by (rule first_pass_files [OF assms(2)])
  then have cur: "current_ifile s1 < length (ifiles s1)" using e e0 by (simp add: entered_def)
  have k: "kept s1 s2" by (rule keepsD [OF kept_second_pass assms(3)])
  have "resolved H s1" using first_pass_end [OF r assms(2)] by simp
  then have "{n. name_wanted s1 n} \<subseteq> {..<next_name s1}" by (auto dest!: resolvedD(1) simp: counted_def)
  then show ?thesis using k cur e l c by (simp add: kept_def entered_def)
qed

lemma settled_chains:
  assumes "start_session fuel opts (length files) (session_init sh) = Inr (u, s)" "first_pass files libs s = Inr (v, s1)"
    "second_pass fuel s1 = Inr (w, s2)" "settle_passes fuel s2 = Inr (x, s3)"
  shows "chains_ok s3"
  using second_state [OF assms(1-3)] keepsD [OF steady_settle assms(4)] by (simp add: steady_def)

end
