(* ===== verification/LinkSample.thy ===== *)
theory LinkSample
  imports LinkSound
begin

text \<open>
  A complete run of the linker on an object file with one fragment, a block of two bytes and a half word, which shows
  that the conditions of the theorems on runs of the linker can be met.
\<close>

section \<open>The order of a sparse table\<close>

lemma order_empty:
  "(\<And>c. c < n \<Longrightarrow> f c = Empty) \<Longrightarrow> concat (map (\<lambda>c. column_names (f c)) (rev [0..<n])) = []"
  by (auto simp: concat_eq_Nil_conv)
lemma order_step: assumes "k < n" "\<And>c. k < c \<Longrightarrow> c < n \<Longrightarrow> f c = Empty"
  shows "concat (map (\<lambda>c. column_names (f c)) (rev [0..<n])) = column_names (f k) @ concat (map (\<lambda>c. column_names (f c)) (rev [0..<k]))"
proof -
  have u: "[0..<n] = [0..<k] @ k # [Suc k..<n]" using assms(1) by (metis less_imp_le_nat upt_add_eq_append upt_conv_Cons le_add_diff_inverse zero_le)
  have "concat (map (\<lambda>c. column_names (f c)) (rev [Suc k..<n])) = []" using assms(2) by (auto simp: concat_eq_Nil_conv)
  then show ?thesis by (simp add: u)
qed
lemma order_three: "table_order \<lparr>ncolumns = 4096, columns = (\<lambda>_. Empty)(104 := Single a, 1088 := Single b, 973 := Single c), nonames = []\<rparr> = [b, c, a]"
proof -
  let ?f = "(\<lambda>_. Empty)(104 := Single a, 1088 := Single b, 973 := Single c) :: nat \<Rightarrow> column"
  have n4096: "concat (map (\<lambda>c. column_names (?f c)) (rev [0..<4096])) = column_names (?f 1088) @ concat (map (\<lambda>c. column_names (?f c)) (rev [0..<1088]))"
    by (rule order_step) auto
  have n1088: "concat (map (\<lambda>c. column_names (?f c)) (rev [0..<1088])) = column_names (?f 973) @ concat (map (\<lambda>c. column_names (?f c)) (rev [0..<973]))"
    by (rule order_step) auto
  have n973: "concat (map (\<lambda>c. column_names (?f c)) (rev [0..<973])) = column_names (?f 104) @ concat (map (\<lambda>c. column_names (?f c)) (rev [0..<104]))"
    by (rule order_step) auto
  have n104: "concat (map (\<lambda>c. column_names (?f c)) (rev [0..<104])) = []"
    by (rule order_empty) auto
  show ?thesis by (simp only: table_order_def table.simps n4096 n1088 n973 n104) simp
qed
lemma order_four: "table_order \<lparr>ncolumns = 4096, columns = (\<lambda>_. Empty)(104 := Single a, 1088 := Single b, 973 := Single c, 1496 := Single d), nonames = []\<rparr> = [d, b, c, a]"
proof -
  let ?f = "(\<lambda>_. Empty)(104 := Single a, 1088 := Single b, 973 := Single c, 1496 := Single d) :: nat \<Rightarrow> column"
  have n4096: "concat (map (\<lambda>c. column_names (?f c)) (rev [0..<4096])) = column_names (?f 1496) @ concat (map (\<lambda>c. column_names (?f c)) (rev [0..<1496]))"
    by (rule order_step) auto
  have n1496: "concat (map (\<lambda>c. column_names (?f c)) (rev [0..<1496])) = column_names (?f 1088) @ concat (map (\<lambda>c. column_names (?f c)) (rev [0..<1088]))"
    by (rule order_step) auto
  have n1088: "concat (map (\<lambda>c. column_names (?f c)) (rev [0..<1088])) = column_names (?f 973) @ concat (map (\<lambda>c. column_names (?f c)) (rev [0..<973]))"
    by (rule order_step) auto
  have n973: "concat (map (\<lambda>c. column_names (?f c)) (rev [0..<973])) = column_names (?f 104) @ concat (map (\<lambda>c. column_names (?f c)) (rev [0..<104]))"
    by (rule order_step) auto
  have n104: "concat (map (\<lambda>c. column_names (?f c)) (rev [0..<104])) = []"
    by (rule order_empty) auto
  show ?thesis by (simp only: table_order_def table.simps n4096 n1496 n1088 n973 n104) simp
qed

section \<open>Evaluation\<close>

text \<open>The fuel of the expression routines.\<close>

abbreviation six :: nat where "six \<equiv> Suc (Suc (Suc (Suc (Suc (Suc 0)))))"

lemma head_columns:
  "sint (hash_key [104, 101, 97, 100]) smod 16 = 2"
  "sint (hash_key [104, 101, 97, 100, 64, 64, 115, 116, 97, 114, 116]) smod 4096 = 1088"
  "sint (hash_key [104, 101, 97, 100, 64, 64, 115, 105, 122, 101]) smod 4096 = 973"
  "sint (hash_key [104, 101, 97, 100, 64, 64, 98, 108, 111, 99, 107, 115, 105, 122, 101]) smod 4096 = 1496"
  "sint (hash_key [56]) smod 4096 = 56"
  by code_simp+

lemma head_special:
  "special_kind [104, 101, 97, 100, 64, 64, 115, 116, 97, 114, 116] = 1"
  "special_kind [104, 101, 97, 100, 64, 64, 115, 105, 122, 101] = 2"
  "special_kind [104, 101, 97, 100, 64, 64, 98, 108, 111, 99, 107, 115, 105, 122, 101] = 3"
  "special_kind [104, 101, 97, 100] = 0"
  by code_simp+

lemma small_numbers:
  "[0..<20] = 0 # Suc 0 # [2..<20]" "[0..<2] = [0, Suc 0]"
  "grow_alloc 2 32 = 32" "grow_alloc (Suc (Suc 0)) 32 = 32" "grow_alloc 4 2 = 4"
  by (simp_all add: upt_rec grow_alloc.simps)

lemma small_output:
  "lit_out_marker 0 (Suc (Suc (Suc (Suc (Suc 0))))) 2 = Inr ([255, 7, 2, 5, 0, 0, 0, 0], 13)"
  "lit_out_number (4 :: long) = [4]"
  by code_simp+

lemma optimize_eight:
  "optimize_loop fuel 8 =
     rbind (pass_optimize_offsets fuel) (\<lambda>effect. if effect = 0 then rret True else optimize_loop fuel 7)"
  using optimize_loop.simps(2) [of fuel 7] by simp

lemmas start_evals = start_session_def set_option_def define_hook_def session_init_def linker.defs session.defs
  linker_init_def check_errors_def lookup_evals Let_def word_sle_eq word_sless_alt

lemmas second_evals = each_wanted_def each_segment_def read_segments_def read_file_definitions_def start_segments_def
  setup_segment_def lookup_segment_def default_segment_def c_string_def add_segment_def add_fragment_def new_segment_def upd_seg_def
  name_set_align_def start_fragment_def name_assign_value_def set_value_def next_tag_def read_block_def read_data_def place_element_def
  link_element_def reserve_element_def element_alloc_def append_element_def finish_element_def set_element_def set_body_def set_size_def
  add_to_point_def upd_point_def expr_plus_element_def expr_plus_constant_def end_segments_def error_if_def lit_in_expr_def in_leaf_def
  link_client_def walk_general_def table_walk_def check_defined_def assign_size_def segment_ident_def emit_align_def expr_binop_def define_name_def
  report_error_def expr_binop_general_def expr_asgop_def code_tag_def expr_tags_def tag_isleaf_def tag_isunary_def tag_iscomm_def eval_def

lemmas pass_all = settle_passes_def optimize_eight pass_optimize_offsets_def elements_of_def optimize_element_def pass_freeze_def freeze_element_def
  set_threshold_def pass_reduce_def reduce_element_def reduce_expr_def reduce_node_def arrange_passes_def free_values_def name_free_value_def count_refs_def
  body_exprs_def pass_unroll_def map_segment_def mergeable_data_def merge_data_def unroll_element_def unroll_data_def
  pass_merge_def mergeable_blocks_def merge_block_def is_block_def block_contents_def element_free_def make_space_def put_bytes_def grow_size_def
  data_bytes_def write_output_def index_segment_def pass_output_segments_def out_segment_def out_fragment_def out_element_def lit_out_string_def
  file_indices_def expr_reduce_trivia_def

definition sample_module :: "byte list" where
  "sample_module = [255, 2, 1, 104, 1, 255, 7, 0, 0, 255, 7, 1, 0,
     2, 0x11, 0x22, 255, 0, 2, 0, 5, 250, 0, 1, 250, 0, 2, 250, 255, 7, 2, 0, 255, 7, 3, 0]"

lemma sample_evaluated:
  "obind (start_session six [HOOK [104]] (length [sample_module]) (session_init (\<lambda>_. False))) (\<lambda>(_, s).
   obind (first_pass [sample_module] [] s) (\<lambda>(_, s1).
   obind (second_pass six s1) (\<lambda>(_, s2).
   obind (settle_passes six s2) (\<lambda>(_, s3).
   obind (arrange_passes six s3) (\<lambda>(_, s4).
   obind (write_output s4) (\<lambda>(bs, s5).
     if name_wanted s1 0 \<and> name_val s2 0 = Some (Name 2) \<and> nsegments s3 = 1 \<and> seg_fragments (seg_tab s3 0) = [(2, [0, 1])] \<and>
        segment_ident s3 0 = [104, 101, 97, 100] \<and>
        el_size s3 0 = Const 2 \<and> el_body s3 0 = ELEMENT_BLOCK [0x11, 0x22] 2 \<and>
        el_size s3 1 = Const 2 \<and> el_body s3 1 = ELEMENT_DATA 2 (Const 5) (Const 1) \<and>
        bs = [4, 0x11, 0x22, 5, 0, 255, 7, 2, 5, 0, 0, 0, 0]
     then Inr () else Inl Abort)))))) = Inr ()"
  by (simp add: start_evals first_evals read_evals sample_module_def second_pass_def second_evals pass_all with_file_def
      upd_ifile_def save_position_def bytes_of_def head_columns head_special small_numbers small_output order_three order_four
      reader_simps cong: obind_weak)

lemma sample_run:
  obtains s s1 s2 s3 s4 s5 where
    "start_session six [HOOK [104]] (length [sample_module]) (session_init (\<lambda>_. False)) = Inr ((), s)"
    "first_pass [sample_module] [] s = Inr ((), s1)" "second_pass six s1 = Inr ((), s2)"
    "settle_passes six s2 = Inr ((), s3)" "arrange_passes six s3 = Inr ((), s4)"
    "write_output s4 = Inr ([4, 0x11, 0x22, 5, 0, 255, 7, 2, 5, 0, 0, 0, 0], s5)"
    "name_wanted s1 0" "name_val s2 0 = Some (Name 2)" "nsegments s3 = 1" "seg_fragments (seg_tab s3 0) = [(2, [0, 1])]"
    "segment_ident s3 0 = [104, 101, 97, 100]"
    "el_size s3 0 = Const 2" "el_body s3 0 = ELEMENT_BLOCK [0x11, 0x22] 2"
    "el_size s3 1 = Const 2" "el_body s3 1 = ELEMENT_DATA 2 (Const 5) (Const 1)"
  using sample_evaluated by (auto simp: obind_Inr_iff split: if_splits)

end
