(* ===== verification/LinkOut.thy ===== *)
theory LinkOut
  imports LinkSample
begin

text \<open>
  The end of the linker: the file it writes loads as the program its passes have settled.
\<close>

section \<open>Titles\<close>

text \<open>What names the segments, and what makes their images.\<close>

definition titled :: "'x ments_scheme \<Rightarrow> 'x ments_scheme \<Rightarrow> bool" where
  "titled s t \<longleftrightarrow> nsegments t = nsegments s \<and> name_ident t = name_ident s \<and> (\<forall>i. seg_name (seg_tab t i) = seg_name (seg_tab s i))"

definition pictured :: "'x ments_scheme \<Rightarrow> 'x ments_scheme \<Rightarrow> bool" where
  "pictured s t \<longleftrightarrow>
     titled s t \<and> el_size t = el_size s \<and> el_body t = el_body s \<and>
     (\<forall>i. seg_fragments (seg_tab t i) = seg_fragments (seg_tab s i))"

lemma titled_more:
  fixes s t :: "'x ments_scheme"
  assumes "est.more t = est.more s"
  shows "titled s t"
proof -
  have "t = s\<lparr>name_val := name_val t, name_align := name_align t, name_global := name_global t,
      el_size := el_size t, errors := errors t, shared := shared t, asked := asked t, unsound := unsound t\<rparr>"
    by (rule est.equality) (use assms in simp_all)
  then obtain a b c d e f g h where t: "t = s\<lparr>name_val := a, name_align := b, name_global := c,
      el_size := d, errors := e, shared := f, asked := g, unsound := h\<rparr>" by blast
  show ?thesis by (simp add: t titled_def)
qed

interpretation titled: expr_frame titled
  by unfold_locales (auto simp: same_tables_def intro: titled_more, auto simp: titled_def)

interpretation pictured: frame pictured
  by unfold_locales (auto simp: pictured_def titled_def)

named_theorems titled_kept

lemma titled_basic [titled_kept]:
  "keeps titled report_error" "keeps titled (set_body el b)" "keeps titled (set_size el e)"
  "keeps titled (expr_range lo hi)" "keeps titled (estimate fuel e)" "keeps titled (element_free el)"
  by (auto simp: keeps_def report_error_def set_body_def set_size_def expr_range_def estimate_def element_free_def
      outcome_iff titled_def split: element_body.splits)

lemma titled_reduce [titled_kept]: "keeps titled (reduce_expr fuel e)"
  by (rule keepsI) (auto simp: reduce_expr_def outcome_iff evolves_def dest!: expr_reduce_evolves intro!: titled_more)

lemmas titled_quiet [titled_kept] = titled.quiet [OF quiet_binop] titled.quiet [OF quiet_equal]

lemma titled_blocks [titled_kept]:
  "keeps titled (make_space el len)" "keeps titled (put_bytes el off bs)" "keeps titled (grow_size el n)"
  "keeps titled (range_expr b)" "keeps titled (block_contents el)"
  unfolding make_space_def put_bytes_def grow_size_def range_expr_def block_contents_def Let_def
  by (intro titled.rules titled_kept)+

lemma titled_unroll_element [titled_kept]: "keeps titled (unroll_element fuel th el)"
  unfolding unroll_element_def unroll_data_def unroll_cmd_def by (intro titled.rules titled_kept)

lemma titled_unroll_chain [titled_kept]: "keeps titled (unroll_chain fuel th els)"
proof (induction fuel th els rule: unroll_chain.induct)
  case (3 fuel th el nl els)
  show ?case
    unfolding unroll_chain.simps mergeable_data_def merge_data_def by (intro titled.rules titled_kept 3)
qed (simp_all add: titled.rules titled_kept)

lemma titled_merge_chain [titled_kept]: "keeps titled (merge_chain els)"
proof (induction els rule: merge_chain.induct)
  case (3 el nl els)
  show ?case
    unfolding merge_chain.simps mergeable_blocks_def merge_block_def by (intro titled.rules titled_kept 3)
qed (simp_all add: titled.rules titled_kept)

lemma titled_map_segment:
  assumes "\<And>g els. keeps titled (f g els)"
  shows "keeps titled (map_segment f sg)"
proof -
  have "keeps titled (map_chains (f g) fs)" for g fs
    by (induction "f g" fs rule: map_chains.induct) (simp_all add: titled.rules assms)
  then show ?thesis
    unfolding map_segment_def upd_seg_def by (intro titled.rules keeps_modify) (simp_all add: titled_def)
qed

lemma titled_passes: "keeps titled (pass_unroll fuel)" "keeps titled pass_merge"
  unfolding pass_unroll_def pass_merge_def by (intro titled.rules titled_map_segment titled_kept)+

lemma pictured_free: "keeps pictured free_values"
  unfolding free_values_def walk_general_def table_walk_def name_free_value_def each_segment_def upd_seg_def
  by (intro pictured.rules keeps_modify) (auto simp: pictured_def titled_def)

lemma pictured_index: "keeps pictured (each_segment index_segment)"
  unfolding each_segment_def index_segment_def
  by (intro pictured.rules keeps_modify) (auto simp: pictured_def titled_def)

section \<open>Images\<close>

lemma pictured_image: "pictured s t \<Longrightarrow> segment_image \<rho> t i = segment_image \<rho> s i"
  by (auto simp: pictured_def seg_elements_def chain_image_def intro!: arg_cong [of _ _ concat] map_cong el_image_cong)

lemma pictured_program:
  "pictured s t \<Longrightarrow> program_image \<rho> t [0..<nsegments t] = program_image \<rho> s [0..<nsegments s]"
  by (simp add: program_image_def pictured_image) (simp add: pictured_def titled_def)

lemma pictured_separate: "pictured s t \<Longrightarrow> separate t = separate s"
  by (simp add: pictured_def titled_def separate_def seg_elements_def)

lemma distinct_segments:
  "distinct (concat (map f [0..<n])) \<Longrightarrow>
     (\<forall>i<n. distinct (f i)) \<and> (\<forall>i<n. \<forall>j<n. i \<noteq> j \<longrightarrow> set (f i) \<inter> set (f j) = {})"
proof (induction n)
  case (Suc n)
  then have d: "distinct (f n)" "(\<Union>i<n. set (f i)) \<inter> set (f n) = {}"
    and ih: "\<forall>i<n. distinct (f i)" "\<forall>i<n. \<forall>j<n. i \<noteq> j \<longrightarrow> set (f i) \<inter> set (f j) = {}"
    by (auto simp: atLeast0LessThan)
  then show ?case unfolding less_Suc_eq by blast
qed simp

lemma chains_separate:
  assumes "distinct (elements_of s)" "\<forall>el \<in> set (elements_of s). settled_in s el"
  shows "separate s"
  using distinct_segments [of "\<lambda>i. seg_elements (seg_tab s i)" "nsegments s"] assms
  by (auto simp: separate_def elements_of_eq)

lemma settled_image_length:
  assumes "settled_in s el"
  shows "length (el_image \<rho> s el) = unat (constval (el_size s el))"
proof (cases "el_body s el")
  case (ELEMENT_BLOCK bs k)
  with assms show ?thesis by (auto simp: settled_def is_const_iff el_image_def size_of_def valof_simps)
next
  case (ELEMENT_DATA w v c)
  with assms obtain v' c' where "el_body s el = ELEMENT_DATA w (Const v') (Const c')" by (auto simp: settled_def is_const_iff)
  from settled_data_image(2) [OF assms this] show ?thesis .
next
  case (ELEMENT_CMD op a)
  with assms obtain bs c z where "el_size s el = Const z" "a = Const c" "cmd_generate op c (unat z) = Some bs" "0 < sint z"
    by (auto simp: settled_def is_const_iff)
  moreover from this have "0 < unat z" by (metis less_irrefl sint_0 unat_eq_zero not_gr_zero)
  ultimately show ?thesis
    using ELEMENT_CMD cmd_generate_length [of op c "unat z" bs] by (simp add: el_image_def size_of_def valof_simps)
qed

lemma unat_small: "unat w < 2 ^ 31 \<Longrightarrow> 0 \<le> sint w" for w :: long
  using sint_small [of w] by simp

lemma settled_loadable:
  assumes "settled_in s el" "length (el_image \<rho> s el) < 2 ^ 31"
  shows "el_loadable [] \<rho> s el"
proof -
  obtain z where z: "el_size s el = Const z" using assms(1) by (auto simp: settled_def is_const_iff)
  then have "unat z < 2 ^ 31" using settled_image_length [OF assms(1), of \<rho>] assms(2) by simp
  then have nn: "0 \<le> sint z" by (rule unat_small)
  then have sz: "int (unat z) = sint z" by (rule unat_sint)
  have closed: "closed_expr [] ix \<rho> (Const c)" for ix c by (simp add: closed_expr_def max_expression_depth_def)
  show ?thesis
    using assms(1) nn
    by (cases "el_body s el")
      (auto simp: settled_def is_const_iff el_loadable_def z size_of_def valof_simps closed Let_def simp flip: sz)
qed

lemma chain_length: "el \<in> set els \<Longrightarrow> length (el_image \<rho> s el) \<le> length (chain_image \<rho> s els)"
  by (induction els) auto

lemma segment_length: "i < nsegments s \<Longrightarrow> length (segment_image \<rho> s i) \<le> length (program_image \<rho> s [0..<nsegments s])"
proof -
  have "x \<in> set xs \<Longrightarrow> length (g x) \<le> length (concat (map g xs))" for x :: nat and xs and g :: "nat \<Rightarrow> byte list"
    by (induction xs) auto
  from this [of i "[0..<nsegments s]"] show "i < nsegments s \<Longrightarrow> ?thesis" by (simp add: program_image_def)
qed

lemma arrange_run:
  assumes "arrange_passes fuel s = Inr (u, s')"
  obtains t x t1 y where "pictured s t" "pass_unroll fuel t = Inr (x, t1)" "pass_merge t1 = Inr (y, s')"
proof -
  from assms obtain v t x t1 y where 1: "free_values s = Inr (v, t)" and 2: "pass_unroll fuel t = Inr (x, t1)"
    and 3: "pass_merge t1 = Inr (y, s')"
    by (auto simp: arrange_passes_def outcome_iff check_errors_run)
  from that [OF keepsD [OF pictured_free 1] 2 3] show ?thesis .
qed

lemma output_loads:
  assumes arr: "arrange_passes fuel s = Inr (u, s1)" and out: "write_output s1 = Inr (bs, s2)"
    and d: "distinct (elements_of s)" and st: "\<forall>el \<in> set (elements_of s). settled_in s el"
    and one: "\<forall>i < nsegments s. length (seg_fragments (seg_tab s i)) = 1"
    and idn: "\<forall>i < nsegments s. length (segment_ident s i) \<le> max_segment_name_length"
    and n: "0 < nsegments s" "nsegments s \<le> k"
    and len: "length (program_image \<rho> s [0..<nsegments s]) \<le> 524288" and inp: "linp t = bs @ rest"
  shows "\<exists>t'. crossload k [] t = Inr (program_image \<rho> s [0..<nsegments s], t')"
proof -
  obtain t0 x t1 y where p: "pictured s t0" and un: "pass_unroll fuel t0 = Inr (x, t1)" and mg: "pass_merge t1 = Inr (y, s1)"
    by (rule arrange_run [OF arr])
  have sep: "separate t0" using chains_separate [OF d st] pictured_separate [OF p] by simp
  have small: "\<forall>i<nsegments t0. length (segment_image \<rho> t0 i) < 2 ^ 31"
    using segment_length [of _ t0 \<rho>] pictured_program [OF p, of \<rho>] len by fastforce
  have k1: "images_kept t0 t1" by (rule pass_unroll_kept [OF un sep small])
  have k2: "images_kept t1 s1"
    by (rule pass_merge_kept [OF mg]) (use k1 small in \<open>simp_all add: images_kept_def\<close>)
  have k: "images_kept t0 s1" by (rule images_kept_trans [OF k1 k2])
  from out obtain v s3 b mk q where ix: "each_segment index_segment s1 = Inr (v, s3)"
    and po: "pass_output_segments s3 = Inr b" and mkr: "lit_out_marker 0 (length b) 2 = Inr (mk, q)" and bs: "bs = b @ mk"
    by (auto simp: write_output_def outcome_iff)
  have p3: "pictured s1 s3" by (rule keepsD [OF pictured_index ix])
  have img: "program_image \<rho>' s3 [0..<nsegments s3] = program_image \<rho>' s [0..<nsegments s]" for \<rho>'
    using pictured_program [OF p3] program_image_kept [OF k] pictured_program [OF p] by simp
  have n3: "nsegments s3 = nsegments s" using p p3 k by (simp add: pictured_def titled_def images_kept_def)
  have ti: "titled s s3"
  proof -
    have "titled t0 t1" "titled t1 s1" using keepsD [OF titled_passes(1) un] keepsD [OF titled_passes(2) mg] by simp_all
    then show ?thesis using p p3 by (simp add: pictured_def titled_def)
  qed
  have "linked \<rho> s3"
    unfolding linked_def
  proof (intro allI impI conjI ballI)
    fix i assume i: "i < nsegments s3"
    show "length (c_string (name_ident s3 (seg_name (seg_tab s3 i)))) \<le> max_segment_name_length"
      using idn i ti by (simp add: titled_def segment_ident_def)
    have "length (map fst (seg_fragments (seg_tab s3 i))) = length (map fst (seg_fragments (seg_tab t0 i)))"
      using p3 k i n3 p by (simp add: pictured_def titled_def images_kept_def)
    then show "length (seg_fragments (seg_tab s3 i)) = 1" using one i n3 p by (simp add: pictured_def)
    fix el assume el: "el \<in> set (seg_elements (seg_tab s3 i))"
    have "separate s3" using k p3 pictured_separate [OF p3] by (simp add: images_kept_def)
    then have "settled_in s3 el" using i el by (simp add: separate_def)
    moreover have "length (el_image \<rho> s3 el) \<le> length (program_image \<rho> s3 [0..<nsegments s3])"
      using chain_length [OF el, of \<rho> s3] segment_length [OF i, of \<rho>] by linarith
    ultimately show "el_loadable [] \<rho> s3 el" using len img by (intro settled_loadable) simp_all
  qed
  note crossload_program [OF po mkr this, of k t rest]
  then show ?thesis using n len inp n3 img bs by simp
qed

section \<open>Properties\<close>



text \<open>
  C26: The option \<open>-a\<close> makes its argument a name that is wanted from the start, as \<open>-h\<close> does: after a first pass
  that succeeds the name is there, and it is special or a wanted file defines it.
\<close>

theorem align_option_wants:
  assumes "start_session fuel opts n (session_init sh) = Inr (u, s)" "ALIGN arg \<in> set opts" "first_pass files libs s = Inr (v, s1)"
  shows "\<exists>np < next_name s1. c_string (name_ident s1 np) = c_string arg \<and> name_wanted s1 np \<and>
    (name_special s1 np \<noteq> 0 \<or> name_defined s1 np \<and> if_wanted (ifiles s1 ! hd (name_source s1 np)))"
proof -
  obtain H where r: "resolved H s" by (rule start_resolved [OF assms(1)])
  have "wanted_key arg s" using start_wanted [OF assms(1)] assms(2) by simp
  moreover have "entered s s1" by (rule keepsD [OF entered_first_pass assms(3)])
  ultimately have "wanted_key arg s1" by (simp add: entered_def wanted_key_grows)
  then obtain np where np: "np < next_name s1" "c_string (name_ident s1 np) = c_string arg" "name_wanted s1 np"
    by (auto simp: wanted_key_def)
  have e: "resolved H s1" "undefined_wanted_count s1 = 0" using first_pass_end [OF r assms(3)] by simp_all
  note c = resolvedD(1) [OF e(1)]
  have "undefined_names s1 = {}" using c e(2) undefined_finite [OF c] by (simp add: counted_def)
  then have "name_special s1 np \<noteq> 0 \<or> name_defined s1 np" using np(3) by (auto simp: undefined_names_def)
  then show ?thesis using np c by (auto simp: counted_def)
qed

definition sample_eight :: "byte list" where
  "sample_eight = [255, 2, 1, 56, 1, 255, 7, 0, 0, 255, 7, 1, 0]"

lemma sample_align:
  "obind (start_session six [ALIGN [56]] 1 (session_init (\<lambda>_. False))) (\<lambda>(_, s).
   obind (first_pass [sample_eight] [] s) (\<lambda>(_, s1). if segment_align s = 8 then Inr () else Inl Abort)) = Inr ()"
  by (simp add: start_evals first_evals read_evals sample_eight_def with_file_def strtol_def is_space_def is_digit_def digits_value_def
      option_number_def upd_ifile_def save_position_def bytes_of_def head_columns reader_simps cong: obind_weak)

theorem align_option_wants_witness:
  "\<exists>v s s1 np. first_pass [sample_eight] [] s = Inr (v, s1 :: session) \<and> segment_align s = 8 \<and>
     c_string (name_ident s1 np) = [56] \<and> name_wanted s1 np"
proof -
  from sample_align obtain u s v s1 where 1: "start_session six [ALIGN [56]] 1 (session_init (\<lambda>_. False)) = Inr (u, s)"
    and 2: "first_pass [sample_eight] [] s = Inr (v, s1)" and 3: "segment_align s = 8"
    by (auto simp: obind_Inr_iff split: if_splits)
  have "ALIGN [56] \<in> set [ALIGN [56]]" by simp
  from align_option_wants [OF 1 this 2] 2 3 show ?thesis by (auto simp: c_string_def)
qed

text \<open>
  C12: No element is ever in two places, however nodes are shared and also when elements are referred to before they are read
  or in fragments that are skipped: after the passes that settle sizes, every segment of the program has one fragment, no
  element occurs twice in the chains of all segments, and all of them have been allocated.
\<close>

theorem link_chains:
  assumes "start_session fuel opts (length files) (session_init sh) = Inr (u, s)" "first_pass files libs s = Inr (v, s1)"
    "second_pass fuel s1 = Inr (w, s2)" "settle_passes fuel s2 = Inr (x, s3)"
  shows "distinct (elements_of s3) \<and> set (elements_of s3) \<subseteq> {..<next_el s3} \<and>
    (\<forall>i < nsegments s3. length (seg_fragments (seg_tab s3 i)) = 1)"
  using settled_chains [OF assms] by (simp add: chains_ok_def)

theorem link_chains_witness:
  "\<exists>s2 x s3. settle_passes six s2 = Inr (x, s3 :: session) \<and> distinct (elements_of s3) \<and> elements_of s3 = [0, 1]"
proof (rule sample_run, goal_cases)
  case (1 s s1 s2 s3 s4 s5)
  have "elements_of s3 = [0, 1]" by (simp add: elements_of_def 1)
  with link_chains [OF 1(1-4)] 1(4) show ?case by blast
qed

text \<open>
  C4: What the linker writes is what it has linked, for every sharing of nodes: when the settled elements are constant and fit, the cross-loader
  makes of the file the linker writes exactly the image of the program before data and blocks are rearranged, for
  every program of at most 512 KB.
\<close>

theorem linked_file_loads:
  assumes "start_session fuel opts (length files) (session_init sh) = Inr (u, s)" "first_pass files libs s = Inr (v, s1)"
    "second_pass fuel s1 = Inr (w, s2)" "settle_passes fuel s2 = Inr (x, s3)" "arrange_passes fuel s3 = Inr (y, s4)"
    "write_output s4 = Inr (bs, s5)" "\<forall>el \<in> set (elements_of s3). settled_in s3 el"
    "\<forall>i < nsegments s3. length (segment_ident s3 i) \<le> max_segment_name_length"
    "0 < nsegments s3" "nsegments s3 \<le> k" "length (program_image \<rho> s3 [0..<nsegments s3]) \<le> 524288" "linp t = bs @ rest"
  shows "\<exists>t'. crossload k [] t = Inr (program_image \<rho> s3 [0..<nsegments s3], t')"
proof -
  have "chains_ok s3" by (rule settled_chains [OF assms(1-4)])
  then have "distinct (elements_of s3)" "\<forall>i < nsegments s3. length (seg_fragments (seg_tab s3 i)) = 1"
    by (simp_all add: chains_ok_def)
  from output_loads [OF assms(5,6) this(1) assms(7) this(2) assms(8-12)] show ?thesis .
qed

theorem linked_file_loads_witness:
  "\<exists>s4 s5 t'. write_output s4 = Inr ([4, 0x11, 0x22, 5, 0, 255, 7, 2, 5, 0, 0, 0, 0], s5 :: session) \<and>
     crossload 1 [] (sample_loader [4, 0x11, 0x22, 5, 0, 255, 7, 2, 5, 0, 0, 0, 0] 0) = Inr ([0x11, 0x22, 5, 0], t')"
proof (rule sample_run, goal_cases)
  case (1 s s1 s2 s3 s4 s5)
  have els: "elements_of s3 = [0, 1]" "seg_elements (seg_tab s3 0) = [0, 1]" by (simp_all add: elements_of_def seg_elements_def 1)
  have st: "\<forall>el \<in> set (elements_of s3). settled_in s3 el" using 1 by (simp add: els settled_def)
  have img: "program_image sample_env s3 [0..<nsegments s3] = [0x11, 0x22, 5, 0]"
    using 1 by (simp add: program_image_def els chain_image_def el_image_def size_of_def valof_simps data_unit_def)
  note r = linked_file_loads [OF 1(1-6) st, of 1 sample_env _ "[]"]
  have "\<exists>t'. crossload 1 [] (sample_loader [4, 0x11, 0x22, 5, 0, 255, 7, 2, 5, 0, 0, 0, 0] 0)
      = Inr (program_image sample_env s3 [0..<nsegments s3], t')"
    by (rule r) (simp_all only: img, simp_all add: 1 max_segment_name_length_def sample_loader_def)
  with 1(6) show ?case by (auto simp: img)
qed

end
