(* ===== verification/LinkExpr.thy ===== *)
theory LinkExpr
  imports Chains
begin

text \<open>
  The linker reading expressions of an object file: what it gets is the expression that was written, with the names and
  elements its tables have under the indices.
\<close>

section \<open>The tables of a file\<close>

text \<open>What the leaves of a file stand for, by the indices they were written with.\<close>

definition link_leaf :: "indices \<Rightarrow> 'x linker_scheme \<Rightarrow> expr \<Rightarrow> expr \<Rightarrow> bool" where
  "link_leaf ix s x y =
     (case x of
        Name n \<Rightarrow> (case nth_name (current_ifile s) (name_index ix n) s of None \<Rightarrow> False | Some m \<Rightarrow> y = Name m)
      | Element n \<Rightarrow> (case if_elements (ifiles s ! current_ifile s) (unat (el_index ix n)) of None \<Rightarrow> False | Some (el, _) \<Rightarrow> y = Element el)
      | _ \<Rightarrow> False)"

text \<open>The tables only grow, and errors are counted.\<close>

definition extends :: "'x linker_scheme \<Rightarrow> 'x linker_scheme \<Rightarrow> bool" where
  "extends s t \<longleftrightarrow>
     errors s \<le> errors t \<and> skipping t = skipping s \<and> current_ifile t = current_ifile s \<and> length (ifiles t) = length (ifiles s) \<and>
     (\<forall>i. if_names (ifiles t ! i) = if_names (ifiles s ! i)) \<and>
     (\<forall>i n p. if_elements (ifiles s ! i) n = Some p \<longrightarrow> if_elements (ifiles t ! i) n = Some p)"

lemma extends_same:
  "errors s \<le> errors t \<Longrightarrow> skipping t = skipping s \<Longrightarrow> current_ifile t = current_ifile s \<Longrightarrow> ifiles t = ifiles s \<Longrightarrow> extends s t"
  by (simp add: extends_def)

lemma extends_trans: "extends s t \<Longrightarrow> extends t u \<Longrightarrow> extends s u"
  unfolding extends_def by simp

lemma more_skipping:
  fixes s t :: "'x linker_scheme"
  assumes "est.more t = est.more s"
  shows "skipping t = skipping s"
proof -
  have "t = s\<lparr>name_val := name_val t, name_align := name_align t, name_global := name_global t,
      el_size := el_size t, errors := errors t, shared := shared t, asked := asked t, unsound := unsound t\<rparr>"
    by (rule est.equality) (use assms in simp_all)
  then obtain a b c d e f g h where t: "t = s\<lparr>name_val := a, name_align := b, name_global := c,
      el_size := d, errors := e, shared := f, asked := g, unsound := h\<rparr>" by blast
  show ?thesis by (simp add: t)
qed

definition reading_expr :: "nat \<Rightarrow> 'x linker_scheme \<Rightarrow> bool" where
  "reading_expr k s \<longleftrightarrow> k \<le> errors s \<and> \<not> skipping s \<and> current_ifile s < length (ifiles s)"

lemma link_name_leaf:
  assumes "link_name (name_index ix n) s = Inr (m, t)"
  shows "extends s t \<and> (errors t = errors s \<longrightarrow> link_leaf ix t (Name n) (Name m))"
proof (cases "nth_name (current_ifile s) (name_index ix n) s")
  case None
  with assms have "add_noname (s\<lparr>errors := Suc (errors s)\<rparr>) = Inr (m, t)"
    by (simp add: link_name_def report_error_def rbind_def rget_def)
  then have "errors t = Suc (errors s)" "skipping t = skipping s" "current_ifile t = current_ifile s" "ifiles t = ifiles s"
    by (auto simp: add_noname_def table_add_noname_def name_alloc_def outcome_iff Let_def)
  then show ?thesis by (simp add: extends_same)
next
  case (Some np)
  with assms show ?thesis by (auto simp: link_name_def outcome_iff link_leaf_def extends_same)
qed

lemma link_element_leaf:
  assumes "link_element (el_index ix n) s = Inr (e, t)" "\<not> skipping s" "current_ifile s < length (ifiles s)"
  shows "extends s t \<and> (\<exists>m. e = Element m) \<and> link_leaf ix t (Element n) e"
proof -
  let ?i = "current_ifile s" and ?n = "unat (el_index ix n)"
  let ?f = "if if_nelements (ifiles s ! ?i) \<le> ?n then (ifiles s ! ?i)\<lparr>if_nelements := ?n + 20\<rparr> else ifiles s ! ?i"
  let ?s = "s\<lparr>ifiles := (ifiles s)[?i := ?f]\<rparr>"
  have nonneg: "\<not> el_index ix n <s 0" using assms(1,2) by (auto simp: link_element_def outcome_iff report_error_def split: if_splits)
  have el: "if_elements ?f = if_elements (ifiles s ! ?i)" "if_names ?f = if_names (ifiles s ! ?i)" by simp_all
  have ext: "extends s ?s" using assms(3) el by (auto simp: extends_def nth_list_update)
  show ?thesis
  proof (cases "if_elements (ifiles s ! ?i) ?n")
    case (Some p)
    then obtain m d where "if_elements ?f ?n = Some (m, d)" using el by (cases p) simp
    with assms nonneg have "e = Element m" "t = ?s"
      by (auto simp: link_element_def upd_ifile_def outcome_iff split: if_splits)
    then show ?thesis using ext \<open>if_elements ?f ?n = Some (m, d)\<close> assms(3) by (simp add: link_leaf_def)
  next
    case None
    then have none: "if_elements ?f ?n = None" using el by simp
    with assms nonneg obtain m s1 where a: "reserve_element ?s = Inr (m, s1)" and b: "set_element ?n m False s1 = Inr ((), t)" and e: "e = Element m"
      by (auto simp: link_element_def upd_ifile_def outcome_iff split: if_splits)
    from a have s1: "errors s1 = errors s" "skipping s1 = skipping s" "current_ifile s1 = ?i" "ifiles s1 = (ifiles s)[?i := ?f]"
      by (auto simp: reserve_element_def element_alloc_def Let_def)
    from b have t: "t = s1\<lparr>ifiles := (ifiles s)[?i := ?f\<lparr>if_elements := (if_elements ?f)(?n := Some (m, False))\<rparr>]\<rparr>"
      using s1 assms(3) by (simp add: set_element_def upd_ifile_def outcome_iff)
    have "extends s t" using s1 el none assms(3) by (auto simp: t extends_def nth_list_update)
    then show ?thesis using e assms(3) s1 by (simp add: t link_leaf_def)
  qed
qed

lemma extends_leaf: "link_leaf ix s x y \<Longrightarrow> extends s t \<Longrightarrow> link_leaf ix t x y"
  by (cases x) (auto simp: link_leaf_def extends_def nth_name_def Let_def split: option.splits prod.splits if_splits)

interpretation link_exprs: expr_source link_client ix "reading_expr k" extends "\<lambda>s x y. errors s = k \<longrightarrow> link_leaf ix s x y" for ix k
proof unfold_locales
  fix s t u :: "'x linker_scheme"
  show "extends s s" by (simp add: extends_same)
  show "extends s t \<Longrightarrow> extends t u \<Longrightarrow> extends s u" by (rule extends_trans)
  show "extends s t" if "calm s t"
    using that more_linker [of t s] more_skipping [of t s] by (intro extends_same) (simp_all add: calm_def same_tables_def)
  show "reading_expr k s \<Longrightarrow> extends s t \<Longrightarrow> reading_expr k t"
    by (auto simp: reading_expr_def extends_def)
  show "errors t = k \<longrightarrow> link_leaf ix t x y"
    if "reading_expr k s" "errors s = k \<longrightarrow> link_leaf ix s x y" "extends s t" for x y
    using that extends_leaf [of ix s x y t] by (auto simp: reading_expr_def extends_def)
  show "extends s t \<and> (errors t = k \<longrightarrow> link_leaf ix t (Name n) (Name m))"
    if "reading_expr k s" "name_by_index link_client (name_index ix n) s = Inr (m, t)" for n m
    using that link_name_leaf [of ix n s m t] by (auto simp: link_client_def reading_expr_def extends_def)
  show "extends s t \<and> (\<exists>m. e = Element m) \<and> (errors t = k \<longrightarrow> link_leaf ix t (Element n) e)"
    if "reading_expr k s" "element_by_index link_client (el_index ix n) s = Inr (e, t)" for n e
    using that link_element_leaf [of ix n s e t] by (auto simp: link_client_def reading_expr_def)
  show "extends s t \<and> (\<exists>j. e = Range j lo hi)"
    if "reading_expr k s" "new_range link_client lo hi s = Inr (e, t)" for lo hi e
    using that by (auto simp: link_client_def expr_range_def outcome_iff intro: extends_same)
qed

section \<open>Properties\<close>

text \<open>
  C19: What the linker reads is what was written: when an expression written with the indices of an object file is read back
  without an error, the reader leaves the rest of the file and returns an expression with the value of the one written, in which each
  name and element is replaced by what the linker's tables hold under its index.
\<close>

theorem linker_reads_expr:
  assumes "lit_out_expr ix e = Inr bs" "wf_expr False e" "\<not> skipping s" "current_ifile s < length (ifiles s)"
    "in_expr (\<lparr>inp = bs @ rest, nerr = k\<rparr>, s) = Inr (e', (f, t))" "errors t = errors s"
  shows "f = \<lparr>inp = rest, nerr = k\<rparr> \<and> wf_expr False e' \<and>
    (\<exists>e1. renamed (link_leaf ix t) e e1 \<and> (\<forall>\<rho>. valof \<rho> e' = valof \<rho> e1))"
proof -
  from assms(5) lit_in_out_expr [OF assms(1) wf_tags_ok [OF assms(2)], of link_client rest k s]
  have r: "reread link_client ix e s = Inr (e', t)" and f: "f = \<lparr>inp = rest, nerr = k\<rparr>"
    by (auto simp: outcome_iff)
  have ready: "reading_expr (errors s) s" using assms(3,4) by (simp add: reading_expr_def)
  from link_exprs.reread_sound [OF r assms(2) ready] assms(6) f show ?thesis by auto
qed

text \<open>A file with two names, read for the first reference to its element 7.\<close>

definition sample_reader :: linker where
  "sample_reader = (linker_init (\<lambda>_. False))\<lparr>ifiles := [(new_ifile False [])\<lparr>if_names := [7, 8]\<rparr>]\<rparr>"

definition sample_indices :: indices where
  "sample_indices = \<lparr>name_index = (\<lambda>n. word_of_nat n - 4), el_index = (\<lambda>n. word_of_nat n - 2)\<rparr>"

abbreviation sample_written_expr :: expr where
  "sample_written_expr \<equiv> Binop EXPR_PLUS (Name 5) (Binop EXPR_MINUS (Const 40) (Element 9))"

lemma sample_reread:
  "obind (reread link_client sample_indices sample_written_expr sample_reader) (\<lambda>(e, t).
     if e = Binop EXPR_PLUS (Name 8) (Binop EXPR_MINUS (Const 40) (Element 0)) \<and> errors t = 0 then Inr () else Inl Abort) = Inr ()"
  by (simp add: sample_indices_def sample_reader_def link_client_def link_name_def link_element_def nth_name_def new_ifile_def
      linker_init_def reserve_element_def element_alloc_def set_element_def upd_ifile_def expr_binop_def expr_binop_general_def
      tag_iscomm_def reader_simps Let_def word_sless_alt cong: obind_weak)

theorem linker_reads_expr_witness:
  "\<exists>t e1. in_expr (\<lparr>inp = [1, 1, 0, 40, 26, 7, 5, 6, 250, 0xff], nerr = 0\<rparr>, sample_reader) =
      Inr (Binop EXPR_PLUS (Name 8) (Binop EXPR_MINUS (Const 40) (Element 0)), (\<lparr>inp = [0xff], nerr = 0\<rparr>, t)) \<and>
    renamed (link_leaf sample_indices t) sample_written_expr e1 \<and>
    (\<forall>\<rho>. valof \<rho> (Binop EXPR_PLUS (Name 8) (Binop EXPR_MINUS (Const 40) (Element 0))) = valof \<rho> e1)"
proof -
  have out: "lit_out_expr sample_indices sample_written_expr = Inr [1, 1, 0, 40, 26, 7, 5, 6, 250]"
    by code_simp
  have wf: "wf_expr False sample_written_expr" by (simp add: tag_isleaf_def tag_isunary_def)
  from sample_reread obtain t where "reread link_client sample_indices sample_written_expr sample_reader =
      Inr (Binop EXPR_PLUS (Name 8) (Binop EXPR_MINUS (Const 40) (Element 0)), t)" and t: "errors t = 0"
    by (auto simp: obind_Inr_iff split: if_splits)
  then have run: "in_expr (\<lparr>inp = [1, 1, 0, 40, 26, 7, 5, 6, 250] @ [0xff], nerr = 0\<rparr>, sample_reader) =
      Inr (Binop EXPR_PLUS (Name 8) (Binop EXPR_MINUS (Const 40) (Element 0)), (\<lparr>inp = [0xff], nerr = 0\<rparr>, t))"
    using lit_in_out_expr [OF out wf_tags_ok [OF wf], of link_client "[0xff]" 0 sample_reader] by simp
  have "\<not> skipping sample_reader" "current_ifile sample_reader < length (ifiles sample_reader)" "errors t = errors sample_reader"
    using t by (simp_all add: sample_reader_def linker_init_def)
  from linker_reads_expr [OF out wf this(1,2) run this(3)] run show ?thesis by auto
qed

end
