(* ===== verification/Asm.thy ===== *)
theory Asm
  imports Ments
begin

text \<open>
  The assembler: the actions of the parser (\<open>ast/parse.y\<close>) and the main program (\<open>ast/ast.c\<close>).  The source
  file is the list of its statements as the grammar groups them; scanner and grammar are input of \<open>flex\<close>
  and \<open>bison\<close>.
\<close>

section \<open>Source\<close>

text \<open>
  What an expression consists of; parentheses and the unary \<open>+\<close> leave no trace.  An identifier is looked up where
  the parser reduces it, which is at most one token after the scanner does.
\<close>

datatype source_expr =
    TOK_NUMBER long
  | TOK_NAME "byte list"
  | DOT
  | TOK_DIGREF_B nat
  | TOK_DIGREF_F nat
  | BINARY expr_tag source_expr source_expr
  | UNARY expr_tag source_expr
  | QUESTOP source_expr source_expr source_expr

datatype datum =
    DATUM source_expr
  | UNSET
  | REPEATED source_expr source_expr
  | UNSET_REPEATED source_expr
  | TOK_STRING "byte list"

datatype statement =
    LABEL "byte list"
  | LOCAL_LABEL "byte list"
  | TOK_DIGLAB nat
  | TOK_CMD_DIRECT byte source_expr
  | TOK_CMD_DIRECT_PCREL byte source_expr
  | TOK_CMD_INDIR long
  | TOK_CMD_FPU long
  | TOK_SEGMENT "byte list"
  | TOK_GLOBL "byte list"
  | TOK_COMM "byte list" source_expr
  | TOK_NEED "byte list"
  | TOK_SLOT source_expr
  | TOK_BYTE "datum list"
  | TOK_HALF "datum list"
  | TOK_WORD "datum list"
  | TOK_ALIGN source_expr "source_expr option"
  | ASSIGNMENT "byte list" source_expr
  | EMPTY_STATEMENT
  | SYNTAX_ERROR

section \<open>State\<close>

text \<open>
  The tables of names, the current segment, the labels \<open>0:\<close> to \<open>9:\<close>, and the vectors of stored \<open>.need\<close>
  directives and of global names.
\<close>

record asm = ments +
  asm_names :: table
  asm_segments :: table
  curseg :: nat
  backlab :: "nat \<Rightarrow> expr option"
  forwlab :: "nat \<Rightarrow> nat option"
  deferred_needs :: "(nat \<times> nat) list"
  global_names :: "nat list"

definition scan_name :: "byte list \<Rightarrow> ('x asm_scheme, nat) step" where
  "scan_name key =
     rbind (rget asm_names) (\<lambda>t. rbind (table_lookup t key) (\<lambda>(np, t').
     rbind (rmodify (\<lambda>s. s\<lparr>asm_names := t'\<rparr>)) (\<lambda>_. rret np)))"

definition scan_segment :: "byte list \<Rightarrow> ('x asm_scheme, nat) step" where
  "scan_segment key =
     rbind (rget asm_segments) (\<lambda>t. rbind (table_lookup t key) (\<lambda>(np, t').
     rbind (rmodify (\<lambda>s. s\<lparr>asm_segments := t'\<rparr>)) (\<lambda>_. rret np)))"

definition new_noname :: "('x asm_scheme, nat) step" where
  "new_noname =
     rbind (rget asm_names) (\<lambda>t. rbind (table_add_noname t) (\<lambda>(np, t').
     rbind (rmodify (\<lambda>s. s\<lparr>asm_names := t'\<rparr>)) (\<lambda>_. rret np)))"

definition set_defined :: "nat \<Rightarrow> ('x names_scheme, unit) step" where
  "set_defined np = rmodify (\<lambda>s. s\<lparr>name_defined := (name_defined s)(np := True)\<rparr>)"

definition set_fragment :: "nat \<Rightarrow> ('x names_scheme, unit) step" where
  "set_fragment np = rmodify (\<lambda>s. s\<lparr>name_fragment := (name_fragment s)(np := True)\<rparr>)"

definition set_common :: "nat \<Rightarrow> ('x names_scheme, unit) step" where
  "set_common np = rmodify (\<lambda>s. s\<lparr>name_common := (name_common s)(np := True)\<rparr>)"

definition set_align :: "nat \<Rightarrow> long \<Rightarrow> ('x est_scheme, unit) step" where
  "set_align np a = rmodify (\<lambda>s. s\<lparr>name_align := (name_align s)(np := a)\<rparr>)"

definition globalize_name :: "nat \<Rightarrow> ('x asm_scheme, unit) step" where
  "globalize_name np =
     rmodify (\<lambda>s. if name_global s np then s
                  else s\<lparr>name_global := (name_global s)(np := True),
                         name_idx := (name_idx s)(np := word_of_nat (length (global_names s))),
                         global_names := global_names s @ [np]\<rparr>)"

definition report_if :: "bool \<Rightarrow> ('x est_scheme, unit) step" where
  "report_if b = (if b then report_error else rret ())"

section \<open>Alignment\<close>

definition drop_pending_alignment :: "nat \<Rightarrow> ('x ments_scheme, unit) step" where
  "drop_pending_alignment sg = upd_seg sg (\<lambda>g. g\<lparr>pending_alignment := 1, pending_filler := None\<rparr>)"

text \<open>After padding, the point starts again from a name that is known to be aligned.\<close>

definition restart_point :: "nat \<Rightarrow> nat \<Rightarrow> ('x asm_scheme, unit) step" where
  "restart_point fuel sg =
     rbind new_noname (\<lambda>np.
     rbind (rget (\<lambda>s. (seg_point (seg_tab s sg), pending_alignment (seg_tab s sg)))) (\<lambda>(point, a).
       case point of
         None \<Rightarrow> rstop Trap
       | Some p \<Rightarrow>
           rbind (name_assign_value fuel np p) (\<lambda>_.
           rbind (set_align np a) (\<lambda>_.
           rbind (set_defined np) (\<lambda>_.
             upd_seg sg (\<lambda>g. g\<lparr>seg_point := Some (Name np)\<rparr>))))))"

definition do_pending_alignment :: "nat \<Rightarrow> nat \<Rightarrow> ('x asm_scheme, unit) step" where
  "do_pending_alignment fuel sg =
     rbind (rget (\<lambda>s. (pending_alignment (seg_tab s sg), pending_filler (seg_tab s sg)))) (\<lambda>(a, filler).
       case filler of
         None \<Rightarrow> rstop Trap
       | Some f \<Rightarrow>
           rbind (emit_align fuel sg a f) (\<lambda>emitted.
           rbind (if emitted then restart_point fuel sg else rret ()) (\<lambda>_.
             drop_pending_alignment sg)))"

text \<open>The two lines in front of most actions.\<close>

definition settle_alignment :: "nat \<Rightarrow> ('x asm_scheme, nat) step" where
  "settle_alignment fuel =
     rbind (rget curseg) (\<lambda>sg.
     rbind (rget (\<lambda>s. pending_alignment (seg_tab s sg))) (\<lambda>a.
     rbind (if 1 <s a then do_pending_alignment fuel sg else rret ()) (\<lambda>_.
       rret sg)))"

section \<open>Expressions\<close>

definition current_point :: "nat \<Rightarrow> ('x asm_scheme, expr) step" where
  "current_point fuel =
     rbind (settle_alignment fuel) (\<lambda>sg.
     rbind (rget (\<lambda>s. seg_point (seg_tab s sg))) (\<lambda>p.
       case p of Some e \<Rightarrow> rret e | None \<Rightarrow> rstop Trap))"

text \<open>A reference back to a label that was never there follows a null pointer.\<close>

definition back_reference :: "nat \<Rightarrow> ('x asm_scheme, expr) step" where
  "back_reference d =
     rbind (rget (\<lambda>s. backlab s d)) (\<lambda>r. case r of Some e \<Rightarrow> rret e | None \<Rightarrow> rstop Trap)"

definition forward_reference :: "nat \<Rightarrow> ('x asm_scheme, expr) step" where
  "forward_reference d =
     rbind (rget (\<lambda>s. forwlab s d)) (\<lambda>r.
       case r of
         Some np \<Rightarrow> rret (Name np)
       | None \<Rightarrow> rbind new_noname (\<lambda>np.
                  rbind (rmodify (\<lambda>s. s\<lparr>forwlab := (forwlab s)(d := Some np)\<rparr>)) (\<lambda>_. rret (Name np))))"

fun parse_expr :: "nat \<Rightarrow> source_expr \<Rightarrow> ('x asm_scheme, expr) step" where
  "parse_expr fuel (TOK_NUMBER n) = rret (Const n)"
| "parse_expr fuel (TOK_NAME key) = rbind (scan_name key) (\<lambda>np. rret (Name np))"
| "parse_expr fuel DOT = current_point fuel"
| "parse_expr fuel (TOK_DIGREF_B d) = back_reference d"
| "parse_expr fuel (TOK_DIGREF_F d) = forward_reference d"
| "parse_expr fuel (BINARY t l r) =
     rbind (parse_expr fuel l) (\<lambda>e1. rbind (parse_expr fuel r) (\<lambda>e2. expr_binop t e1 e2))"
| "parse_expr fuel (UNARY t r) = rbind (parse_expr fuel r) (\<lambda>e. expr_unop t e)"
| "parse_expr fuel (QUESTOP c a b) =
     rbind (parse_expr fuel c) (\<lambda>e1. rbind (parse_expr fuel a) (\<lambda>e2. rbind (parse_expr fuel b) (\<lambda>e3.
       rret (expr_questop e1 e2 e3))))"

section \<open>Labels\<close>

definition assign_point :: "nat \<Rightarrow> nat \<Rightarrow> nat \<Rightarrow> ('x asm_scheme, unit) step" where
  "assign_point fuel sg np =
     rbind (rget (\<lambda>s. seg_point (seg_tab s sg))) (\<lambda>p.
       case p of Some e \<Rightarrow> name_assign_value fuel np e | None \<Rightarrow> rstop Trap)"

text \<open>A global label starts a fragment; another one gets the current point as its value.\<close>

definition label :: "nat \<Rightarrow> byte list \<Rightarrow> ('x asm_scheme, unit) step" where
  "label fuel key =
     rbind (scan_name key) (\<lambda>np.
     rbind (rget (\<lambda>s. (name_defined s np, name_global s np, curseg s, pending_alignment (seg_tab s (curseg s)))))
       (\<lambda>(defined, global, sg, a).
     rbind (report_if defined) (\<lambda>_.
     rbind (set_defined np) (\<lambda>_.
       if global
       then rbind (set_fragment np) (\<lambda>_.
            rbind (set_align np a) (\<lambda>_.
            rbind (drop_pending_alignment sg) (\<lambda>_. add_fragment sg np)))
       else rbind (set_align np a) (\<lambda>_.
            rbind (settle_alignment fuel) (\<lambda>_. assign_point fuel sg np))))))"

definition local_label :: "nat \<Rightarrow> byte list \<Rightarrow> ('x asm_scheme, unit) step" where
  "local_label fuel key =
     rbind (scan_name key) (\<lambda>np.
     rbind (rget (\<lambda>s. name_defined s np)) (\<lambda>defined.
     rbind (report_if defined) (\<lambda>_.
     rbind (settle_alignment fuel) (\<lambda>sg.
     rbind (set_defined np) (\<lambda>_. assign_point fuel sg np)))))"

definition digit_label :: "nat \<Rightarrow> nat \<Rightarrow> ('x asm_scheme, unit) step" where
  "digit_label fuel d =
     rbind (current_point fuel) (\<lambda>p.
     rbind (rmodify (\<lambda>s. s\<lparr>backlab := (backlab s)(d := Some p)\<rparr>)) (\<lambda>_.
     rbind (rget (\<lambda>s. forwlab s d)) (\<lambda>r.
       case r of
         None \<Rightarrow> rret ()
       | Some np \<Rightarrow>
           rbind (name_assign_value fuel np p) (\<lambda>_.
           rbind (set_defined np) (\<lambda>_.
             rmodify (\<lambda>s. s\<lparr>forwlab := (forwlab s)(d := None)\<rparr>))))))"

section \<open>Commands\<close>

definition direct_cmd :: "nat \<Rightarrow> byte \<Rightarrow> source_expr \<Rightarrow> ('x asm_scheme, unit) step" where
  "direct_cmd fuel opcode arg =
     rbind (parse_expr fuel arg) (\<lambda>e.
     rbind (settle_alignment fuel) (\<lambda>sg. emit_cmd fuel sg opcode e))"

text \<open>The operand of a jump is relative to the end of the command, a name that is defined once it is emitted.\<close>

definition pcrel_cmd :: "nat \<Rightarrow> byte \<Rightarrow> source_expr \<Rightarrow> ('x asm_scheme, unit) step" where
  "pcrel_cmd fuel opcode arg =
     rbind (parse_expr fuel arg) (\<lambda>e.
     rbind new_noname (\<lambda>np.
     rbind (settle_alignment fuel) (\<lambda>sg.
     rbind (expr_binop EXPR_MINUS e (Name np)) (\<lambda>temp.
     rbind (emit_cmd fuel sg opcode temp) (\<lambda>_.
     rbind (assign_point fuel sg np) (\<lambda>_. set_defined np))))))"

definition indirect_cmd :: "nat \<Rightarrow> long \<Rightarrow> ('x asm_scheme, unit) step" where
  "indirect_cmd fuel n =
     rbind (settle_alignment fuel) (\<lambda>sg. emit_cmd fuel sg opcode_opr (Const n))"

definition fpu_cmd :: "nat \<Rightarrow> long \<Rightarrow> ('x asm_scheme, unit) step" where
  "fpu_cmd fuel n =
     rbind (settle_alignment fuel) (\<lambda>sg.
     rbind (emit_cmd fuel sg opcode_ldc (Const n)) (\<lambda>_. emit_cmd fuel sg opcode_opr (Const 0xab)))"

section \<open>Directives\<close>

text \<open>A nameless fragment, not to be unified with those of other files.\<close>

definition default_fragment :: "('x asm_scheme, nat) step" where
  "default_fragment =
     rbind new_noname (\<lambda>np.
     rbind (globalize_name np) (\<lambda>_.
     rbind (set_fragment np) (\<lambda>_.
     rbind (set_defined np) (\<lambda>_. rret np))))"

definition second_fragment :: "nat \<Rightarrow> ('x asm_scheme, unit) step" where
  "second_fragment sg = rbind default_fragment (add_fragment sg)"

definition bss_ident :: "byte list" where
  "bss_ident = bytes_of ''bss''"

text \<open>The segment \<open>bss\<close> gets two default fragments.\<close>

definition segment_directive :: "byte list \<Rightarrow> ('x asm_scheme, unit) step" where
  "segment_directive key =
     rbind (scan_segment key) (\<lambda>np.
     rbind (rget (\<lambda>s. (name_segment s np, name_ident s np))) (\<lambda>(seg, idn).
       case seg of
         Some sg \<Rightarrow> rmodify (\<lambda>s. s\<lparr>curseg := sg\<rparr>)
       | None \<Rightarrow>
           rbind default_fragment (\<lambda>frag.
           rbind (add_segment np frag) (\<lambda>sg.
           rbind (rmodify (\<lambda>s. s\<lparr>curseg := sg\<rparr>)) (\<lambda>_.
             if c_string idn = bss_ident then second_fragment sg else rret ())))))"

definition globl_directive :: "byte list \<Rightarrow> ('x asm_scheme, unit) step" where
  "globl_directive key =
     rbind (scan_name key) (\<lambda>np.
     rbind (rget (\<lambda>s. \<not> name_global s np \<and> name_defined s np)) (\<lambda>b.
     rbind (report_if b) (\<lambda>_. globalize_name np)))"

definition bss_segment :: "('x asm_scheme, nat) step" where
  "bss_segment =
     rbind (scan_segment bss_ident) (\<lambda>np.
     rbind (rget (\<lambda>s. name_segment s np)) (\<lambda>seg.
       case seg of
         Some sg \<Rightarrow> rret sg
       | None \<Rightarrow>
           rbind default_fragment (\<lambda>frag.
           rbind (add_segment np frag) (\<lambda>sg.
           rbind (second_fragment sg) (\<lambda>_. rret sg)))))"

text \<open>
  A common fragment is emitted at the end of \<open>bss\<close> and meant to be moved in front of the fragment that was last
  before it.  It takes the pending alignment of the current segment.
\<close>

definition comm_directive :: "nat \<Rightarrow> byte list \<Rightarrow> source_expr \<Rightarrow> ('x asm_scheme, unit) step" where
  "comm_directive fuel key extent =
     rbind (scan_name key) (\<lambda>np.
     rbind (parse_expr fuel extent) (\<lambda>count.
     rbind bss_segment (\<lambda>bss.
     rbind (rget (\<lambda>s. (name_defined s np, curseg s, pending_alignment (seg_tab s (curseg s))))) (\<lambda>(defined, sg, a).
     rbind (report_if defined) (\<lambda>_.
     rbind (globalize_name np) (\<lambda>_.
     rbind (set_fragment np) (\<lambda>_.
     rbind (set_defined np) (\<lambda>_.
     rbind (set_common np) (\<lambda>_.
     rbind (set_align np a) (\<lambda>_.
     rbind (drop_pending_alignment sg) (\<lambda>_.
     rbind (add_fragment bss np) (\<lambda>_.
     rbind (emit_data fuel bss 1 (Const 0) count) (\<lambda>_.
       swap_last_fragments bss)))))))))))))"

text \<open>The needs of a name that is not global must wait for its definition.\<close>

definition need_directive :: "byte list \<Rightarrow> ('x asm_scheme, unit) step" where
  "need_directive key =
     rbind (scan_name key) (\<lambda>np.
     rbind (rget (\<lambda>s. (name_global s np, seg_fragments (seg_tab s (curseg s))))) (\<lambda>(global, fs).
       if fs = [] then rstop Trap
       else if global then add_need (fst (last fs)) np
       else rmodify (\<lambda>s. s\<lparr>deferred_needs := deferred_needs s @ [(fst (last fs), np)]\<rparr>)))"

definition slot_directive :: "nat \<Rightarrow> source_expr \<Rightarrow> ('x asm_scheme, unit) step" where
  "slot_directive fuel arg =
     rbind (parse_expr fuel arg) (\<lambda>e.
     rbind (rget curseg) (\<lambda>sg.
       if is_const e then upd_seg sg (\<lambda>g. g\<lparr>seg_slot := constval e\<rparr>) else report_error))"

section \<open>Data\<close>

definition put_datum :: "nat \<Rightarrow> long \<Rightarrow> datum \<Rightarrow> ('x asm_scheme, unit) step" where
  "put_datum fuel width d =
     (case d of
        DATUM v \<Rightarrow>
          rbind (parse_expr fuel v) (\<lambda>e.
          rbind (settle_alignment fuel) (\<lambda>sg. emit_data fuel sg width e (Const 1)))
      | UNSET \<Rightarrow> rbind (settle_alignment fuel) (\<lambda>sg. emit_data fuel sg width (Const 0) (Const 1))
      | REPEATED v n \<Rightarrow>
          rbind (parse_expr fuel v) (\<lambda>e.
          rbind (parse_expr fuel n) (\<lambda>count.
          rbind (settle_alignment fuel) (\<lambda>sg. emit_data fuel sg width e count)))
      | UNSET_REPEATED n \<Rightarrow>
          rbind (parse_expr fuel n) (\<lambda>count.
          rbind (settle_alignment fuel) (\<lambda>sg. emit_data fuel sg width (Const 0) count))
      | TOK_STRING bs \<Rightarrow>
          rbind (settle_alignment fuel) (\<lambda>sg.
            if width \<noteq> 1 then report_error else emit_block sg bs))"

text \<open>The check in front of words and half-words may only warn; it stops the assembler where \<open>expr_check_alignment\<close> does.\<close>

definition check_data_alignment :: "nat \<Rightarrow> long \<Rightarrow> ('x asm_scheme, unit) step" where
  "check_data_alignment fuel width =
     rbind (rget curseg) (\<lambda>sg.
     rbind (rget (\<lambda>s. (pending_alignment (seg_tab s sg), seg_point (seg_tab s sg)))) (\<lambda>(a, p).
       if a <s width
       then case p of
              None \<Rightarrow> rstop Trap
            | Some e \<Rightarrow> rbind (\<lambda>s. obind (expr_check_alignment fuel s e width) (\<lambda>x. Inr (x, s))) (\<lambda>_. rret ())
       else rret ()))"

definition data_directive :: "nat \<Rightarrow> long \<Rightarrow> datum list \<Rightarrow> ('x asm_scheme, unit) step" where
  "data_directive fuel width ds =
     rbind (if width = 1 then rret () else check_data_alignment fuel width) (\<lambda>_. each (put_datum fuel width) ds)"

definition text_ident :: "byte list" where
  "text_ident = bytes_of ''text''"

definition default_filler :: "('x asm_scheme, expr) step" where
  "default_filler =
     rbind (rget (\<lambda>s. name_ident s (seg_name (seg_tab s (curseg s))))) (\<lambda>idn.
       rret (Const (if c_string idn = text_ident then ucast opcode_pfix else 0)))"

text \<open>The first of two alignments is emitted, the second one waits.\<close>

definition align_directive :: "nat \<Rightarrow> source_expr \<Rightarrow> source_expr option \<Rightarrow> ('x asm_scheme, unit) step" where
  "align_directive fuel al fill =
     rbind (parse_expr fuel al) (\<lambda>e.
     rbind (case fill of None \<Rightarrow> default_filler | Some f \<Rightarrow> parse_expr fuel f) (\<lambda>filler.
       if \<not> is_const e then report_error
       else if constval e <s 1 then rret ()
       else rbind (settle_alignment fuel) (\<lambda>sg.
              upd_seg sg (\<lambda>g. g\<lparr>pending_alignment := constval e, pending_filler := Some filler\<rparr>))))"

definition assignment :: "nat \<Rightarrow> byte list \<Rightarrow> source_expr \<Rightarrow> ('x asm_scheme, unit) step" where
  "assignment fuel key arg =
     rbind (scan_name key) (\<lambda>np.
     rbind (parse_expr fuel arg) (\<lambda>e.
     rbind (rget (\<lambda>s. name_defined s np)) (\<lambda>defined.
       if defined then report_error
       else rbind (set_defined np) (\<lambda>_. name_assign_value fuel np e))))"

section \<open>Statements\<close>

fun parse_statement :: "nat \<Rightarrow> statement \<Rightarrow> ('x asm_scheme, unit) step" where
  "parse_statement fuel (LABEL key) = label fuel key"
| "parse_statement fuel (LOCAL_LABEL key) = local_label fuel key"
| "parse_statement fuel (TOK_DIGLAB d) = digit_label fuel d"
| "parse_statement fuel (TOK_CMD_DIRECT opcode arg) = direct_cmd fuel opcode arg"
| "parse_statement fuel (TOK_CMD_DIRECT_PCREL opcode arg) = pcrel_cmd fuel opcode arg"
| "parse_statement fuel (TOK_CMD_INDIR n) = indirect_cmd fuel n"
| "parse_statement fuel (TOK_CMD_FPU n) = fpu_cmd fuel n"
| "parse_statement fuel (TOK_SEGMENT key) = segment_directive key"
| "parse_statement fuel (TOK_GLOBL key) = globl_directive key"
| "parse_statement fuel (TOK_COMM key extent) = comm_directive fuel key extent"
| "parse_statement fuel (TOK_NEED key) = need_directive key"
| "parse_statement fuel (TOK_SLOT arg) = slot_directive fuel arg"
| "parse_statement fuel (TOK_BYTE ds) = data_directive fuel 1 ds"
| "parse_statement fuel (TOK_HALF ds) = data_directive fuel 2 ds"
| "parse_statement fuel (TOK_WORD ds) = data_directive fuel 4 ds"
| "parse_statement fuel (TOK_ALIGN al fill) = align_directive fuel al fill"
| "parse_statement fuel (ASSIGNMENT key arg) = assignment fuel key arg"
| "parse_statement fuel EMPTY_STATEMENT = rret ()"
| "parse_statement fuel SYNTAX_ERROR = report_error"

definition initialize :: "('x asm_scheme, unit) step" where
  "initialize =
     rbind new_noname (\<lambda>frag.
     rbind (scan_segment default_segment) (\<lambda>np.
     rbind (globalize_name frag) (\<lambda>_.
     rbind (set_fragment frag) (\<lambda>_.
     rbind (set_defined frag) (\<lambda>_.
     rbind (add_segment np frag) (\<lambda>sg.
       rmodify (\<lambda>s. s\<lparr>curseg := sg, forwlab := (\<lambda>_. None), backlab := (\<lambda>_. None)\<rparr>)))))))"

text \<open>The end of parsing: hanging references, undefined names, the stored needs.\<close>

definition check_forward :: "nat \<Rightarrow> ('x asm_scheme, unit) step" where
  "check_forward d =
     rbind (rget (\<lambda>s. forwlab s d)) (\<lambda>r.
       case r of None \<Rightarrow> rret () | Some np \<Rightarrow> rbind report_error (\<lambda>_. set_defined np))"

definition complain_undefined :: "nat \<Rightarrow> ('x names_scheme, unit option) step" where
  "complain_undefined np =
     rbind (rget (\<lambda>s. \<not> name_defined s np \<and> \<not> name_global s np)) (\<lambda>b. rbind (report_if b) (\<lambda>_. rret None))"

definition walk_asm_names :: "(nat \<Rightarrow> ('x asm_scheme, unit option) step) \<Rightarrow> ('x asm_scheme, unit) step" where
  "walk_asm_names fcn = rbind (rget asm_names) (\<lambda>t. rbind (table_walk t fcn) (\<lambda>_. rret ()))"

definition add_deferred_need :: "nat \<Rightarrow> nat \<times> nat \<Rightarrow> ('x asm_scheme, unit) step" where
  "add_deferred_need fuel d =
     rbind (reduce_expr fuel (Name (snd d))) (record_needs (fst d))"

definition finish_parsing :: "nat \<Rightarrow> ('x asm_scheme, unit) step" where
  "finish_parsing fuel =
     rbind (each check_forward [0..<10]) (\<lambda>_.
     rbind (walk_asm_names complain_undefined) (\<lambda>_.
     rbind (rget deferred_needs) (each (add_deferred_need fuel))))"

definition yyparse :: "nat \<Rightarrow> statement list \<Rightarrow> ('x asm_scheme, unit) step" where
  "yyparse fuel source =
     rbind initialize (\<lambda>_. rbind (each (parse_statement fuel) source) (\<lambda>_. finish_parsing fuel))"

section \<open>Passes\<close>

fun asm_optimize :: "nat \<Rightarrow> nat \<Rightarrow> ('x ments_scheme, unit) step" where
  "asm_optimize fuel 0 = rret ()"
| "asm_optimize fuel (Suc n) =
     rbind (pass_optimize_offsets fuel) (\<lambda>effect.
     rbind check_errors (\<lambda>_.
       if effect = 0 then rret () else asm_optimize fuel n))"

definition free_points :: "('x ments_scheme, unit) step" where
  "free_points = rmodify (\<lambda>s. s\<lparr>seg_tab := (\<lambda>i. if i < nsegments s then (seg_tab s i)\<lparr>seg_point := None\<rparr> else seg_tab s i)\<rparr>)"

text \<open>
  What refers to an element when the points are gone: the sizes and contents of elements, the values of names, the
  labels \<open>0:\<close> to \<open>9:\<close> and the fillers of alignments that never came.  The passes that ask come after those that
  rewrite expressions, so the references are counted there.
\<close>

definition element_exprs :: "'x ments_scheme \<Rightarrow> expr list" where
  "element_exprs s = concat (map (\<lambda>x. el_size s x # body_exprs (el_body s x)) (elements_of s))"

definition held_exprs :: "'x asm_scheme \<Rightarrow> expr list" where
  "held_exprs s =
     List.map_filter (name_val s) [0..<next_name s] @ List.map_filter (backlab s) [0..<10] @
     List.map_filter (\<lambda>i. pending_filler (seg_tab s i)) [0..<nsegments s]"

definition recount_refs :: "('x asm_scheme, unit) step" where
  "recount_refs =
     rmodify (\<lambda>s. s\<lparr>el_nrefs := (\<lambda>el. sum_list (map (\<lambda>e. count_elements e el) (element_exprs s @ held_exprs s)))\<rparr>)"

definition asm_passes :: "nat \<Rightarrow> nat \<Rightarrow> ('x asm_scheme, unit) step" where
  "asm_passes fuel maxpasses =
     rbind free_points (\<lambda>_.
     rbind (asm_optimize fuel maxpasses) (\<lambda>_.
     rbind (pass_canonicalize fuel) (\<lambda>_.
     rbind check_errors (\<lambda>_.
     rbind recount_refs (\<lambda>_.
     rbind (pass_unroll fuel) (\<lambda>_.
     rbind check_errors (\<lambda>_.
     rbind pass_merge (\<lambda>_.
     rbind check_errors (\<lambda>_.
     rbind pass_needs (\<lambda>_. check_errors))))))))))"

section \<open>Output\<close>

fun output_names :: "'x names_scheme \<Rightarrow> long \<Rightarrow> nat list \<Rightarrow> byte list outcome" where
  "output_names s last_index [] = Inr []"
| "output_names s last_index (n # ns) =
     obind (lit_out_ntab_entry last_index (name_idx s n) (c_string (name_ident s n)) (name_defined s n)
       (name_fragment s n) (name_common s n)) (\<lambda>(b, last_index').
     obind (output_names s last_index' ns) (\<lambda>bs. Inr (b @ bs)))"

definition output_nametable :: "'x asm_scheme \<Rightarrow> byte list outcome" where
  "output_nametable s = output_names s (-1) (global_names s)"

text \<open>The needs of a name that is no fragment are those of its value.\<close>

definition form_needs :: "nat \<Rightarrow> nat \<Rightarrow> ('x ments_scheme, unit) step" where
  "form_needs fuel np =
     rbind (rget (\<lambda>s. (name_fragment s np, name_val s np))) (\<lambda>(frag, v).
       if frag then rret ()
       else case v of
              None \<Rightarrow> rstop Abort
            | Some e \<Rightarrow> rbind (reduce_expr fuel e) (\<lambda>e'. rbind (set_value np e') (\<lambda>_. record_needs np e')))"

definition needs_record :: "'x names_scheme \<Rightarrow> nat \<Rightarrow> byte list" where
  "needs_record s np =
     (if name_needs s np = [] then []
      else lit_out_number LIT_NEEDS @ lit_out_number (name_idx s np)
             @ concat (map (\<lambda>m. lit_out_number (name_idx s m)) (name_needs s np)) @ lit_out_number (-1 :: long))"

definition output_needs1 :: "nat \<Rightarrow> nat \<Rightarrow> ('x ments_scheme, byte list) step" where
  "output_needs1 fuel np =
     rbind (rget (\<lambda>s. name_global s np \<and> name_defined s np)) (\<lambda>b.
       if b then rbind (form_needs fuel np) (\<lambda>_. rget (\<lambda>s. needs_record s np)) else rret [])"

fun collect :: "('a \<Rightarrow> ('s, 'b list) step) \<Rightarrow> 'a list \<Rightarrow> ('s, 'b list) step" where
  "collect f [] = rret []"
| "collect f (x # xs) = rbind (f x) (\<lambda>bs. rbind (collect f xs) (\<lambda>bs'. rret (bs @ bs')))"

definition output_needs :: "nat \<Rightarrow> ('x asm_scheme, byte list) step" where
  "output_needs fuel = rbind (rget asm_names) (\<lambda>t. collect (output_needs1 fuel) (table_order t))"

definition output_definitions1 :: "nat \<Rightarrow> ('x ments_scheme, byte list) step" where
  "output_definitions1 np =
     rbind (rget (\<lambda>s. (name_global s np \<and> name_defined s np \<and> \<not> name_fragment s np, name_val s np))) (\<lambda>(b, v).
       if \<not> b then rret []
       else case v of
              None \<Rightarrow> rstop Abort
            | Some e \<Rightarrow>
                (\<lambda>s. obind (lit_out_expr (file_indices s) e) (\<lambda>x.
                       Inr (lit_out_number LIT_NAMEDEF @ lit_out_number (name_idx s np) @ x, s))))"

definition output_definitions :: "('x asm_scheme, byte list) step" where
  "output_definitions = rbind (rget asm_names) (\<lambda>t. collect output_definitions1 (table_order t))"

text \<open>An area and its marker; the position behind it is where the next area starts.\<close>

definition close_area :: "long \<Rightarrow> byte list \<Rightarrow> byte list \<Rightarrow> byte list outcome" where
  "close_area area before bs =
     obind (lit_out_marker (length before) (length (before @ bs)) area) (\<lambda>(mk, _). Inr (before @ bs @ mk))"

definition output_object :: "nat \<Rightarrow> ('x asm_scheme, byte list) step" where
  "output_object fuel =
     rbind (\<lambda>s. obind (obind (output_nametable s) (close_area 0 [])) (\<lambda>f. Inr (f, s))) (\<lambda>f.
     rbind (output_needs fuel) (\<lambda>needs.
     rbind (\<lambda>s. obind (close_area 1 f needs) (\<lambda>f. Inr (f, s))) (\<lambda>f.
     rbind (\<lambda>s. obind (obind (pass_output_segments s) (close_area 2 f)) (\<lambda>f. Inr (f, s))) (\<lambda>f.
     rbind output_definitions (\<lambda>defs.
       (\<lambda>s. obind (close_area 3 f defs) (\<lambda>f. Inr (f, s))))))))"

section \<open>The assembler\<close>

definition assemble :: "nat \<Rightarrow> long \<Rightarrow> statement list \<Rightarrow> ('x asm_scheme, byte list) step" where
  "assemble fuel maxpasses source =
     rbind (yyparse fuel source) (\<lambda>_.
     rbind check_errors (\<lambda>_.
     rbind (asm_passes fuel (nat (sint maxpasses))) (\<lambda>_. output_object fuel)))"

end
