(* ===== verification/AsmSound.thy ===== *)
theory AsmSound
  imports Asm Chains
begin

text \<open>
  What the statements of the assembler keep: the invariant of the tables of names and of the program, and with it the
  meaning of labels.
\<close>

section \<open>Steps that leave names alone\<close>

definition held :: "'x asm_scheme \<Rightarrow> 'x asm_scheme \<Rightarrow> bool" where
  "held s t \<longleftrightarrow>
     errors s \<le> errors t \<and> name_val t = name_val s \<and> next_name t = next_name s \<and> name_ident t = name_ident s \<and>
     name_defined t = name_defined s \<and> name_fragment t = name_fragment s \<and> name_global t = name_global s \<and>
     nsegments t = nsegments s \<and> name_segment t = name_segment s \<and> curseg t = curseg s \<and>
     backlab t = backlab s \<and> forwlab t = forwlab s \<and> asm_names t = asm_names s \<and>
     name_idx t = name_idx s \<and> name_needs t = name_needs s \<and> global_names t = global_names s"

lemma held_same_tables: "same_tables s t \<Longrightarrow> held s t"
proof -
  assume st: "same_tables s t"
  have "t = s\<lparr>name_val := name_val t, name_align := name_align t, name_global := name_global t,
      el_size := el_size t, errors := errors t, shared := shared t, asked := asked t, unsound := unsound t\<rparr>"
    by (rule est.equality) (use st in \<open>simp_all add: same_tables_def\<close>)
  then obtain a b c d e f g h where t: "t = s\<lparr>name_val := a, name_align := b, name_global := c,
      el_size := d, errors := e, shared := f, asked := g, unsound := h\<rparr>" by blast
  show "held s t" using st by (simp add: held_def same_tables_def) (simp add: t)
qed

interpretation held: expr_frame held
proof unfold_locales
  show "held s t" if "same_tables s t" for s t :: "'x asm_scheme" using that by (rule held_same_tables)
qed (auto simp: held_def)

named_theorems held_kept

lemma held_basic [held_kept]:
  "keeps held report_error" "keeps held (set_body el b)" "keeps held (set_size el e)"
  "keeps held (expr_range lo hi)" "keeps held (estimate fuel e)" "keeps held (element_alloc b)"
  "keeps held (upd_seg sg f)" "keeps held (report_if c)"
  by (auto simp: keeps_def report_error_def set_body_def set_size_def expr_range_def estimate_def element_alloc_def
      upd_seg_def report_if_def Let_def outcome_iff held_def)

lemmas held_quiet [held_kept] =
  held.quiet [OF quiet_binop] held.quiet [OF quiet_equal] held.quiet [OF quiet_asgop] held.quiet [OF quiet_plus(1)]
  held.quiet [OF quiet_plus(2)] held.quiet [OF quiet_glue]

lemma held_upd_point [held_kept]: "(\<And>e. keeps held (f e)) \<Longrightarrow> keeps held (upd_point sg f)"
  unfolding upd_point_def by (intro held.rules held_kept)

lemma held_add_to_point [held_kept]: "keeps held (add_to_point sg el)"
  unfolding add_to_point_def by (intro held.rules held_kept keeps_modify) (simp add: held_def)

lemma held_blocks [held_kept]:
  "keeps held (make_space el len)" "keeps held (put_bytes el off bs)" "keeps held (grow_size el n)"
  "keeps held (range_expr b)" "keeps held (add_element sg bd)"
  unfolding make_space_def put_bytes_def grow_size_def range_expr_def add_element_def Let_def
  by (intro held.rules held_kept)+

lemma held_open [held_kept]: "keeps held (open_block sg)"
  unfolding open_block_def by (intro held.rules held_kept)

lemma held_push [held_kept]: "keeps held (push_bytes sg bs)" "keeps held (emit_block sg bs)"
  unfolding emit_block_def push_bytes_def by (intro held.rules held_kept)+

lemma held_emit_cmd [held_kept]: "keeps held (emit_cmd fuel sg opcode arg)"
  unfolding emit_cmd_def emit_const_cmd_def emit_loose_cmd_def by (intro held.rules held_kept)

lemma held_emit_align [held_kept]: "keeps held (emit_align fuel sg al filler)"
  unfolding emit_align_def by (intro held.rules held_kept)

lemma held_emit_data [held_kept]: "keeps held (emit_data fuel sg width data n)"
  unfolding emit_data_def extend_data_def same_data_def data_size_def by (intro held.rules held_kept)

lemma held_fragments [held_kept]: "keeps held (add_fragment sg frag)" "keeps held (swap_last_fragments sg)"
  unfolding add_fragment_def swap_last_fragments_def Let_def by (intro held.rules held_kept)+

lemma heldD: "keeps held m \<Longrightarrow> m s = Inr (r, t) \<Longrightarrow> held s t"
  by (rule keepsD)

section \<open>The invariant\<close>

text \<open>The environments in which every name that has a value stands for it.\<close>

definition valued :: "env \<Rightarrow> 'x est_scheme \<Rightarrow> bool" where
  "valued \<rho> s \<longleftrightarrow> (\<forall>n v. name_val s n = Some v \<longrightarrow> vname \<rho> n = valof \<rho> v)"

text \<open>
  Only defined names have values, and all of them do unless they are fragments or among \<open>X\<close>; names are allocated in
  order; the name of a forward reference is nameless, undefined and the only one of its digit.
\<close>

definition good_names :: "nat set \<Rightarrow> 'x asm_scheme \<Rightarrow> bool" where
  "good_names X s \<longleftrightarrow>
     (\<forall>n. name_val s n \<noteq> None \<longrightarrow> name_defined s n) \<and> (\<forall>n. name_defined s n \<longrightarrow> n < next_name s) \<and>
     (\<forall>n. name_defined s n \<longrightarrow> n \<notin> X \<longrightarrow> \<not> name_fragment s n \<longrightarrow> name_val s n \<noteq> None) \<and>
     (\<forall>d n. forwlab s d = Some n \<longrightarrow> n < next_name s \<and> name_ident s n = [] \<and> \<not> name_defined s n) \<and>
     (\<forall>d d' n. forwlab s d = Some n \<longrightarrow> forwlab s d' = Some n \<longrightarrow> d = d') \<and>
     listed (asm_names s) \<subseteq> {..<next_name s} \<and> (\<forall>d e. backlab s d = Some e \<longrightarrow> wf_expr False e)"

definition good :: "nat set \<Rightarrow> 'x asm_scheme \<Rightarrow> bool" where
  "good X s \<longleftrightarrow>
     wf_program (\<lambda>\<rho>. valued \<rho> s) s \<and> curseg s < nsegments s \<and>
     (\<forall>n sg. name_segment s n = Some sg \<longrightarrow> sg < nsegments s) \<and> good_names X s"

text \<open>Steps between which old names keep their meaning.\<close>

definition forth :: "'x asm_scheme \<Rightarrow> 'x asm_scheme \<Rightarrow> bool" where
  "forth s t \<longleftrightarrow>
     errors s \<le> errors t \<and> next_name s \<le> next_name t \<and> nsegments s \<le> nsegments t \<and> curseg t = curseg s \<and>
     (\<forall>n < next_name s. name_val t n = name_val s n \<and> name_defined t n = name_defined s n \<and>
        name_ident t n = name_ident s n \<and> name_global t n = name_global s n \<and> name_fragment t n = name_fragment s n) \<and>
     (\<forall>d n. forwlab s d = Some n \<longrightarrow> forwlab t d = Some n) \<and>
     (\<forall>d n. forwlab t d = Some n \<longrightarrow> forwlab s d = Some n \<or> next_name s \<le> n)"

definition onward :: "'x asm_scheme \<Rightarrow> 'x asm_scheme \<Rightarrow> bool" where
  "onward s t \<longleftrightarrow> forth s t \<and> (\<forall>X. good X s \<longrightarrow> errors t = 0 \<longrightarrow> good X t)"

lemma forth_refl: "forth s s"
  by (simp add: forth_def)

lemma forth_trans:
  assumes "forth s t" "forth t u"
  shows "forth s u"
  unfolding forth_def
proof (intro conjI)
  show "\<forall>d n. forwlab u d = Some n \<longrightarrow> forwlab s d = Some n \<or> next_name s \<le> n"
    using assms unfolding forth_def by (meson le_trans)
qed (use assms in \<open>auto simp: forth_def\<close>)

interpretation forth: frame forth
  by unfold_locales (rule forth_refl, rule forth_trans)

lemma onward_refl: "onward s s"
  by (simp add: onward_def forth_refl)

lemma onward_trans:
  assumes "onward s t" "onward t u"
  shows "onward s u"
  unfolding onward_def
proof (intro conjI)
  show "forth s u" using assms forth_trans by (auto simp: onward_def)
  have "errors t \<le> errors u" using assms(2) by (simp add: onward_def forth_def)
  then show "\<forall>X. good X s \<longrightarrow> errors u = 0 \<longrightarrow> good X u" using assms by (simp add: onward_def)
qed

interpretation onward: frame onward
  by unfold_locales (rule onward_refl, rule onward_trans)

lemma onwardD: "onward s t \<Longrightarrow> good X s \<Longrightarrow> errors t = 0 \<Longrightarrow> good X t"
  by (simp add: onward_def)

lemma onward_forth: "onward s t \<Longrightarrow> forth s t"
  by (simp add: onward_def)

lemma held_forth: "held s t \<Longrightarrow> forth s t"
  by (simp add: held_def forth_def)

lemma valued_cong: "name_val t = name_val s \<Longrightarrow> valued \<rho> t = valued \<rho> s"
  by (simp add: valued_def)

lemma good_names_cong:
  assumes "name_val t = name_val s" "next_name t = next_name s" "name_ident t = name_ident s" "name_defined t = name_defined s"
    "name_fragment t = name_fragment s" "forwlab t = forwlab s" "asm_names t = asm_names s" "backlab t = backlab s"
  shows "good_names X t = good_names X s"
  using assms by (simp add: good_names_def)

lemma held_onward:
  assumes h: "held s t" and w: "wf_program (\<lambda>\<rho>. valued \<rho> s) s \<Longrightarrow> wf_program (\<lambda>\<rho>. valued \<rho> s) t"
  shows "onward s t"
  using h w good_names_cong [of t s] valued_cong [of t s]
  by (auto simp: held_def onward_def forth_def good_def)

lemma held_still: "held s t \<Longrightarrow> same_program s t \<Longrightarrow> onward s t"
  by (rule held_onward) (simp_all add: same_program_wf)

lemma onward_quiet: "quiet m \<Longrightarrow> keeps onward m"
  by (rule keepsI) (metis held_still held.quiet keepsD still_quiet stillD)



section \<open>Emitting\<close>

lemma onward_emit_block:
  assumes "emit_block sg bs s = Inr (u, t)" "sg < nsegments s"
  shows "onward s t"
  by (rule held_onward [OF heldD [OF held_push(2) assms(1)]])
    (use wf_push_bytes assms in \<open>unfold emit_block_def, blast\<close>)

lemma onward_emit_cmd:
  assumes "emit_cmd fuel sg opcode arg s = Inr (u, t)" "sg < nsegments s"
  shows "onward s t"
  by (rule held_onward [OF heldD [OF held_emit_cmd assms(1)]]) (use assms wf_emit_cmd in blast)

lemma onward_emit_align:
  assumes "emit_align fuel sg al filler s = Inr (b, t)" "sg < nsegments s"
  shows "onward s t"
  by (rule held_onward [OF heldD [OF held_emit_align assms(1)]]) (use assms wf_emit_align in blast)

lemma onward_emit_data:
  assumes "emit_data fuel sg width data n s = Inr (u, t)" "sg < nsegments s"
  shows "onward s t"
  by (rule held_onward [OF heldD [OF held_emit_data assms(1)]]) (use assms wf_emit_data in blast)

lemma wf_upd_seg:
  assumes wf: "wf_program C s"
    and f: "\<And>g. seg_fragments (f g) = seg_fragments g" "\<And>g. seg_curel (f g) = seg_curel g" "\<And>g. seg_point (f g) = seg_point g"
    and run: "upd_seg sg f s = Inr (u, t)"
  shows "wf_program C t"
proof -
  have p: "point_ok C sz (f g) = point_ok C sz g" "seg_elements (f g) = seg_elements g" for sz g
    by (simp_all add: point_ok_def seg_elements_def f)
  have t: "t = s\<lparr>seg_tab := (seg_tab s)(sg := f (seg_tab s sg))\<rparr>"
    using run by (simp add: upd_seg_def outcome_iff)
  have "point_ok C (el_size s) (seg_tab t i) = point_ok C (el_size s) (seg_tab s i)"
    "seg_elements (seg_tab t i) = seg_elements (seg_tab s i)" for i
    by (simp_all add: t p)
  then show ?thesis using wf by (simp add: wf_program_def) (simp add: t)
qed

lemma onward_upd_seg:
  assumes "\<And>g. seg_fragments (f g) = seg_fragments g" "\<And>g. seg_curel (f g) = seg_curel g" "\<And>g. seg_point (f g) = seg_point g"
  shows "keeps onward (upd_seg sg f)"
proof (rule keepsI)
  fix s t :: "'a asm_scheme" and u assume run: "upd_seg sg f s = Inr (u, t)"
  show "onward s t"
    by (rule held_onward [OF heldD [OF held_basic(7) run]]) (rule wf_upd_seg [OF _ assms run])
qed

section \<open>New names\<close>

lemma name_alloc_run:
  assumes "name_alloc key (s :: 'x asm_scheme) = Inr (n, t)"
  shows "n = next_name s" "onward s t" "name_ident t n = key" "\<not> name_defined t n" "\<not> name_global t n" "next_name t = Suc n"
    "forwlab t = forwlab s" "asm_names t = asm_names s" "seg_tab t = seg_tab s"
proof -
  show n: "n = next_name s" and "name_ident t n = key" "\<not> name_defined t n" "\<not> name_global t n" "next_name t = Suc n"
    "forwlab t = forwlab s" "asm_names t = asm_names s" "seg_tab t = seg_tab s"
    using assms by (auto simp: name_alloc_def Let_def)
  have f: "errors t = errors s" "next_name t = Suc n" "nsegments t = nsegments s" "curseg t = curseg s" "forwlab t = forwlab s" "backlab t = backlab s"
    "name_segment t = name_segment s" "asm_names t = asm_names s"
    "name_val t = (name_val s)(n := None)" "name_defined t = (name_defined s)(n := False)"
    "name_ident t = (name_ident s)(n := key)" "name_global t = (name_global s)(n := False)"
    "name_fragment t = (name_fragment s)(n := False)" and p: "same_program s t"
    using assms by (auto simp: name_alloc_def Let_def same_program_def)
  show "onward s t"
    unfolding onward_def forth_def f
  proof (intro conjI allI impI)
    fix X assume g: "good X s"
    have fresh: "name_val s n = None" using g n by (auto simp: good_def good_names_def)
    then have v: "name_val t = name_val s" by (simp add: f fun_upd_idem)
    have "good_names X t"
      using g n unfolding good_def good_names_def f v by (auto simp: less_Suc_eq)
    then show "good X t"
      using g same_program_wf [OF p] valued_cong [OF v] by (simp add: good_def f)
  qed (use n in auto)
qed

lemma onward_asm_names:
  assumes l: "\<And>X. good X s \<Longrightarrow> listed t' \<subseteq> {..<next_name s}"
  shows "onward s (s\<lparr>asm_names := t'\<rparr>)"
proof -
  have p: "same_program s (s\<lparr>asm_names := t'\<rparr>)" by (simp add: same_program_def)
  have "good X (s\<lparr>asm_names := t'\<rparr>)" if g: "good X s" for X
    using g l [OF g] same_program_wf [OF p] valued_cong [of "s\<lparr>asm_names := t'\<rparr>" s]
    by (simp add: good_def good_names_def)
  then show ?thesis by (simp add: onward_def forth_def)
qed

lemma onward_asm_segments: "onward s (s\<lparr>asm_segments := t'\<rparr>)"
proof -
  have "same_program s (s\<lparr>asm_segments := t'\<rparr>)" by (simp add: same_program_def)
  note w = same_program_wf [OF this]
  show ?thesis by (simp add: onward_def forth_def good_def good_names_def w valued_def)
qed


lemma lookup_found:
  assumes "table_lookup t key s = Inr ((n, t'), s')"
  shows "name_alloc key s = Inr (n, s') \<or> s' = s \<and> key \<noteq> [] \<and> key_matches key (name_ident s n)"
proof (cases "key = []")
  case True
  with assms show ?thesis by (auto simp: table_lookup_def table_add_noname_def outcome_iff)
next
  case False
  let ?c = "nat (column_of t key)"
  let ?find = "find (\<lambda>n. key_matches key (name_ident s n)) (column_names (columns t ?c))"
  have run: "(case ?find of
      Some n \<Rightarrow> rret (n, t)
    | None \<Rightarrow> rbind (name_alloc key) (\<lambda>n.
        rret (n, t\<lparr>columns := (columns t)(?c := column_add n (columns t ?c))\<rparr>))) s = Inr ((n, t'), s')"
    using assms False unfolding column_of_def
    by (simp add: table_lookup_def Let_def rbind_def [of "rget _"] rget_def rstop_def split: if_splits)
  show ?thesis
  proof (cases ?find)
    case (Some m)
    then have "key_matches key (name_ident s m)" by (auto simp: find_Some_iff)
    then show ?thesis using run Some False by (simp add: rret_def)
  next
    case None
    then show ?thesis using run by (auto simp: rret_def rbind_Inr)
  qed
qed

lemma lookup_run:
  assumes run: "table_lookup t key (s :: 'x asm_scheme) = Inr ((n, t'), s')"
  shows "onward s s'" "listed t \<subseteq> {..<next_name s} \<Longrightarrow> listed t' \<subseteq> {..<next_name s'}" "asm_names s' = asm_names s"
    "forwlab s' = forwlab s" "listed t \<subseteq> {..<next_name s} \<Longrightarrow> n < next_name s'" "seg_tab s' = seg_tab s"
    "next_name s \<le> n \<or> s' = s \<and> name_ident s n \<noteq> []"
proof -
  consider (old) "n \<in> listed t" "t' = t" "s' = s" | (new) "name_alloc key s = Inr (n, s')" "listed t' = insert n (listed t)"
    using lookup_listed [OF run] by blast
  then have "onward s s' \<and> (listed t \<subseteq> {..<next_name s} \<longrightarrow> listed t' \<subseteq> {..<next_name s'} \<and> n < next_name s') \<and>
      asm_names s' = asm_names s \<and> forwlab s' = forwlab s \<and> seg_tab s' = seg_tab s"
  proof cases
    case old
    then show ?thesis by (auto simp: onward_refl)
  next
    case new
    from name_alloc_run [OF new(1)] show ?thesis by (auto simp: new(2))
  qed
  then show "onward s s'" "listed t \<subseteq> {..<next_name s} \<Longrightarrow> listed t' \<subseteq> {..<next_name s'}" "asm_names s' = asm_names s"
    "forwlab s' = forwlab s" "listed t \<subseteq> {..<next_name s} \<Longrightarrow> n < next_name s'" "seg_tab s' = seg_tab s" by blast+
  from lookup_found [OF run] show "next_name s \<le> n \<or> s' = s \<and> name_ident s n \<noteq> []"
  proof (elim disjE conjE)
    assume "name_alloc key s = Inr (n, s')"
    from name_alloc_run(1) [OF this] show ?thesis by simp
  qed (auto simp: key_matches_def strlen_def)
qed

text \<open>Looking up an identifier: the name is none that waits for a digit.\<close>

lemma scan_name_run:
  assumes "scan_name key s = Inr (n, t)"
  shows "onward s t" "good X s \<Longrightarrow> n < next_name t \<and> n \<notin> ran (forwlab t)" "forwlab t = forwlab s" "seg_tab t = seg_tab s"
proof -
  from assms obtain t' s' where l: "table_lookup (asm_names s) key s = Inr ((n, t'), s')" and t: "t = s'\<lparr>asm_names := t'\<rparr>"
    by (auto simp: scan_name_def outcome_iff)
  note L = lookup_run [OF l]
  have listed: "listed (asm_names s) \<subseteq> {..<next_name s}" if "good X s" for X
    using that by (simp add: good_def good_names_def)
  have "onward s' t"
    unfolding t
  proof (rule onward_asm_names)
    fix X assume "good X s'"
    then have "listed (asm_names s) \<subseteq> {..<next_name s'}" by (simp add: good_def good_names_def L(3))
    then show "listed t' \<subseteq> {..<next_name s'}"
      using lookup_listed [OF l] name_alloc_run(1,6) [of key s n s'] by auto
  qed
  with L(1) show "onward s t" by (rule onward_trans)
  show f: "forwlab t = forwlab s" and "seg_tab t = seg_tab s" by (simp_all add: t L)
  assume g: "good X s"
  have "n \<notin> ran (forwlab s)"
  proof
    assume "n \<in> ran (forwlab s)"
    then have "n < next_name s" "name_ident s n = []" using g by (auto simp: ran_def good_def good_names_def)
    with L(7) show False by simp
  qed
  with L(5) [OF listed [OF g]] f show "n < next_name t \<and> n \<notin> ran (forwlab t)" by (simp add: t)
qed

lemma scan_segment_run:
  assumes "scan_segment key s = Inr (n, t)"
  shows "onward s t" "forwlab t = forwlab s" "seg_tab t = seg_tab s"
proof -
  from assms obtain t' s' where l: "table_lookup (asm_segments s) key s = Inr ((n, t'), s')" and t: "t = s'\<lparr>asm_segments := t'\<rparr>"
    by (auto simp: scan_segment_def outcome_iff)
  from lookup_run [OF l] onward_asm_segments show "onward s t" "forwlab t = forwlab s" "seg_tab t = seg_tab s"
    unfolding t by (auto intro: onward_trans)
qed

lemma new_noname_run:
  assumes "new_noname s = Inr (n, t)"
  shows "onward s t" "n = next_name s" "next_name t = Suc n" "\<not> name_defined t n" "name_ident t n = []" "forwlab t = forwlab s"
    "seg_tab t = seg_tab s"
proof -
  from assms obtain s' t' where a: "name_alloc [] s = Inr (n, s')" and t': "t' = (asm_names s)\<lparr>nonames := nonames (asm_names s) @ [n]\<rparr>"
    and t: "t = s'\<lparr>asm_names := t'\<rparr>"
    by (auto simp: new_noname_def table_add_noname_def outcome_iff)
  note A = name_alloc_run [OF a]
  show "n = next_name s" "next_name t = Suc n" "\<not> name_defined t n" "name_ident t n = []" "forwlab t = forwlab s"
    "seg_tab t = seg_tab s" using A by (simp_all add: t)
  have "onward s' t"
    unfolding t
  proof (rule onward_asm_names)
    fix X assume "good X s'"
    then have "listed (asm_names s) \<subseteq> {..<next_name s'}" by (simp add: good_def good_names_def A)
    then show "listed t' \<subseteq> {..<next_name s'}" by (auto simp: t' listed_eq table_names_def A)
  qed
  with A(2) show "onward s t" by (rule onward_trans)
qed

lemma onward_new_noname: "keeps onward new_noname"
  by (rule keepsI) (rule new_noname_run)

section \<open>Values\<close>

lemma assign_run:
  assumes "name_assign_value fuel np e s = Inr (u, t)"
  obtains k v where "t = s\<lparr>errors := k, name_val := (name_val s)(np \<mapsto> v)\<rparr>" "k = errors s \<and> v = e \<or> k = Suc (errors s)"
proof -
  have "t = s\<lparr>name_val := (name_val s)(np \<mapsto> e)\<rparr> \<or> (\<exists>v. t = s\<lparr>errors := Suc (errors s), name_val := (name_val s)(np \<mapsto> v)\<rparr>)"
    using assms by (auto simp: name_assign_value_def set_value_def outcome_iff split: if_splits)
  then show thesis using that [where k = "errors s" and v = e] that [where k = "Suc (errors s)"] by auto
qed

lemma valued_upd:
  "name_val s np = None \<Longrightarrow> name_val t = (name_val s)(np \<mapsto> v) \<Longrightarrow> valued \<rho> t \<longleftrightarrow> valued \<rho> s \<and> vname \<rho> np = valof \<rho> v"
  unfolding valued_def by (auto split: if_splits)

lemma wf_program_mono:
  assumes "wf_program C s" "\<And>\<rho>. C' \<rho> \<Longrightarrow> C \<rho>" "same_program s t"
  shows "wf_program C' t"
proof -
  have "point_ok C' sz g" if "point_ok C sz g" for sz g
    using that assms(2) unfolding point_ok_def Let_def by (auto split: prod.split)
  then have "wf_program C' s" using assms(1) by (simp add: wf_program_def)
  then show ?thesis using same_program_wf [OF assms(3)] by simp
qed

text \<open>The invariant of the names, for a step that leaves the program alone.\<close>

lemma good_step:
  assumes "good X s" "same_program s t" "curseg t = curseg s" "name_segment t = name_segment s"
    "\<And>\<rho>. valued \<rho> t \<Longrightarrow> valued \<rho> s" "good_names Y t"
  shows "good Y t"
  using assms(1,3,4,6) wf_program_mono [of "\<lambda>\<rho>. valued \<rho> s" s "\<lambda>\<rho>. valued \<rho> t" t] assms(2,5)
  by (simp add: good_def same_program_def)

lemma good_define:
  assumes "good X s" "np < next_name s" "np \<notin> ran (forwlab s)"
  shows "good (insert np X) (s\<lparr>name_defined := (name_defined s)(np := True)\<rparr>)"
proof (rule good_step [OF assms(1)])
  have "good_names X s" using assms(1) by (simp add: good_def)
  then show "good_names (insert np X) (s\<lparr>name_defined := (name_defined s)(np := True)\<rparr>)"
    using assms(2,3) by (auto simp: good_names_def ran_def)
qed (simp_all add: same_program_def valued_def)

lemma good_assign:
  assumes "good (insert np X) s" "name_val s np = None" "name_defined s np"
  shows "good X (s\<lparr>name_val := (name_val s)(np \<mapsto> v)\<rparr>)"
proof (rule good_step [OF assms(1)])
  let ?t = "s\<lparr>name_val := (name_val s)(np \<mapsto> v)\<rparr>"
  show "valued \<rho> s" if "valued \<rho> ?t" for \<rho> using that by (simp add: valued_upd [OF assms(2), of ?t v])
  have "good_names (insert np X) s" using assms(1) by (simp add: good_def)
  then show "good_names X ?t" using assms(3) by (auto simp: good_names_def)
qed (simp_all add: same_program_def)

text \<open>Updates of the fields the invariant does not look at.\<close>

lemma good_same:
  assumes "same_program s t" "name_val t = name_val s" "curseg t = curseg s" "name_segment t = name_segment s"
    "next_name t = next_name s" "name_ident t = name_ident s" "name_defined t = name_defined s"
    "\<And>n. name_fragment s n \<Longrightarrow> name_fragment t n" "forwlab t = forwlab s" "asm_names t = asm_names s" "backlab t = backlab s"
    "good X s"
  shows "good X t"
proof (rule good_step [OF assms(12) assms(1,3,4)])
  show "valued \<rho> s" if "valued \<rho> t" for \<rho> using that valued_cong [OF assms(2)] by simp
  have "good_names X s" using assms(12) by (simp add: good_def)
  then show "good_names X t" using assms(2,5-11) unfolding good_names_def by auto
qed

text \<open>The point may start again from a name whose value it is.\<close>

lemma good_restart:
  assumes g: "good X s" and np: "name_val s np = Some p" and p: "seg_point (seg_tab s sg) = Some p"
  shows "good X (s\<lparr>seg_tab := (seg_tab s)(sg := (seg_tab s sg)\<lparr>seg_point := Some (Name np)\<rparr>)\<rparr>)" (is "good X ?t")
proof -
  let ?C = "\<lambda>\<rho>. valued \<rho> s" and ?g = "(seg_tab s sg)\<lparr>seg_point := Some (Name np)\<rparr>"
  have v: "(\<lambda>\<rho>. valued \<rho> ?t) = ?C" by (simp add: valued_cong [of ?t s])
  have e: "seg_elements (seg_tab ?t i) = seg_elements (seg_tab s i)" for i by (simp add: seg_elements_def)
  have "point_ok ?C sz ?g" if ok: "point_ok ?C sz (seg_tab s sg)" for sz
    using ok
  proof (rule point_okE)
    fix frag els q
    assume 1: "seg_fragments (seg_tab s sg) \<noteq> []" "last (seg_fragments (seg_tab s sg)) = (frag, els)"
      "seg_curel (seg_tab s sg) = (if els = [] then None else Some (last els))" "seg_point (seg_tab s sg) = Some q" "wf_expr False q"
      and 2: "\<And>\<rho>. ?C \<rho> \<Longrightarrow> (\<forall>el\<in>set els. \<not> is_const (sz el) \<longrightarrow> vel \<rho> el = valof \<rho> (sz el)) \<Longrightarrow>
       valof \<rho> q = vname \<rho> frag + sum_list (map (\<lambda>el. valof \<rho> (sz el)) els)"
    have "q = p" using 1(4) p by simp
    show "point_ok ?C sz ?g"
    proof (rule point_okI [of _ frag els "Name np"])
      fix \<rho> assume "?C \<rho>" "\<forall>el\<in>set els. \<not> is_const (sz el) \<longrightarrow> vel \<rho> el = valof \<rho> (sz el)"
      from 2 [OF this] \<open>?C \<rho>\<close> np \<open>q = p\<close>
      show "valof \<rho> (Name np) = vname \<rho> frag + sum_list (map (\<lambda>el. valof \<rho> (sz el)) els)"
        by (simp add: valued_def valof_simps)
    qed (use 1 in simp_all)
  qed
  then have "wf_program ?C ?t" using g unfolding good_def wf_program_def e by auto
  then show ?thesis using g v by (simp add: good_def good_names_def)
qed

lemma restart_point_onward: "keeps onward (restart_point fuel sg)"
proof (rule keepsI)
  fix s t :: "'a asm_scheme" and u assume run: "restart_point fuel sg s = Inr (u, t)"
  then obtain np s1 p w s2 where 1: "new_noname s = Inr (np, s1)" and p: "seg_point (seg_tab s1 sg) = Some p"
    and 2: "name_assign_value fuel np p s1 = Inr (w, s2)"
    and t: "t = s2\<lparr>name_align := (name_align s2)(np := pending_alignment (seg_tab s1 sg)), name_defined := (name_defined s2)(np := True),
              seg_tab := (seg_tab s2)(sg := (seg_tab s2 sg)\<lparr>seg_point := Some (Name np)\<rparr>)\<rparr>"
    by (auto simp: restart_point_def set_align_def set_defined_def upd_seg_def outcome_iff split: option.splits)
  note N = new_noname_run [OF 1]
  from 2 obtain k v where s2: "s2 = s1\<lparr>errors := k, name_val := (name_val s1)(np \<mapsto> v)\<rparr>"
    and k: "k = errors s1 \<and> v = p \<or> k = Suc (errors s1)" by (rule assign_run)
  have good: "good X t" if g: "good X s" and e: "errors t = 0" for X
  proof -
    have v: "v = p" and "errors s1 = 0" using e k by (simp_all add: t s2)
    with onwardD [OF N(1) g] have g1: "good X s1" by simp
    then have r: "np \<notin> ran (forwlab s1)" and n: "name_val s1 np = None"
      using g N by (auto simp: ran_def good_def good_names_def)
    let ?d = "s1\<lparr>name_defined := (name_defined s1)(np := True)\<rparr>"
    let ?v = "?d\<lparr>name_val := (name_val ?d)(np \<mapsto> p)\<rparr>"
    have "good (insert np X) ?d" using g1 r by (intro good_define) (simp_all add: N)
    then have "good X ?v" using n by (intro good_assign) simp_all
    then have "good X (?v\<lparr>seg_tab := (seg_tab ?v)(sg := (seg_tab ?v sg)\<lparr>seg_point := Some (Name np)\<rparr>)\<rparr>)"
      by (rule good_restart) (use p in simp_all)
    then show ?thesis by (rule good_same [rotated 11]) (simp_all add: same_program_def t s2 v)
  qed
  have "errors s \<le> errors t" using N(1) k by (auto simp: onward_def forth_def t s2)
  moreover have "next_name t = next_name s1" "nsegments t = nsegments s1" "curseg t = curseg s1" "forwlab t = forwlab s1"
    "\<And>n. n \<noteq> np \<Longrightarrow> name_val t n = name_val s1 n \<and> name_defined t n = name_defined s1 n \<and> name_ident t n = name_ident s1 n \<and>
       name_global t n = name_global s1 n \<and> name_fragment t n = name_fragment s1 n"
    by (simp_all add: t s2)
  ultimately show "onward s t"
    using N(1,2) good unfolding onward_def forth_def by auto
qed

section \<open>Expressions\<close>

lemma keeps_forth:
  "keeps held m \<Longrightarrow> keeps forth m" "keeps onward m \<Longrightarrow> keeps forth m"
  by (auto simp: keeps_def intro: held_forth onward_forth)

text \<open>A step on the current segment, which exists in a good state.\<close>

lemma onward_current:
  assumes "\<And>sg. keeps forth (m sg)"
    and "\<And>sg s r t. m sg s = Inr (r, t) \<Longrightarrow> sg = curseg s \<Longrightarrow> sg < nsegments s \<Longrightarrow> onward s t"
  shows "keeps onward (rbind (rget curseg) m)"
proof (rule keepsI)
  fix s t r assume "rbind (rget curseg) m s = Inr (r, t)"
  then have run: "m (curseg s) s = Inr (r, t)" by (simp add: rbind_def rget_def)
  show "onward s t"
    unfolding onward_def
  proof (intro conjI allI impI)
    show "forth s t" by (rule keepsD [OF assms(1) run])
    fix X assume g: "good X s" and e: "errors t = 0"
    then have "curseg s < nsegments s" by (simp add: good_def)
    from onwardD [OF assms(2) [OF run refl this] g e] show "good X t" .
  qed
qed

lemma forth_settle:
  "keeps forth (restart_point fuel sg)" "keeps forth (drop_pending_alignment sg)" "keeps forth (do_pending_alignment fuel sg)"
proof -
  show 1: "keeps forth (restart_point fuel sg)" by (rule keeps_forth(2) [OF restart_point_onward])
  show 2: "keeps forth (drop_pending_alignment sg)"
    unfolding drop_pending_alignment_def by (rule keeps_forth(1) [OF held_basic(7)])
  show "keeps forth (do_pending_alignment fuel sg)"
    unfolding do_pending_alignment_def by (intro forth.rules 1 2 keeps_forth(1) [OF held_emit_align])
qed

lemma onward_drop: "keeps onward (drop_pending_alignment sg)"
  unfolding drop_pending_alignment_def by (rule onward_upd_seg) simp_all

lemma onward_do_pending:
  assumes "do_pending_alignment fuel sg s = Inr (u, t)" "sg < nsegments s"
  shows "onward s t"
proof -
  from assms(1) obtain f b s1 v s2 where 1: "emit_align fuel sg (pending_alignment (seg_tab s sg)) f s = Inr (b, s1)"
    and 2: "(if b then restart_point fuel sg else rret ()) s1 = Inr (v, s2)" and 3: "drop_pending_alignment sg s2 = Inr (u, t)"
    by (auto simp: do_pending_alignment_def outcome_iff split: option.splits)
  have "keeps onward (if b then restart_point fuel sg else rret ())" by (intro onward.rules restart_point_onward)
  from onward_trans [OF onward_trans [OF onward_emit_align [OF 1 assms(2)] keepsD [OF this 2]] keepsD [OF onward_drop 3]]
  show ?thesis .
qed

lemma settle_onward: "keeps onward (settle_alignment fuel)"
  unfolding settle_alignment_def
proof (rule onward_current)
  show "keeps forth (rbind (rget (\<lambda>s. pending_alignment (seg_tab s sg))) (\<lambda>a.
      rbind (if 1 <s a then do_pending_alignment fuel sg else rret ()) (\<lambda>_. rret sg)))" for sg
    by (intro forth.rules forth_settle)
qed (auto simp: outcome_iff onward_refl intro: onward_do_pending split: if_splits)

lemma settle_result: "settle_alignment fuel s = Inr (sg, t) \<Longrightarrow> sg = curseg t \<and> sg = curseg s"
  using keepsD [OF settle_onward, of fuel s sg t]
  by (auto simp: settle_alignment_def outcome_iff onward_def forth_def)

text \<open>A step after the pending alignment is settled.\<close>

lemma onward_settled:
  assumes "\<And>sg. keeps forth (m sg)"
    and "\<And>sg s r t. m sg s = Inr (r, t) \<Longrightarrow> sg = curseg s \<Longrightarrow> sg < nsegments s \<Longrightarrow> onward s t"
  shows "keeps onward (rbind (settle_alignment fuel) m)"
proof (rule keepsI)
  fix s t r assume "rbind (settle_alignment fuel) m s = Inr (r, t)"
  then obtain sg s1 where 1: "settle_alignment fuel s = Inr (sg, s1)" and 2: "m sg s1 = Inr (r, t)" by (auto simp: rbind_Inr)
  have "sg = curseg s1" using settle_result [OF 1] by simp
  then have "rbind (rget curseg) m s1 = Inr (r, t)" using 2 by (simp add: rbind_def rget_def)
  from onward_trans [OF keepsD [OF settle_onward 1] keepsD [OF onward_current [OF assms] this]] show "onward s t" .
qed

lemma current_point_onward: "keeps onward (current_point fuel)"
  unfolding current_point_def by (intro onward.rules settle_onward)

lemma onward_forward: "keeps onward (forward_reference d)"
proof (rule keepsI)
  fix s t :: "'a asm_scheme" and e assume run: "forward_reference d s = Inr (e, t)"
  show "onward s t"
  proof (cases "forwlab s d")
    case (Some np)
    with run show ?thesis by (simp add: forward_reference_def outcome_iff onward_refl)
  next
    case None
    with run obtain np s1 where 1: "new_noname s = Inr (np, s1)" and t: "t = s1\<lparr>forwlab := (forwlab s1)(d \<mapsto> np)\<rparr>"
      by (auto simp: forward_reference_def outcome_iff)
    note N = new_noname_run [OF 1]
    have g: "good X t" if g1: "good X s1" and g0: "good X s" for X
    proof (rule good_step [OF g1])
      have "good_names X s1" "good_names X s" using g1 g0 by (simp_all add: good_def)
      then show "good_names X t" using N None unfolding good_names_def t by (auto split: if_splits)
    qed (simp_all add: t same_program_def valued_def)
    have "forth s t" using N None unfolding t onward_def forth_def by (auto split: if_splits)
    moreover have "good X t" if "good X s" "errors t = 0" for X
      using g onwardD [OF N(1) that(1)] that by (simp add: t)
    ultimately show ?thesis by (simp add: onward_def)
  qed
qed

lemma onward_constructors:
  "keeps onward (expr_binop t e1 e2)" "keeps onward (expr_unop t e1)"
proof -
  show 1: "keeps onward (expr_binop t e1 e2)" for t e1 e2 by (rule onward_quiet [OF quiet_binop])
  show "keeps onward (expr_unop t e1)"
    unfolding expr_unop_def by (intro onward.rules 1 onward_quiet [OF quiet_eval])
qed

lemma parse_expr_onward: "keeps onward (parse_expr fuel e)"
proof (induction e)
  case (TOK_NAME key)
  have "keeps onward (scan_name key)" by (rule keepsI) (rule scan_name_run)
  then show ?case unfolding parse_expr.simps by (intro onward.rules)
next
  case (TOK_DIGREF_B d)
  show ?case unfolding parse_expr.simps back_reference_def by (intro onward.rules)
next
  case (BINARY t l r)
  then show ?case unfolding parse_expr.simps by (intro onward.rules onward_constructors)
next
  case (UNARY t r)
  then show ?case unfolding parse_expr.simps by (intro onward.rules onward_constructors)
next
  case (QUESTOP c a b)
  then show ?case unfolding parse_expr.simps by (intro onward.rules)
qed (simp_all add: onward.rules current_point_onward onward_forward)

lemma point_wf: "good X s \<Longrightarrow> seg_point (seg_tab s (curseg s)) = Some p \<Longrightarrow> wf_expr False p"
  by (rule point_of [of "\<lambda>\<rho>. valued \<rho> s" s "curseg s"]) (simp_all add: good_def)

section \<open>Statements\<close>

definition sound :: "'x asm_scheme \<Rightarrow> 'x asm_scheme \<Rightarrow> bool" where
  "sound s t \<longleftrightarrow> errors s \<le> errors t \<and> (good {} s \<longrightarrow> errors t = 0 \<longrightarrow> good {} t)"

interpretation sound: frame sound
proof unfold_locales
  show "sound s s" for s :: "'x asm_scheme" by (simp add: sound_def)
  show "sound s u" if "sound s t" "sound t u" for s t u :: "'x asm_scheme" using that unfolding sound_def by auto
qed

lemma onward_sound: "onward s t \<Longrightarrow> sound s t"
  by (simp add: onward_def forth_def sound_def)

lemma sound_onward: "keeps onward m \<Longrightarrow> keeps sound m"
  by (auto simp: keeps_def intro: onward_sound)

text \<open>A name that is about to get a value: allocated, without a value, and none that waits for a digit.\<close>

definition ready :: "nat \<Rightarrow> 'x asm_scheme \<Rightarrow> bool" where
  "ready np s \<longleftrightarrow> np < next_name s \<and> np \<notin> ran (forwlab s) \<and> name_val s np = None"

lemma ready_forth: "forth s t \<Longrightarrow> ready np s \<Longrightarrow> ready np t"
  unfolding ready_def forth_def ran_def by fastforce

lemma scan_ready:
  assumes "scan_name key s = Inr (np, t)" "good X t" "good Y s" "\<not> name_defined t np"
  shows "ready np t"
  using scan_name_run(2) [OF assms(1,3)] assms(2,4) by (auto simp: ready_def good_def good_names_def)

text \<open>The end of the actions that define a name.\<close>

lemma define_assign:
  assumes g: "good {np} s" and np: "name_val s np = None" "name_defined s np"
    and run: "assign_point fuel sg np s = Inr (u, t)" and e: "errors t = 0"
  shows "good {} t" "name_val t np = seg_point (seg_tab t sg)" "seg_tab t = seg_tab s" "el_size t = el_size s" "errors s = 0" "curseg t = curseg s" "el_body t = el_body s"
proof -
  from run obtain p where p: "seg_point (seg_tab s sg) = Some p" and a: "name_assign_value fuel np p s = Inr (u, t)"
    by (auto simp: assign_point_def outcome_iff split: option.splits)
  from a obtain k v where t: "t = s\<lparr>errors := k, name_val := (name_val s)(np \<mapsto> v)\<rparr>" and k: "k = errors s \<and> v = p \<or> k = Suc (errors s)"
    by (rule assign_run)
  have v: "v = p" "k = errors s" using k e by (auto simp: t)
  have "good {} (s\<lparr>name_val := (name_val s)(np \<mapsto> p)\<rparr>)" using g np by (intro good_assign) simp_all
  then show "good {} t" by (simp add: t v)
  show "name_val t np = seg_point (seg_tab t sg)" "seg_tab t = seg_tab s" "el_size t = el_size s" "errors s = 0" "curseg t = curseg s" "el_body t = el_body s"
    using p e by (simp_all add: t v)
qed

lemma good_align: "good X s \<Longrightarrow> good X (s\<lparr>name_align := a\<rparr>)"
  by (rule good_same) (simp_all add: same_program_def)

lemma good_global_label:
  assumes g: "good {np} s" and sg: "sg = curseg s" and run: "add_fragment sg np s = Inr (u, t)"
    and f: "name_fragment s np"
  shows "good {} t"
proof -
  have s: "sg < nsegments s" using g sg by (simp add: good_def)
  note h = heldD [OF held_fragments(1) run]
  have "wf_program (\<lambda>\<rho>. valued \<rho> s) t" using wf_add_fragment [OF _ s run] g by (simp add: good_def)
  moreover have "(\<lambda>\<rho>. valued \<rho> t) = (\<lambda>\<rho>. valued \<rho> s)" using h valued_cong [of t s] by (auto simp: held_def)
  ultimately show ?thesis
    using g h f good_names_cong [of t s "{}"] by (auto simp: good_def held_def good_names_def)
qed

lemma report_if_run: "report_if b s = Inr (u, t) \<Longrightarrow> errors t = 0 \<Longrightarrow> \<not> b \<and> t = s"
  by (auto simp: report_if_def outcome_iff split: if_splits)

lemma errors_assign: "name_assign_value fuel np e s = Inr (u, t) \<Longrightarrow> errors s \<le> errors t"
  by (erule assign_run) auto

lemma errors_assign_point: "assign_point fuel sg np s = Inr (u, t) \<Longrightarrow> errors s \<le> errors t"
  by (auto simp: assign_point_def outcome_iff dest: errors_assign split: option.splits)

lemma errors_onward: "onward s t \<Longrightarrow> errors s \<le> errors t"
  by (simp add: onward_def forth_def)

text \<open>What stands for the address of a label: its own fragment, or the current point.\<close>

definition placed :: "nat \<Rightarrow> 'x asm_scheme \<Rightarrow> bool" where
  "placed np t \<longleftrightarrow>
     (\<exists>fs. seg_fragments (seg_tab t (curseg t)) = fs @ [(np, [])]) \<or>
     name_val t np = seg_point (seg_tab t (curseg t)) \<and> seg_point (seg_tab t (curseg t)) \<noteq> None"

lemma point_exists: "good X s \<Longrightarrow> \<exists>p. seg_point (seg_tab s (curseg s)) = Some p"
  by (rule point_of [of "\<lambda>\<rho>. valued \<rho> s" s "curseg s"]) (auto simp: good_def)

lemma local_placed:
  assumes g: "good {np} s" and r: "name_val s np = None" "np < next_name s" "name_defined s np"
    and run: "settle_alignment fuel s = Inr (sg, s1)" "assign_point fuel sg np s1 = Inr (u, t)" and e: "errors t = 0"
  shows "good {} t \<and> placed np t"
proof -
  note o = keepsD [OF settle_onward run(1)]
  have e1: "errors s1 = 0" using errors_assign_point [OF run(2)] e by simp
  have "good {np} s1" by (rule onwardD [OF o g e1])
  moreover have "name_val s1 np = None" "name_defined s1 np" using o r by (simp_all add: onward_def forth_def)
  ultimately have d: "good {} t" "name_val t np = seg_point (seg_tab t sg)" "curseg t = curseg s1"
    using define_assign [OF _ _ _ run(2) e] by simp_all
  moreover have "sg = curseg t" using settle_result [OF run(1)] d by simp
  ultimately show ?thesis using point_exists [OF d(1)] by (auto simp: placed_def)
qed

lemma label_run:
  assumes run: "label fuel key s = Inr (u, t)" and scan: "scan_name key s = Inr (np, s1)"
  shows "errors s \<le> errors t" "good {} s \<Longrightarrow> errors t = 0 \<Longrightarrow> good {} t \<and> placed np t"
proof -
  let ?sg = "curseg s1" and ?a = "pending_alignment (seg_tab s1 (curseg s1))"
  from run scan obtain s2 s3 where 2: "report_if (name_defined s1 np) s1 = Inr ((), s2)"
    and s3: "s3 = s2\<lparr>name_defined := (name_defined s2)(np := True)\<rparr>"
    and rest: "(if name_global s1 np
       then rbind (set_fragment np) (\<lambda>_. rbind (set_align np ?a) (\<lambda>_. rbind (drop_pending_alignment ?sg) (\<lambda>_. add_fragment ?sg np)))
       else rbind (set_align np ?a) (\<lambda>_. rbind (settle_alignment fuel) (\<lambda>_. assign_point fuel ?sg np))) s3 = Inr (u, t)"
    by (auto simp: label_def set_defined_def outcome_iff)
  have a: "set_align np ?a s = Inr ((), s\<lparr>name_align := (name_align s)(np := ?a)\<rparr>)" for s :: "'a asm_scheme"
    by (simp add: set_align_def rmodify_def)
  note S = scan_name_run [OF scan]
  have le: "errors s \<le> errors s1" "errors s1 \<le> errors s2" "errors s3 = errors s2"
    using errors_onward [OF S(1)] 2 by (auto simp: s3 report_if_def outcome_iff split: if_splits)
  let ?goal = "errors s3 \<le> errors t \<and> (good {np} s3 \<longrightarrow> ready np s1 \<longrightarrow> s2 = s1 \<longrightarrow> errors t = 0 \<longrightarrow> good {} t \<and> placed np t)"
  have main: ?goal
  proof (cases "name_global s1 np")
    case True
    let ?f = "s3\<lparr>name_fragment := (name_fragment s3)(np := True), name_align := (name_align s3)(np := ?a)\<rparr>"
    from rest True obtain v s4 where 3: "drop_pending_alignment ?sg ?f = Inr (v, s4)" and 4: "add_fragment ?sg np s4 = Inr (u, t)"
      by (auto simp: set_fragment_def set_align_def outcome_iff)
    note o = keepsD [OF onward_drop 3] and h = heldD [OF held_fragments(1) 4]
    have "good {} t \<and> placed np t" if g: "good {np} s3" and e: "errors t = 0" "s2 = s1"
    proof -
      have "errors s4 = 0" using e h by (simp add: held_def)
      moreover have "good {np} ?f"
        by (rule good_same [OF _ _ _ _ _ _ _ _ _ _ _ g]) (simp_all add: same_program_def)
      ultimately have g4: "good {np} s4" by (intro onwardD [OF o])
      have c: "curseg s4 = ?sg" "name_fragment s4 np"
        using o h e by (auto simp: onward_def forth_def s3 held_def drop_pending_alignment_def upd_seg_def outcome_iff)
          (use 3 in \<open>simp_all add: drop_pending_alignment_def upd_seg_def outcome_iff\<close>)
      have "curseg t = ?sg" using h c by (simp add: held_def)
      then have "placed np t" using 4 by (auto simp: placed_def add_fragment_def upd_seg_def outcome_iff)
      with good_global_label [OF g4 _ 4 c(2)] c(1) show ?thesis by simp
    qed
    moreover have "errors s3 \<le> errors t" using o h by (simp add: onward_def forth_def held_def)
    ultimately show ?thesis by simp
  next
    case False
    let ?f = "s3\<lparr>name_align := (name_align s3)(np := ?a)\<rparr>"
    from rest False obtain sg s4 where 3: "settle_alignment fuel ?f = Inr (sg, s4)" and 4: "assign_point fuel ?sg np s4 = Inr (u, t)"
      by (auto simp: set_align_def outcome_iff)
    have "good {} t \<and> placed np t" if g: "good {np} s3" and r: "ready np s1" and e: "errors t = 0" "s2 = s1"
    proof -
      have "sg = ?sg" using settle_result [OF 3] by (simp add: s3 e)
      with local_placed [OF good_align [OF g] _ _ _ 3 _ e(1), of u] 4 r show ?thesis by (simp add: s3 e ready_def)
    qed
    moreover have "errors s3 \<le> errors t"
      using errors_onward [OF keepsD [OF settle_onward 3]] errors_assign_point [OF 4] by simp
    ultimately show ?thesis by simp
  qed
  with le show "errors s \<le> errors t" by simp
  assume g: "good {} s" and e: "errors t = 0"
  then have "errors s1 = 0" "errors s2 = 0" using le main by simp_all
  with report_if_run [OF 2] have s2: "s2 = s1" "\<not> name_defined s1 np" by simp_all
  have g1: "good {} s1" using onwardD [OF S(1) g] \<open>errors s1 = 0\<close> by simp
  have r: "ready np s1" by (rule scan_ready [OF scan g1 g s2(2)])
  then have "good {np} s3" using good_define [OF g1, of np] by (simp add: s3 s2 ready_def)
  with main r s2 e show "good {} t \<and> placed np t" by simp
qed

lemma label_sound: "keeps sound (label fuel key)"
proof (rule keepsI)
  fix s t :: "'a asm_scheme" and u assume run: "label fuel key s = Inr (u, t)"
  then obtain np s1 where "scan_name key s = Inr (np, s1)" by (auto simp: label_def rbind_Inr)
  from label_run [OF run this] show "sound s t" by (simp add: sound_def)
qed

lemma local_label_run:
  assumes run: "local_label fuel key s = Inr (u, t)" and scan: "scan_name key s = Inr (np, s1)"
  shows "errors s \<le> errors t" "good {} s \<Longrightarrow> errors t = 0 \<Longrightarrow> good {} t \<and> placed np t"
proof -
  from run scan obtain s2 sg s3 s4 where 2: "report_if (name_defined s1 np) s1 = Inr ((), s2)"
    and 3: "settle_alignment fuel s2 = Inr (sg, s3)" and s4: "s4 = s3\<lparr>name_defined := (name_defined s3)(np := True)\<rparr>"
    and 4: "assign_point fuel sg np s4 = Inr (u, t)"
    by (auto simp: local_label_def set_defined_def outcome_iff)
  note S = scan_name_run [OF scan] and o = keepsD [OF settle_onward 3]
  have le: "errors s \<le> errors s1" "errors s1 \<le> errors s2" "errors s2 \<le> errors s3" "errors s3 \<le> errors t"
    using errors_onward [OF S(1)] errors_onward [OF o] errors_assign_point [OF 4] 2
    by (auto simp: s4 report_if_def outcome_iff split: if_splits)
  then show "errors s \<le> errors t" by simp
  assume g: "good {} s" and e: "errors t = 0"
  then have e': "errors s1 = 0" "errors s2 = 0" "errors s3 = 0" using le by simp_all
  with report_if_run [OF 2] have s2: "s2 = s1" "\<not> name_defined s1 np" by simp_all
  have g1: "good {} s1" using onwardD [OF S(1) g] e' by simp
  have r: "ready np s3" using ready_forth [OF onward_forth [OF o [unfolded s2]] scan_ready [OF scan g1 g s2(2)]] .
  have g3: "good {} s3" using onwardD [OF o] g1 s2 e' by simp
  then have g4: "good {np} s4" using r good_define [OF g3, of np] by (simp add: s4 ready_def)
  have n4: "name_val s4 np = None" "name_defined s4 np" using r by (simp_all add: s4 ready_def)
  note D = define_assign [OF g4 n4 4 e]
  moreover have "sg = curseg t" using settle_result [OF 3] D(6) by (simp add: s4)
  ultimately show "good {} t \<and> placed np t" using point_exists [OF D(1)] by (auto simp: placed_def)
qed

lemma local_label_sound: "keeps sound (local_label fuel key)"
proof (rule keepsI)
  fix s t :: "'a asm_scheme" and u assume run: "local_label fuel key s = Inr (u, t)"
  then obtain np s1 where "scan_name key s = Inr (np, s1)" by (auto simp: local_label_def rbind_Inr)
  from local_label_run [OF run this] show "sound s t" by (simp add: sound_def)
qed

lemma digit_label_sound: "keeps sound (digit_label fuel d)"
proof (rule keepsI)
  fix s t :: "'a asm_scheme" and u assume run: "digit_label fuel d s = Inr (u, t)"
  then obtain p s1 where 1: "current_point fuel s = Inr (p, s1)"
    and 2: "(case forwlab s1 d of None \<Rightarrow> rret () | Some np \<Rightarrow> rbind (name_assign_value fuel np p) (\<lambda>_. rbind (set_defined np) (\<lambda>_.
        rmodify (\<lambda>s. s\<lparr>forwlab := (forwlab s)(d := None)\<rparr>)))) (s1\<lparr>backlab := (backlab s1)(d := Some p)\<rparr>) = Inr (u, t)"
    by (auto simp: digit_label_def outcome_iff)
  let ?b = "s1\<lparr>backlab := (backlab s1)(d := Some p)\<rparr>"
  note o = keepsD [OF current_point_onward 1]
  have gb: "good {} ?b" if g: "good {} s1"
  proof (rule good_step [OF g])
    from 1 obtain sg where "settle_alignment fuel s = Inr (sg, s1)" "seg_point (seg_tab s1 sg) = Some p"
      by (auto simp: current_point_def outcome_iff split: option.splits)
    then have "wf_expr False p" using settle_result point_wf [OF g] by blast
    moreover have "good_names {} s1" using g by (simp add: good_def)
    ultimately show "good_names {} ?b" by (simp add: good_names_def)
  qed (simp_all add: same_program_def valued_def)
  show "sound s t"
  proof (cases "forwlab s1 d")
    case None
    with 2 have "t = ?b" by (simp add: outcome_iff)
    then show ?thesis using gb onwardD [OF o] errors_onward [OF o] by (simp add: sound_def)
  next
    case (Some np)
    from 2 Some obtain w s2 where 3: "name_assign_value fuel np p ?b = Inr (w, s2)"
      and t: "t = s2\<lparr>name_defined := (name_defined s2)(np := True), forwlab := (forwlab s2)(d := None)\<rparr>"
      by (auto simp: set_defined_def outcome_iff)
    from 3 obtain k v where s2: "s2 = ?b\<lparr>errors := k, name_val := (name_val ?b)(np \<mapsto> v)\<rparr>"
      and k: "k = errors ?b \<and> v = p \<or> k = Suc (errors ?b)" by (rule assign_run)
    have "good {} t" if g: "good {} s" and e: "errors t = 0"
    proof -
      have "errors s1 = 0" using k e by (auto simp: t s2)
      then have gb: "good {} ?b" using gb onwardD [OF o g] by simp
      let ?f = "?b\<lparr>forwlab := (forwlab ?b)(d := None)\<rparr>"
      have gf: "good {} ?f"
      proof (rule good_step [OF gb])
        have "good_names {} ?b" using gb by (simp add: good_def)
        then show "good_names {} ?f" by (simp add: good_names_def)
      qed (simp_all add: same_program_def valued_def)
      have f: "np < next_name ?f" "np \<notin> ran (forwlab ?f)" "name_val ?f np = None"
        using gb Some by (auto simp: good_def good_names_def ran_def split: if_splits)
      from good_define [OF gf f(1,2)] have "good {np} (?f\<lparr>name_defined := (name_defined ?f)(np := True)\<rparr>)" by simp
      from good_assign [OF this, of v] f(3)
      have "good {} (?f\<lparr>name_defined := (name_defined ?f)(np := True), name_val := (name_val ?f)(np \<mapsto> v)\<rparr>)" by simp
      then show "good {} t" by (rule good_same [rotated 11]) (simp_all add: same_program_def t s2)
    qed
    moreover have "errors s \<le> errors t" using errors_onward [OF o] k by (auto simp: t s2)
    ultimately show ?thesis by (simp add: sound_def)
  qed
qed

section \<open>Commands\<close>

lemma emit_cmd_settled: "keeps onward (rbind (settle_alignment fuel) (\<lambda>sg. emit_cmd fuel sg opcode e))"
  by (rule onward_settled) (rule keeps_forth(1) [OF held_emit_cmd], rule onward_emit_cmd)

lemma direct_cmd_onward: "keeps onward (direct_cmd fuel opcode arg)"
  unfolding direct_cmd_def by (intro onward.rules parse_expr_onward emit_cmd_settled)

lemma indirect_cmd_onward: "keeps onward (indirect_cmd fuel n)"
  unfolding indirect_cmd_def by (rule emit_cmd_settled)

lemma fpu_cmd_onward: "keeps onward (fpu_cmd fuel n)"
  unfolding fpu_cmd_def
proof (rule onward_settled)
  show "keeps forth (rbind (emit_cmd fuel sg opcode_ldc (Const n)) (\<lambda>_. emit_cmd fuel sg opcode_opr (Const 0xab)))" for sg
    by (intro forth.rules keeps_forth(1) [OF held_emit_cmd])
  fix sg and s t :: "'a asm_scheme" and r
  assume "rbind (emit_cmd fuel sg opcode_ldc (Const n)) (\<lambda>_. emit_cmd fuel sg opcode_opr (Const 0xab)) s = Inr (r, t)"
    and sg: "sg < nsegments s"
  then obtain u s1 where 1: "emit_cmd fuel sg opcode_ldc (Const n) s = Inr (u, s1)" and 2: "emit_cmd fuel sg opcode_opr (Const 0xab) s1 = Inr (r, t)"
    by (auto simp: rbind_Inr)
  have "sg < nsegments s1" using heldD [OF held_emit_cmd 1] sg by (simp add: held_def)
  from onward_trans [OF onward_emit_cmd [OF 1 sg] onward_emit_cmd [OF 2 this]] show "onward s t" .
qed

end
