(* ===== verification/AsmMeaning.thy ===== *)
theory AsmMeaning
  imports AsmSound
begin

text \<open>
  The remaining statements of the assembler keep the invariant, too; what jumps and common fragments come to.
\<close>

section \<open>Jumps\<close>

text \<open>What the bodies and the chains of elements depend on.\<close>

definition bodied :: "'x ments_scheme \<Rightarrow> 'x ments_scheme \<Rightarrow> bool" where
  "bodied s t \<longleftrightarrow> el_body t = el_body s \<and> (\<forall>i. seg_fragments (seg_tab t i) = seg_fragments (seg_tab s i))"

interpretation bodied: expr_frame bodied
proof unfold_locales
  show "bodied s t" if "same_tables s t" for s t :: "'x ments_scheme"
    using that more_program [of t s] by (simp add: same_tables_def bodied_def)
qed (auto simp: bodied_def)

lemma bodied_basic:
  "keeps bodied report_error" "keeps bodied (set_size el e)" "keeps bodied (expr_range lo hi)" "keeps bodied (estimate fuel e)"
  by (auto simp: keeps_def report_error_def set_size_def expr_range_def estimate_def outcome_iff bodied_def)

lemma bodied_range_expr: "keeps bodied (range_expr b)"
  unfolding range_expr_def by (intro bodied.rules bodied_basic)

lemma bodied_upd_seg: "(\<And>g. seg_fragments (f g) = seg_fragments g) \<Longrightarrow> keeps bodied (upd_seg sg f)"
  by (auto simp: keeps_def upd_seg_def outcome_iff bodied_def)

lemma bodied_add_to_point: "keeps bodied (add_to_point sg el)"
proof -
  have "keeps bodied (upd_point sg (\<lambda>p. expr_plus_element p el) :: ('a ments_scheme, unit) step)"
    unfolding upd_point_def by (intro bodied.rules bodied.quiet quiet_plus bodied_upd_seg) simp
  then show ?thesis
    unfolding add_to_point_def by (intro bodied.rules keeps_modify) (simp_all add: bodied_def)
qed

lemma emit_loose_body:
  assumes "emit_cmd fuel sg opcode (Binop t l r) s = Inr (u, s')"
  shows "\<exists>fs frag els el. seg_fragments (seg_tab s' sg) = fs @ [(frag, els @ [el])] \<and> el_body s' el = ELEMENT_CMD opcode (Binop t l r)"
proof -
  let ?rest = "\<lambda>el. rbind (estimate fuel (Binop t l r)) (\<lambda>b.
     rbind (rget (\<lambda>s. seg_slot (seg_tab s sg))) (\<lambda>slot.
     rbind (if slot \<noteq> 0 \<and> slot <s fst (cmd_sizes b) then report_error else rret ()) (\<lambda>_.
     rbind (range_expr (if slot \<noteq> 0 then (slot, slot) else cmd_sizes b)) (\<lambda>size.
     rbind (set_size el size) (\<lambda>_. add_to_point sg el)))))"
  from assms obtain el s1 v s2 where 1: "add_element sg (ELEMENT_CMD opcode (Binop t l r)) s = Inr (el, s1)"
    and 2: "?rest el s1 = Inr (v, s2)" and 3: "upd_seg sg (\<lambda>g. g\<lparr>seg_slot := 0\<rparr>) s2 = Inr (u, s')"
    by (auto simp: emit_cmd_def emit_loose_cmd_def rbind_Inr)
  have "keeps bodied (?rest el :: ('a ments_scheme, unit) step)"
    by (intro bodied.rules bodied_basic bodied_range_expr bodied_add_to_point)
  from keepsD [OF this 2] keepsD [OF bodied_upd_seg 3] have "bodied s1 s'" by (auto simp: bodied_def)
  with 1 show ?thesis by (auto elim!: add_element_run simp: bodied_def)
qed

lemma pcrel_run:
  assumes run: "pcrel_cmd fuel opcode arg s = Inr (u, t)" and arg: "parse_expr fuel arg s = Inr (e, s1)"
  shows "errors s \<le> errors t"
    "good {} s \<Longrightarrow> errors t = 0 \<Longrightarrow> good {} t \<and> (\<exists>np fs frag els el.
       seg_fragments (seg_tab t (curseg t)) = fs @ [(frag, els @ [el])] \<and> el_body t el = ELEMENT_CMD opcode (Binop EXPR_MINUS e (Name np)) \<and>
       name_val t np = seg_point (seg_tab t (curseg t)))"
proof -
  from run arg obtain np s2 sg s3 temp s4 s5 s6 where 2: "new_noname s1 = Inr (np, s2)"
    and 3: "settle_alignment fuel s2 = Inr (sg, s3)" and 4: "expr_binop EXPR_MINUS e (Name np) s3 = Inr (temp, s4)"
    and 5: "emit_cmd fuel sg opcode temp s4 = Inr ((), s5)" and 6: "assign_point fuel sg np s5 = Inr ((), s6)"
    and t: "t = s6\<lparr>name_defined := (name_defined s6)(np := True)\<rparr>"
    by (auto simp: pcrel_cmd_def set_defined_def outcome_iff)
  have temp: "temp = Binop EXPR_MINUS e (Name np)" and s4: "s4 = s3"
    using 4 by (auto simp: expr_binop_def expr_binop_general_def tag_iscomm_def outcome_iff split: expr.splits expr_tag.splits)
  note o1 = keepsD [OF parse_expr_onward arg] and N = new_noname_run [OF 2] and o3 = keepsD [OF settle_onward 3]
  note h = heldD [OF held_emit_cmd 5]
  have sg: "sg = curseg s3" using settle_result [OF 3] by simp
  have le: "errors s \<le> errors s1" "errors s1 \<le> errors s2" "errors s2 \<le> errors s3" "errors s3 \<le> errors s5" "errors s5 \<le> errors s6"
    using errors_onward [OF o1] errors_onward [OF N(1)] errors_onward [OF o3] h errors_assign_point [OF 6] by (simp_all add: s4 held_def)
  then show "errors s \<le> errors t" by (simp add: t)
  assume g: "good {} s" and e: "errors t = 0"
  have e': "errors s1 = 0" "errors s2 = 0" "errors s3 = 0" "errors s5 = 0" "errors s6 = 0" using le e by (simp_all add: t)
  have g1: "good {} s1" by (rule onwardD [OF o1 g e'(1)])
  have g2: "good {} s2" by (rule onwardD [OF N(1) g1 e'(2)])
  have "np \<notin> ran (forwlab s2)" using g1 N by (auto simp: good_def good_names_def ran_def)
  moreover have "name_val s2 np = None" using g2 N by (auto simp: good_def good_names_def)
  ultimately have r2: "ready np s2" "\<not> name_defined s2 np" using N by (simp_all add: ready_def)
  have g3: "good {} s3" by (rule onwardD [OF o3 g2 e'(3)])
  have sgn: "sg < nsegments s4" using g3 sg by (simp add: good_def s4)
  note o5 = onward_emit_cmd [OF 5 sgn]
  have g5: "good {} s5" using onwardD [OF o5] g3 e' by (simp add: s4)
  have r5: "ready np s5" using ready_forth [OF onward_forth [OF onward_trans [OF o3]] r2(1)] o5 by (simp add: s4)
  let ?d = "s5\<lparr>name_defined := (name_defined s5)(np := True)\<rparr>"
  have gd: "good {np} ?d" using good_define [OF g5, of np] r5 by (simp add: ready_def)
  have nd: "name_val ?d np = None" "name_defined ?d np" using r5 by (simp_all add: ready_def)
  from 6 obtain p where p: "seg_point (seg_tab s5 sg) = Some p" and a: "name_assign_value fuel np p s5 = Inr ((), s6)"
    by (auto simp: assign_point_def outcome_iff split: option.splits)
  from a obtain k v where s6: "s6 = s5\<lparr>errors := k, name_val := (name_val s5)(np \<mapsto> v)\<rparr>" and k: "k = errors s5 \<and> v = p \<or> k = Suc (errors s5)"
    by (rule assign_run)
  have v: "v = p" using k e' by (auto simp: s6)
  from good_assign [OF gd nd, of p] have gt: "good {} t"
    by (rule good_same [rotated 11]) (simp_all add: same_program_def t s6 v)
  have c: "curseg t = sg" using h sg by (simp add: held_def t s6 s4)
  from emit_loose_body [OF 5 [unfolded temp]] obtain fs frag els el where
    "seg_fragments (seg_tab s5 sg) = fs @ [(frag, els @ [el])]" "el_body s5 el = ELEMENT_CMD opcode (Binop EXPR_MINUS e (Name np))" by blast
  then have "seg_fragments (seg_tab t (curseg t)) = fs @ [(frag, els @ [el])]" "el_body t el = ELEMENT_CMD opcode (Binop EXPR_MINUS e (Name np))"
    "name_val t np = seg_point (seg_tab t (curseg t))" using c p by (simp_all add: t s6 v)
  with gt show "good {} t \<and> (\<exists>np fs frag els el.
       seg_fragments (seg_tab t (curseg t)) = fs @ [(frag, els @ [el])] \<and> el_body t el = ELEMENT_CMD opcode (Binop EXPR_MINUS e (Name np)) \<and>
       name_val t np = seg_point (seg_tab t (curseg t)))" by blast
qed

lemma pcrel_sound: "keeps sound (pcrel_cmd fuel opcode arg)"
proof (rule keepsI)
  fix s t :: "'a asm_scheme" and u assume run: "pcrel_cmd fuel opcode arg s = Inr (u, t)"
  then obtain e s1 where "parse_expr fuel arg s = Inr (e, s1)" by (auto simp: pcrel_cmd_def rbind_Inr)
  from pcrel_run [OF run this] show "sound s t" by (simp add: sound_def)
qed

section \<open>Segments and fragments\<close>

lemma globalize_run:
  assumes "globalize_name np s = Inr (u, t)"
  shows "\<exists>g i h. t = s\<lparr>name_global := g, name_idx := i, global_names := h\<rparr> \<and> (\<forall>n. n \<noteq> np \<longrightarrow> g n = name_global s n)"
proof -
  have "t = s\<lparr>name_global := name_global s, name_idx := name_idx s, global_names := global_names s\<rparr> \<or>
    t = s\<lparr>name_global := (name_global s)(np := True), name_idx := (name_idx s)(np := word_of_nat (length (global_names s))),
          global_names := global_names s @ [np]\<rparr>"
    using assms by (auto simp: globalize_name_def outcome_iff)
  then show ?thesis by fastforce
qed

lemma good_globalize:
  assumes "globalize_name np s = Inr (u, t)" "good X s"
  shows "good X t"
proof -
  from globalize_run [OF assms(1)] obtain g i h where "t = s\<lparr>name_global := g, name_idx := i, global_names := h\<rparr>" by blast
  then show ?thesis by (intro good_same [OF _ _ _ _ _ _ _ _ _ _ _ assms(2)]) (simp_all add: same_program_def)
qed

lemma default_fragment_run:
  assumes "default_fragment s = Inr (np, t)"
  shows "onward s t" "np = next_name s"
proof -
  from assms obtain s1 s2 where 1: "new_noname s = Inr (np, s1)" and 2: "globalize_name np s1 = Inr ((), s2)"
    and t: "t = s2\<lparr>name_fragment := (name_fragment s2)(np := True), name_defined := (name_defined s2)(np := True)\<rparr>"
    by (auto simp: default_fragment_def set_fragment_def set_defined_def outcome_iff)
  note N = new_noname_run [OF 1]
  from globalize_run [OF 2] obtain g i h where s2: "s2 = s1\<lparr>name_global := g, name_idx := i, global_names := h\<rparr>"
    and gl: "\<forall>n. n \<noteq> np \<longrightarrow> g n = name_global s1 n" by blast
  show "np = next_name s" by (rule N)
  have "good X t" if "good X s" "errors t = 0" for X
  proof -
    have g1: "good X s1" using onwardD [OF N(1) that(1)] that(2) by (simp add: t s2)
    have "np \<notin> ran (forwlab s1)" using that(1) N by (auto simp: good_def good_names_def ran_def)
    with good_define [OF g1, of np] N have d: "good (insert np X) (s1\<lparr>name_defined := (name_defined s1)(np := True)\<rparr>)" by simp
    let ?f = "s1\<lparr>name_defined := (name_defined s1)(np := True), name_fragment := (name_fragment s1)(np := True)\<rparr>"
    have f: "good (insert np X) ?f"
      by (rule good_same [OF _ _ _ _ _ _ _ _ _ _ _ d]) (simp_all add: same_program_def)
    have "good X ?f"
    proof (rule good_step [OF f])
      have "good_names (insert np X) ?f" using f by (simp add: good_def)
      then show "good_names X ?f" by (auto simp: good_names_def)
    qed (simp_all add: same_program_def)
    then show "good X t" by (rule good_same [rotated 11]) (simp_all add: same_program_def t s2)
  qed
  moreover have "forth s t" using N(1,2) gl unfolding onward_def forth_def by (auto simp: t s2)
  ultimately show "onward s t" by (simp add: onward_def)
qed

lemma onward_default: "keeps onward default_fragment"
  by (rule keepsI) (rule default_fragment_run)

lemma onward_add_fragment:
  assumes "add_fragment sg frag s = Inr (u, t)" "sg < nsegments s"
  shows "onward s t"
  by (rule held_onward [OF heldD [OF held_fragments(1) assms(1)]]) (use assms wf_add_fragment in blast)

lemma onward_second:
  assumes "second_fragment sg s = Inr (u, t)" "sg < nsegments s"
  shows "onward s t"
proof -
  from assms obtain np s1 where 1: "default_fragment s = Inr (np, s1)" and 2: "add_fragment sg np s1 = Inr (u, t)"
    by (auto simp: second_fragment_def rbind_Inr)
  have "sg < nsegments s1" using default_fragment_run(1) [OF 1] assms(2) by (simp add: onward_def forth_def)
  from onward_trans [OF default_fragment_run(1) [OF 1] onward_add_fragment [OF 2 this]] show ?thesis .
qed

lemma add_segment_run:
  assumes "add_segment np frag (s :: 'x asm_scheme) = Inr (sg, t)"
  shows "onward s t" "sg < nsegments t"
proof -
  have f: "sg = nsegments s" "nsegments t = Suc (nsegments s)" "name_segment t = (name_segment s)(np \<mapsto> sg)" "errors t = errors s"
    "next_name t = next_name s" "curseg t = curseg s" "name_val t = name_val s" "name_defined t = name_defined s"
    "name_ident t = name_ident s" "name_global t = name_global s" "name_fragment t = name_fragment s" "forwlab t = forwlab s"
    "asm_names t = asm_names s" "backlab t = backlab s"
    using assms by (auto simp: add_segment_def add_fragment_def upd_seg_def outcome_iff)
  then show "sg < nsegments t" by simp
  have "good X t" if "good X s" for X
    using that wf_add_segment [OF _ assms] good_names_cong [of t s X] valued_cong [of t s] f
    by (auto simp: good_def less_Suc_eq)
  then show "onward s t" by (simp add: onward_def forth_def f)
qed

lemma good_curseg: "good X s \<Longrightarrow> sg < nsegments s \<Longrightarrow> good X (s\<lparr>curseg := sg\<rparr>)"
  using same_program_wf [of s "s\<lparr>curseg := sg\<rparr>"] valued_cong [of "s\<lparr>curseg := sg\<rparr>" s]
  by (auto simp: good_def good_names_def same_program_def)

lemma segment_sound: "keeps sound (segment_directive key)"
proof (rule keepsI)
  fix s t :: "'a asm_scheme" and u assume run: "segment_directive key s = Inr (u, t)"
  then obtain np s1 where 1: "scan_segment key s = Inr (np, s1)" and 2: "(case name_segment s1 np of
         Some sg \<Rightarrow> rmodify (\<lambda>s. s\<lparr>curseg := sg\<rparr>)
       | None \<Rightarrow> rbind default_fragment (\<lambda>frag. rbind (add_segment np frag) (\<lambda>sg. rbind (rmodify (\<lambda>s. s\<lparr>curseg := sg\<rparr>)) (\<lambda>_.
             if c_string (name_ident s1 np) = bss_ident then second_fragment sg else rret ())))) s1 = Inr (u, t)"
    by (auto simp: segment_directive_def outcome_iff)
  note o = scan_segment_run(1) [OF 1]
  show "sound s t"
  proof (cases "name_segment s1 np")
    case (Some sg)
    with 2 have t: "t = s1\<lparr>curseg := sg\<rparr>" by (simp add: outcome_iff)
    have "good {} t" if "good {} s" "errors t = 0"
    proof -
      have g: "good {} s1" using onwardD [OF o that(1)] that(2) by (simp add: t)
      then have "sg < nsegments s1" using Some by (auto simp: good_def)
      from good_curseg [OF g this] show ?thesis by (simp add: t)
    qed
    with errors_onward [OF o] show ?thesis by (simp add: sound_def t)
  next
    case None
    with 2 obtain frag s2 sg s3 where 3: "default_fragment s1 = Inr (frag, s2)" and 4: "add_segment np frag s2 = Inr (sg, s3)"
      and 5: "(if c_string (name_ident s1 np) = bss_ident then second_fragment sg else rret ()) (s3\<lparr>curseg := sg\<rparr>) = Inr (u, t)"
      by (auto simp: outcome_iff)
    note A = add_segment_run [OF 4]
    have o3: "onward s s3" by (rule onward_trans [OF onward_trans [OF o default_fragment_run(1) [OF 3]] A(1)])
    have o5: "onward (s3\<lparr>curseg := sg\<rparr>) t"
      using 5 onward_second [of sg "s3\<lparr>curseg := sg\<rparr>" u t] A(2) by (auto simp: outcome_iff onward_refl split: if_splits)
    have "good {} t" if "good {} s" "errors t = 0"
      using onwardD [OF o5 good_curseg [OF onwardD [OF o3 that(1)] A(2)] that(2)] errors_onward [OF o5] that(2) by simp
    then show ?thesis using errors_onward [OF o3] errors_onward [OF o5] by (simp add: sound_def)
  qed
qed

lemma bss_segment_run:
  assumes "bss_segment s = Inr (sg, t)"
  shows "onward s t" "good X s \<Longrightarrow> errors t = 0 \<Longrightarrow> sg < nsegments t"
proof -
  from assms obtain np s1 where 1: "scan_segment bss_ident s = Inr (np, s1)" and 2: "(case name_segment s1 np of
         Some sg \<Rightarrow> rret sg
       | None \<Rightarrow> rbind default_fragment (\<lambda>frag. rbind (add_segment np frag) (\<lambda>sg. rbind (second_fragment sg) (\<lambda>_. rret sg)))) s1 = Inr (sg, t)"
    by (auto simp: bss_segment_def outcome_iff)
  note o = scan_segment_run(1) [OF 1]
  have "onward s t \<and> (good X s \<longrightarrow> errors t = 0 \<longrightarrow> sg < nsegments t)" for X
  proof (cases "name_segment s1 np")
    case (Some sg')
    with 2 o onwardD [OF o, of X] show ?thesis by (auto simp: outcome_iff good_def)
  next
    case None
    with 2 obtain frag s2 s3 v where 3: "default_fragment s1 = Inr (frag, s2)" and 4: "add_segment np frag s2 = Inr (sg, s3)"
      and 5: "second_fragment sg s3 = Inr (v, t)"
      by (auto simp: outcome_iff)
    note A = add_segment_run [OF 4]
    note o5 = onward_second [OF 5 A(2)]
    have "sg < nsegments t" using o5 A(2) by (simp add: onward_def forth_def)
    with onward_trans [OF onward_trans [OF onward_trans [OF o default_fragment_run(1) [OF 3]] A(1)] o5] show ?thesis by simp
  qed
  then show "onward s t" "good X s \<Longrightarrow> errors t = 0 \<Longrightarrow> sg < nsegments t" by blast+
qed

text \<open>Nothing is swapped.\<close>

lemma swap_nothing: "swap_last_fragments sg s = Inr (u, t) \<Longrightarrow> t = s"
proof -
  let ?fs = "seg_fragments (seg_tab s sg)"
  assume "swap_last_fragments sg s = Inr (u, t)"
  then have n: "2 \<le> length ?fs"
    and t: "t = s\<lparr>seg_tab := (seg_tab s)(sg := (seg_tab s sg)\<lparr>seg_fragments :=
      (?fs[length ?fs - 2 := ?fs ! (length ?fs - 1)])[length ?fs - 2 := ?fs ! (length ?fs - 2)]\<rparr>)\<rparr>"
    by (auto simp: swap_last_fragments_def upd_seg_def outcome_iff Let_def rbind_def rget_def rstop_def rmodify_def split: if_splits)
  have "(?fs[length ?fs - 2 := ?fs ! (length ?fs - 1)])[length ?fs - 2 := ?fs ! (length ?fs - 2)] = ?fs" by simp
  then show ?thesis unfolding t by (simp only:) simp
qed

lemma emit_data_fresh:
  assumes run: "emit_data fuel sg w v c s = Inr (u, t)" and s: "seg_curel (seg_tab s sg) = None" "seg_fragments (seg_tab s sg) = fs @ [(np, [])]"
  shows "\<exists>el. seg_fragments (seg_tab t sg) = fs @ [(np, [el])]"
proof -
  let ?rest = "\<lambda>el. rbind (data_size fuel c w) (\<lambda>size. rbind (set_size el size) (\<lambda>_. add_to_point sg el))"
  have "same_data sg w v s = Inr (None, s)"
    using s(1) by (simp add: same_data_def rbind_def rget_def rret_def)
  with run obtain el s1 where 1: "add_element sg (ELEMENT_DATA w v c) s = Inr (el, s1)" and 2: "?rest el s1 = Inr (u, t)"
    by (auto simp: emit_data_def rbind_Inr)
  have "keeps bodied (?rest el :: ('a ments_scheme, unit) step)"
    unfolding data_size_def by (intro bodied.rules bodied_basic bodied_range_expr bodied_add_to_point bodied.quiet quiet_binop)
  from keepsD [OF this 2] 1 s(2) show ?thesis by (auto elim!: add_element_run simp: bodied_def)
qed

lemma comm_run:
  assumes run: "comm_directive fuel key extent s = Inr (u, t)" and scan: "scan_name key s = Inr (np, s1)"
    and ext: "parse_expr fuel extent s1 = Inr (e, s2)" and bss: "bss_segment s2 = Inr (bss, s3)"
  shows "errors s \<le> errors t" "good {} s \<Longrightarrow> errors t = 0 \<Longrightarrow> good {} t"
    "\<exists>fs el. seg_fragments (seg_tab t bss) = fs @ [(np, [el])]"
proof -
  from run scan ext bss obtain s4 s5 s6 s7 s8 s9 where 4: "report_if (name_defined s3 np) s3 = Inr ((), s4)"
    and 5: "globalize_name np s4 = Inr ((), s5)"
    and s6: "s6 = s5\<lparr>name_fragment := (name_fragment s5)(np := True), name_defined := (name_defined s5)(np := True),
       name_common := (name_common s5)(np := True), name_align := (name_align s5)(np := pending_alignment (seg_tab s3 (curseg s3)))\<rparr>"
    and 7: "drop_pending_alignment (curseg s3) s6 = Inr ((), s7)" and 8: "add_fragment bss np s7 = Inr ((), s8)"
    and 9: "emit_data fuel bss 1 (Const 0) e s8 = Inr ((), s9)" and 10: "swap_last_fragments bss s9 = Inr ((), t)"
    by (auto simp: comm_directive_def set_fragment_def set_defined_def set_common_def set_align_def rbind_Inr rget_Inr rmodify_Inr)
  from globalize_run [OF 5] obtain g i h where s5: "s5 = s4\<lparr>name_global := g, name_idx := i, global_names := h\<rparr>" by blast
  note t = swap_nothing [OF 10]
  note S = scan_name_run [OF scan] and o2 = keepsD [OF parse_expr_onward ext] and B = bss_segment_run [OF bss]
  note o7 = keepsD [OF onward_drop 7] and h8 = heldD [OF held_fragments(1) 8] and h9 = heldD [OF held_emit_data 9]
  have o: "onward s s3" by (rule onward_trans [OF onward_trans [OF S(1) o2] B(1)])
  have le: "errors s \<le> errors s3" "errors s3 \<le> errors s4" "errors s4 \<le> errors s7" "errors s7 \<le> errors s8" "errors s8 \<le> errors t"
    using errors_onward [OF o] errors_onward [OF o7] h8 h9 4
    by (auto simp: t held_def s5 s6 report_if_def outcome_iff split: if_splits)
  then show "errors s \<le> errors t" by simp
  show "\<exists>fs el. seg_fragments (seg_tab t bss) = fs @ [(np, [el])]"
    unfolding t by (rule exI) (rule emit_data_fresh [OF 9], use 8 in \<open>auto simp: add_fragment_def upd_seg_def outcome_iff\<close>)
  assume g: "good {} s" and e: "errors t = 0"
  have e': "errors s3 = 0" "errors s4 = 0" "errors s7 = 0" "errors s8 = 0" using le e by simp_all
  then have e12: "errors s1 = 0" "errors s2 = 0" using errors_onward [OF o2] errors_onward [OF B(1)] by simp_all
  from report_if_run [OF 4 e'(2)] have s4: "s4 = s3" "\<not> name_defined s3 np" by simp_all
  have g1: "good {} s1" by (rule onwardD [OF S(1) g e12(1)])
  have g2: "good {} s2" by (rule onwardD [OF o2 g1 e12(2)])
  have g3: "good {} s3" by (rule onwardD [OF B(1) g2 e'(1)])
  have n1: "np < next_name s1" using scan_name_run(2) [OF scan g] by simp
  have o13: "forth s1 s3" using onward_trans [OF o2 B(1)] by (rule onward_forth)
  have "\<not> name_defined s1 np" using o13 n1 s4(2) by (simp add: forth_def)
  then have "ready np s1" by (rule scan_ready [OF scan g1 g])
  with o13 have "ready np s3" by (rule ready_forth)
  then have d: "good {np} (s3\<lparr>name_defined := (name_defined s3)(np := True)\<rparr>)"
    using good_define [OF g3, of np] by (simp add: ready_def)
  let ?f = "s3\<lparr>name_defined := (name_defined s3)(np := True), name_fragment := (name_fragment s3)(np := True)\<rparr>"
  have f: "good {np} ?f" by (rule good_same [OF _ _ _ _ _ _ _ _ _ _ _ d]) (simp_all add: same_program_def)
  have "good {} ?f"
  proof (rule good_step [OF f])
    have "good_names {np} ?f" using f by (simp add: good_def)
    then show "good_names {} ?f" by (auto simp: good_names_def)
  qed (simp_all add: same_program_def)
  then have "good {} s6" by (rule good_same [rotated 11]) (simp_all add: same_program_def s6 s5 s4)
  then have g7: "good {} s7" by (rule onwardD [OF o7 _ e'(3)])
  have "bss < nsegments s3" by (rule B(2) [OF g2 e'(1)])
  then have b: "bss < nsegments s7" using o7 by (simp add: onward_def forth_def s6 s5 s4)
  then have b8: "bss < nsegments s8" using h8 by (simp add: held_def)
  from onwardD [OF onward_trans [OF onward_add_fragment [OF 8 b] onward_emit_data [OF 9 b8]] g7] e show "good {} t" by (simp add: t)
qed

lemma comm_sound: "keeps sound (comm_directive fuel key extent)"
proof (rule keepsI)
  fix s t :: "'a asm_scheme" and u assume run: "comm_directive fuel key extent s = Inr (u, t)"
  then obtain np s1 e s2 bss s3 where "scan_name key s = Inr (np, s1)" "parse_expr fuel extent s1 = Inr (e, s2)" "bss_segment s2 = Inr (bss, s3)"
    by (auto simp: comm_directive_def rbind_Inr)
  from comm_run [OF run this] show "sound s t" by (simp add: sound_def)
qed

section \<open>The other directives\<close>

lemma globl_sound: "keeps sound (globl_directive key)"
proof (rule keepsI)
  fix s t :: "'a asm_scheme" and u assume "globl_directive key s = Inr (u, t)"
  then obtain np s1 s2 where 1: "scan_name key s = Inr (np, s1)" and 2: "report_if (\<not> name_global s1 np \<and> name_defined s1 np) s1 = Inr ((), s2)"
    and 3: "globalize_name np s2 = Inr (u, t)"
    by (auto simp: globl_directive_def rbind_Inr rget_Inr)
  note o = scan_name_run(1) [OF 1]
  have t: "errors t = errors s2" using globalize_run [OF 3] by auto
  have le: "errors s1 \<le> errors s2" using 2 by (auto simp: report_if_def outcome_iff split: if_splits)
  have "good {} t" if "good {} s" "errors t = 0"
  proof -
    have e: "errors s2 = 0" using that(2) t by simp
    with report_if_run [OF 2] have "s2 = s1" by simp
    with good_globalize [OF 3] onwardD [OF o that(1)] e show ?thesis by simp
  qed
  then show "sound s t" using errors_onward [OF o] le t by (simp add: sound_def)
qed

lemma keeps_still_onward: "(\<And>s r t. m s = Inr (r, t) \<Longrightarrow> held s t \<and> same_program s t) \<Longrightarrow> keeps onward m"
  by (rule keepsI) (auto intro: held_still)

lemma onward_scan: "keeps onward (scan_name key)"
  by (rule keepsI) (rule scan_name_run)

lemma onward_report: "keeps onward report_error" "keeps onward (report_if b)"
  by (intro keeps_still_onward; auto simp: report_if_def outcome_iff held_def same_program_def split: if_splits)+

lemma need_onward: "keeps onward (need_directive key)"
proof -
  have "onward s (s\<lparr>name_needs := f\<rparr>)" for s :: "'a asm_scheme" and f
  proof -
    have "same_program s (s\<lparr>name_needs := f\<rparr>)" by (simp add: same_program_def)
    note w = same_program_wf [OF this]
    show ?thesis by (simp add: onward_def forth_def good_def good_names_def w valued_def)
  qed
  then have 1: "keeps onward (add_need n m :: ('a asm_scheme, unit) step)" for n m
    by (auto simp: keeps_def add_need_def outcome_iff onward_refl)
  have 2: "keeps onward (rmodify (\<lambda>s. s\<lparr>deferred_needs := f s\<rparr>) :: ('a asm_scheme, unit) step)" for f
    by (rule keeps_still_onward) (auto simp: outcome_iff held_def same_program_def)
  show ?thesis unfolding need_directive_def by (intro onward.rules onward_scan 1 2)
qed

lemma slot_onward: "keeps onward (slot_directive fuel arg)"
  unfolding slot_directive_def by (intro onward.rules parse_expr_onward onward_upd_seg onward_report) simp_all

lemma emit_data_settled: "keeps onward (rbind (settle_alignment fuel) (\<lambda>sg. emit_data fuel sg width e c))"
  by (rule onward_settled) (rule keeps_forth(1) [OF held_emit_data], rule onward_emit_data)

lemma emit_block_settled:
  "keeps onward (rbind (settle_alignment fuel) (\<lambda>sg. if width \<noteq> 1 then report_error else emit_block sg bs))"
proof (rule onward_settled)
  show "keeps forth (if width \<noteq> 1 then report_error else emit_block sg bs)" for sg
    by (intro forth.rules keeps_forth(1) [OF held_basic(1)] keeps_forth(1) [OF held_push(2)])
  show "onward s t" if "(if width \<noteq> 1 then report_error else emit_block sg bs) s = Inr (r, t)" "sg = curseg s" "sg < nsegments s"
    for sg and s t :: "'a asm_scheme" and r
    using that keepsD [OF onward_report(1)] onward_emit_block by (auto split: if_splits)
qed

lemma put_datum_onward: "keeps onward (put_datum fuel width d)"
proof (cases d)
  case (TOK_STRING bs)
  then show ?thesis unfolding put_datum_def by (simp only: datum.case) (rule emit_block_settled)
qed (unfold put_datum_def, simp_all only: datum.case, (intro onward.rules parse_expr_onward emit_data_settled)+)

lemma data_onward: "keeps onward (data_directive fuel width ds)"
  unfolding data_directive_def check_data_alignment_def by (intro onward.rules put_datum_onward)

lemma align_onward: "keeps onward (align_directive fuel al fill)"
  unfolding align_directive_def default_filler_def
  by (intro onward.rules parse_expr_onward settle_onward onward_upd_seg onward_report) simp_all

lemma assignment_sound: "keeps sound (assignment fuel key arg)"
proof (rule keepsI)
  fix s t :: "'a asm_scheme" and u assume "assignment fuel key arg s = Inr (u, t)"
  then obtain np s1 e s2 where 1: "scan_name key s = Inr (np, s1)" and 2: "parse_expr fuel arg s1 = Inr (e, s2)"
    and 3: "(if name_defined s2 np then report_error else rbind (set_defined np) (\<lambda>_. name_assign_value fuel np e)) s2 = Inr (u, t)"
    by (auto simp: assignment_def rbind_Inr rget_Inr)
  note S = scan_name_run [OF 1] and o2 = keepsD [OF parse_expr_onward 2]
  have o: "onward s s2" by (rule onward_trans [OF S(1) o2])
  show "sound s t"
  proof (cases "name_defined s2 np")
    case True
    with 3 show ?thesis using errors_onward [OF o] by (auto simp: sound_def outcome_iff)
  next
    case False
    let ?d = "s2\<lparr>name_defined := (name_defined s2)(np := True)\<rparr>"
    from 3 False have "name_assign_value fuel np e ?d = Inr (u, t)" by (auto simp: set_defined_def rbind_def rmodify_def)
    then obtain k v where t: "t = ?d\<lparr>errors := k, name_val := (name_val ?d)(np \<mapsto> v)\<rparr>"
      and k: "k = errors ?d \<and> v = e \<or> k = Suc (errors ?d)" by (rule assign_run)
    have "good {} t" if g: "good {} s" and et: "errors t = 0"
    proof -
      have e2: "errors s2 = 0" using k et by (auto simp: t)
      then have e1: "errors s1 = 0" using errors_onward [OF o2] by simp
      have g1: "good {} s1" by (rule onwardD [OF S(1) g e1])
      have g2: "good {} s2" by (rule onwardD [OF o2 g1 e2])
      have "np < next_name s1" using S(2) [OF g] by simp
      then have "\<not> name_defined s1 np" using o2 False by (simp add: onward_def forth_def)
      then have r: "ready np s2" by (rule ready_forth [OF onward_forth [OF o2] scan_ready [OF 1 g1 g]])
      from good_define [OF g2, of np] r have "good {np} ?d" by (simp add: ready_def)
      from good_assign [OF this, of v] r have "good {} (?d\<lparr>name_val := (name_val ?d)(np \<mapsto> v)\<rparr>)" by (simp add: ready_def)
      then show ?thesis by (rule good_same [rotated 11]) (simp_all add: same_program_def t)
    qed
    then show ?thesis using errors_onward [OF o] k by (auto simp: sound_def t)
  qed
qed

lemma statement_sound: "keeps sound (parse_statement fuel st)"
proof (cases st)
  case EMPTY_STATEMENT
  then show ?thesis by (simp add: sound.rules)
next
  case SYNTAX_ERROR
  then show ?thesis using sound_onward [OF onward_report(1)] by simp
qed (simp_all add: label_sound local_label_sound digit_label_sound pcrel_sound segment_sound globl_sound comm_sound assignment_sound
    sound_onward direct_cmd_onward indirect_cmd_onward fpu_cmd_onward need_onward slot_onward data_onward align_onward)

lemma statements_sound: "keeps sound (each (parse_statement fuel) source)"
  by (intro sound.rules statement_sound)

end
