(* ===== verification/AsmProps.thy ===== *)
theory AsmProps
  imports AsmMeaning
begin

text \<open>
  The start of the assembler, the state after a source without errors, and the address of the next byte.
\<close>

section \<open>The start\<close>

definition asm_init :: "(nat \<Rightarrow> bool) \<Rightarrow> asm" where
  "asm_init sh = ments.extend (sample_program\<lparr>next_name := 0, shared := sh\<rparr>)
     (asm.fields (table_init 1024) (table_init 32) 0 (\<lambda>_. None) (\<lambda>_. None) [] [])"

lemma head_column: "sint (hash_key default_segment) smod 32 = 18"
  unfolding default_segment_def bytes_of_def by code_simp

lemma default_segment_some: "default_segment \<noteq> []"
  by (simp add: default_segment_def bytes_of_def)

lemma initialize_fields:
  "\<exists>s. initialize (asm_init sh) = Inr ((), s) \<and> errors s = 0 \<and> name_val s = (\<lambda>_. None) \<and> next_name s = 2 \<and>
     name_defined s = (\<lambda>_. False)(0 := True) \<and> name_fragment s = (\<lambda>_. False)(0 := True) \<and> forwlab s = (\<lambda>_. None) \<and> backlab s = (\<lambda>_. None) \<and>
     asm_names s = (table_init 1024)\<lparr>nonames := [0]\<rparr> \<and> curseg s = 0 \<and> nsegments s = 1 \<and> name_segment s = [1 \<mapsto> 0] \<and> el_size s = (\<lambda>_. Const 0) \<and>
     seg_tab s 0 = (new_segment 1)\<lparr>seg_fragments := [(0, [])], seg_point := Some (Name 0), seg_curel := None\<rparr> \<and> next_el s = 0"
  by (simp add: initialize_def asm_init_def asm.defs ments.defs sample_program_def new_noname_def table_add_noname_def name_alloc_def
      scan_segment_def table_lookup_def default_segment_some head_column table_init_def globalize_name_def set_fragment_def set_defined_def
      add_segment_def add_fragment_def upd_seg_def new_segment_def reader_simps fun_upd_idem_iff fun_eq_iff Let_def)

lemma initialize_good:
  obtains s where "initialize (asm_init sh) = Inr ((), s)" "good {} s" "errors s = 0"
proof -
  from initialize_fields obtain s where i: "initialize (asm_init sh) = Inr ((), s)" and f: "errors s = 0" "name_val s = (\<lambda>_. None)" "next_name s = 2"
    "name_defined s = (\<lambda>_. False)(0 := True)" "name_fragment s = (\<lambda>_. False)(0 := True)" "forwlab s = (\<lambda>_. None)" "backlab s = (\<lambda>_. None)"
    "asm_names s = (table_init 1024)\<lparr>nonames := [0]\<rparr>" "curseg s = 0" "nsegments s = 1" "name_segment s = [1 \<mapsto> 0]" "el_size s = (\<lambda>_. Const 0)"
    "seg_tab s 0 = (new_segment 1)\<lparr>seg_fragments := [(0, [])], seg_point := Some (Name 0), seg_curel := None\<rparr>" "next_el s = 0"
    by (auto simp del: One_nat_def)
  have "wf_program C s" for C
    using point_ok_fresh [where C = C and sz = "el_size s" and g = "new_segment 1" and fs = "[]" and frag = 0]
    by (simp add: wf_program_def f simple_size_def seg_elements_def)
  then have "good {} s"
    by (auto simp: good_def good_names_def f listed_eq table_names_def table_init_def split: if_splits)
  from that [OF i this f(1)] show thesis .
qed

text \<open>The state after the statements of a source, if nothing was reported.\<close>

definition parsed :: "nat \<Rightarrow> (nat \<Rightarrow> bool) \<Rightarrow> statement list \<Rightarrow> asm \<Rightarrow> bool" where
  "parsed fuel sh source s \<longleftrightarrow>
     (\<exists>u. rbind initialize (\<lambda>_. each (parse_statement fuel) source) (asm_init sh) = Inr (u, s)) \<and> errors s = 0"

lemma parsed_good: "parsed fuel sh source s \<Longrightarrow> good {} s"
proof -
  assume p: "parsed fuel sh source s"
  obtain s0 where 0: "initialize (asm_init sh) = Inr ((), s0)" "good {} s0" "errors s0 = 0" by (rule initialize_good)
  from p 0(1) obtain u where "each (parse_statement fuel) source s0 = Inr (u, s)" and "errors s = 0"
    by (auto simp: parsed_def rbind_def)
  with keepsD [OF statements_sound this(1)] 0(2) show ?thesis by (simp add: sound_def)
qed

lemma each_append: "each f (xs @ ys) s = Inr (u, t) \<longleftrightarrow> (\<exists>v s'. each f xs s = Inr (v, s') \<and> each f ys s' = Inr (u, t))"
  by (induction xs arbitrary: s) (auto simp: rbind_Inr rret_Inr)

lemma parsed_last:
  assumes "parsed fuel sh (source @ [st]) t"
  obtains u s where "parsed fuel sh source s" "parse_statement fuel st s = Inr (u, t)"
proof -
  obtain s0 where 0: "initialize (asm_init sh) = Inr ((), s0)" by (rule initialize_good)
  with assms obtain v where "each (parse_statement fuel) (source @ [st]) s0 = Inr (v, t)" and e: "errors t = 0"
    by (auto simp: parsed_def rbind_def)
  then obtain w s where 1: "each (parse_statement fuel) source s0 = Inr (w, s)" and 2: "parse_statement fuel st s = Inr ((), t)"
    by (auto simp: each_append rbind_Inr rret_Inr)
  have "errors s \<le> errors t" using keepsD [OF statement_sound 2] by (simp add: sound_def)
  then have "parsed fuel sh source s" using 0 1 e by (auto simp: parsed_def rbind_def)
  from this 2 show thesis by (rule that)
qed

text \<open>The address the next byte of the current segment goes to.\<close>

definition here :: "env \<Rightarrow> 'x asm_scheme \<Rightarrow> long" where
  "here \<rho> s =
     (case last (seg_fragments (seg_tab s (curseg s))) of
        (frag, els) \<Rightarrow> vname \<rho> frag + sum_list (map (\<lambda>el. valof \<rho> (el_size s el)) els))"

text \<open>Environments that agree with the names and the sizes of elements of a program.\<close>

definition linked_env :: "env \<Rightarrow> 'x ments_scheme \<Rightarrow> bool" where
  "linked_env \<rho> s \<longleftrightarrow> valued \<rho> s \<and> (\<forall>el. vel \<rho> el = valof \<rho> (el_size s el))"

lemma here_point:
  assumes g: "good X s" and \<rho>: "linked_env \<rho> s" and p: "seg_point (seg_tab s (curseg s)) = Some p"
  shows "valof \<rho> p = here \<rho> s"
proof -
  have "point_ok (\<lambda>\<rho>. valued \<rho> s) (el_size s) (seg_tab s (curseg s))" using g by (simp add: good_def wf_program_def)
  then show ?thesis
    by (rule point_okE) (use \<rho> p in \<open>auto simp: linked_env_def here_def\<close>)
qed

lemma placed_here:
  assumes "good X s" "linked_env \<rho> s" "placed np s"
  shows "vname \<rho> np = here \<rho> s"
proof -
  from assms(3) consider fs where "seg_fragments (seg_tab s (curseg s)) = fs @ [(np, [])]"
    | p where "name_val s np = Some p" "seg_point (seg_tab s (curseg s)) = Some p"
    by (auto simp: placed_def)
  then show ?thesis
  proof cases
    case 1
    then show ?thesis by (simp add: here_def)
  next
    case 2
    then have "vname \<rho> np = valof \<rho> p" using assms(2) by (simp add: linked_env_def valued_def)
    with here_point [OF assms(1,2) 2(2)] show ?thesis by simp
  qed
qed

end
