(* ===== verification/AsmTable.thy ===== *)
theory AsmTable
  imports AsmMeaning "HOL-Library.Multiset"
begin

text \<open>
  The table of global names: every global name is listed at its index, and the needs of a name are global.
\<close>

section \<open>The order of a table\<close>

lemma concat_update:
  assumes "k < n" "mset (f' k) = add_mset x (mset (f k))" "\<And>c. c \<noteq> k \<Longrightarrow> f' c = f c"
  shows "mset (concat (map f' (rev [0..<n]))) = add_mset x (mset (concat (map f (rev [0..<n]))))"
proof -
  have u: "[0..<n] = [0..<k] @ k # [Suc k..<n]"
    using assms(1) by (metis less_imp_le_nat upt_add_eq_append upt_conv_Cons le_add_diff_inverse zero_le)
  have "concat (map f' (rev [0..<k])) = concat (map f (rev [0..<k]))" "concat (map f' (rev [Suc k..<n])) = concat (map f (rev [Suc k..<n]))"
    using assms(3) by (intro arg_cong [where f = concat] map_cong; auto)+
  then show ?thesis using assms(2) by (simp only: u rev_append rev.simps map_append concat_append list.map concat.simps mset_append append_assoc append.simps)
    simp
qed

lemma lookup_order:
  assumes "table_lookup t key s = Inr ((n, t'), s')"
  shows "t' = t \<or> name_alloc key s = Inr (n, s') \<and> mset (table_order t') = add_mset n (mset (table_order t))"
proof (cases "key = []")
  case True
  then show ?thesis using assms by (auto simp: table_lookup_def table_add_noname_def outcome_iff table_order_def)
next
  case False
  let ?c = "sint (hash_key key) smod int (ncolumns t)"
  have c: "0 \<le> ?c" "ncolumns t \<noteq> 0" using assms False by (auto simp: table_lookup_def rstop_def Let_def not_less split: if_splits)
  then have k: "nat ?c < ncolumns t" using smod_less [of "int (ncolumns t)" "sint (hash_key key)"] by simp
  from assms False c consider "t' = t" | "name_alloc key s = Inr (n, s')" "t' = t\<lparr>columns := (columns t)(nat ?c := column_add n (columns t (nat ?c)))\<rparr>"
    by (auto simp: table_lookup_def Let_def outcome_iff split: option.splits)
  then show ?thesis
  proof cases
    case 2
    have "mset (column_names (column_add n (columns t (nat ?c)))) = add_mset n (mset (column_names (columns t (nat ?c))))"
      by (cases "columns t (nat ?c)") auto
    with concat_update [OF k, of "\<lambda>c. column_names (columns t' c)" n "\<lambda>c. column_names (columns t c)"] 2
    show ?thesis by (simp add: table_order_def)
  qed simp
qed

section \<open>The invariant\<close>

definition numbered :: "'x asm_scheme \<Rightarrow> bool" where
  "numbered s \<longleftrightarrow>
     (\<forall>n. name_global s n \<longrightarrow> n < next_name s \<and> (\<exists>k < length (global_names s). global_names s ! k = n \<and> name_idx s n = word_of_nat k)) \<and>
     (\<forall>n m. m \<in> set (name_needs s n) \<longrightarrow> name_global s m) \<and>
     listed (asm_names s) \<subseteq> {..<next_name s} \<and> distinct (table_order (asm_names s))"

definition numbers :: "'x asm_scheme \<Rightarrow> 'x asm_scheme \<Rightarrow> bool" where
  "numbers s t \<longleftrightarrow> next_name s \<le> next_name t \<and> (numbered s \<longrightarrow> numbered t)"

lemma held_numbers: "held s t \<Longrightarrow> numbers s t"
  by (simp add: held_def numbers_def numbered_def)

interpretation numbers: expr_frame numbers
proof unfold_locales
  show "numbers s t" if "same_tables s t" for s t :: "'x asm_scheme" by (rule held_numbers [OF held_same_tables [OF that]])
qed (auto simp: numbers_def)

named_theorems numbers_kept

lemma numbers_held: "keeps held m \<Longrightarrow> keeps numbers m"
  by (auto simp: keeps_def intro: held_numbers)

lemmas numbers_emits [numbers_kept] =
  held_basic [THEN numbers_held] held_quiet [THEN numbers_held] held_push [THEN numbers_held] held_emit_cmd [THEN numbers_held]
  held_emit_align [THEN numbers_held] held_emit_data [THEN numbers_held] held_fragments [THEN numbers_held]

text \<open>A change of anything but the tables of names.\<close>

lemma numbers_same:
  assumes "next_name t = next_name s" "name_global t = name_global s" "name_idx t = name_idx s" "name_needs t = name_needs s"
    "global_names t = global_names s" "asm_names t = asm_names s"
  shows "numbers s t"
  using assms by (simp add: numbers_def numbered_def)

lemma numbers_sets [numbers_kept]:
  "keeps numbers (set_defined np)" "keeps numbers (set_fragment np)" "keeps numbers (set_common np)" "keeps numbers (set_align np a)"
  "keeps numbers (set_value np e)" "keeps numbers (drop_pending_alignment sg)"
  unfolding set_defined_def set_fragment_def set_common_def set_align_def set_value_def drop_pending_alignment_def upd_seg_def
  by (intro keeps_modify numbers_same; simp)+

lemma numbers_assign [numbers_kept]: "keeps numbers (name_assign_value fuel np e)"
  by (rule keepsI) (erule assign_run, simp add: numbers_same)

lemma numbers_need [numbers_kept]:
  "keeps numbers (rbind (rget (\<lambda>s. name_global s m)) (\<lambda>g. if g then add_need n m else h))" if "keeps numbers h"
  using that by (auto simp: keeps_def add_need_def outcome_iff numbers.refl) (auto simp: numbers_def numbered_def split: if_splits)

lemma numbers_record [numbers_kept]: "keeps numbers (record_needs n e)"
  by (induction n e rule: record_needs.induct) (auto intro!: numbers.rules numbers_need)

lemma numbers_alloc: "name_alloc key s = Inr (n, t) \<Longrightarrow> numbers s t \<and> n < next_name t"
proof -
  assume a: "name_alloc key s = Inr (n, t)"
  have "numbered t" if g: "numbered s"
  proof -
    have "\<not> name_global s n" using a g by (auto simp: name_alloc_def numbered_def Let_def)
    with a g show ?thesis by (force simp: name_alloc_def numbered_def Let_def less_Suc_eq split: if_splits)
  qed
  with a show ?thesis by (auto simp: name_alloc_def numbers_def Let_def)
qed

lemma numbers_lookup:
  assumes "table_lookup t key s = Inr ((n, t'), s')"
  shows "numbers s s'" "listed t \<subseteq> {..<next_name s} \<Longrightarrow> n < next_name s' \<and> listed t' \<subseteq> {..<next_name s'}"
    "listed t \<subseteq> {..<next_name s} \<Longrightarrow> distinct (table_order t) \<Longrightarrow> distinct (table_order t')"
proof -
  show "numbers s s'" "listed t \<subseteq> {..<next_name s} \<Longrightarrow> n < next_name s' \<and> listed t' \<subseteq> {..<next_name s'}"
    using lookup_listed [OF assms] numbers_alloc [of key s n s'] by (auto simp: numbers.refl numbers_def)
  assume l: "listed t \<subseteq> {..<next_name s}" and d: "distinct (table_order t)"
  from lookup_order [OF assms] show "distinct (table_order t')"
  proof
    assume a: "name_alloc key s = Inr (n, s') \<and> mset (table_order t') = add_mset n (mset (table_order t))"
    then have "n \<notin> set (table_order t)" using l by (auto simp: name_alloc_def Let_def)
    moreover from a have "mset (table_order t') = mset (n # table_order t)" by simp
    ultimately show ?thesis using d mset_eq_imp_distinct_iff by fastforce
  qed (use d in simp)
qed

lemma scan_name_numbers:
  assumes "scan_name key s = Inr (n, t)"
  shows "numbers s t" "numbered s \<Longrightarrow> n < next_name t"
proof -
  from assms obtain t' s' where l: "table_lookup (asm_names s) key s = Inr ((n, t'), s')" and t: "t = s'\<lparr>asm_names := t'\<rparr>"
    by (auto simp: scan_name_def outcome_iff)
  note L = numbers_lookup [OF l]
  have "numbered t \<and> n < next_name t" if "numbered s"
    using L that unfolding t by (auto simp: numbers_def numbered_def)
  with L(1) show "numbers s t" "numbered s \<Longrightarrow> n < next_name t" by (auto simp: numbers_def t)
qed

lemma numbers_scan [numbers_kept]: "keeps numbers (scan_name key)"
  by (rule keepsI) (rule scan_name_numbers)

lemma numbers_scan_segment [numbers_kept]: "keeps numbers (scan_segment key)"
proof (rule keepsI)
  fix s t :: "'a asm_scheme" and n assume "scan_segment key s = Inr (n, t)"
  then obtain t' s' where l: "table_lookup (asm_segments s) key s = Inr ((n, t'), s')" and t: "t = s'\<lparr>asm_segments := t'\<rparr>"
    by (auto simp: scan_segment_def outcome_iff)
  have "numbers s' t" by (simp add: t numbers_same)
  with numbers_lookup(1) [OF l] show "numbers s t" by (rule numbers.trans)
qed

lemma new_noname_numbers:
  assumes "new_noname s = Inr (n, t)"
  shows "numbers s t" "n < next_name t"
proof -
  from assms obtain s' where a: "name_alloc [] s = Inr (n, s')"
    and t: "t = s'\<lparr>asm_names := (asm_names s)\<lparr>nonames := nonames (asm_names s) @ [n]\<rparr>\<rparr>"
    by (auto simp: new_noname_def table_add_noname_def outcome_iff)
  note A = numbers_alloc [OF a]
  show "n < next_name t" using A by (simp add: t)
  have "numbered t" if g: "numbered s"
  proof -
    have "numbered s'" "asm_names s' = asm_names s" "n \<notin> listed (asm_names s)"
      using A a g by (auto simp: numbers_def numbered_def name_alloc_def Let_def)
    then show ?thesis using A by (auto simp: t numbered_def listed_eq table_names_def table_order_def)
  qed
  with A show "numbers s t" by (auto simp: numbers_def t)
qed

lemma numbers_noname [numbers_kept]: "keeps numbers new_noname"
  by (rule keepsI) (rule new_noname_numbers)

lemma globalize_numbers:
  assumes "globalize_name n s = Inr (u, t)" "n < next_name s"
  shows "numbers s t"
proof (cases "name_global s n")
  case True
  then show ?thesis using assms by (auto simp: globalize_name_def outcome_iff numbers.refl)
next
  case False
  then have t: "t = s\<lparr>name_global := (name_global s)(n := True), name_idx := (name_idx s)(n := word_of_nat (length (global_names s))),
      global_names := global_names s @ [n]\<rparr>"
    using assms(1) by (simp add: globalize_name_def outcome_iff)
  have "numbered t" if "numbered s"
    using that assms(2) False unfolding t numbered_def
    by (auto simp: nth_append less_Suc_eq)
  then show ?thesis by (simp add: numbers_def t)
qed

text \<open>What follows the look-up or the allocation of a name that is going to be global.\<close>

definition below :: "nat \<Rightarrow> 'x asm_scheme \<Rightarrow> 'x asm_scheme \<Rightarrow> bool" where
  "below n s t \<longleftrightarrow> next_name s \<le> next_name t \<and> (n < next_name s \<longrightarrow> numbers s t)"

interpretation below: frame "below n" for n
  by unfold_locales (auto simp: below_def numbers.refl intro: numbers.trans)

lemma below_numbers: "keeps numbers m \<Longrightarrow> keeps (below n) m"
  by (auto simp: keeps_def below_def) (auto simp: numbers_def)

lemma below_globalize: "keeps (below n) (globalize_name n)"
  by (rule keepsI) (use globalize_run in \<open>fastforce simp: below_def intro: globalize_numbers\<close>)

lemma below_scan:
  assumes "\<And>n. keeps (below n) (f n)"
  shows "keeps numbers (rbind (scan_name key) f)"
proof (rule keepsI)
  fix s t :: "'a asm_scheme" and u assume "rbind (scan_name key) f s = Inr (u, t)"
  then obtain n s1 where 1: "scan_name key s = Inr (n, s1)" and 2: "f n s1 = Inr (u, t)" by (auto simp: rbind_Inr)
  from keepsD [OF assms 2] scan_name_numbers [OF 1] show "numbers s t" by (auto simp: below_def numbers_def)
qed

lemma below_noname:
  assumes "\<And>n. keeps (below n) (f n)"
  shows "keeps numbers (rbind new_noname f)"
proof (rule keepsI)
  fix s t :: "'a asm_scheme" and u assume "rbind new_noname f s = Inr (u, t)"
  then obtain n s1 where 1: "new_noname s = Inr (n, s1)" and 2: "f n s1 = Inr (u, t)" by (auto simp: rbind_Inr)
  from keepsD [OF assms 2] new_noname_numbers [OF 1] show "numbers s t" by (auto simp: below_def numbers_def)
qed

lemma numbers_default [numbers_kept]: "keeps numbers default_fragment"
  unfolding default_fragment_def
  by (intro below_noname below.rules below_globalize below_numbers numbers_kept)

lemma numbers_add_segment [numbers_kept]: "keeps numbers (add_segment n frag)"
  by (rule keepsI) (auto simp: add_segment_def upd_seg_def add_fragment_def Let_def outcome_iff intro!: numbers_same)

section \<open>Statements\<close>

lemma numbers_settle [numbers_kept]: "keeps numbers (settle_alignment fuel)"
  unfolding settle_alignment_def do_pending_alignment_def restart_point_def
  by (intro numbers.rules numbers_kept)

lemma numbers_points [numbers_kept]:
  "keeps numbers (current_point fuel)" "keeps numbers (assign_point fuel sg n)" "keeps numbers (back_reference d)"
  "keeps numbers (forward_reference d)"
  unfolding current_point_def assign_point_def back_reference_def forward_reference_def
  by (intro numbers.rules numbers_kept keeps_modify numbers_same; simp)+

lemma numbers_expr [numbers_kept]: "keeps numbers (parse_expr fuel e)"
  by (induction fuel e rule: parse_expr.induct)
    (auto intro!: numbers.rules numbers_kept numbers.quiet [OF quiet_unop])

lemma numbers_labels [numbers_kept]:
  "keeps numbers (label fuel key)" "keeps numbers (local_label fuel key)" "keeps numbers (digit_label fuel d)"
  unfolding label_def local_label_def digit_label_def
  by (intro numbers.rules numbers_kept keeps_modify numbers_same; simp)+

lemma numbers_commands [numbers_kept]:
  "keeps numbers (direct_cmd fuel c e)" "keeps numbers (pcrel_cmd fuel c e)" "keeps numbers (indirect_cmd fuel m)" "keeps numbers (fpu_cmd fuel m)"
  unfolding direct_cmd_def pcrel_cmd_def indirect_cmd_def fpu_cmd_def
  by (intro numbers.rules numbers_kept)+

lemma numbers_segments [numbers_kept]:
  "keeps numbers (segment_directive key)" "keeps numbers bss_segment"
  unfolding segment_directive_def bss_segment_def second_fragment_def
  by (intro numbers.rules numbers_kept keeps_modify numbers_same; simp)+

lemma numbers_globl [numbers_kept]: "keeps numbers (globl_directive key)"
  unfolding globl_directive_def
  by (intro below_scan below.rules below_globalize below_numbers numbers_kept)

lemma numbers_comm [numbers_kept]: "keeps numbers (comm_directive fuel key extent)"
  unfolding comm_directive_def
  by (intro below_scan below.rules below_globalize below_numbers numbers_kept)

lemma numbers_need_directive [numbers_kept]: "keeps numbers (need_directive key)"
proof (rule keepsI)
  fix s t :: "'a asm_scheme" and u assume "need_directive key s = Inr (u, t)"
  then obtain n s1 where 1: "scan_name key s = Inr (n, s1)"
    and 2: "name_global s1 n \<and> add_need (fst (last (seg_fragments (seg_tab s1 (curseg s1))))) n s1 = Inr (u, t) \<or>
      t = s1\<lparr>deferred_needs := deferred_needs s1 @ [(fst (last (seg_fragments (seg_tab s1 (curseg s1)))), n)]\<rparr>"
    by (auto simp: need_directive_def outcome_iff split: if_splits)
  from 2 have "numbers s1 t"
  proof
    assume a: "name_global s1 n \<and> add_need (fst (last (seg_fragments (seg_tab s1 (curseg s1))))) n s1 = Inr (u, t)"
    then have "rbind (rget (\<lambda>s. name_global s n)) (\<lambda>g. if g then add_need (fst (last (seg_fragments (seg_tab s1 (curseg s1))))) n else rret ()) s1 = Inr (u, t)"
      by (simp add: reader_simps)
    then show ?thesis by (rule keepsD [OF numbers_need [OF numbers.basic(1)]])
  qed (simp add: numbers_same)
  with scan_name_numbers(1) [OF 1] show "numbers s t" by (rule numbers.trans)
qed

lemma numbers_data [numbers_kept]: "keeps numbers (put_datum fuel w d)" "keeps numbers (data_directive fuel w ds)"
proof -
  show 1: "keeps numbers (put_datum fuel w d)" for d
    unfolding put_datum_def by (cases d) (simp_all, (intro numbers.rules numbers_kept)+)
  show "keeps numbers (data_directive fuel w ds)"
    unfolding data_directive_def check_data_alignment_def by (intro numbers.rules numbers_kept 1)
qed

lemma numbers_others [numbers_kept]:
  "keeps numbers (slot_directive fuel e)" "keeps numbers (align_directive fuel e f)" "keeps numbers (assignment fuel key e)"
  unfolding slot_directive_def align_directive_def default_filler_def assignment_def
  by (intro numbers.rules numbers_kept)+

lemma numbers_statement [numbers_kept]: "keeps numbers (parse_statement fuel st)"
  by (cases st) (simp_all add: numbers.basic numbers_kept)

lemma numbers_initialize [numbers_kept]: "keeps numbers initialize"
  unfolding initialize_def
  by (intro below_noname below.rules below_globalize below_numbers numbers_kept keeps_modify numbers_same; simp)

lemma numbers_reduce [numbers_kept]: "keeps numbers (reduce_expr fuel e)"
proof (rule keepsI)
  fix s t :: "'a asm_scheme" and r assume "reduce_expr fuel e s = Inr (r, t)"
  then have ev: "evolves s t" by (auto simp: reduce_expr_def outcome_iff dest: expr_reduce_evolves)
  have "t = s\<lparr>name_val := name_val t, name_align := name_align t, name_global := name_global t,
      el_size := el_size t, errors := errors t, shared := shared t, asked := asked t, unsound := unsound t\<rparr>"
    by (rule est.equality) (use ev in \<open>simp_all add: evolves_def\<close>)
  then obtain a b c d e f g h where t: "t = s\<lparr>name_val := a, name_align := b, name_global := c,
      el_size := d, errors := e, shared := f, asked := g, unsound := h\<rparr>" by blast
  have "name_global t = name_global s" using ev by (simp add: evolves_def)
  then show "numbers s t" by (intro numbers_same) (simp_all add: t)
qed

lemma numbers_finish [numbers_kept]: "keeps numbers (finish_parsing fuel)"
  unfolding finish_parsing_def check_forward_def walk_asm_names_def table_walk_def complain_undefined_def add_deferred_need_def
  by (intro numbers.rules numbers_kept)

lemma yyparse_numbers: "keeps numbers (yyparse fuel source)"
  unfolding yyparse_def by (intro numbers.rules numbers_kept)

end
