(* ===== verification/AsmNames.thy ===== *)
theory AsmNames
  imports AsmProps AsmTable
begin

text \<open>
  Alignments, and which names have values at the end of parsing, after the passes and when the object file is written.
\<close>

section \<open>Alignments\<close>

lemma same_data_sized: "el_body t = el_body s \<Longrightarrow> data_sized \<rho> t = data_sized \<rho> s"
  by (simp add: data_sized_def)

lemma restart_point_run:
  assumes "restart_point fuel sg s = Inr (u, t)" "errors t = 0"
  obtains np p where "seg_point (seg_tab s sg) = Some p" "seg_point (seg_tab t sg) = Some (Name np)" "name_val t np = Some p"
    "el_body t = el_body s"
proof -
  from assms(1) obtain np s1 p w s2 where 1: "new_noname s = Inr (np, s1)" and p: "seg_point (seg_tab s1 sg) = Some p"
    and 2: "name_assign_value fuel np p s1 = Inr (w, s2)"
    and t: "t = s2\<lparr>name_align := (name_align s2)(np := pending_alignment (seg_tab s1 sg)), name_defined := (name_defined s2)(np := True),
              seg_tab := (seg_tab s2)(sg := (seg_tab s2 sg)\<lparr>seg_point := Some (Name np)\<rparr>)\<rparr>"
    by (auto simp: restart_point_def set_align_def set_defined_def upd_seg_def outcome_iff split: option.splits)
  from 2 obtain k v where s2: "s2 = s1\<lparr>errors := k, name_val := (name_val s1)(np \<mapsto> v)\<rparr>"
    and k: "k = errors s1 \<and> v = p \<or> k = Suc (errors s1)" by (rule assign_run)
  have "v = p" using k assms(2) by (auto simp: t s2)
  moreover have "el_body s1 = el_body s" "seg_tab s1 = seg_tab s"
    using 1 by (auto simp: new_noname_def table_add_noname_def name_alloc_def outcome_iff Let_def)
  ultimately show thesis using p by (intro that [of p np]) (simp_all add: t s2)
qed

lemma settled_aligned:
  assumes g: "good {} s" and run: "settle_alignment fuel s = Inr (sg, t)" and e: "errors t = 0"
    and a: "a = pending_alignment (seg_tab s (curseg s))" "1 <s a" "pow2 a"
    and \<rho>: "names_agree \<rho> s" "linked_env \<rho> t" "data_sized \<rho> t"
  shows "here \<rho> t AND (a - 1) = 0"
proof -
  let ?sg = "curseg s"
  from run a obtain f b s1 v s2 where 1: "emit_align fuel ?sg a f s = Inr (b, s1)" and 2: "(if b then restart_point fuel ?sg else rret ()) s1 = Inr (v, s2)"
    and 3: "drop_pending_alignment ?sg s2 = Inr ((), t)"
    by (auto simp: settle_alignment_def do_pending_alignment_def outcome_iff split: option.splits)
  have sg: "?sg < nsegments s" "wf_program (\<lambda>\<rho>. valued \<rho> s) s" using g by (simp_all add: good_def)
  have t: "seg_point (seg_tab t ?sg) = seg_point (seg_tab s2 ?sg)" "errors t = errors s2" "el_body t = el_body s2"
    using 3 by (auto simp: drop_pending_alignment_def upd_seg_def outcome_iff)
  have b1: "el_body t = el_body s1"
    using 2 e t restart_point_run [of fuel ?sg s1 v s2] by (auto simp: outcome_iff split: if_splits)
  from emit_align_point [OF sg(2,1) 1 a(3) \<rho>(1)] \<rho>(3) obtain p where p: "seg_point (seg_tab s1 ?sg) = Some p" "valof \<rho> p AND (a - 1) = 0"
    by (auto simp: same_data_sized [OF b1])
  have gt: "good {} t" by (rule onwardD [OF keepsD [OF settle_onward run] g e])
  have c: "curseg t = ?sg" using settle_result [OF run] by simp
  have "\<exists>q. seg_point (seg_tab t ?sg) = Some q \<and> valof \<rho> q = valof \<rho> p"
  proof (cases b)
    case True
    with 2 have r: "restart_point fuel ?sg s1 = Inr (v, s2)" by simp
    obtain np q where "seg_point (seg_tab s1 ?sg) = Some q" "seg_point (seg_tab s2 ?sg) = Some (Name np)" "name_val s2 np = Some q"
      by (rule restart_point_run [OF r]) (use e t in simp_all)
    moreover have "name_val t = name_val s2" using 3 by (auto simp: drop_pending_alignment_def upd_seg_def outcome_iff)
    ultimately show ?thesis using \<rho>(2) p(1) t by (simp add: linked_env_def valued_def valof_simps)
  next
    case False
    with 2 p t show ?thesis by (simp add: outcome_iff)
  qed
  then obtain q where "seg_point (seg_tab t (curseg t)) = Some q" "valof \<rho> q = valof \<rho> p" using c by auto
  with here_point [OF gt \<rho>(2)] p(2) show ?thesis by metis
qed

section \<open>Names that have values\<close>

text \<open>Which names exist, which are defined and which have values stays as it is.\<close>

definition akin :: "'x asm_scheme \<Rightarrow> 'x asm_scheme \<Rightarrow> bool" where
  "akin s t \<longleftrightarrow>
     errors s \<le> errors t \<and> (\<forall>n. name_val t n = None \<longleftrightarrow> name_val s n = None) \<and> name_defined t = name_defined s \<and>
     name_fragment t = name_fragment s \<and> name_global t = name_global s \<and> asm_names t = asm_names s \<and> global_names t = global_names s \<and>
     name_ident t = name_ident s \<and> name_common t = name_common s \<and> name_idx t = name_idx s \<and>
     (\<forall>n. set (name_needs t n) \<subseteq> set (name_needs s n) \<union> {m. name_global s m})"

lemma akin_evolves: "evolves s t \<Longrightarrow> akin s t"
proof -
  assume ev: "evolves s t"
  have "t = s\<lparr>name_val := name_val t, name_align := name_align t, name_global := name_global t,
      el_size := el_size t, errors := errors t, shared := shared t, asked := asked t, unsound := unsound t\<rparr>"
    by (rule est.equality) (use ev in \<open>simp_all add: evolves_def\<close>)
  then obtain a b c d e f g h where t: "t = s\<lparr>name_val := a, name_align := b, name_global := c,
      el_size := d, errors := e, shared := f, asked := g, unsound := h\<rparr>" by blast
  show "akin s t" using ev by (simp add: akin_def evolves_def) (simp add: t)
qed

interpretation akin: expr_frame akin
proof unfold_locales
  show "akin s t" if "same_tables s t" for s t :: "'x asm_scheme" by (rule akin_evolves [OF evolves_same_tables [OF that]])
  show "akin s u" if "akin s t" "akin t u" for s t u :: "'x asm_scheme"
    using that unfolding akin_def by (simp add: subset_iff) blast
qed (auto simp: akin_def)

named_theorems akin_kept

lemma akin_reduce [akin_kept]: "keeps akin (reduce_expr fuel e)"
  by (rule keepsI) (auto simp: reduce_expr_def outcome_iff dest!: expr_reduce_evolves intro!: akin_evolves)

lemma akin_basic [akin_kept]:
  "keeps akin report_error" "keeps akin (set_body el b)" "keeps akin (set_size el e)" "keeps akin (report_if c)"
  "keeps akin (expr_range lo hi)" "keeps akin (estimate fuel e)" "keeps akin (element_free el)"
  by (auto simp: keeps_def report_error_def set_body_def set_size_def expr_range_def estimate_def element_free_def report_if_def
      outcome_iff akin_def split: element_body.splits)

lemma akin_need: "keeps akin (rbind (rget (\<lambda>s. name_global s n)) (\<lambda>g. if g then add_need np n else rstop Abort))"
  by (auto simp: keeps_def add_need_def outcome_iff akin_def)

lemma akin_record_needs [akin_kept]: "keeps akin (record_needs np e)"
  by (induction np e rule: record_needs.induct) (auto intro!: akin.rules akin_need)

lemma akin_deferred [akin_kept]: "keeps akin (add_deferred_need fuel d)"
  unfolding add_deferred_need_def by (intro akin.rules akin_kept)

text \<open>Every name of the table is defined or global, and if it is defined and no fragment, it has a value.\<close>

definition names_settled :: "'x asm_scheme \<Rightarrow> bool" where
  "names_settled s \<longleftrightarrow>
     (\<forall>n. name_defined s n \<longrightarrow> \<not> name_fragment s n \<longrightarrow> name_val s n \<noteq> None) \<and>
     (\<forall>n \<in> listed (asm_names s). name_defined s n \<or> name_global s n)"

lemma akin_settled: "akin s t \<Longrightarrow> names_settled s \<Longrightarrow> names_settled t"
  by (simp add: akin_def names_settled_def)

lemma check_forward_run:
  assumes "check_forward d s = Inr (u, t)"
  shows "errors s \<le> errors t" "errors t = 0 \<Longrightarrow> t = s"
  using assms by (auto simp: check_forward_def set_defined_def outcome_iff split: option.splits)

lemma each_checked:
  assumes "each check_forward ds s = Inr (u, t)"
  shows "errors s \<le> errors t \<and> (errors t = 0 \<longrightarrow> t = s)"
  using assms
proof (induction ds arbitrary: s)
  case (Cons d ds)
  then obtain v s1 where 1: "check_forward d s = Inr (v, s1)" and 2: "each check_forward ds s1 = Inr (u, t)" by (auto simp: rbind_Inr)
  with Cons.IH [OF 2] check_forward_run [OF 1] show ?case by auto
qed (simp add: outcome_iff)

lemma complain_run:
  assumes "walk_names complain_undefined ns s = Inr (r, t)"
  shows "errors s \<le> errors t \<and> (errors t = 0 \<longrightarrow> t = s \<and> (\<forall>n \<in> set ns. name_defined s n \<or> name_global s n))"
  using assms
proof (induction ns arbitrary: s)
  case (Cons n ns)
  then obtain x s1 where 0: "complain_undefined n s = Inr (x, s1)"
    and "(case x of Some y \<Rightarrow> rret (Some y) | None \<Rightarrow> walk_names complain_undefined ns) s1 = Inr (r, t)"
    unfolding walk_names.simps rbind_Inr by blast
  moreover from 0 have 1: "report_if (\<not> name_defined s n \<and> \<not> name_global s n) s = Inr ((), s1)" and "x = None"
    by (auto simp: complain_undefined_def rbind_Inr rget_Inr rret_Inr)
  ultimately have 2: "walk_names complain_undefined ns s1 = Inr (r, t)" by simp
  have "errors s \<le> errors s1" using 1 by (auto simp: report_if_def outcome_iff split: if_splits)
  with Cons.IH [OF 2] report_if_run [OF 1] show ?case by auto
qed (simp add: outcome_iff)

lemma yyparse_settled:
  assumes run: "yyparse fuel source (asm_init sh) = Inr (u, t)" and e: "errors t = 0"
  shows "names_settled t"
proof -
  obtain s0 where 0: "initialize (asm_init sh) = Inr ((), s0)" "good {} s0" "errors s0 = 0" by (rule initialize_good)
  with run obtain v s1 where 1: "each (parse_statement fuel) source s0 = Inr (v, s1)" and f: "finish_parsing fuel s1 = Inr (u, t)"
    by (auto simp: yyparse_def rbind_def split: prod.splits elim!: obind.elims)
  from f obtain w s2 r s3 where 2: "each check_forward [0..<10] s1 = Inr (w, s2)"
    and 3: "walk_names complain_undefined (table_order (asm_names s2)) s2 = Inr (r, s3)"
    and 4: "each (add_deferred_need fuel) (deferred_needs s3) s3 = Inr (u, t)"
    by (auto simp: finish_parsing_def walk_asm_names_def table_walk_def rbind_Inr rget_Inr rret_Inr)
  have k: "akin s3 t" by (rule keepsD [OF akin.each_kept 4]) (rule akin_kept)
  have e3: "errors s3 = 0" using k e by (simp add: akin_def)
  with complain_run [OF 3] have s3: "s3 = s2" "errors s2 = 0" "\<forall>n \<in> listed (asm_names s2). name_defined s2 n \<or> name_global s2 n" by auto
  with each_checked [OF 2] have s2: "s2 = s1" "errors s1 = 0" by auto
  have "good {} s1" using keepsD [OF statements_sound 1] 0 s2 by (simp add: sound_def)
  then have "names_settled s1" using s3 s2 by (auto simp: names_settled_def good_def good_names_def)
  with k s3 s2 show ?thesis using akin_settled by simp
qed

section \<open>The passes\<close>

lemmas akin_quiet [akin_kept] = akin.quiet [OF quiet_binop] akin.quiet [OF quiet_equal]

lemma akin_blocks [akin_kept]:
  "keeps akin (make_space el len)" "keeps akin (put_bytes el off bs)" "keeps akin (grow_size el n)"
  "keeps akin (range_expr b)" "keeps akin (block_contents el)" "keeps akin check_errors"
  unfolding make_space_def put_bytes_def grow_size_def range_expr_def block_contents_def check_errors_def Let_def
  by (intro akin.rules akin_kept)+

lemma akin_optimize [akin_kept]: "keeps akin (asm_optimize fuel n)"
proof (induction n)
  case (Suc n)
  then show ?case
    unfolding asm_optimize.simps pass_optimize_offsets_def optimize_element_def new_bounds_def Let_def
    by (intro akin.rules akin_kept)
qed (simp add: akin.basic)

lemma akin_canonicalize [akin_kept]: "keeps akin (pass_canonicalize fuel)"
  unfolding pass_canonicalize_def canonicalize_element_def Let_def by (intro akin.rules akin_kept)

lemma akin_unroll_chain [akin_kept]: "keeps akin (unroll_chain fuel th els)"
proof (induction fuel th els rule: unroll_chain.induct)
  case (3 fuel th el nl els)
  show ?case
    unfolding unroll_chain.simps mergeable_data_def merge_data_def unroll_element_def unroll_data_def unroll_cmd_def
    by (intro akin.rules akin_kept 3)
qed (simp_all add: akin.rules akin_kept unroll_element_def unroll_data_def unroll_cmd_def)

lemma akin_merge_chain [akin_kept]: "keeps akin (merge_chain els)"
proof (induction els rule: merge_chain.induct)
  case (3 el nl els)
  show ?case
    unfolding merge_chain.simps mergeable_blocks_def merge_block_def by (intro akin.rules akin_kept 3)
qed (simp_all add: akin.rules akin_kept)

lemma akin_map_segment:
  assumes "\<And>g els. keeps akin (f g els)"
  shows "keeps akin (map_segment f sg)"
proof -
  have "keeps akin (map_chains (f g) fs)" for g fs
    by (induction "f g" fs rule: map_chains.induct) (simp_all add: akin.rules assms)
  then show ?thesis
    unfolding map_segment_def upd_seg_def by (intro akin.rules keeps_modify) (simp_all add: akin_def)
qed

lemma akin_needs_chain [akin_kept]: "keeps akin (needs_chain frag els i)"
  by (induction els arbitrary: i)
    (auto simp: needs_unless_const_def intro!: akin.rules akin_kept keeps_modify, auto simp: akin_def)

lemma akin_needs_fragments [akin_kept]: "keeps akin (needs_fragments fs i)"
  by (induction fs i rule: needs_fragments.induct) (auto intro!: akin.rules akin_kept)

lemma akin_passes: "keeps akin (asm_passes fuel n)"
  unfolding asm_passes_def free_points_def recount_refs_def pass_unroll_def pass_merge_def pass_needs_def
  by (intro akin.rules akin_kept akin_map_segment keeps_modify) (simp_all add: akin_def)

text \<open>The passes and the output of the needs keep the names settled.\<close>

lemma akin_form_needs [akin_kept]: "keeps akin (form_needs fuel np)"
proof (rule keepsI)
  fix s t :: "'a asm_scheme" and u
  assume run: "form_needs fuel np s = Inr (u, t)"
  show "akin s t"
  proof (cases "name_fragment s np")
    case False
    with run obtain e e' s1 where e: "name_val s np = Some e" and 1: "reduce_expr fuel e s = Inr (e', s1)"
      and 2: "record_needs np e' (s1\<lparr>name_val := (name_val s1)(np \<mapsto> e')\<rparr>) = Inr (u, t)"
      by (auto simp: form_needs_def set_value_def outcome_iff split: option.splits)
    have k: "akin s s1" by (rule keepsD [OF akin_reduce 1])
    then have "akin s1 (s1\<lparr>name_val := (name_val s1)(np \<mapsto> e')\<rparr>)" using e by (auto simp: akin_def)
    with k keepsD [OF akin_record_needs 2] show ?thesis using akin.trans by blast
  qed (use run akin.refl in \<open>auto simp: form_needs_def outcome_iff\<close>)
qed

lemma akin_collect_needs: "keeps akin (collect (output_needs1 fuel) ns)"
  by (induction ns) (simp_all add: output_needs1_def akin.rules akin_kept)

lemma akin_output_needs: "keeps akin (output_needs fuel)"
  unfolding output_needs_def by (intro akin.rules akin_collect_needs)

section \<open>The table of names in the object file\<close>

text \<open>Every global name is listed at its index, needs are global, and no name is twice in the hash table.\<close>

definition tabled :: "'x asm_scheme \<Rightarrow> bool" where
  "tabled s \<longleftrightarrow>
     (\<forall>n. name_global s n \<longrightarrow> (\<exists>k < length (global_names s). global_names s ! k = n \<and> name_idx s n = word_of_nat k)) \<and>
     (\<forall>n m. m \<in> set (name_needs s n) \<longrightarrow> name_global s m) \<and> distinct (table_order (asm_names s))"

lemma numbered_tabled: "numbered s \<Longrightarrow> tabled s"
  by (auto simp: numbered_def tabled_def)

lemma akin_tabled: "akin s t \<Longrightarrow> tabled s \<Longrightarrow> tabled t"
  unfolding akin_def tabled_def by (fastforce dest: subsetD)

lemma yyparse_numbered:
  assumes "yyparse fuel source (asm_init sh) = Inr (u, t)"
  shows "numbered t"
proof -
  have "numbered (asm_init sh)"
    by (simp add: map_replicate_const concat_replicate_trivial numbered_def asm_init_def asm.defs ments.defs sample_program_def table_init_def listed_eq table_names_def table_order_def)
  with keepsD [OF yyparse_numbers assms] show ?thesis by (simp add: numbers_def)
qed

end
