(* ===== verification/AsmSample.thy ===== *)
theory AsmSample
  imports AsmNames LinkSample
begin

text \<open>
  Runs of the assembler on small sources, which show that the conditions of the theorems about it can be met.
\<close>

section \<open>Evaluation\<close>

lemmas name_evals = scan_name_def scan_segment_def new_noname_def table_lookup_def table_add_noname_def name_alloc_def table_init_def
  key_matches_def bytes_of_def

lemmas asm_start_evals = initialize_def asm_init_def asm.defs ments.defs sample_program_def globalize_name_def set_fragment_def set_defined_def
  set_align_def set_common_def add_segment_def add_fragment_def upd_seg_def new_segment_def default_segment_some head_column fun_upd_idem_iff

lemmas asm_step_evals = label_def local_label_def report_if_def settle_alignment_def assign_point_def name_assign_value_def
  set_value_def pcrel_cmd_def emit_cmd_def emit_loose_cmd_def data_directive_def put_datum_def emit_data_def same_data_def data_size_def
  add_element_def element_alloc_def set_size_def add_to_point_def upd_point_def expr_plus_element_def expr_plus_constant_def expr_asgop_def
  expr_binop_def expr_binop_general_def tag_iscomm_def estimate_def expr_estimate_def range_expr_def expr_range_def eval_def tag_isleaf_def
  report_error_def drop_pending_alignment_def set_body_def eval_val_def

lemma sample_kinds:
  "special_kind [] = 0" "special_kind [108] = 0" "special_kind [99] = 0" "special_kind default_segment = 0" "c_string default_segment \<noteq> text_ident"
  "special_kind bss_ident = 0" "bss_ident \<noteq> []"
  unfolding default_segment_def bss_ident_def bytes_of_def text_ident_def by code_simp+

lemma sample_sizes: "cmd_sizes widest = (1, 8)"
  by code_simp

lemma l_column: "sint (hash_key [108]) smod 1024 = 108"
  by code_simp

section \<open>Samples\<close>

definition sample_env1 :: env where
  "sample_env1 = \<lparr>vname = (\<lambda>_. 100)(1 := 0, 2 := 101), vrange = (\<lambda>_. 1), vel = (\<lambda>_. 0)(0 := 1)\<rparr>"

lemma sample_label:
  "obind (rbind initialize (\<lambda>_. each (parse_statement six) [TOK_BYTE [DATUM (TOK_NUMBER 17)], LABEL [108]]) (asm_init sh)) (\<lambda>(_, s).
     if errors s = 0 \<and> name_val s = (\<lambda>_. None)(Suc (Suc 0) := Some (Binop EXPR_PLUS (Name 0) (Const 1))) \<and>
        el_size s = (\<lambda>_. Const 0)(0 := Const 1) \<and> curseg s = 0 \<and> seg_fragments (seg_tab s 0) = [(0, [0])]
     then Inr () else Inl Abort) = Inr ()"
  by (simp add: name_evals asm_start_evals asm_step_evals l_column sample_kinds reader_simps Let_def word_sle_eq word_sless_alt cong: obind_weak)

lemma sample_jump:
  "obind (rbind initialize (\<lambda>_. each (parse_statement six) [TOK_CMD_DIRECT_PCREL 0 (TOK_NUMBER 100)]) (asm_init sh)) (\<lambda>(_, s).
     if errors s = 0 \<and> name_val s = (\<lambda>_. None)(Suc (Suc 0) := Some (Binop EXPR_PLUS (Name 0) (Element 0))) \<and>
        el_size s = (\<lambda>_. Const 0)(0 := Range 0 1 8)
     then Inr () else Inl Abort) = Inr ()"
  by (simp add: name_evals asm_start_evals asm_step_evals l_column sample_kinds sample_sizes reader_simps Let_def word_sle_eq word_sless_alt cong: obind_weak)

lemma source_columns: "sint (hash_key [99]) smod 1024 = 99" "sint (hash_key bss_ident) smod 32 = 8"
  unfolding bss_ident_def bytes_of_def by code_simp+

lemma sample_order: "table_order \<lparr>ncolumns = 1024, columns = (\<lambda>_. Empty)(108 := Single a), nonames = ns\<rparr> = rev ns @ [a]"
proof -
  let ?f = "(\<lambda>_. Empty)(108 := Single a) :: nat \<Rightarrow> column"
  have "concat (map (\<lambda>c. column_names (?f c)) (rev [0..<1024])) = column_names (?f 108) @ concat (map (\<lambda>c. column_names (?f c)) (rev [0..<108]))"
    by (rule order_step) auto
  moreover have "concat (map (\<lambda>c. column_names (?f c)) (rev [0..<108])) = []" by (rule order_empty) auto
  ultimately have "concat (map (\<lambda>c. column_names (?f c)) (rev [0..<1024])) = [a]" by (simp only: append.simps) simp
  then show ?thesis by (simp only: table_order_def table.simps)
qed

lemma ten_digits: "[0..<10] = [0, 1, 2, 3, 4, 5, 6, 7, 8, 9]"
  by (simp add: upt_rec)

lemma grow_one: "grow_alloc (Suc 0) 32 = 32"
  by (simp add: grow_alloc.simps)

lemma sample_comm:
  "obind (rbind initialize (\<lambda>_. rret ()) (asm_init sh)) (\<lambda>(_, s).
     obind (scan_name [99] s) (\<lambda>(np, s1). obind (bss_segment s1) (\<lambda>(bss, s2).
     obind (comm_directive six [99] (TOK_NUMBER 4) s) (\<lambda>(_, t).
     if np = Suc (Suc 0) \<and> bss = Suc 0 \<and> seg_fragments (seg_tab t bss) = [(4, []), (5, []), (np, [0])]
     then Inr () else Inl Abort)))) = Inr ()"
  by (simp add: name_evals asm_start_evals asm_step_evals bss_segment_def default_fragment_def second_fragment_def comm_directive_def swap_last_fragments_def ask_shared_def l_column sample_kinds source_columns reader_simps Let_def word_sle_eq word_sless_alt cong: obind_weak)

lemma sample_aligned:
  "obind (rbind initialize (\<lambda>_. each (parse_statement six) [TOK_BYTE [DATUM (TOK_NUMBER 17)], TOK_ALIGN (TOK_NUMBER 4) None]) (asm_init (\<lambda>_. False))) (\<lambda>(_, s).
     obind (scan_name [108] s) (\<lambda>(np, s1). obind (local_label six [108] s) (\<lambda>(_, t).
     if errors s = 0 \<and> errors t = 0 \<and> np = Suc (Suc 0) \<and> curseg s = 0 \<and> pending_alignment (seg_tab s 0) = 4 \<and> name_val s1 = (\<lambda>_. None) \<and> (\<forall>n. name_align s1 n = 1) \<and>
     name_val t = (\<lambda>_. None)(Suc (Suc (Suc 0)) := Some (Binop EXPR_PLUS (Binop EXPR_PLUS (Name 0) (Element (Suc 0))) (Const 1)), Suc (Suc 0) := Some (Name (Suc (Suc (Suc 0))))) \<and>
     el_size t = (\<lambda>_. Const 0)(0 := Const 1, Suc 0 := Range 0 0 3) \<and>
     el_body t = (\<lambda>_. ELEMENT_BLOCK [] 0)(0 := ELEMENT_DATA 1 (Const 17) (Const 1),
       Suc 0 := ELEMENT_DATA 1 (Const 0) (Binop EXPR_AND (Binop EXPR_MINUS (Const 4) (Binop EXPR_PLUS (Name 0) (Const 1))) (Const 3)))
     then Inr () else Inl Abort))) = Inr ()"
  by (simp add: name_evals asm_start_evals asm_step_evals align_directive_def default_filler_def do_pending_alignment_def restart_point_def emit_align_def ask_shared_def l_column sample_kinds sample_sizes reader_simps Let_def word_sle_eq word_sless_alt cong: obind_weak)

lemmas asm_pass_evals = yyparse_def finish_parsing_def walk_asm_names_def table_walk_def complain_undefined_def check_forward_def add_deferred_need_def
  asm_passes_def free_points_def pass_optimize_offsets_def elements_of_def optimize_element_def new_bounds_def check_errors_def pass_canonicalize_def
  canonicalize_element_def recount_refs_def element_exprs_def held_exprs_def body_exprs_def pass_unroll_def map_segment_def mergeable_data_def merge_data_def
  unroll_element_def unroll_data_def pass_merge_def mergeable_blocks_def merge_block_def is_block_def block_contents_def element_free_def make_space_def
  put_bytes_def grow_size_def data_bytes_def pass_needs_def fragments_of_def needs_unless_const_def output_needs_def output_needs1_def form_needs_def
  reduce_expr_def reduce_node_def needs_record_def

lemma sample_assembled:
  "obind (yyparse six [TOK_BYTE [DATUM (TOK_NUMBER 17)], LABEL [108]] (asm_init sh)) (\<lambda>(_, s).
     obind (asm_passes six (Suc 0) s) (\<lambda>(_, s1). obind (output_needs six s1) (\<lambda>(bs, s2).
     if errors s = 0 \<and> columns (asm_names s2) = (\<lambda>_. Empty)(108 := Single (Suc (Suc 0))) \<and> ncolumns (asm_names s2) = 1024 \<and>
     name_defined s2 (Suc (Suc 0)) \<and> \<not> name_fragment s2 (Suc (Suc 0))
     then Inr () else Inl Abort))) = Inr ()"
  by (simp add: asm_pass_evals ten_digits grow_one name_evals asm_start_evals asm_step_evals l_column sample_kinds sample_order reader_simps Let_def word_sle_eq word_sless_alt cong: obind_weak)

end
