(* ===== verification/AsmOut.thy ===== *)
theory AsmOut
  imports AsmSample
begin

text \<open>
  The properties of the assembler: what labels, jumps and alignments of a source come to, where a common fragment is left,
  and that every name has its value when the object file is written.
\<close>

text \<open>
  C34: A label stands for the address where it stands, whether it is global and starts a fragment or is local: in every
  environment that agrees with the values of names and the sizes of elements, it is the start of the current fragment plus the
  sizes of what has been emitted into it.
\<close>

theorem label_denotes:
  assumes "parsed fuel sh (source @ [st]) t" "st = LABEL key \<or> st = LOCAL_LABEL key" "linked_env \<rho> t"
  shows "\<exists>s np s1. parsed fuel sh source s \<and> scan_name key s = Inr (np, s1) \<and> vname \<rho> np = here \<rho> t"
proof -
  from assms(1) obtain u s where s: "parsed fuel sh source s" and run: "parse_statement fuel st s = Inr (u, t)" by (rule parsed_last)
  from run assms(2) obtain np s1 where scan: "scan_name key s = Inr (np, s1)"
    by (auto simp: label_def local_label_def rbind_Inr)
  have e: "errors t = 0" using assms(1) by (simp add: parsed_def)
  have "good {} t \<and> placed np t"
    using assms(2) run label_run(2) [OF _ scan parsed_good [OF s] e] local_label_run(2) [OF _ scan parsed_good [OF s] e] by auto
  then have "vname \<rho> np = here \<rho> t" using placed_here assms(3) by blast
  with s scan show ?thesis by blast
qed

lemma sample_envs:
  assumes "name_val t = (\<lambda>_. None)(Suc (Suc 0) := Some (Binop EXPR_PLUS (Name 0) e))" "el_size t = (\<lambda>_. Const 0)(0 := f)"
    "valof sample_env1 e = 1" "valof sample_env1 f = 1"
  shows "linked_env sample_env1 t"
  using assms by (auto simp: linked_env_def valued_def valof_simps eval_val_def sample_env1_def split: if_splits)

theorem label_denotes_witness:
  "\<exists>t. parsed six (\<lambda>_. False) [TOK_BYTE [DATUM (TOK_NUMBER 17)], LABEL [108]] t \<and> here sample_env1 t = 101 \<and>
     (\<exists>s np s1. parsed six (\<lambda>_. False) [TOK_BYTE [DATUM (TOK_NUMBER 17)]] s \<and> scan_name [108] s = Inr (np, s1) \<and> vname sample_env1 np = 101)"
proof -
  from sample_label [of "\<lambda>_. False"] obtain t where p: "parsed six (\<lambda>_. False) ([TOK_BYTE [DATUM (TOK_NUMBER 17)]] @ [LABEL [108]]) t"
    and v: "name_val t = (\<lambda>_. None)(Suc (Suc 0) := Some (Binop EXPR_PLUS (Name 0) (Const 1)))" "el_size t = (\<lambda>_. Const 0)(0 := Const 1)"
      "curseg t = 0" "seg_fragments (seg_tab t 0) = [(0, [0])]"
    by (auto simp: parsed_def obind_Inr_iff split: if_splits)
  have "linked_env sample_env1 t" by (rule sample_envs [OF v(1,2)]) (simp_all add: valof_simps)
  from label_denotes [OF p _ this] have "\<exists>s np s1. parsed six (\<lambda>_. False) [TOK_BYTE [DATUM (TOK_NUMBER 17)]] s \<and>
    scan_name [108] s = Inr (np, s1) \<and> vname sample_env1 np = here sample_env1 t" by simp
  moreover have "here sample_env1 t = 101" using v by (simp add: here_def valof_simps sample_env1_def)
  ultimately show ?thesis using p by auto
qed

text \<open>
  C35: The operand of a jump is the distance from the end of the jump to its target: the last element emitted is the command,
  with an operand whose value is that of the target less the address behind the command.
\<close>

theorem jump_denotes:
  assumes "parsed fuel sh (source @ [TOK_CMD_DIRECT_PCREL opcode arg]) t" "linked_env \<rho> t"
  shows "\<exists>s e s1 el a. parsed fuel sh source s \<and> parse_expr fuel arg s = Inr (e, s1) \<and>
    el = last (snd (last (seg_fragments (seg_tab t (curseg t))))) \<and> el_body t el = ELEMENT_CMD opcode a \<and>
    valof \<rho> a = valof \<rho> e - here \<rho> t"
proof -
  from assms(1) obtain u s where s: "parsed fuel sh source s" and run: "pcrel_cmd fuel opcode arg s = Inr (u, t)"
    using parsed_last by force
  from run obtain e s1 where arg: "parse_expr fuel arg s = Inr (e, s1)" by (auto simp: pcrel_cmd_def rbind_Inr)
  have et: "errors t = 0" using assms(1) by (simp add: parsed_def)
  have g: "good {} s" by (rule parsed_good [OF s])
  from pcrel_run(2) [OF run arg g et] obtain np fs frag els el where gt: "good {} t"
    and f: "seg_fragments (seg_tab t (curseg t)) = fs @ [(frag, els @ [el])]" "el_body t el = ELEMENT_CMD opcode (Binop EXPR_MINUS e (Name np))"
    and n: "name_val t np = seg_point (seg_tab t (curseg t))" by blast
  from point_exists [OF gt] obtain p where p: "seg_point (seg_tab t (curseg t)) = Some p" by blast
  have "vname \<rho> np = here \<rho> t"
    using here_point [OF gt assms(2) p] assms(2) n p by (simp add: linked_env_def valued_def)
  then have "valof \<rho> (Binop EXPR_MINUS e (Name np)) = valof \<rho> e - here \<rho> t" by (simp add: valof_simps eval_val_def)
  moreover have "el = last (snd (last (seg_fragments (seg_tab t (curseg t)))))" using f by simp
  ultimately show ?thesis using s arg f(2) by blast
qed

theorem jump_denotes_witness:
  "\<exists>t el a. parsed six (\<lambda>_. False) [TOK_CMD_DIRECT_PCREL 0 (TOK_NUMBER 100)] t \<and> linked_env sample_env1 t \<and>
     el_body t el = ELEMENT_CMD 0 a \<and> valof sample_env1 a = 100 - here sample_env1 t"
proof -
  from sample_jump [of "\<lambda>_. False"] obtain t where p: "parsed six (\<lambda>_. False) ([] @ [TOK_CMD_DIRECT_PCREL 0 (TOK_NUMBER 100)]) t"
    and v: "name_val t = (\<lambda>_. None)(Suc (Suc 0) := Some (Binop EXPR_PLUS (Name 0) (Element 0)))" "el_size t = (\<lambda>_. Const 0)(0 := Range 0 1 8)"
    by (auto simp: parsed_def obind_Inr_iff split: if_splits)
  have e: "linked_env sample_env1 t" by (rule sample_envs [OF v]) (simp_all add: valof_simps sample_env1_def)
  from jump_denotes [OF p e] obtain el a where "el_body t el = ELEMENT_CMD 0 a" "valof sample_env1 a = 100 - here sample_env1 t"
    by (auto simp: outcome_iff valof_simps)
  with p e show ?thesis by (metis append_Nil)
qed

text \<open>
  C38: A \<open>.comm\<close> directive leaves the common fragment at the end of \<open>bss\<close>, with its data as the only element: the swap with the
  default fragment changes nothing, so whatever is put into \<open>bss\<close> next becomes part of the common fragment.
\<close>

theorem comm_fragment_last:
  assumes "scan_name key s = Inr (np, s1)" "parse_expr fuel extent s1 = Inr (e, s2)" "bss_segment s2 = Inr (bss, s3)"
    "parse_statement fuel (TOK_COMM key extent) s = Inr (u, t)"
  shows "\<exists>fs el. seg_fragments (seg_tab t bss) = fs @ [(np, [el])] \<and>
    (\<forall>b el' t'. add_element bss b t = Inr (el', t') \<longrightarrow> seg_fragments (seg_tab t' bss) = fs @ [(np, [el, el'])])"
proof -
  from comm_run(3) [OF _ assms(1-3), of u t] assms(4) obtain fs el where f: "seg_fragments (seg_tab t bss) = fs @ [(np, [el])]" by auto
  moreover have "seg_fragments (seg_tab t' bss) = fs @ [(np, [el, el'])]" if "add_element bss b t = Inr (el', t')" for b el' t'
    using that f by (auto elim!: add_element_run)
  ultimately show ?thesis by blast
qed

theorem comm_fragment_last_witness:
  "\<exists>(t :: asm) s el. comm_directive six [99] (TOK_NUMBER 4) s = Inr ((), t) \<and> seg_fragments (seg_tab t (Suc 0)) = [(4, []), (5, []), (2, [el])] \<and>
     (\<forall>b el' t'. add_element (Suc 0) b t = Inr (el', t') \<longrightarrow> seg_fragments (seg_tab t' (Suc 0)) = [(4, []), (5, []), (2, [el, el'])])"
proof -
  from sample_comm [of "\<lambda>_. False"] obtain s s1 s3 t :: asm where "scan_name [99] s = Inr (Suc (Suc 0), s1)" "bss_segment s1 = Inr (Suc 0, s3)"
    and t: "comm_directive six [99] (TOK_NUMBER 4) s = Inr ((), t)" and f: "seg_fragments (seg_tab t (Suc 0)) = [(4, []), (5, []), (Suc (Suc 0), [0])]"
    by (auto simp: obind_Inr_iff split: if_splits)
  then have "\<exists>fs el. seg_fragments (seg_tab t (Suc 0)) = fs @ [(Suc (Suc 0), [el])] \<and>
    (\<forall>b el' t'. add_element (Suc 0) b t = Inr (el', t') \<longrightarrow> seg_fragments (seg_tab t' (Suc 0)) = fs @ [(Suc (Suc 0), [el, el'])])"
    by (intro comm_fragment_last [where s = s and ?s1.0 = s1 and ?s2.0 = s1 and ?s3.0 = s3 and key = "[99]" and extent = "TOK_NUMBER 4" and fuel = six])
      (simp_all add: outcome_iff)
  with t f show ?thesis by (intro exI [of _ t] exI [of _ s] exI [of _ 0]) (auto simp: append_eq_Cons_conv numeral_2_eq_2)
qed


definition sample_env2 :: env where
  "sample_env2 = \<lparr>vname = (\<lambda>_. 0)(0 := 100, 2 := 104, 3 := 104), vrange = (\<lambda>_. 3), vel = (\<lambda>_. 0)(0 := 1, 1 := 3)\<rparr>"


text \<open>
  C37: After an error-free parse and the passes every name of the assembler's table is defined or global, and a defined name that
  is no fragment has a value.  The output of needs reduces the values of the names one after the other: whatever names it has
  done, the next one still has its value, and so have all when the definitions are written.  So the assertion that a name
  written has a value never fails.
\<close>

theorem object_names_resolved:
  assumes "yyparse fuel source (asm_init sh) = Inr (u, s)" "errors s = 0" "asm_passes fuel n s = Inr (v, s1)"
  shows "(\<forall>np \<in> listed (asm_names s1). name_defined s1 np \<or> name_global s1 np) \<and>
    (\<forall>names needs s2. collect (output_needs1 fuel) names s1 = Inr (needs, s2) \<longrightarrow>
       (\<forall>np. name_defined s2 np \<and> \<not> name_fragment s2 np \<longrightarrow> name_val s2 np \<noteq> None))"
proof -
  have 1: "names_settled s1" by (rule akin_settled [OF keepsD [OF akin_passes assms(3)] yyparse_settled [OF assms(1,2)]])
  have "names_settled s2" if "collect (output_needs1 fuel) names s1 = Inr (needs, s2)" for names needs s2
    by (rule akin_settled [OF keepsD [OF akin_collect_needs that] 1])
  with 1 show ?thesis by (auto simp: names_settled_def)
qed

theorem object_names_resolved_witness:
  "\<exists>s s1 needs s2. yyparse six [TOK_BYTE [DATUM (TOK_NUMBER 17)], LABEL [108]] (asm_init (\<lambda>_. False)) = Inr ((), s) \<and>
     asm_passes six (Suc 0) s = Inr ((), s1) \<and> name_val s1 2 \<noteq> None \<and> output_needs six s1 = Inr (needs, s2) \<and> name_val s2 2 \<noteq> None"
proof -
  from sample_assembled [of "\<lambda>_. False"] obtain s s1 needs s2 where r: "yyparse six [TOK_BYTE [DATUM (TOK_NUMBER 17)], LABEL [108]] (asm_init (\<lambda>_. False)) = Inr ((), s)"
      "errors s = 0" "asm_passes six (Suc 0) s = Inr ((), s1)" and out: "output_needs six s1 = Inr (needs, s2)"
    and v: "name_defined s2 (Suc (Suc 0))" "\<not> name_fragment s2 (Suc (Suc 0))"
    by (auto simp: obind_Inr_iff split: if_splits)
  note resolved = object_names_resolved [OF r]
  from out have "collect (output_needs1 six) (table_order (asm_names s1)) s1 = Inr (needs, s2)" by (simp add: output_needs_def outcome_iff)
  with resolved v have 2: "name_val s2 2 \<noteq> None" by (auto simp: numeral_2_eq_2)
  moreover have "name_val s2 2 = None \<longleftrightarrow> name_val s1 2 = None" using keepsD [OF akin_output_needs out] by (simp add: akin_def)
  ultimately show ?thesis using r out by auto
qed

end
