(* ===== verification/ObjectRead.thy ===== *)
theory ObjectRead
  imports AsmOut Loader
begin

text \<open>
  The linker reading an object file of the assembler: its first pass enters the names the assembler wrote, with their
  flags and needs, and stops where the segments start.
\<close>

section \<open>What the tables say\<close>

definition name_flags :: "'x names_scheme \<Rightarrow> nat \<Rightarrow> long" where
  "name_flags s n = (if name_defined s n then 1 else 0) OR (if name_fragment s n then 2 else 0) OR (if name_common s n then 4 else 0)"

definition table_entries :: "'x asm_scheme \<Rightarrow> (byte list \<times> long) list" where
  "table_entries s = map (\<lambda>n. (c_string (name_ident s n), name_flags s n)) (global_names s)"

definition needs_lists :: "'x asm_scheme \<Rightarrow> (nat \<times> nat list) list" where
  "needs_lists s = map (\<lambda>n. (n, name_needs s n))
     (filter (\<lambda>n. name_global s n \<and> name_defined s n \<and> name_needs s n \<noteq> []) (table_order (asm_names s)))"

text \<open>What they mean to the linker: the names of the table are those of the file, in their order, and needs refer to them.\<close>

definition enter_entry :: "nat \<Rightarrow> byte list \<times> long \<Rightarrow> ('x linker_scheme, unit) step" where
  "enter_entry i entry = rbind (enter_name i (fst entry)) (\<lambda>np. flag_name i np (snd entry))"

definition enter_need :: "nat \<Rightarrow> nat \<Rightarrow> nat \<Rightarrow> ('x linker_scheme, unit) step" where
  "enter_need i k m =
     rbind (rget (\<lambda>l. (if_names (ifiles l ! i), Suc (next_name l)))) (\<lambda>(ns, depth). need_name depth (ns ! k) (ns ! m))"

definition enter_needs :: "nat \<Rightarrow> (nat \<Rightarrow> nat) \<Rightarrow> nat \<times> nat list \<Rightarrow> ('x linker_scheme, unit) step" where
  "enter_needs i pos r = each (\<lambda>m. enter_need i (pos (fst r)) (pos m)) (snd r)"

definition name_pos :: "'x names_scheme \<Rightarrow> nat \<Rightarrow> nat" where
  "name_pos s n = unat (name_idx s n)"

section \<open>Files keep their names\<close>

definition same_names :: "'x linker_scheme \<Rightarrow> 'x linker_scheme \<Rightarrow> bool" where
  "same_names s t \<longleftrightarrow> map if_names (ifiles t) = map if_names (ifiles s)"

interpretation same_names: frame same_names
  by unfold_locales (auto simp: same_names_def)

lemma same_names_upd: "(\<And>f. if_names (g f) = if_names f) \<Longrightarrow> keeps same_names (upd_ifile i g)"
  unfolding upd_ifile_def
  by (rule keeps_modify) (auto simp: same_names_def map_if_names_update list_update_id intro!: nth_equalityI simp: nth_list_update)

lemma same_names_basic:
  "keeps same_names (set_wanted np)" "keeps same_names (count_undefined d)" "keeps same_names (add_source np i)"
  "keeps same_names (add_ref np i)" "keeps same_names (add_need n m)" "keeps same_names (want_file i)"
  unfolding set_wanted_def count_undefined_def add_source_def add_ref_def add_need_def want_file_def
  by (intro same_names.rules keeps_modify same_names_upd, simp_all add: same_names_def)+

lemma same_names_mark: "keeps same_names (mark_wanted fuel np)"
proof (induction fuel arbitrary: np)
  case (Suc fuel)
  show ?case
    unfolding mark_wanted.simps first_source_def by (intro same_names.rules same_names_basic Suc)
qed (simp add: same_names.basic)

lemma same_names_need: "keeps same_names (need_name fuel np need)"
  unfolding need_name_def by (intro same_names.rules same_names_basic same_names_mark)

lemma same_names_flag: "keeps same_names (flag_name i np n)"
  unfolding flag_name_def define_in_def by (intro same_names.rules same_names_basic keeps_modify) (simp_all add: same_names_def)

lemma same_namesD: "same_names s t \<Longrightarrow> if_names (ifiles t ! i) = if_names (ifiles s ! i) \<or> length (ifiles s) \<le> i"
  unfolding same_names_def by (metis length_map not_le nth_map)

section \<open>Reading\<close>

lemma in_string_out:
  "length str < 2 ^ 31 \<Longrightarrow>
     on_file lit_in_string (\<lparr>inp = lit_out_string str @ rest, nerr = k\<rparr>, l) = Inr (str, (\<lparr>inp = rest, nerr = k\<rparr>, l))"
  using lit.string_in_out [of str rest k] by (simp add: on_file_def lit_in_string_def lit_out_string_def)

lemma on_tables_then:
  "rbind (on_tables m) g (f, l) = obind (m l) (\<lambda>(x, l'). g x (f, l'))"
  by (cases "m l") (auto simp: on_tables_def rbind_def)

lemma read_entry:
  assumes "length idn < 2 ^ 31"
  shows "read_records (Suc fuel) i a (\<lparr>inp = lit_out_number LIT_NAME @ lit_out_string idn @ lit_out_number flags @ rest, nerr = k\<rparr>, l) =
    obind (enter_entry i (idn, flags) l) (\<lambda>(_, l'). read_records fuel i a (\<lparr>inp = rest, nerr = k\<rparr>, l'))"
proof -
  have "read_name i (\<lparr>inp = lit_out_string idn @ lit_out_number flags @ rest, nerr = k\<rparr>, l) =
    obind (enter_entry i (idn, flags) l) (\<lambda>(u, l'). Inr (u, (\<lparr>inp = rest, nerr = k\<rparr>, l')))"
    using assms by (simp add: read_name_def enter_entry_def reader_simps in_string_out on_tables_then obind_assoc on_tables_def)
      (cases "enter_name i idn l", auto)
  then show ?thesis by (simp add: reader_simps obind_assoc split_def)
qed

lemma read_entries:
  assumes "output_names s li ns = Inr bs" "\<forall>n \<in> set ns. length (c_string (name_ident s n)) < 2 ^ 31"
  shows "read_records (length ns + fuel) i a (\<lparr>inp = bs @ rest, nerr = k\<rparr>, l) =
    obind (each (enter_entry i) (map (\<lambda>n. (c_string (name_ident s n), name_flags s n)) ns) l)
      (\<lambda>(_, l'). read_records fuel i a (\<lparr>inp = rest, nerr = k\<rparr>, l'))"
  using assms
proof (induction ns arbitrary: li bs l)
  case (Cons n ns)
  from Cons.prems(1) obtain b li' bs' where 1: "lit_out_ntab_entry li (name_idx s n) (c_string (name_ident s n)) (name_defined s n)
       (name_fragment s n) (name_common s n) = Inr (b, li')" and 2: "output_names s li' ns = Inr bs'" and bs: "bs = b @ bs'"
    by (auto simp: obind_Inr_iff)
  from 1 have b: "b = lit_out_number LIT_NAME @ lit_out_string (c_string (name_ident s n)) @ lit_out_number (name_flags s n)"
    by (auto simp: lit_out_ntab_entry_def name_flags_def Let_def split: if_splits)
  show ?case
    using Cons.prems(2) Cons.IH [OF 2]
    by (simp add: bs b read_entry reader_simps obind_assoc split_def del: read_records.simps)
qed (simp add: reader_simps)

lemma read_needs_out:
  fixes ix :: "nat \<Rightarrow> long"
  assumes "length ms < fuel" "\<forall>m \<in> set ms. 0 \<le>s ix m \<and> unat (ix m) < length (if_names (ifiles l ! i))" "i < length (ifiles l)"
    "k < length (if_names (ifiles l ! i))" "np = if_names (ifiles l ! i) ! k"
  shows "read_needs fuel i np (\<lparr>inp = concat (map (\<lambda>m. lit_out_number (ix m)) ms) @ lit_out_number (-1 :: long) @ rest, nerr = e\<rparr>, l) =
    obind (each (\<lambda>m. enter_need i k (unat (ix m))) ms l) (\<lambda>(_, l'). Inr ((), (\<lparr>inp = rest, nerr = e\<rparr>, l')))"
  using assms
proof (induction ms arbitrary: l fuel)
  case Nil
  then obtain f where "fuel = Suc f" by (cases fuel) auto
  then show ?case by (simp add: reader_simps)
next
  case (Cons m ms)
  then obtain f where f: "fuel = Suc f" by (cases fuel) auto
  have m: "ix m \<noteq> -1" "nth_name i (ix m) l = Some (if_names (ifiles l ! i) ! unat (ix m))"
    using Cons.prems(2) by (auto simp: nth_name_def Let_def word_sle_eq word_sless_alt)
  let ?ns = "if_names (ifiles l ! i)"
  have one: "enter_need i k (unat (ix m)) l = need_name (Suc (next_name l)) np (?ns ! unat (ix m)) l"
    using Cons.prems(5) by (simp add: enter_need_def reader_simps)
  show ?case
  proof (cases "enter_need i k (unat (ix m)) l")
    case (Inr r)
    then obtain l1 where l1: "enter_need i k (unat (ix m)) l = Inr ((), l1)" by (cases r) auto
    then have "same_names l l1" using keepsD [OF same_names_need] one by metis
    then have ns: "if_names (ifiles l1 ! i) = ?ns" "length (ifiles l1) = length (ifiles l)"
      using same_namesD Cons.prems(3) by (fastforce, metis length_map same_names_def)
    have "read_needs f i np (\<lparr>inp = concat (map (\<lambda>m. lit_out_number (ix m)) ms) @ lit_out_number (-1 :: long) @ rest, nerr = e\<rparr>, l1) =
      obind (each (\<lambda>m. enter_need i k (unat (ix m))) ms l1) (\<lambda>(_, l'). Inr ((), (\<lparr>inp = rest, nerr = e\<rparr>, l')))"
      by (rule Cons.IH) (use Cons.prems f ns in simp_all)
    then show ?thesis using l1 one m by (simp add: f reader_simps on_tables_def)
  next
    case (Inl x)
    then show ?thesis using one m by (simp add: f reader_simps on_tables_def)
  qed
qed

text \<open>A record of needs, and all of them.\<close>

definition need_record :: "(nat \<Rightarrow> long) \<Rightarrow> nat \<times> nat list \<Rightarrow> byte list" where
  "need_record ix r = lit_out_number LIT_NEEDS @ lit_out_number (ix (fst r)) @ concat (map (\<lambda>m. lit_out_number (ix m)) (snd r)) @ lit_out_number (-1 :: long)"

definition indexed_below :: "nat \<Rightarrow> (nat \<Rightarrow> long) \<Rightarrow> nat \<Rightarrow> bool" where
  "indexed_below k ix n \<longleftrightarrow> 0 \<le>s ix n \<and> unat (ix n) < k"

lemma same_names_enter: "keeps same_names (enter_needs i pos r)"
  unfolding enter_needs_def enter_need_def by (intro same_names.rules same_names_need)

lemma read_need_record:
  assumes "length (snd r) < fuel" "\<forall>n \<in> set (fst r # snd r). indexed_below (length (if_names (ifiles l ! i))) ix n" "i < length (ifiles l)"
  shows "read_records (Suc fuel) i a (\<lparr>inp = need_record ix r @ rest, nerr = e\<rparr>, l) =
    obind (enter_needs i (\<lambda>n. unat (ix n)) r l) (\<lambda>(_, l'). read_records fuel i a (\<lparr>inp = rest, nerr = e\<rparr>, l'))"
proof -
  let ?ns = "if_names (ifiles l ! i)"
  have n: "nth_name i (ix (fst r)) l = Some (?ns ! unat (ix (fst r)))"
    using assms(2) by (auto simp: nth_name_def indexed_below_def Let_def word_sless_alt word_sle_eq)
  have "read_needs fuel i (?ns ! unat (ix (fst r))) (\<lparr>inp = concat (map (\<lambda>m. lit_out_number (ix m)) (snd r)) @ lit_out_number (-1 :: long) @ rest, nerr = e\<rparr>, l) =
    obind (each (\<lambda>m. enter_need i (unat (ix (fst r))) (unat (ix m))) (snd r) l) (\<lambda>(_, l'). Inr ((), (\<lparr>inp = rest, nerr = e\<rparr>, l')))"
    by (rule read_needs_out) (use assms in \<open>auto simp: indexed_below_def\<close>)
  then show ?thesis
    by (simp add: need_record_def enter_needs_def read_need_list_def reader_simps n on_tables_def obind_assoc split_def)
qed

lemma read_need_records:
  assumes "\<forall>r \<in> set rs. length (snd r) < fuel \<and> (\<forall>n \<in> set (fst r # snd r). indexed_below (length (if_names (ifiles l ! i))) ix n)"
    "i < length (ifiles l)"
  shows "read_records (length rs + fuel) i a (\<lparr>inp = concat (map (need_record ix) rs) @ rest, nerr = e\<rparr>, l) =
    obind (each (enter_needs i (\<lambda>n. unat (ix n))) rs l) (\<lambda>(_, l'). read_records fuel i a (\<lparr>inp = rest, nerr = e\<rparr>, l'))"
  using assms
proof (induction rs arbitrary: l)
  case (Cons r rs)
  have 1: "read_records (Suc (length rs + fuel)) i a (\<lparr>inp = need_record ix r @ concat (map (need_record ix) rs) @ rest, nerr = e\<rparr>, l) =
    obind (enter_needs i (\<lambda>n. unat (ix n)) r l)
      (\<lambda>(_, l'). read_records (length rs + fuel) i a (\<lparr>inp = concat (map (need_record ix) rs) @ rest, nerr = e\<rparr>, l'))"
    by (rule read_need_record) (use Cons.prems in auto)
  show ?case
  proof (cases "enter_needs i (\<lambda>n. unat (ix n)) r l")
    case (Inr x)
    then obtain l1 where l1: "enter_needs i (\<lambda>n. unat (ix n)) r l = Inr ((), l1)" by (cases x) auto
    have "same_names l l1" by (rule keepsD [OF same_names_enter l1])
    then have "if_names (ifiles l1 ! i) = if_names (ifiles l ! i)" "length (ifiles l1) = length (ifiles l)"
      using same_namesD Cons.prems(2) by (fastforce, metis length_map same_names_def)
    then show ?thesis using 1 l1 Cons.IH [of l1] Cons.prems by (simp add: reader_simps del: read_records.simps)
  next
    case (Inl x)
    then show ?thesis using 1 by (simp add: reader_simps del: read_records.simps)
  qed
qed (simp add: reader_simps)

section \<open>What is written\<close>

text \<open>The needs of other names stay as they are.\<close>

lemma record_needs_others:
  "record_needs n e s = Inr (u, t) \<Longrightarrow> m \<noteq> n \<Longrightarrow> name_needs t m = name_needs s m"
proof (induction n e arbitrary: s u t rule: record_needs.induct)
  case (1 np n)
  then show ?case by (auto simp: outcome_iff add_need_def split: if_splits)
next
  case (3 np tg l r)
  then obtain v s1 where "record_needs np r s = Inr (v, s1)" "record_needs np l s1 = Inr (u, t)" by (auto simp: outcome_iff)
  then show ?case using 3 by metis
qed (auto simp: outcome_iff)

lemma form_needs_others:
  assumes "form_needs fuel n s = Inr (u, t)" "m \<noteq> n"
  shows "name_needs t m = name_needs s m"
proof (cases "name_fragment s n")
  case False
  with assms(1) obtain e e' s1 where 1: "reduce_expr fuel e s = Inr (e', s1)"
    and 2: "record_needs n e' (s1\<lparr>name_val := (name_val s1)(n \<mapsto> e')\<rparr>) = Inr (u, t)"
    by (auto simp: form_needs_def set_value_def outcome_iff split: option.splits)
  from 1 have "est.more s1 = est.more s" by (auto simp: reduce_expr_def outcome_iff evolves_def dest!: expr_reduce_evolves)
  then have "name_needs s1 = name_needs s" by (cases s; cases s1; simp add: est.defs names.defs)
  with record_needs_others [OF 2 assms(2)] show ?thesis by simp
qed (use assms in \<open>auto simp: form_needs_def outcome_iff\<close>)

definition written_needs :: "'x asm_scheme \<Rightarrow> nat \<Rightarrow> byte list" where
  "written_needs s n = (if name_global s n \<and> name_defined s n \<and> name_needs s n \<noteq> [] then need_record (name_idx s) (n, name_needs s n) else [])"

lemma output_needs1_run:
  assumes "output_needs1 fuel n s = Inr (bs, t)"
  shows "akin s t" "\<forall>m. m \<noteq> n \<longrightarrow> name_needs t m = name_needs s m" "bs = written_needs t n"
proof -
  have "keeps akin (output_needs1 fuel n)" unfolding output_needs1_def by (intro akin.rules akin_kept)
  from keepsD [OF this assms] show k: "akin s t" .
  show "\<forall>m. m \<noteq> n \<longrightarrow> name_needs t m = name_needs s m" "bs = written_needs t n"
    using assms k form_needs_others [of fuel n s _ t]
    by (auto simp: output_needs1_def written_needs_def needs_record_def need_record_def akin_def outcome_iff split: if_splits)
qed

lemma written_needs_cong: "akin s t \<Longrightarrow> name_needs t n = name_needs s n \<Longrightarrow> written_needs t n = written_needs s n"
  by (simp add: written_needs_def akin_def)

lemma collect_needs:
  assumes "collect (output_needs1 fuel) ns s = Inr (bs, t)" "distinct ns"
  shows "akin s t \<and> (\<forall>m. m \<notin> set ns \<longrightarrow> name_needs t m = name_needs s m) \<and> bs = concat (map (written_needs t) ns)"
  using assms
proof (induction ns arbitrary: s bs)
  case (Cons n ns)
  then obtain b s1 bs' where 1: "output_needs1 fuel n s = Inr (b, s1)" and 2: "collect (output_needs1 fuel) ns s1 = Inr (bs', t)"
    and bs: "bs = b @ bs'" by (auto simp: outcome_iff)
  note N = output_needs1_run [OF 1]
  have c: "akin s1 t" "\<forall>m. m \<notin> set ns \<longrightarrow> name_needs t m = name_needs s1 m" "bs' = concat (map (written_needs t) ns)"
    using Cons.IH [OF 2] Cons.prems(2) by auto
  have "written_needs t n = written_needs s1 n" using written_needs_cong [OF c(1)] c(2) Cons.prems(2) by simp
  then show ?case using N c akin.trans [OF N(1) c(1)] by (simp add: bs)
qed (simp add: outcome_iff akin.refl)

lemma output_needs_run:
  assumes "output_needs fuel s = Inr (bs, t)" "distinct (table_order (asm_names s))"
  shows "akin s t" "bs = concat (map (need_record (name_idx t)) (needs_lists t))"
proof -
  have c: "collect (output_needs1 fuel) (table_order (asm_names s)) s = Inr (bs, t)"
    using assms(1) by (auto simp: output_needs_def outcome_iff)
  note C = collect_needs [OF c assms(2)]
  then show "akin s t" by simp
  then have o: "asm_names t = asm_names s" by (simp add: akin_def)
  have "concat (map (written_needs t) ns) =
    concat (map (need_record (name_idx t)) (map (\<lambda>n. (n, name_needs t n)) (filter (\<lambda>n. name_global t n \<and> name_defined t n \<and> name_needs t n \<noteq> []) ns)))" for ns
    by (induction ns) (auto simp: written_needs_def)
  then show "bs = concat (map (need_record (name_idx t)) (needs_lists t))" using C by (simp add: needs_lists_def o)
qed

lemma out_marker_run:
  assumes "lit_out_marker p q area = Inr (bs, r)"
  obtains d z where "bs = lit_out_number LIT_MARKER @ lit_out_number area @ lit_out_number (d :: long) @ replicate z 0" "z + 3 \<le> length bs"
proof -
  let ?d = "word_of_nat (q - p) :: long"
  let ?b = "lit_out_number LIT_MARKER @ lit_out_number area @ lit_out_number ?d"
  have "lit_out_number LIT_DUMMY = [0]" by code_simp
  then have z: "concat (replicate k (lit_out_number LIT_DUMMY)) = replicate k 0" for k
    by (induction k) simp_all
  have l: "3 \<le> length ?b"
    using lit_out_number_length [of LIT_MARKER] lit_out_number_length [of area] lit_out_number_length [of ?d] by simp
  from assms have "bs = ?b @ replicate (8 - length ?b) 0"
    by (auto simp: lit_out_marker_def Let_def z lit_marker_length_def split: if_splits)
  then show thesis using l by (intro that [of ?d "8 - length ?b"]) auto
qed

lemma read_zeros: "read_records (z + fuel) i a (\<lparr>inp = replicate z 0 @ rest, nerr = e\<rparr>, l) = read_records fuel i a (\<lparr>inp = rest, nerr = e\<rparr>, l)"
proof (induction z)
  case (Suc z)
  have "lit_out_number LIT_DUMMY = [0]" by code_simp
  then have "in_long (\<lparr>inp = 0 # replicate z 0 @ rest, nerr = e\<rparr>, l) = Inr (0, (\<lparr>inp = replicate z 0 @ rest, nerr = e\<rparr>, l))"
    using in_long_out [of LIT_DUMMY "replicate z 0 @ rest" e l] by simp
  with Suc show ?case by (simp add: reader_simps)
qed simp

lemma read_marker:
  "read_records (Suc fuel) i 0 (\<lparr>inp = lit_out_number LIT_MARKER @ lit_out_number (0 :: long) @ lit_out_number (d :: long) @ rest, nerr = e\<rparr>, l) =
    read_records fuel i 1 (\<lparr>inp = rest, nerr = e\<rparr>, l)"
  "read_records (Suc fuel) i 1 (\<lparr>inp = lit_out_number LIT_MARKER @ lit_out_number (1 :: long) @ lit_out_number (d :: long) @ rest, nerr = e\<rparr>, l) =
    save_position i (\<lparr>inp = rest, nerr = e\<rparr>, l)"
  by (simp_all add: reader_simps on_tables_def word_sle_eq)

lemma need_records_length:
  assumes "r \<in> set rs"
  shows "length rs + length (snd r) \<le> length (concat (map (need_record ix) rs))"
proof -
  have n: "1 \<le> length (lit_out_number (n :: long))" for n using lit_out_number_length by blast
  have m: "length ms \<le> length (concat (map (\<lambda>m. lit_out_number (ix m)) ms))" for ms
  proof (induction ms)
    case (Cons k ms)
    then show ?case using n [of "ix k"] by simp
  qed simp
  have r: "1 + length (snd r) \<le> length (need_record ix r)" for r
    using m [of "snd r"] n [of LIT_NEEDS] by (simp add: need_record_def)
  have l: "length rs \<le> length (concat (map (need_record ix) rs))" for rs
  proof (induction rs)
    case (Cons r' rs)
    then show ?case using r [of r'] by simp
  qed simp
  show ?thesis using assms
  proof (induction rs)
    case (Cons r' rs)
    then show ?case using r [of r'] l [of rs] by auto
  qed simp
qed

section \<open>The first pass over an object file\<close>

lemma same_names_lookup: "keeps same_names (lookup_general key)"
  by (rule keepsI) (auto simp: lookup_general_def same_names_def outcome_iff name_alloc_def Let_def dest!: table_lookup_cases)

lemma enter_entry_names:
  assumes "enter_entry i e l = Inr (u, l')" "i < length (ifiles l)"
  shows "length (if_names (ifiles l' ! i)) = Suc (length (if_names (ifiles l ! i)))" "length (ifiles l') = length (ifiles l)"
proof -
  from assms(1) obtain np l1 where 1: "lookup_general (fst e) l = Inr (np, l1)"
    and 2: "flag_name i np (snd e) (l1\<lparr>ifiles := (ifiles l1)[i := (ifiles l1 ! i)\<lparr>if_names := if_names (ifiles l1 ! i) @ [np]\<rparr>]\<rparr>) = Inr (u, l')"
    by (auto simp: enter_entry_def enter_name_def upd_ifile_def outcome_iff)
  let ?l2 = "l1\<lparr>ifiles := (ifiles l1)[i := (ifiles l1 ! i)\<lparr>if_names := if_names (ifiles l1 ! i) @ [np]\<rparr>]\<rparr>"
  have k: "same_names l l1" "same_names ?l2 l'" by (rule keepsD [OF same_names_lookup 1], rule keepsD [OF same_names_flag 2])
  have len: "length (ifiles l1) = length (ifiles l)" "length (ifiles l') = length (ifiles l1)"
    using k by (simp_all add: same_names_def) (metis length_map, metis length_list_update length_map)
  then show "length (ifiles l') = length (ifiles l)" by simp
  from same_namesD [OF k(2), of i] same_namesD [OF k(1), of i] len assms(2)
  show "length (if_names (ifiles l' ! i)) = Suc (length (if_names (ifiles l ! i)))" by auto
qed

lemma enter_entries_names:
  assumes "each (enter_entry i) es l = Inr (u, l')" "i < length (ifiles l)"
  shows "length (if_names (ifiles l' ! i)) = length es + length (if_names (ifiles l ! i)) \<and> length (ifiles l') = length (ifiles l)"
  using assms
proof (induction es arbitrary: l)
  case (Cons e es)
  then obtain v l1 where 1: "enter_entry i e l = Inr (v, l1)" and 2: "each (enter_entry i) es l1 = Inr (u, l')" by (auto simp: outcome_iff)
  from Cons.IH [OF 2] enter_entry_names [OF 1 Cons.prems(2)] Cons.prems(2) show ?case by simp
qed (simp add: outcome_iff)

lemma output_names_length: "output_names s li ns = Inr bs \<Longrightarrow> length ns \<le> length bs"
proof (induction ns arbitrary: li bs)
  case (Cons n ns)
  from Cons.prems obtain b li' bs' where 1: "lit_out_ntab_entry li (name_idx s n) (c_string (name_ident s n)) (name_defined s n)
       (name_fragment s n) (name_common s n) = Inr (b, li')" and 2: "output_names s li' ns = Inr bs'" and bs: "bs = b @ bs'"
    by (auto simp: obind_Inr_iff)
  from 1 have "1 \<le> length b" using lit_out_number_length [of LIT_NAME] by (auto simp: lit_out_ntab_entry_def Let_def split: if_splits)
  with Cons.IH [OF 2] show ?case by (simp add: bs)
qed simp

lemma tabled_below:
  assumes "tabled s" "length (global_names s) < 2 ^ 31" "name_global s n"
  shows "indexed_below (length (global_names s)) (name_idx s) n"
proof -
  from assms obtain k where k: "k < length (global_names s)" "name_idx s n = word_of_nat k" by (auto simp: tabled_def)
  then have u: "unat (name_idx s n) = k" using assms(2) by (simp add: unat_of_nat)
  then have "sint (name_idx s n) = int k" using sint_small [of "name_idx s n"] k assms(2) by simp
  with u k show ?thesis by (simp add: indexed_below_def word_sle_eq)
qed

lemma output_definitions_state: "output_definitions s = Inr (bs, t) \<Longrightarrow> t = s"
proof -
  have "keeps (\<lambda>s t. t = s) (collect output_definitions1 ns :: ('x asm_scheme, byte list) step)" for ns
  proof (induction ns)
    case (Cons n ns)
    have "keeps (\<lambda>s t. t = s) (output_definitions1 n)"
      by (auto simp: keeps_def output_definitions1_def outcome_iff split: option.splits if_splits)
    with Cons show ?case by (fastforce simp: keeps_def outcome_iff)
  qed (auto simp: keeps_def outcome_iff)
  then show "output_definitions s = Inr (bs, t) \<Longrightarrow> t = s"
    by (auto simp: output_definitions_def outcome_iff keeps_def)
qed

lemma object_layout:
  assumes "output_object fuel s = Inr (file, t)" "distinct (table_order (asm_names s))"
  obtains b0 m0 m1 area others where "output_names t (-1) (global_names t) = Inr b0"
    "file = b0 @ m0 @ concat (map (need_record (name_idx t)) (needs_lists t)) @ m1 @ area @ others" "pass_output_segments t = Inr area"
    "\<exists>p q r. lit_out_marker p q 0 = Inr (m0, r)" "\<exists>p q r. lit_out_marker p q 1 = Inr (m1, r)" "akin s t"
proof -
  from assms(1) obtain b0 f0 b1 s2 f1 area f2 defs where 0: "output_nametable s = Inr b0" "close_area 0 [] b0 = Inr f0"
    and 1: "output_needs fuel s = Inr (b1, s2)" "close_area 1 f0 b1 = Inr f1"
    and 2: "pass_output_segments s2 = Inr area" "close_area 2 f1 area = Inr f2"
    and 3: "output_definitions s2 = Inr (defs, t)" "close_area 3 f2 defs = Inr file"
    by (auto simp: output_object_def outcome_iff)
  have t: "s2 = t" using output_definitions_state [OF 3(1)] by simp
  note N = output_needs_run [OF 1(1) assms(2), unfolded t]
  have "output_names t li ns = output_names s li ns" for li ns
    using N(1) by (induction ns arbitrary: li) (simp_all add: akin_def)
  then have "output_names t (-1) (global_names t) = Inr b0" using 0(1) N(1) by (simp add: output_nametable_def akin_def)
  moreover have close: "\<exists>mk p q r. g = f @ bs @ mk \<and> lit_out_marker p q a = Inr (mk, r)" if "close_area a f bs = Inr g" for a f bs g
    using that by (auto simp: close_area_def obind_Inr_iff)
  from close [OF 0(2)] close [OF 1(2)] close [OF 2(2)] close [OF 3(2)] obtain m0 m1 others where "file = b0 @ m0 @ b1 @ m1 @ area @ others"
    "\<exists>p q r. lit_out_marker p q 0 = Inr (m0, r)" "\<exists>p q r. lit_out_marker p q 1 = Inr (m1, r)"
    by clarsimp blast
  ultimately show thesis using 2(1) N by (intro that) (simp_all add: t)
qed

section \<open>Properties\<close>

lemma out_numbers:
  "lit_out_number (0 :: long) = [0]" "lit_out_number (1 :: long) = [1]" "lit_out_number (2 :: long) = [2]" "lit_out_number (3 :: long) = [3]" "lit_out_number (4 :: long) = [4]"
  "lit_out_number (6 :: long) = [6]" "lit_out_number (9 :: long) = [9]" "lit_out_number (12 :: long) = [12]" "lit_out_number LIT_EXPR_END = [250]"
  "lit_out_number (tag_code EXPR_NAME) = [1]" "lit_out_number (tag_code EXPR_CONST) = [0]"
 "lit_out_number (-1 :: long) = [255, 0]" "lit_out_number LIT_NAME = [255, 2]" "lit_out_number LIT_NEEDS = [255, 3]" "lit_out_number LIT_SEGMENT = [255, 4]" "lit_out_number LIT_MARKER = [255, 7]" "lit_out_number LIT_DATA = [255, 0]"
  by code_simp+

lemma replicate_four: "replicate 4 x = [x, x, x, x]"
  by (simp add: numeral_eq_Suc)

definition sample_written :: "byte list" where
  "sample_written = [255, 2, 0, 3, 255, 2, 1, 108, 0, 255, 7, 0, 9, 0, 0, 0, 0, 255, 3, 0, 1, 255, 0, 255, 7, 1, 6, 0, 0, 0, 0,
     255, 0, 4, 1, 1, 250, 0, 1, 250, 0, 4, 250, 255, 7, 2, 12, 0, 0, 0, 0, 255, 7, 3, 0, 0, 0, 0, 0]"

lemma sample_object_file:
  "obind (yyparse six [TOK_GLOBL [108], TOK_WORD [DATUM (TOK_NAME [108])]] (asm_init sh)) (\<lambda>(_, s).
     obind (asm_passes six (Suc 0) s) (\<lambda>(_, s1). obind (output_object six s1) (\<lambda>(bs, t).
     if errors s = 0 \<and> bs = sample_written \<and> length (global_names t) = 2 \<and> name_ident t (Suc (Suc 0)) = [108] \<and>
        table_entries t = [([], 3), ([108], 0)] \<and> needs_lists t = [(0, [Suc (Suc 0)])]
     then Inr () else Inl Abort))) = Inr ()"
  by (simp add: replicate_four sample_written_def table_entries_def needs_lists_def name_flags_def globl_directive_def check_data_alignment_def output_object_def output_nametable_def lit_out_ntab_entry_def lit_out_string_def close_area_def
    lit_out_marker_def lit_marker_length_def pass_output_segments_def out_segment_def out_fragment_def out_element_def file_indices_def lit_out_expr_def out_index_def
    output_definitions_def output_definitions1_def expr_tags_def code_tag_def c_string_def strlen_def add_need_def out_numbers
   asm_pass_evals ten_digits grow_one name_evals asm_start_evals asm_step_evals l_column sample_kinds sample_order reader_simps Let_def word_sle_eq word_sless_alt cong: obind_weak)

text \<open>
  C3: What the assembler writes, the linker reads: for an object file made from an error-free parse, the first pass of the linker
  over the file enters every global name of the assembler under its identifier with its flags, in the order of the table, and
  then the needs of every defined global name, and leaves the file where the padding in front of the segments starts.
\<close>

theorem object_tables_read:
  assumes "yyparse fuel source (asm_init sh) = Inr (u, s)" "asm_passes fuel passes s = Inr (v, s1)" "output_object fuel s1 = Inr (file, t)"
    "length (global_names t) < 2 ^ 31" "\<forall>n \<in> set (global_names t). length (c_string (name_ident t n)) < 2 ^ 31"
    "i < length (ifiles l)" "if_data (ifiles l ! i) = file" "if_names (ifiles l ! i) = []"
  shows "\<exists>tables z area others. file = tables @ replicate z 0 @ area @ others \<and> pass_output_segments t = Inr area \<and>
    read_nametable i l = rbind (each (enter_entry i) (table_entries t)) (\<lambda>_. rbind (each (enter_needs i (name_pos t)) (needs_lists t))
      (\<lambda>_. upd_ifile i (\<lambda>f. f\<lparr>if_data := replicate z 0 @ area @ others\<rparr>))) l"
proof -
  have tab: "tabled s1" by (rule akin_tabled [OF keepsD [OF akin_passes assms(2)] numbered_tabled [OF yyparse_numbered [OF assms(1)]]])
  then have "distinct (table_order (asm_names s1))" by (simp add: tabled_def)
  with assms(3) obtain b0 m0 m1 area others where names: "output_names t (-1) (global_names t) = Inr b0"
    and layout: "file = b0 @ m0 @ concat (map (need_record (name_idx t)) (needs_lists t)) @ m1 @ area @ others"
    and area: "pass_output_segments t = Inr area" and m: "\<exists>p q r. lit_out_marker p q 0 = Inr (m0, r)" "\<exists>p q r. lit_out_marker p q 1 = Inr (m1, r)"
    and k: "akin s1 t"
    by (rule object_layout)
  let ?b1 = "concat (map (need_record (name_idx t)) (needs_lists t))"
  from m(1) obtain d0 z0 where m0: "m0 = lit_out_number LIT_MARKER @ lit_out_number (0 :: long) @ lit_out_number (d0 :: long) @ replicate z0 0" "z0 + 3 \<le> length m0"
    by (elim exE out_marker_run) blast
  from m(2) obtain d1 z1 where m1: "m1 = lit_out_number LIT_MARKER @ lit_out_number (1 :: long) @ lit_out_number (d1 :: long) @ replicate z1 0" "z1 + 3 \<le> length m1"
    by (elim exE out_marker_run) blast
  let ?rest = "replicate z1 0 @ area @ others"
  let ?E = "length (global_names t)" and ?K = "length (needs_lists t)"
  have tt: "tabled t" by (rule akin_tabled [OF k tab])
  have room: "?K + length (snd r) \<le> length ?b1" if "r \<in> set (needs_lists t)" for r by (rule need_records_length [OF that])
  have "?K \<le> length ?b1" using room [of "hd (needs_lists t)"] by (cases "needs_lists t") auto
  then obtain f where f: "Suc (length file) = ?E + Suc (z0 + (?K + Suc f))" "\<forall>r \<in> set (needs_lists t). length (snd r) < Suc f"
  proof -
    have len: "?E + z0 + 3 + length ?b1 + 3 \<le> length file" using output_names_length [OF names] m0(2) m1(2) by (simp add: layout)
    then have "?E + z0 + ?K + 1 \<le> length file" using \<open>?K \<le> length ?b1\<close> by linarith
    then obtain d where d: "length file = ?E + z0 + ?K + 1 + d" using le_Suc_ex by blast
    have "length (snd r) < Suc d" if "r \<in> set (needs_lists t)" for r using len d room [OF that] by linarith
    then show thesis using d by (intro that [of d]) auto
  qed
  have names_read: "read_records (Suc (length file)) i 0 (\<lparr>inp = file, nerr = 0\<rparr>, l) =
    obind (each (enter_entry i) (table_entries t) l) (\<lambda>(_, l'). read_records (?K + Suc f) i 1 (\<lparr>inp = ?b1 @ m1 @ area @ others, nerr = 0\<rparr>, l'))"
  proof -
    have skip: "read_records (Suc (z0 + (?K + Suc f))) i 0 (\<lparr>inp = m0 @ ?b1 @ m1 @ area @ others, nerr = 0\<rparr>, l') =
      read_records (?K + Suc f) i 1 (\<lparr>inp = ?b1 @ m1 @ area @ others, nerr = 0\<rparr>, l')" for l'
      by (simp only: m0(1) append_assoc read_marker read_zeros)
    show ?thesis
      unfolding f(1)
      using read_entries [OF names assms(5), of "Suc (z0 + (?K + Suc f))" i 0 "m0 @ ?b1 @ m1 @ area @ others" 0 l]
      by (simp only: skip table_entries_def layout append_assoc)
  qed
  have needs_read: "read_records (?K + Suc f) i 1 (\<lparr>inp = ?b1 @ m1 @ area @ others, nerr = 0\<rparr>, l1) =
    obind (each (enter_needs i (name_pos t)) (needs_lists t) l1) (\<lambda>(_, l'). save_position i (\<lparr>inp = ?rest, nerr = 0\<rparr>, l'))"
    if "each (enter_entry i) (table_entries t) l = Inr (w, l1)" for w l1
  proof -
    have l1: "length (if_names (ifiles l1 ! i)) = ?E" "i < length (ifiles l1)"
      using enter_entries_names [OF that assms(6)] assms(6,8) by (simp_all add: table_entries_def)
    have "indexed_below ?E (name_idx t) n" if "name_global t n" for n by (rule tabled_below [OF tt assms(4) that])
    moreover have "name_global t n" if "r \<in> set (needs_lists t)" "n \<in> set (fst r # snd r)" for r n
      using that tt by (auto simp: needs_lists_def tabled_def)
    ultimately show ?thesis
      using read_need_records [of "needs_lists t" "Suc f" l1 i "name_idx t" 1 "m1 @ area @ others" 0] f(2) l1
      by (simp add: name_pos_def [abs_def] m1(1) read_marker del: read_records.simps)
  qed
  have "read_nametable i l = rbind (each (enter_entry i) (table_entries t)) (\<lambda>_. rbind (each (enter_needs i (name_pos t)) (needs_lists t))
      (\<lambda>_. upd_ifile i (\<lambda>f. f\<lparr>if_data := ?rest\<rparr>))) l"
    using names_read needs_read assms(7)
    by (auto simp: read_nametable_def with_file_def reader_simps save_position_def on_tables_def upd_ifile_def obind_assoc split_def
        intro!: obind_cong simp del: read_records.simps)
  with layout area m1(1) show ?thesis
    by (intro exI [of _ "b0 @ m0 @ ?b1 @ lit_out_number LIT_MARKER @ lit_out_number (1 :: long) @ lit_out_number d1"] exI [of _ z1] exI [of _ area] exI [of _ others]) simp
qed

theorem object_tables_read_witness:
  "\<exists>t :: asm. \<exists>tables rest. sample_written = tables @ rest \<and>
     read_nametable 0 ((linker_init (\<lambda>_. False))\<lparr>ifiles := [new_ifile False sample_written]\<rparr>) =
       rbind (each (enter_entry 0) [([], 3), ([108], 0)]) (\<lambda>_. rbind (each (enter_needs 0 (name_pos t)) [(0, [2])])
         (\<lambda>_. upd_ifile 0 (\<lambda>f. f\<lparr>if_data := rest\<rparr>))) ((linker_init (\<lambda>_. False))\<lparr>ifiles := [new_ifile False sample_written]\<rparr>)"
proof -
  let ?l = "(linker_init (\<lambda>_. False))\<lparr>ifiles := [new_ifile False sample_written]\<rparr>"
  from sample_object_file [of "\<lambda>_. False"] obtain s s1 t where r: "yyparse six [TOK_GLOBL [108], TOK_WORD [DATUM (TOK_NAME [108])]] (asm_init (\<lambda>_. False)) = Inr ((), s)"
      "asm_passes six (Suc 0) s = Inr ((), s1)" "output_object six s1 = Inr (sample_written, t)"
    and n: "length (global_names t) = 2" "table_entries t = [([], 3), ([108], 0)]" "needs_lists t = [(0, [Suc (Suc 0)])]"
    by (auto simp: obind_Inr_iff split: if_splits)
  have "\<forall>e \<in> set (table_entries t). length (fst e) < 2 ^ 31" by (simp add: n(2))
  then have "\<forall>n \<in> set (global_names t). length (c_string (name_ident t n)) < 2 ^ 31" by (simp add: table_entries_def)
  from object_tables_read [OF r _ this, of 0 ?l] obtain tables rest where "sample_written = tables @ rest"
    "read_nametable 0 ?l = rbind (each (enter_entry 0) (table_entries t)) (\<lambda>_. rbind (each (enter_needs 0 (name_pos t)) (needs_lists t))
       (\<lambda>_. upd_ifile 0 (\<lambda>f. f\<lparr>if_data := rest\<rparr>))) ?l"
    by (auto simp: new_ifile_def n(1))
  then show ?thesis unfolding n numeral_2_eq_2 by blast
qed

end
