(* ===== verification/Scan.thy ===== *)
theory Scan
  imports Instr Names
begin

text \<open>
  The scanner of the assembler (\<open>ast/scan.l\<close>): the rules with their patterns, the choice of a rule as \<open>flex\<close>
  documents it, and the actions.  A token carries the text of a name or segment, which the action of the source looks up in
  its table at once; here that is \<open>scan_name\<close> and \<open>scan_segment\<close> of \<open>Asm\<close>, called where the parser takes the token.
\<close>

section \<open>Patterns\<close>

datatype pattern =
    Exactly "byte list"
  | Class "byte \<Rightarrow> bool"
  | Many "byte \<Rightarrow> bool"
  | Maybe pattern
  | Then pattern pattern

text \<open>What can be left of the input behind a match of a pattern.\<close>

fun leftovers :: "(byte \<Rightarrow> bool) \<Rightarrow> byte list \<Rightarrow> byte list list" where
  "leftovers c [] = [[]]"
| "leftovers c (b # bs) = (b # bs) # (if c b then leftovers c bs else [])"

fun ends :: "pattern \<Rightarrow> byte list \<Rightarrow> byte list list" where
  "ends (Exactly k) s = (if take (length k) s = k then [drop (length k) s] else [])"
| "ends (Class c) s = (case s of [] \<Rightarrow> [] | b # bs \<Rightarrow> if c b then [bs] else [])"
| "ends (Many c) s = leftovers c s"
| "ends (Maybe p) s = s # ends p s"
| "ends (Then p q) s = concat (map (ends q) (ends p s))"

definition match_len :: "pattern \<Rightarrow> byte list \<Rightarrow> nat option" where
  "match_len p s = (case ends p s of [] \<Rightarrow> None | r # rs \<Rightarrow> Some (foldl max (length s - length r) (map (\<lambda>r. length s - length r) rs)))"

abbreviation Some_of :: "(byte \<Rightarrow> bool) \<Rightarrow> pattern" where
  "Some_of c \<equiv> Then (Class c) (Many c)"

definition between :: "byte \<Rightarrow> byte \<Rightarrow> byte \<Rightarrow> bool" where
  "between lo hi b \<longleftrightarrow> lo \<le> b \<and> b \<le> hi"

definition among :: "byte list \<Rightarrow> byte \<Rightarrow> bool" where
  "among bs b \<longleftrightarrow> b \<in> set bs"

text \<open>The character classes of the file; \<open>any\<close> is the dot, which does not match the end of a line.\<close>

definition digit :: "byte \<Rightarrow> bool" where "digit = between 48 57"
definition octdigit :: "byte \<Rightarrow> bool" where "octdigit = between 48 55"
definition hexdigit :: "byte \<Rightarrow> bool" where "hexdigit b \<longleftrightarrow> digit b \<or> between 97 102 b \<or> between 65 70 b"
definition letter :: "byte \<Rightarrow> bool" where "letter b \<longleftrightarrow> between 97 122 b \<or> between 65 90 b"
definition ident_start :: "byte \<Rightarrow> bool" where "ident_start b \<longleftrightarrow> letter b \<or> among [95, 36, 64] b"
definition ident_char :: "byte \<Rightarrow> bool" where "ident_char b \<longleftrightarrow> digit b \<or> letter b \<or> among [95, 46, 36, 64] b"
definition segment_char :: "byte \<Rightarrow> bool" where "segment_char b \<longleftrightarrow> letter b \<or> digit b \<or> among [95, 36, 64] b"
definition any :: "byte \<Rightarrow> bool" where "any b \<longleftrightarrow> b \<noteq> 10"
definition blank :: "byte \<Rightarrow> bool" where "blank = among [32, 9]"
definition blank_cr :: "byte \<Rightarrow> bool" where "blank_cr = among [32, 9, 13]"
definition white :: "byte \<Rightarrow> bool" where "white = among [32, 9, 12, 13]"

section \<open>Tokens\<close>

datatype directive = Dir_word | Dir_half | Dir_byte | Dir_align | Dir_globl | Dir_comm | Dir_need | Dir_slot

datatype token =
    Tok_command cmd_token int
  | Tok_diglab nat
  | Tok_digref_b nat
  | Tok_digref_f nat
  | Tok_number long
  | Tok_string "byte list"
  | Tok_directive directive
  | Tok_segment "byte list"
  | Tok_operator "byte list"
  | Tok_name "byte list"

section \<open>Rules\<close>

datatype start_condition = INITIAL | STRING | COMMENT | LINEDIR

datatype action =
    Command cmd_token int
  | Diglab | Digref_b | Digref_f
  | Hex_number | Octal_number | Decimal_number
  | Hex_char | Octal_char | Escape_char | Plain_char
  | Begin_string | End_string | String_text | String_octal | String_hex | String_escape
  | Newline | Nothing
  | Line_comment | Begin_comment | End_comment
  | Begin_linedir | Unknown_directive | Line_number | End_linedir | File_name
  | Directive directive
  | Segment
  | Operator
  | Identifier
  | Unexpected
  | Echo

text \<open>Start conditions, whether the pattern starts with \<open>^\<close>, the pattern, the trailing context.\<close>

record rule =
  starts :: "start_condition list"
  anchored :: bool
  head :: pattern
  trail :: "pattern option"
  action :: action

abbreviation plain :: "pattern \<Rightarrow> action \<Rightarrow> rule" where
  "plain p a \<equiv> \<lparr>starts = [INITIAL], anchored = False, head = p, trail = None, action = a\<rparr>"

abbreviation within_start :: "start_condition list \<Rightarrow> pattern \<Rightarrow> action \<Rightarrow> rule" where
  "within_start cs p a \<equiv> \<lparr>starts = cs, anchored = False, head = p, trail = None, action = a\<rparr>"

definition command_rules :: "rule list" where
  "command_rules = map (\<lambda>(mnemonic, opcode, t). plain (Exactly (bytes_of mnemonic)) (Command t opcode)) instruction_set"

definition label_rules :: "rule list" where
  "label_rules =
     [\<lparr>starts = [INITIAL], anchored = False, head = Class digit, trail = Some (Then (Many blank) (Exactly [58])), action = Diglab\<rparr>,
      plain (Then (Class digit) (Exactly [98])) Digref_b,
      plain (Then (Class digit) (Exactly [102])) Digref_f]"

definition number_rules :: "rule list" where
  "number_rules =
     [plain (Then (Exactly [48]) (Then (Class (among [120, 88])) (Some_of hexdigit))) Hex_number,
      plain (Then (Exactly [48]) (Some_of octdigit)) Octal_number,
      plain (Some_of digit) Decimal_number,
      plain (Then (Exactly [39, 92]) (Then (Class (among [120, 88])) (Then (Class hexdigit) (Then (Class hexdigit) (Exactly [39]))))) Hex_char,
      plain (Then (Exactly [39, 92]) (Then (Class octdigit) (Then (Maybe (Class octdigit)) (Then (Maybe (Class octdigit)) (Exactly [39]))))) Octal_char,
      plain (Then (Exactly [39, 92]) (Then (Class any) (Exactly [39]))) Escape_char,
      plain (Then (Exactly [39]) (Then (Class any) (Exactly [39]))) Plain_char]"

definition string_rules :: "rule list" where
  "string_rules =
     [plain (Exactly [34]) Begin_string,
      within_start [STRING] (Exactly [34]) End_string,
      within_start [STRING] (Some_of (\<lambda>b. b \<noteq> 92 \<and> b \<noteq> 34)) String_text,
      within_start [STRING] (Then (Exactly [92]) (Then (Class octdigit) (Then (Maybe (Class octdigit)) (Maybe (Class octdigit))))) String_octal,
      within_start [STRING] (Then (Exactly [92]) (Then (Class (among [120, 88])) (Then (Class hexdigit) (Class hexdigit)))) String_hex,
      within_start [STRING] (Then (Exactly [92]) (Class any)) String_escape]"

definition comment_rules :: "rule list" where
  "comment_rules =
     [within_start [INITIAL, COMMENT] (Then (Many white) (Then (Exactly [10]) (Many white))) Newline,
      within_start [INITIAL, COMMENT] (Many white) Nothing,
      plain (Then (Exactly [47, 47]) (Many any)) Line_comment,
      plain (Exactly [47, 42]) Begin_comment,
      within_start [COMMENT] (Many (\<lambda>b. b \<noteq> 42 \<and> b \<noteq> 10)) Nothing,
      within_start [COMMENT] (Then (Some_of (\<lambda>b. b = 42)) (Many (\<lambda>b. \<not> among [42, 47, 10] b))) Nothing,
      within_start [COMMENT] (Then (Some_of (\<lambda>b. b = 42)) (Exactly [47])) End_comment]"

text \<open>A line directive; \<open>\".+\"\<close> is a name in quotes.\<close>

abbreviation quoted :: pattern where
  "quoted \<equiv> Then (Exactly [34]) (Then (Some_of any) (Exactly [34]))"

definition linedir_rule :: "pattern \<Rightarrow> rule" where
  "linedir_rule p = \<lparr>starts = [INITIAL], anchored = True, head = Exactly [35], trail = Some (Then (Many blank) p), action = Begin_linedir\<rparr>"

definition linedir_rules :: "rule list" where
  "linedir_rules =
     [linedir_rule (Then (Exactly (bytes_of ''line'')) (Then (Some_of blank) (Then (Some_of digit) (Then (Some_of blank) (Then quoted (Then (Many blank_cr) (Exactly [10]))))))),
      linedir_rule (Then (Exactly (bytes_of ''line'')) (Then (Some_of blank) (Then (Some_of digit) (Then (Many blank) (Exactly [10]))))),
      linedir_rule (Then (Some_of digit) (Then (Some_of blank) (Then quoted (Then (Some_of blank) (Then (Some_of digit) (Then (Many blank_cr) (Exactly [10]))))))),
      linedir_rule (Then (Some_of digit) (Then (Some_of blank) (Then quoted (Then (Many blank_cr) (Exactly [10]))))),
      linedir_rule (Then (Some_of digit) (Then (Many blank_cr) (Exactly [10]))),
      \<lparr>starts = [INITIAL], anchored = True, head = Then (Exactly [35]) (Class any), trail = None, action = Unknown_directive\<rparr>,
      within_start [LINEDIR] (Many blank) Nothing,
      within_start [LINEDIR] (Exactly (bytes_of ''line'')) Nothing,
      within_start [LINEDIR] (Then (Some_of digit) (Some_of blank)) Line_number,
      within_start [LINEDIR] (Then (Many (\<lambda>b. b = 13)) (Exactly [10])) End_linedir,
      within_start [LINEDIR] quoted File_name]"

definition directive_rules :: "rule list" where
  "directive_rules =
     map (\<lambda>(key, d). plain (Exactly (bytes_of key)) (Directive d))
       [(''.word'', Dir_word), (''.half'', Dir_half), (''.byte'', Dir_byte), (''.ascii'', Dir_byte), (''.align'', Dir_align),
        (''.globl'', Dir_globl), (''.comm'', Dir_comm), (''.need'', Dir_need), (''.slot'', Dir_slot)] @
     [plain (Then (Exactly [46]) (Some_of segment_char)) Segment]"

definition operator_keys :: "string list" where
  "operator_keys =
     [''?'', ''['', '']'', ''('', '')'', ''||'', ''&&'', ''~'', ''|'', ''^'', ''&'', ''='', ''=='', ''!='', ''<'', ''>'', ''<='', ''>='',
      ''<<'', ''>>'', ''+'', ''-'', ''*'', ''/'', ''%'', '';'', '','', ''.'', '':'', ''::'']"

definition operator_rules :: "rule list" where
  "operator_rules = map (\<lambda>key. plain (Exactly (bytes_of key)) Operator) operator_keys"

definition last_rules :: "rule list" where
  "last_rules = [plain (Then (Class ident_start) (Many ident_char)) Identifier, plain (Class any) Unexpected]"

text \<open>Behind the rules of the file is the default rule, which copies a character to the output.\<close>

definition default_rule :: rule where
  "default_rule = within_start [INITIAL, STRING, COMMENT, LINEDIR] (Class (\<lambda>_. True)) Echo"

definition rules :: "rule list" where
  "rules = command_rules @ label_rules @ number_rules @ string_rules @ comment_rules @ linedir_rules @ directive_rules @ operator_rules @ last_rules @ [default_rule]"

text \<open>The rule with the longest match, trailing context included, the first one of several; its name is \<open>yytext\<close>'s length with it.\<close>

definition rule_len :: "rule \<Rightarrow> start_condition \<Rightarrow> bool \<Rightarrow> byte list \<Rightarrow> nat option" where
  "rule_len r c bol s =
     (if c \<in> set (starts r) \<and> (anchored r \<longrightarrow> bol)
      then match_len (case trail r of None \<Rightarrow> head r | Some q \<Rightarrow> Then (head r) q) s else None)"

fun best_rule :: "rule list \<Rightarrow> start_condition \<Rightarrow> bool \<Rightarrow> byte list \<Rightarrow> (rule \<times> nat) option" where
  "best_rule [] c bol s = None"
| "best_rule (r # rs) c bol s =
     (case (rule_len r c bol s, best_rule rs c bol s) of
        (None, b) \<Rightarrow> b
      | (Some n, None) \<Rightarrow> Some (r, n)
      | (Some n, Some (r', n')) \<Rightarrow> if n < n' then Some (r', n') else Some (r, n))"

text \<open>With trailing context the text is what the head matches, which has one length in all rules of this kind.\<close>

definition text_len :: "rule \<Rightarrow> byte list \<Rightarrow> nat \<Rightarrow> nat" where
  "text_len r s n = (case trail r of None \<Rightarrow> n | Some q \<Rightarrow> length s - length (hd (ends (head r) s)))"

section \<open>The scanner\<close>

text \<open>
  The input, the start condition, the buffer of strings (\<open>string\<close> up to \<open>stringlen\<close>, and \<open>stringlenmax\<close>), the line number,
  whether a line starts, whether \<open>errno\<close> was set by a number out of range, and the number of errors.  The name of the input file, which only
  diagnostics use, is left out.
\<close>

record scanner =
  unread :: "byte list"
  condition :: start_condition
  string_buf :: "byte list"
  stringlenmax :: nat
  input_lineno :: long
  line_start :: bool
  erange :: bool
  lex_errors :: nat

definition scanner_init :: "byte list \<Rightarrow> scanner" where
  "scanner_init file = \<lparr>unread = file, condition = INITIAL, string_buf = [], stringlenmax = 0, input_lineno = 1,
     line_start = True, erange = False, lex_errors = 0\<rparr>"

fun c_char_escape :: "byte \<Rightarrow> byte" where
  "c_char_escape c =
     (if c = 48 then 0 else if c = 98 then 8 else if c = 102 then 12 else if c = 110 then 10 else if c = 114 then 13
      else if c = 116 then 9 else if c = 118 then 11 else c)"

definition digit_value :: "byte \<Rightarrow> nat" where
  "digit_value b = (if b \<le> 57 then unat b - 48 else if 97 \<le> b then unat b - 87 else unat b - 55)"

definition base_value :: "int \<Rightarrow> byte list \<Rightarrow> int" where
  "base_value base ds = foldl (\<lambda>n b. base * n + int (digit_value b)) 0 ds"

text \<open>\<open>strtoul\<close> on nothing but digits; \<open>errno\<close> is never reset.\<close>

definition strtoul_digits :: "int \<Rightarrow> byte list \<Rightarrow> scanner \<Rightarrow> long \<times> scanner" where
  "strtoul_digits base ds s =
     (if 2 ^ 32 \<le> base_value base ds then (-1, s\<lparr>erange := True\<rparr>) else (word_of_int (base_value base ds), s))"

definition number_token :: "int \<Rightarrow> byte list \<Rightarrow> scanner \<Rightarrow> token \<times> scanner" where
  "number_token base ds s =
     (case strtoul_digits base ds s of
        (v, s') \<Rightarrow> (Tok_number v, if v = -1 \<and> erange s' then s'\<lparr>lex_errors := Suc (lex_errors s')\<rparr> else s'))"

text \<open>\<open>mk_string_space\<close> doubles the buffer once, or makes the first one; writing behind its end is a \<open>Trap\<close>.\<close>

definition mk_string_space :: "nat \<Rightarrow> scanner \<Rightarrow> scanner" where
  "mk_string_space n s =
     (if stringlenmax s - length (string_buf s) < n
      then s\<lparr>stringlenmax := (if stringlenmax s \<noteq> 0 then stringlenmax s * 2 else 80)\<rparr> else s)"

definition add_string :: "byte list \<Rightarrow> scanner \<Rightarrow> scanner outcome" where
  "add_string bs s =
     (let s' = mk_string_space (length bs) s in
      if stringlenmax s' < length (string_buf s') + length bs then Inl Trap
      else Inr (s'\<lparr>string_buf := string_buf s' @ bs\<rparr>))"

text \<open>\<open>while (input () != '\n')\<close>, which never ends at the end of the file.\<close>

definition skip_line :: "scanner \<Rightarrow> scanner outcome" where
  "skip_line s =
     (case dropWhile any (unread s) of [] \<Rightarrow> Inl Trap | b # bs \<Rightarrow> Inr (s\<lparr>unread := bs, line_start := True\<rparr>))"

definition unput :: "byte \<Rightarrow> scanner \<Rightarrow> scanner" where
  "unput b s = s\<lparr>unread := b # unread s\<rparr>"

definition keep_on :: "scanner outcome \<Rightarrow> (token option \<times> scanner) outcome" where
  "keep_on m = obind m (\<lambda>s. Inr (None, s))"

definition give :: "token \<times> scanner \<Rightarrow> (token option \<times> scanner) outcome" where
  "give r = Inr (Some (fst r), snd r)"

text \<open>The actions; \<open>None\<close> lets the scanner go on.\<close>

definition perform :: "action \<Rightarrow> byte list \<Rightarrow> scanner \<Rightarrow> (token option \<times> scanner) outcome" where
  "perform a text s =
     (case a of
        Command t opcode \<Rightarrow> give (Tok_command t opcode, s)
      | Diglab \<Rightarrow> give (Tok_diglab (digit_value (text ! 0)), s)
      | Digref_b \<Rightarrow> give (Tok_digref_b (digit_value (text ! 0)), s)
      | Digref_f \<Rightarrow> give (Tok_digref_f (digit_value (text ! 0)), s)
      | Hex_number \<Rightarrow> give (number_token 16 (drop 2 text) s)
      | Octal_number \<Rightarrow> give (number_token 8 text s)
      | Decimal_number \<Rightarrow> give (number_token 10 text s)
      | Hex_char \<Rightarrow> give (Tok_number (word_of_int (base_value 16 (butlast (drop 3 text)))), s)
      | Octal_char \<Rightarrow> give (Tok_number (word_of_int (base_value 8 (butlast (drop 2 text)))), s)
      | Escape_char \<Rightarrow> give (Tok_number (ucast (c_char_escape (text ! 2))), s)
      | Plain_char \<Rightarrow> give (Tok_number (ucast (text ! 1)), s)
      | Begin_string \<Rightarrow> keep_on (Inr (s\<lparr>condition := STRING\<rparr>))
      | End_string \<Rightarrow> give (Tok_string (string_buf s), s\<lparr>string_buf := [], condition := INITIAL\<rparr>)
      | String_text \<Rightarrow> keep_on (add_string text s)
      | String_octal \<Rightarrow> keep_on (add_string [word_of_int (base_value 8 (drop 1 text))] s)
      | String_hex \<Rightarrow> keep_on (add_string [word_of_int (base_value 16 (drop 2 text))] s)
      | String_escape \<Rightarrow> keep_on (add_string [c_char_escape (text ! 1)] s)
      | Newline \<Rightarrow> keep_on (Inr (s\<lparr>input_lineno := input_lineno s + 1\<rparr>))
      | Nothing \<Rightarrow> keep_on (Inr s)
      | Line_comment \<Rightarrow> keep_on (obind (skip_line s) (\<lambda>s. Inr (unput 10 s)))
      | Begin_comment \<Rightarrow> keep_on (Inr (s\<lparr>condition := COMMENT\<rparr>))
      | End_comment \<Rightarrow> keep_on (Inr (s\<lparr>condition := INITIAL\<rparr>))
      | Begin_linedir \<Rightarrow> keep_on (Inr (s\<lparr>condition := LINEDIR\<rparr>))
      | Unknown_directive \<Rightarrow> keep_on (obind (skip_line s) (\<lambda>s. Inr ((unput 10 s)\<lparr>condition := INITIAL\<rparr>)))
      | Line_number \<Rightarrow> keep_on (Inr (let v = base_value 10 (takeWhile digit text) in
          s\<lparr>input_lineno := word_of_int (min v (2 ^ 31 - 1)), erange := (erange s \<or> 2 ^ 31 \<le> v)\<rparr>))
      | End_linedir \<Rightarrow> keep_on (Inr (s\<lparr>condition := INITIAL\<rparr>))
      | File_name \<Rightarrow> keep_on (obind (skip_line s) (\<lambda>s. Inr (s\<lparr>condition := INITIAL\<rparr>)))
      | Directive d \<Rightarrow> give (Tok_directive d, s)
      | Segment \<Rightarrow> give (Tok_segment (drop 1 text), s)
      | Operator \<Rightarrow> give (Tok_operator text, s)
      | Identifier \<Rightarrow> give (Tok_name text, s)
      | Unexpected \<Rightarrow> keep_on (Inr (s\<lparr>lex_errors := Suc (lex_errors s)\<rparr>))
      | Echo \<Rightarrow> keep_on (Inr s))"

text \<open>
  A call of \<open>yylex\<close>: \<open>None\<close> is the end of the file.  There the rule for strings reports an error and the scanner meets the end of the
  file again, for ever, which is a \<open>Trap\<close>.  Every round takes at least one byte, so fuel beyond the length of the input is enough; running
  out of it is the only \<open>Abort\<close>.
\<close>

fun yylex :: "nat \<Rightarrow> scanner \<Rightarrow> (token option \<times> scanner) outcome" where
  "yylex 0 s = Inl Abort"
| "yylex (Suc fuel) s =
     (if unread s = [] then if condition s = STRING then Inl Trap else Inr (None, s)
      else case best_rule rules (condition s) (line_start s) (unread s) of
             None \<Rightarrow> Inl Abort
           | Some (r, n) \<Rightarrow>
               let k = text_len r (unread s) n; text = take k (unread s);
                   s' = s\<lparr>unread := drop k (unread s), line_start := (if text = [] then line_start s else last text = 10)\<rparr>
               in obind (perform (action r) text s') (\<lambda>(t, s'').
                    case t of Some t \<Rightarrow> Inr (Some t, s'') | None \<Rightarrow> yylex fuel s''))"

section \<open>Longest matches\<close>

lemma foldl_max:
  fixes a :: nat
  shows "foldl max a xs \<in> insert a (set xs) \<and> (\<forall>x \<in> insert a (set xs). x \<le> foldl max a xs)"
proof (induction xs arbitrary: a)
  case (Cons x xs)
  note IH = Cons.IH [of "max a x"]
  then have "a \<le> foldl max (max a x) xs" "x \<le> foldl max (max a x) xs" by simp_all
  then show ?case using IH by (auto simp: max_def split: if_splits)
qed simp

lemma match_len_Some:
  "match_len p s = Some n \<longleftrightarrow>
     (\<exists>r \<in> set (ends p s). length s - length r = n) \<and> (\<forall>r \<in> set (ends p s). length s - length r \<le> n)"
proof (cases "ends p s")
  case (Cons r rs)
  have m: "foldl max (length s - length r) (map (\<lambda>r. length s - length r) rs) = n \<longleftrightarrow>
    n \<in> insert (length s - length r) (set (map (\<lambda>r. length s - length r) rs)) \<and>
    (\<forall>x \<in> insert (length s - length r) (set (map (\<lambda>r. length s - length r) rs)). x \<le> n)"
    using foldl_max [of "length s - length r" "map (\<lambda>r. length s - length r) rs"] by (metis le_antisym)
  show ?thesis unfolding match_len_def Cons using m by auto
qed (simp add: match_len_def)

lemma match_len_None: "match_len p s = None \<longleftrightarrow> ends p s = []"
  by (simp add: match_len_def split: list.split)

lemma leftovers_iff: "r \<in> set (leftovers c s) \<longleftrightarrow> (\<exists>k \<le> length (takeWhile c s). r = drop k s)"
proof (induction s)
  case (Cons b bs)
  have "(\<exists>k \<le> Suc m. r = drop k (b # bs)) \<longleftrightarrow> r = b # bs \<or> (\<exists>k \<le> m. r = drop k bs)" for m
    by (metis Suc_le_mono drop0 drop_Suc_Cons le0 not0_implies_Suc)
  with Cons show ?case by auto
qed simp

lemma best_rule_inactive:
  "best_rule rs c bol s = best_rule (filter (\<lambda>r. c \<in> set (starts r)) rs) c bol s"
  by (induction rs) (auto simp: rule_len_def split: option.split)

lemma best_rule_None: "best_rule rs c bol s = None \<longleftrightarrow> (\<forall>r \<in> set rs. rule_len r c bol s = None)"
  by (induction rs) (auto split: option.split)

lemma best_rule_bound:
  "best_rule rs c bol s = Some (r, n) \<Longrightarrow> r \<in> set rs \<and> rule_len r c bol s = Some n \<and> (\<forall>q \<in> set rs. \<forall>m. rule_len q c bol s = Some m \<longrightarrow> m \<le> n)"
proof (induction rs arbitrary: r n)
  case (Cons q rs)
  show ?case
  proof (cases "best_rule rs c bol s")
    case None
    then have "\<forall>q \<in> set rs. rule_len q c bol s = None" by (simp add: best_rule_None)
    then show ?thesis using Cons.prems None by (auto split: option.splits)
  next
    case (Some rn)
    then obtain r' n' where b: "best_rule rs c bol s = Some (r', n')" by (cases rn) auto
    from Cons.IH [OF b] Cons.prems b show ?thesis by (fastforce split: option.splits if_splits)
  qed
qed simp

lemma best_ruleI:
  assumes "rule_len r c bol s = Some n" "\<And>q m. q \<in> set pre \<Longrightarrow> rule_len q c bol s = Some m \<Longrightarrow> m < n"
    "\<And>q m. q \<in> set post \<Longrightarrow> rule_len q c bol s = Some m \<Longrightarrow> m \<le> n"
  shows "best_rule (pre @ r # post) c bol s = Some (r, n)"
  using assms(2)
proof (induction pre)
  case Nil
  show ?case
  proof (cases "best_rule post c bol s")
    case (Some rn)
    then obtain r' n' where b: "best_rule post c bol s = Some (r', n')" by (cases rn) auto
    with best_rule_bound [OF b] assms(3) have "n' \<le> n" by blast
    then show ?thesis using assms(1) b by simp
  qed (simp add: assms(1))
next
  case (Cons q pre)
  have "best_rule (pre @ r # post) c bol s = Some (r, n)" by (rule Cons.IH) (rule Cons.prems, simp_all)
  moreover have "m < n" if "rule_len q c bol s = Some m" for m by (rule Cons.prems [of q m]) (use that in simp_all)
  ultimately show ?case by (auto split: option.split)
qed

section \<open>First bytes\<close>

text \<open>Whether a match can be empty, and whether one that is not can start with a byte.\<close>

fun nullable :: "pattern \<Rightarrow> bool" where
  "nullable (Exactly k) \<longleftrightarrow> k = []"
| "nullable (Class c) \<longleftrightarrow> False"
| "nullable (Many c) \<longleftrightarrow> True"
| "nullable (Maybe p) \<longleftrightarrow> True"
| "nullable (Then p q) \<longleftrightarrow> nullable p \<and> nullable q"

fun first_of :: "pattern \<Rightarrow> byte \<Rightarrow> bool" where
  "first_of (Exactly k) b \<longleftrightarrow> k \<noteq> [] \<and> hd k = b"
| "first_of (Class c) b \<longleftrightarrow> c b"
| "first_of (Many c) b \<longleftrightarrow> c b"
| "first_of (Maybe p) b \<longleftrightarrow> first_of p b"
| "first_of (Then p q) b \<longleftrightarrow> first_of p b \<or> nullable p \<and> first_of q b"

lemma ends_length: "r \<in> set (ends p s) \<Longrightarrow> length r \<le> length s"
proof (induction p arbitrary: r s)
  case (Then p q)
  then show ?case by (force intro: order_trans)
qed (auto simp: leftovers_iff split: list.splits if_splits)

lemma ends_proper: "r \<in> set (ends p s) \<Longrightarrow> \<not> nullable p \<Longrightarrow> length r < length s"
proof (induction p arbitrary: r s)
  case (Exactly k)
  then show ?case by (cases k; cases s) (auto split: if_splits)
next
  case (Then p q)
  then obtain m where m: "m \<in> set (ends p s)" "r \<in> set (ends q m)" by auto
  note l = ends_length [OF m(1)] ends_length [OF m(2)]
  show ?case
  proof (cases "nullable p")
    case True
    then show ?thesis using Then.IH(2) [OF m(2)] Then.prems l by simp
  next
    case False
    then show ?thesis using Then.IH(1) [OF m(1)] l by simp
  qed
qed (auto split: list.splits if_splits)

lemma ends_first: "r \<in> set (ends p (b # t)) \<Longrightarrow> \<not> first_of p b \<Longrightarrow> r = b # t"
proof (induction p arbitrary: r)
  case (Exactly k)
  then show ?case by (cases k) (auto split: if_splits)
next
  case (Then p q)
  then obtain m where m: "m \<in> set (ends p (b # t))" "r \<in> set (ends q m)" by auto
  have "m = b # t" using Then.IH(1) [OF m(1)] Then.prems by simp
  moreover from this ends_proper [OF m(1)] have "nullable p" by blast
  ultimately show ?case using Then.IH(2) [of r] m Then.prems by simp
qed auto

definition rule_pattern :: "rule \<Rightarrow> pattern" where
  "rule_pattern r = (case trail r of None \<Rightarrow> head r | Some q \<Rightarrow> Then (head r) q)"

definition starts_rule :: "start_condition \<Rightarrow> byte \<Rightarrow> rule \<Rightarrow> bool" where
  "starts_rule c b r \<longleftrightarrow> c \<in> set (starts r) \<and> first_of (rule_pattern r) b"

lemma rule_len_first:
  assumes "rule_len r c bol (b # t) = Some n" "\<not> starts_rule c b r"
  shows "n = 0"
proof -
  from assms have "match_len (rule_pattern r) (b # t) = Some n" "\<not> first_of (rule_pattern r) b"
    by (auto simp: rule_len_def rule_pattern_def starts_rule_def split: if_splits)
  then show ?thesis using ends_first by (fastforce simp: match_len_Some)
qed

section \<open>Words\<close>

definition commands :: "(byte list \<times> int \<times> cmd_token) list" where
  "commands = map (\<lambda>(mnemonic, opcode, t). (bytes_of mnemonic, opcode, t)) instruction_set"

definition word_tok :: "byte list \<Rightarrow> token" where
  "word_tok w = (case map_of commands w of None \<Rightarrow> Tok_name w | Some (opcode, t) \<Rightarrow> Tok_command t opcode)"

lemma ident_evals:
  "ident_char 48" "ident_char 49" "ident_char 50" "ident_char 51" "ident_char 52" "ident_char 53"
  "ident_char 54" "ident_char 55" "ident_char 56" "ident_char 57" "ident_char 97" "ident_char 98"
  "ident_char 99" "ident_char 100" "ident_char 101" "ident_char 102" "ident_char 103" "ident_char 104"
  "ident_char 105" "ident_char 106" "ident_char 107" "ident_char 108" "ident_char 109" "ident_char 110"
  "ident_char 111" "ident_char 112" "ident_char 113" "ident_char 114" "ident_char 115" "ident_char 116"
  "ident_char 117" "ident_char 118" "ident_char 119" "ident_char 120" "ident_char 121" "ident_char 122"
  "ident_start 97" "ident_start 98" "ident_start 99" "ident_start 100" "ident_start 101" "ident_start 102"
  "ident_start 103" "ident_start 104" "ident_start 105" "ident_start 106" "ident_start 107" "ident_start 108"
  "ident_start 109" "ident_start 110" "ident_start 111" "ident_start 112" "ident_start 113" "ident_start 114"
  "ident_start 115" "ident_start 116" "ident_start 117" "ident_start 118" "ident_start 119" "ident_start 120"
  "ident_start 121" "ident_start 122"
  by code_simp+

lemma commands_ident: "list_all (\<lambda>(k, x). k \<noteq> [] \<and> ident_start (hd k) \<and> list_all ident_char k) commands"
  by (simp add: commands_def instruction_set_def direct_cmds_def indir_cmds_1_def indir_cmds_2_def fpu_cmds_def bytes_of_def ident_evals)

lemma ident_start_facts:
  assumes "ident_start b"
  shows "\<not> digit b" "\<not> octdigit b" "\<not> white b" "\<not> blank b" "ident_char b" "any b" "\<not> segment_char 46"
    "b \<notin> set ([39, 34, 47, 35, 46, 10, 48] @ map hd (map bytes_of operator_keys))"
proof -
  have "list_all (\<lambda>c. \<not> ident_start c) ([39, 34, 47, 35, 46, 10, 48] @ map hd (map bytes_of operator_keys))" by code_simp
  then show "b \<notin> set ([39, 34, 47, 35, 46, 10, 48] @ map hd (map bytes_of operator_keys))" "any b"
    using assms by (auto simp: list_all_iff any_def)
  show "\<not> digit b" "\<not> octdigit b" "\<not> white b" "\<not> blank b"
    using assms by (auto simp: ident_start_def letter_def digit_def octdigit_def white_def blank_def between_def among_def word_le_nat_alt)
  show "ident_char b" using assms by (auto simp: ident_start_def ident_char_def among_def)
  show "\<not> segment_char 46" by code_simp
qed

definition middle_rules :: "rule list" where
  "middle_rules = label_rules @ number_rules @ string_rules @ comment_rules @ linedir_rules @ directive_rules @ operator_rules"

lemma middle_starts: "ident_start b \<Longrightarrow> r \<in> set middle_rules \<Longrightarrow> \<not> starts_rule INITIAL b r"
proof -
  assume b: "ident_start b" and r: "r \<in> set middle_rules"
  note f = ident_start_facts [OF b]
  have "list_all (\<lambda>r. \<not> starts_rule INITIAL b r) middle_rules"
    using f unfolding middle_rules_def by (simp add: label_rules_def number_rules_def string_rules_def comment_rules_def linedir_rules_def linedir_rule_def
      directive_rules_def operator_rules_def starts_rule_def rule_pattern_def operator_keys_def bytes_of_def)
  then show ?thesis using r by (simp add: list_all_iff)
qed

lemma match_len_Exactly: "match_len (Exactly k) s = Some n \<longleftrightarrow> n = length k \<and> take (length k) s = k"
  by (cases "length s < length k") (auto simp: match_len_Some)

lemma take_prefix_class:
  assumes c: "\<forall>b \<in> set k. c b" and p: "take (length k) (w @ rest) = k" and r: "rest = [] \<or> \<not> c (hd rest)"
  shows "length k \<le> length w \<and> (length k = length w \<longrightarrow> k = w)"
proof (cases "length k \<le> length w")
  case False
  then obtain d where d: "length k - length w = Suc d" by (cases "length k - length w") auto
  with p have k: "k = w @ take (Suc d) rest" using False by simp
  show ?thesis
  proof (cases rest)
    case Nil
    with k False show ?thesis by simp
  next
    case (Cons x xs)
    with k have "x \<in> set k" by (metis UnCI list.set_intros(1) set_append take_Suc_Cons)
    with c r Cons show ?thesis by simp
  qed
qed (use p in auto)

lemma commands_chars: "(k, x) \<in> set commands \<Longrightarrow> b \<in> set k \<Longrightarrow> ident_char b"
  using commands_ident by (fastforce simp: list_all_iff)

lemma command_rule_len:
  assumes "(k, x) \<in> set commands" "rest = [] \<or> \<not> ident_char (hd rest)"
    "rule_len (plain (Exactly k) (Command t opcode)) INITIAL bol (w @ rest) = Some m"
  shows "m \<le> length w \<and> (m = length w \<longleftrightarrow> k = w)"
proof -
  have "\<forall>b \<in> set k. ident_char b" using commands_chars [OF assms(1)] by blast
  moreover from assms(3) have m: "m = length k" "take (length k) (w @ rest) = k" by (simp_all add: rule_len_def match_len_Exactly)
  ultimately have "length k \<le> length w \<and> (length k = length w \<longrightarrow> k = w)"
    using take_prefix_class [of k ident_char w rest] assms(2) by blast
  with m(1) show ?thesis by auto
qed

abbreviation ident_rule :: rule where
  "ident_rule \<equiv> plain (Then (Class ident_start) (Many ident_char)) Identifier"

lemma leftovers_drop: "set (leftovers c s) = (\<lambda>k. drop k s) ` {..length (takeWhile c s)}"
  by (auto simp: leftovers_iff)

lemma match_len_Many: "match_len (Many c) s = Some (length (takeWhile c s))"
  using length_takeWhile_le [of c s] by (auto simp: match_len_Some leftovers_drop)

lemma match_len_Class_Many: "c b \<Longrightarrow> match_len (Then (Class c) (Many d)) (b # s) = Some (Suc (length (takeWhile d s)))"
  using length_takeWhile_le [of d s] by (auto simp: match_len_Some leftovers_drop Suc_diff_le)

lemma takeWhile_stop: "\<forall>b \<in> set w. c b \<Longrightarrow> rest = [] \<or> \<not> c (hd rest) \<Longrightarrow> takeWhile c (w @ rest) = w"
  by (cases rest) (auto simp: takeWhile_append)

lemma ident_rule_len:
  assumes "ident_start b" "\<forall>b \<in> set w. ident_char b" "rest = [] \<or> \<not> ident_char (hd rest)"
  shows "rule_len ident_rule INITIAL bol (b # w @ rest) = Some (Suc (length w))"
  using assms(1) takeWhile_stop [OF assms(2,3)] by (simp add: rule_len_def match_len_Class_Many)

lemma command_rules_commands: "command_rules = map (\<lambda>(k, opcode, t). plain (Exactly k) (Command t opcode)) commands"
  by (simp add: command_rules_def commands_def case_prod_unfold)

lemma rules_words: "rules = command_rules @ middle_rules @ ident_rule # [plain (Class any) Unexpected, default_rule]"
  by (simp add: rules_def middle_rules_def last_rules_def)

lemma one_byte_len: "match_len (Class c) (b # s) = Some m \<Longrightarrow> m \<le> Suc n"
  by (auto simp: match_len_def split: if_splits)

lemma split_list_first_key:
  "map_of xs k = Some x \<Longrightarrow> \<exists>pre post. xs = pre @ (k, x) # post \<and> (\<forall>(j, y) \<in> set pre. j \<noteq> k)"
proof (induction xs)
  case (Cons p xs)
  show ?case
  proof (cases "fst p = k")
    case True
    with Cons.prems show ?thesis by (intro exI [of _ "[]"] exI [of _ xs]) (cases p, simp)
  next
    case False
    with Cons obtain pre post where "xs = pre @ (k, x) # post" "\<forall>(j, y) \<in> set pre. j \<noteq> k" by (cases p) auto
    with False show ?thesis by (intro exI [of _ "p # pre"] exI [of _ post]) (cases p, simp)
  qed
qed simp

lemma word_best:
  assumes b: "ident_start b" and w: "\<forall>b \<in> set w. ident_char b" and rest: "rest = [] \<or> \<not> ident_char (hd rest)"
  shows "\<exists>r. best_rule rules INITIAL bol (b # w @ rest) = Some (r, Suc (length w)) \<and> trail r = None \<and>
    (\<forall>s. perform (action r) (b # w) s = give (word_tok (b # w), s))"
proof -
  have mid: "m = 0" if "r \<in> set middle_rules" "rule_len r INITIAL bol (b # w @ rest) = Some m" for r m
    using rule_len_first [OF that(2)] middle_starts [OF b that(1)] by simp
  have last: "m \<le> Suc (length w)" if "r \<in> set [ident_rule, plain (Class any) Unexpected, default_rule]" "rule_len r INITIAL bol (b # w @ rest) = Some m" for r m
    using that ident_rule_len [OF b w rest, of bol] by (auto simp: rule_len_def default_rule_def intro: one_byte_len split: if_splits)
  have com: "m \<le> Suc (length w) \<and> (m = Suc (length w) \<longleftrightarrow> k = b # w)"
    if "(k, x) \<in> set commands" "rule_len (plain (Exactly k) (Command (snd x) (fst x))) INITIAL bol (b # w @ rest) = Some m" for k x m
    using command_rule_len [OF that(1) rest, of "snd x" "fst x" bol "b # w" m] that(2) by simp
  show ?thesis
  proof (cases "map_of commands (b # w)")
    case None
    then have no: "k \<noteq> b # w" if "(k, x) \<in> set commands" for k x using that by (auto simp: map_of_eq_None_iff image_iff)
    have "best_rule ((command_rules @ middle_rules) @ ident_rule # [plain (Class any) Unexpected, default_rule]) INITIAL bol (b # w @ rest)
      = Some (ident_rule, Suc (length w))"
    proof (rule best_ruleI, rule ident_rule_len [OF b w rest], goal_cases)
      case (1 q m)
      then consider (c) k x where "(k, x) \<in> set commands" "q = plain (Exactly k) (Command (snd x) (fst x))" | (m) "q \<in> set middle_rules"
        by (auto simp: command_rules_commands)
      then show ?case
      proof cases
        case (c k x)
        from com [OF c(1) 1(2) [unfolded c(2)]] no [OF c(1)] show ?thesis by (simp add: order.strict_iff_order)
      qed (use mid [OF _ 1(2)] in simp)
    next
      case (2 q m)
      then show ?case by (intro last [of q]) auto
    qed
    then show ?thesis using None by (intro exI [of _ ident_rule]) (simp add: rules_words perform_def word_tok_def)
  next
    case (Some x)
    then have "(b # w, x) \<in> set commands" by (rule map_of_SomeD)
    with split_list_first_key [OF Some] obtain pre post where c: "commands = pre @ (b # w, x) # post" "\<forall>(k, y) \<in> set pre. k \<noteq> b # w"
      by blast
    let ?r = "plain (Exactly (b # w)) (Command (snd x) (fst x))" and ?rule = "\<lambda>(k, opcode, t). plain (Exactly k) (Command t opcode)"
    have sub: "set post \<subseteq> set commands" unfolding c(1) by auto
    have len: "rule_len ?r INITIAL bol (b # w @ rest) = Some (Suc (length w))"
      by (simp add: rule_len_def match_len_Exactly)
    have rules: "rules = map ?rule pre @ ?r # (map ?rule post @ middle_rules @ ident_rule # [plain (Class any) Unexpected, default_rule])"
      by (cases x) (simp add: rules_words command_rules_commands c(1))
    have "best_rule rules INITIAL bol (b # w @ rest) = Some (?r, Suc (length w))"
      unfolding rules
    proof (rule best_ruleI [OF len], goal_cases)
      case (1 q m)
      then obtain k y where k: "(k, y) \<in> set pre" "q = plain (Exactly k) (Command (snd y) (fst y))" by auto
      have "(k, y) \<in> set commands" unfolding c(1) using k(1) by simp
      from com [OF this 1(2) [unfolded k(2)]] bspec [OF c(2) k(1)] show ?case by (simp add: order.strict_iff_order)
    next
      case (2 q m)
      then consider k y where "(k, y) \<in> set commands" "q = plain (Exactly k) (Command (snd y) (fst y))"
        | "q \<in> set middle_rules" | "q \<in> set [ident_rule, plain (Class any) Unexpected, default_rule]"
        using sub by auto
      then show ?case
      proof cases
        case (1 k y)
        from com [OF 1(1) 2(2) [unfolded 1(2)]] show ?thesis by simp
      qed (use mid [OF _ 2(2)] last [OF _ 2(2)] in auto)
    qed
    then show ?thesis using Some by (intro exI [of _ ?r]) (cases x, simp add: perform_def word_tok_def)
  qed
qed

section \<open>Progress\<close>

lemma rules_heads: "r \<in> set rules \<Longrightarrow> trail r \<noteq> None \<Longrightarrow> \<exists>c. head r = Class c \<or> (\<exists>x. head r = Exactly [x])"
  by (auto simp: rules_def command_rules_def label_rules_def number_rules_def string_rules_def comment_rules_def linedir_rules_def
      linedir_rule_def directive_rules_def operator_rules_def last_rules_def default_rule_def)

lemma best_rule_rules:
  assumes "s \<noteq> []"
  shows "\<exists>r n. best_rule rules c bol s = Some (r, n) \<and> 0 < text_len r s n"
proof -
  obtain b t where s: "s = b # t" using assms by (cases s) auto
  have "c \<in> set (starts default_rule)" by (cases c) (simp_all add: default_rule_def)
  then have d: "rule_len default_rule c bol s = Some 1" "default_rule \<in> set rules"
    by (simp_all add: rule_len_def default_rule_def s match_len_def rules_def)
  then have "best_rule rules c bol s \<noteq> None" by (metis best_rule_None option.distinct(1))
  then obtain r n where r: "best_rule rules c bol s = Some (r, n)" by fastforce
  from best_rule_bound [OF this] d have b: "r \<in> set rules" "rule_len r c bol s = Some n" "1 \<le> n" by auto
  have "0 < text_len r s n"
  proof (cases "trail r")
    case None
    with b(3) show ?thesis by (simp add: text_len_def)
  next
    case (Some q)
    from b(2) have "match_len (Then (head r) q) s = Some n" by (auto simp: rule_len_def Some split: if_splits)
    then have "ends (head r) s \<noteq> []" by (auto simp: match_len_Some)
    moreover from rules_heads [OF b(1)] Some have "\<not> nullable (head r)" by auto
    then have "\<forall>z \<in> set (ends (head r) s). length z < length s" using ends_proper by blast
    ultimately show ?thesis by (cases "ends (head r) s") (simp_all add: text_len_def Some)
  qed
  with r show ?thesis by blast
qed

text \<open>An outcome that leaves no more than \<open>n\<close> bytes, if it is not a trap.\<close>

definition leaves :: "nat \<Rightarrow> ('a \<times> scanner) outcome \<Rightarrow> bool" where
  "leaves n m \<longleftrightarrow> (case m of Inl e \<Rightarrow> e = Trap | Inr (t, s) \<Rightarrow> length (unread s) \<le> n)"

lemma leaves_keep_on:
  "leaves n (keep_on (Inr s)) \<longleftrightarrow> length (unread s) \<le> n"
  "leaves n (keep_on (Inl e)) \<longleftrightarrow> e = Trap"
  by (simp_all add: leaves_def keep_on_def)

lemma leaves_give: "leaves n (give r) \<longleftrightarrow> length (unread (snd r)) \<le> n"
  by (simp add: leaves_def give_def)

lemma leaves_add_string: "leaves (length (unread s)) (keep_on (add_string bs s))"
  by (simp add: add_string_def mk_string_space_def Let_def leaves_keep_on)

lemma leaves_skip_line:
  assumes "\<And>t. length (unread (f t)) \<le> Suc (length (unread t))"
  shows "leaves (length (unread s)) (keep_on (obind (skip_line s) (\<lambda>s. Inr (f s))))"
proof (cases "dropWhile any (unread s)")
  case (Cons b bs)
  have "length bs < length (unread s)" using length_dropWhile_le [of any "unread s"] by (simp add: Cons)
  with assms [of "s\<lparr>unread := bs, line_start := True\<rparr>"] show ?thesis by (simp add: skip_line_def Cons leaves_keep_on)
next
  case Nil
  then have "skip_line s = Inl Trap" unfolding skip_line_def by (simp only: list.case)
  then show ?thesis by (simp add: leaves_keep_on)
qed

lemma unread_number: "unread (snd (number_token b ds s)) = unread s"
  by (simp add: number_token_def strtoul_digits_def)

lemma perform_leaves: "leaves (length (unread s)) (perform a text s)"
  by (cases a) (simp_all add: perform_def leaves_keep_on leaves_give leaves_add_string unread_number unput_def Let_def
      leaves_skip_line [of "\<lambda>s. s\<lparr>unread := 10 # unread s\<rparr>"] leaves_skip_line [of "\<lambda>s. s\<lparr>unread := 10 # unread s, condition := INITIAL\<rparr>"]
      leaves_skip_line [of "\<lambda>s. s\<lparr>condition := INITIAL\<rparr>"])

text \<open>The rest of a source without quotes, whose last line is ended.\<close>

definition unquoted :: "scanner \<Rightarrow> bool" where
  "unquoted s \<longleftrightarrow> 34 \<notin> set (unread s) \<and> condition s \<noteq> STRING \<and> (unread s = [] \<or> last (unread s) = 10)"

fun bytes_in :: "pattern \<Rightarrow> byte \<Rightarrow> bool" where
  "bytes_in (Exactly k) b \<longleftrightarrow> b \<in> set k"
| "bytes_in (Class c) b \<longleftrightarrow> c b"
| "bytes_in (Many c) b \<longleftrightarrow> c b"
| "bytes_in (Maybe p) b \<longleftrightarrow> bytes_in p b"
| "bytes_in (Then p q) b \<longleftrightarrow> bytes_in p b \<or> bytes_in q b"

lemma ends_bytes: "r \<in> set (ends p s) \<Longrightarrow> \<exists>u. s = u @ r \<and> (\<forall>b \<in> set u. bytes_in p b)"
proof (induction p arbitrary: r s)
  case (Exactly k)
  then have "take (length k) s = k" "r = drop (length k) s" by (simp_all split: if_splits)
  then have "s = k @ r" by (metis append_take_drop_id)
  then show ?case by auto
next
  case (Class c)
  then obtain b where "s = b # r" "c b" by (cases s) (auto split: if_splits)
  then show ?case by (intro exI [of _ "[b]"]) simp
next
  case (Many c)
  then obtain k where k: "k \<le> length (takeWhile c s)" "r = drop k s" by (auto simp: leftovers_iff)
  have "take k (xs @ ys) = take k xs" if "k \<le> length xs" for xs ys :: "byte list" using that by simp
  from this [OF k(1), of "dropWhile c s"] have "take k s = take k (takeWhile c s)" by simp
  then have "\<forall>b \<in> set (take k s). c b" by (auto dest!: in_set_takeD dest: set_takeWhileD)
  with k(2) show ?case by (intro exI [of _ "take k s"]) simp
next
  case (Maybe p)
  then show ?case using Maybe.IH [of r s] by (auto intro: exI [of _ "[]"])
next
  case (Then p q)
  then obtain m where m: "m \<in> set (ends p s)" "r \<in> set (ends q m)" by auto
  from Then.IH(1) [OF m(1)] Then.IH(2) [OF m(2)] obtain u v where "s = u @ m" "m = v @ r"
    "\<forall>b \<in> set u. bytes_in p b" "\<forall>b \<in> set v. bytes_in q b" by blast
  then show ?case by (intro exI [of _ "u @ v"]) auto
qed

text \<open>The text of a rule without trailing context.\<close>

lemma text_bytes:
  assumes "best_rule rules c bol s = Some (r, n)" "trail r = None"
  shows "take (text_len r s n) s \<in> {u. \<forall>b \<in> set u. bytes_in (head r) b}" "take (text_len r s n) s @ drop (text_len r s n) s = s"
    "drop (text_len r s n) s \<in> set (ends (head r) s)"
proof -
  from best_rule_bound [OF assms(1)] have "rule_len r c bol s = Some n" by blast
  with assms(2) have "match_len (head r) s = Some n" by (auto simp: rule_len_def split: if_splits)
  then obtain z where z: "z \<in> set (ends (head r) s)" "length s - length z = n" by (auto simp: match_len_Some)
  from ends_bytes [OF z(1)] obtain u where u: "s = u @ z" "\<forall>b \<in> set u. bytes_in (head r) b" by blast
  with z(2) have "text_len r s n = length u" by (simp add: text_len_def assms(2))
  with u z show "take (text_len r s n) s \<in> {u. \<forall>b \<in> set u. bytes_in (head r) b}" "drop (text_len r s n) s \<in> set (ends (head r) s)" by simp_all
qed simp

text \<open>The rules that leave the source unquoted and never run beyond the end of its last line.\<close>

definition skips_line :: "action \<Rightarrow> bool" where
  "skips_line a \<longleftrightarrow> a \<in> {Line_comment, Unknown_directive}"

definition string_action :: "action \<Rightarrow> bool" where
  "string_action a \<longleftrightarrow> a \<in> {End_string, String_text, String_octal, String_hex, String_escape}"

lemma rules_kinds:
  assumes "r \<in> set rules"
  shows "string_action (action r) \<longrightarrow> starts r = [STRING]"
    "action r = Begin_string \<longrightarrow> head r = Exactly [34] \<and> trail r = None"
    "action r = File_name \<longrightarrow> head r = quoted \<and> trail r = None"
    "skips_line (action r) \<longrightarrow> trail r = None \<and> \<not> bytes_in (head r) 10"
  using assms
  by (auto simp: rules_def command_rules_def label_rules_def number_rules_def string_rules_def comment_rules_def linedir_rules_def
      linedir_rule_def directive_rules_def operator_rules_def last_rules_def default_rule_def string_action_def skips_line_def any_def)

lemma perform_unquoted:
  assumes "\<not> string_action a" "a \<noteq> Begin_string" "a \<noteq> File_name" "unquoted s" "skips_line a \<longrightarrow> unread s \<noteq> []"
  shows "case perform a text s of Inl e \<Rightarrow> False | Inr (t, s') \<Rightarrow> unquoted s'"
proof -
  have num: "condition (snd (number_token b ds s)) = condition s" "unread (snd (number_token b ds s)) = unread s" for b ds
    by (simp_all add: number_token_def strtoul_digits_def)
  have skip: "\<exists>bs. skip_line s = Inr (s\<lparr>unread := bs, line_start := True\<rparr>) \<and> 34 \<notin> set bs \<and> (bs = [] \<or> last bs = 10)"
    if "unread s \<noteq> []"
  proof -
    from that assms(4) have "10 \<in> set (unread s)" "34 \<notin> set (unread s)" and l: "last (unread s) = 10"
      using last_in_set [of "unread s"] by (auto simp: unquoted_def)
    then have "dropWhile any (unread s) \<noteq> []" by (auto simp: any_def)
    then obtain b bs where d: "dropWhile any (unread s) = b # bs" by (cases "dropWhile any (unread s)") auto
    then have split: "unread s = takeWhile any (unread s) @ b # bs" by (metis takeWhile_dropWhile_id)
    then have "34 \<notin> set bs" "bs = [] \<or> last bs = 10"
      using \<open>34 \<notin> set (unread s)\<close> l by (metis Un_iff list.set_intros(2) set_append, metis last_ConsR last_appendR list.distinct(1))
    with d show ?thesis by (intro exI [of _ bs]) (simp add: skip_line_def)
  qed
  show ?thesis
    using assms skip
    by (cases a) (auto simp: perform_def give_def keep_on_def unquoted_def string_action_def skips_line_def num unput_def Let_def)
qed

text \<open>One round of the scanner.\<close>

definition after_text :: "nat \<Rightarrow> scanner \<Rightarrow> scanner" where
  "after_text k s = s\<lparr>unread := drop k (unread s), line_start := (if take k (unread s) = [] then line_start s else last (take k (unread s)) = 10)\<rparr>"

lemma yylex_step:
  assumes "best_rule rules (condition s) (line_start s) (unread s) = Some (r, n)" "unread s \<noteq> []"
  shows "yylex (Suc fuel) s = obind (perform (action r) (take (text_len r (unread s) n) (unread s)) (after_text (text_len r (unread s) n) s))
    (\<lambda>(t, s'). case t of Some t \<Rightarrow> Inr (Some t, s') | None \<Rightarrow> yylex fuel s')"
  using assms by (simp add: after_text_def Let_def)

lemma unquoted_step:
  assumes b: "best_rule rules (condition s) (line_start s) (unread s) = Some (r, n)" and u: "unquoted s" and ne: "unread s \<noteq> []"
  defines "k \<equiv> text_len r (unread s) n"
  shows "case perform (action r) (take k (unread s)) (after_text k s) of Inl e \<Rightarrow> False | Inr (t, s') \<Rightarrow> unquoted s'"
proof -
  note r = best_rule_bound [OF b]
  then have st: "r \<in> set rules" "condition s \<in> set (starts r)" by (auto simp: rule_len_def split: if_splits)
  note kinds = rules_kinds [OF st(1)]
  have noq: "34 \<notin> set (unread s)" "condition s \<noteq> STRING" using u by (simp_all add: unquoted_def)
  have "\<not> string_action (action r)" using kinds(1) st(2) noq(2) by auto
  moreover have "action r \<noteq> Begin_string"
  proof
    assume "action r = Begin_string"
    with kinds(2) text_bytes [OF b] have "drop k (unread s) \<in> set (ends (Exactly [34]) (unread s))" by (simp add: k_def)
    with noq(1) show False by (cases "unread s") (auto split: if_splits)
  qed
  moreover have "action r \<noteq> File_name"
  proof
    assume "action r = File_name"
    with kinds(3) text_bytes [OF b] have "drop k (unread s) \<in> set (ends quoted (unread s))" by (simp add: k_def)
    with noq(1) show False by (cases "unread s") (auto split: if_splits)
  qed
  moreover have "unquoted (after_text k s)"
    using u set_drop_subset [of k "unread s"] by (cases "k < length (unread s)") (auto simp: unquoted_def after_text_def last_drop)
  moreover have "skips_line (action r) \<longrightarrow> unread (after_text k s) \<noteq> []"
  proof
    assume "skips_line (action r)"
    with kinds(4) have t: "trail r = None" "\<not> bytes_in (head r) 10" by simp_all
    with text_bytes(1) [OF b] have "10 \<notin> set (take k (unread s))" by (auto simp: k_def)
    show "unread (after_text k s) \<noteq> []"
    proof
      assume "unread (after_text k s) = []"
      then have "take k (unread s) = unread s" by (simp add: after_text_def)
      moreover have "10 \<in> set (unread s)" using u last_in_set [OF ne] ne by (auto simp: unquoted_def)
      ultimately show False using \<open>10 \<notin> set (take k (unread s))\<close> by simp
    qed
  qed
  ultimately show ?thesis by (rule perform_unquoted)
qed

section \<open>Properties\<close>



text \<open>
  C40: The scanner knows the instruction set: a word, which starts with a letter, \<open>_\<close>, \<open>$\<close> or \<open>@\<close> and goes on to the next
  byte no word can hold, is the command of the first line of the instruction set with this mnemonic, and a name
  when there is none.
\<close>

theorem yylex_word:
  assumes "unread s = b # w @ rest" "condition s = INITIAL" "ident_start b" "\<forall>b \<in> set w. ident_char b"
    "rest = [] \<or> \<not> ident_char (hd rest)"
  shows "yylex (Suc fuel) s =
    Inr (Some (case map_of commands (b # w) of None \<Rightarrow> Tok_name (b # w) | Some (opcode, t) \<Rightarrow> Tok_command t opcode),
      s\<lparr>unread := rest, line_start := False\<rparr>)"
proof -
  from word_best [OF assms(3-5), of "line_start s"] obtain r where r: "best_rule rules INITIAL (line_start s) (b # w @ rest) = Some (r, Suc (length w))"
    "trail r = None" "\<And>s. perform (action r) (b # w) s = give (word_tok (b # w), s)" by blast
  have "\<not> ident_char 10" by code_simp
  moreover have "\<forall>x \<in> set (b # w). ident_char x" using ident_start_facts(5) [OF assms(3)] assms(4) by simp
  moreover have "last (b # w) \<in> set (b # w)" by (rule last_in_set) simp
  ultimately have "last (b # w) \<noteq> 10" by metis
  with r show ?thesis
    using yylex_step [of s r "Suc (length w)" fuel] assms(1,2)
    by (simp add: text_len_def after_text_def give_def word_tok_def del: yylex.simps)
qed

theorem yylex_word_witness:
  "yylex 1 (scanner_init [108, 100, 99, 32, 49]) = Inr (Some (Tok_command Cmd_direct 0x40), (scanner_init [32, 49])\<lparr>line_start := False\<rparr>) \<and>
   yylex 1 (scanner_init [108, 100, 99, 120, 32, 49]) = Inr (Some (Tok_name [108, 100, 99, 120]), (scanner_init [32, 49])\<lparr>line_start := False\<rparr>)"
proof -
  have c: "map_of commands [108, 100, 99] = Some (0x40, Cmd_direct)" "map_of commands [108, 100, 99, 120] = None"
    by (simp_all add: commands_def instruction_set_def direct_cmds_def indir_cmds_1_def indir_cmds_2_def fpu_cmds_def bytes_of_def)
  have i: "ident_start 108" "ident_char 100" "ident_char 99" "ident_char 120" "\<not> ident_char 32" by code_simp+
  show ?thesis
    using yylex_word [of "scanner_init [108, 100, 99, 32, 49]" 108 "[100, 99]" "[32, 49]" 0]
      yylex_word [of "scanner_init [108, 100, 99, 120, 32, 49]" 108 "[100, 99, 120]" "[32, 49]" 0] c i
    by (simp add: scanner_init_def del: yylex.simps)
qed

end
